(* ===== verification/Chain_Prelude.thy ===== *)
theory Chain_Prelude
  imports Main "HOL-Library.Word" "HOL-Library.Monad_Syntax"
begin

text \<open>
  Shared vocabulary of the development: the machine integer types, the exception values
  the chain library raises through \<^verbatim>\<open>EOS_ASSERT\<close>, the result type every fallible operation
  returns, and the generic lemmas on results, lists and unsigned arithmetic that the component
  theories use.

  Conventions. A C++ function that may throw is a function into \<open>'a result\<close>, the left
  summand being the exception; a thrown exception aborts the enclosing database session, so the
  state an operation had reached when it threw is not part of its result. Unsigned 64 and 128 bit
  quantities on which the code does arithmetic are natural numbers with the reduction written
  out (\<open>add64\<close>, \<open>mul128\<close>, ...); quantities on which it does bit operations are words.
\<close>

unbundle bit_operations_syntax

section \<open>Integer types\<close>

type_synonym u8 = "8 word"
type_synonym u16 = "16 word"
type_synonym u32 = "32 word"
type_synonym u64 = "64 word"

definition u32_max :: nat where
  "u32_max = 2 ^ 32 - 1"

definition u64_max :: nat where
  "u64_max = 2 ^ 64 - 1"

definition i64_max :: nat where
  "i64_max = 2 ^ 63 - 1"

text \<open>Addition, subtraction and multiplication of unsigned C++ integers kept as naturals.\<close>

definition add64 :: "nat \<Rightarrow> nat \<Rightarrow> nat" where
  "add64 a b = (a + b) mod 2 ^ 64"

definition sub64 :: "nat \<Rightarrow> nat \<Rightarrow> nat" where
  "sub64 a b = (a + (2 ^ 64 - b mod 2 ^ 64)) mod 2 ^ 64"

definition add32 :: "nat \<Rightarrow> nat \<Rightarrow> nat" where
  "add32 a b = (a + b) mod 2 ^ 32"

definition sub32 :: "nat \<Rightarrow> nat \<Rightarrow> nat" where
  "sub32 a b = (a + (2 ^ 32 - b mod 2 ^ 32)) mod 2 ^ 32"

definition mul64 :: "nat \<Rightarrow> nat \<Rightarrow> nat" where
  "mul64 a b = (a * b) mod 2 ^ 64"

definition mul128 :: "nat \<Rightarrow> nat \<Rightarrow> nat" where
  "mul128 a b = (a * b) mod 2 ^ 128"

text \<open>A signed 64 bit result of arithmetic on mathematical integers (two's complement).\<close>

definition wrap_i64 :: "int \<Rightarrow> int" where
  "wrap_i64 x = (x + 2 ^ 63) mod 2 ^ 64 - 2 ^ 63"

definition is_i64 :: "int \<Rightarrow> bool" where
  "is_i64 x \<longleftrightarrow> - (2 ^ 63) \<le> x \<and> x < 2 ^ 63"

text \<open>Division of signed C++ integers truncates towards zero.\<close>

definition tdiv :: "int \<Rightarrow> int \<Rightarrow> int" where
  "tdiv a b = sgn a * sgn b * (\<bar>a\<bar> div \<bar>b\<bar>)"

section \<open>Exceptions and results\<close>

text \<open>
  The exception classes of \<^verbatim>\<open>exceptions.hpp\<close> (and of the library) that modelled code throws, in
  groups as there. \<open>fuel_exhausted\<close> and \<open>undefined_behaviour\<close> are no exceptions of the code: they mark a
  loop cut off by its fuel and an operation the language leaves undefined.
\<close>

datatype type_error =
    Name_type_exception
  | Symbol_type_exception
  | Asset_type_exception
  | Overflow_exception
  | Parse_error_exception
  | Action_type_exception
  | Permission_query_exception
  | Unactivated_key_type
  | Sig_variable_size_limit_exception
  | Action_validate_exception

datatype database_error =
    Db_not_found
  | Db_not_unique
  | Database_exception
  | Rate_limiting_state_inconsistent
  | Resource_limit_exception
  | Tx_cpu_usage_exceeded
  | Tx_net_usage_exceeded
  | Block_resource_exhausted
  | Ram_usage_exceeded
  | Table_not_in_cache
  | Invalid_table_iterator
  | Table_operation_not_permitted
  | Table_access_violation
  | Invalid_table_payer
  | Snapshot_exception

datatype block_error =
    Block_validate_exception
  | Unlinkable_block_exception
  | Producer_double_confirm
  | Wrong_producer
  | Producer_schedule_exception
  | Wrong_signing_key
  | No_block_signatures
  | Invalid_block_header_extension
  | Ill_formed_protocol_feature_activation
  | Invalid_block_extension
  | Ill_formed_additional_block_signatures_extension
  | Subjective_block_production_exception

datatype chain_error =
    Fork_database_exception
  | Fork_db_block_not_found
  | Protocol_feature_exception
  | Protocol_feature_validation_exception
  | Protocol_feature_iterator_exception
  | Protocol_feature_bad_block_exception

datatype transaction_error =
    Transaction_exception
  | Invalid_transaction_extension
  | Ill_formed_deferred_transaction_generation_context
  | Tx_duplicate_sig
  | Tx_too_big
  | Tx_decompression_error
  | Unknown_transaction_compression
  | Tx_not_found
  | Tx_irrelevant_sig
  | Invalid_permission
  | Unlinkable_min_permission_action
  | Irrelevant_auth_exception
  | Unsatisfied_authorization
  | Missing_auth_exception

datatype chain_exception =
    Type_error type_error
  | Database_error database_error
  | Block_error block_error
  | Chain_error chain_error
  | Transaction_error transaction_error
  | misc_exception
  | fc_assert_exception
  | unhandled_exception
  | fuel_exhausted
  | undefined_behaviour

text \<open>Chain types, keys and names.\<close>

abbreviation name_type_exception :: chain_exception where
  "name_type_exception \<equiv> Type_error Name_type_exception"

abbreviation symbol_type_exception :: chain_exception where
  "symbol_type_exception \<equiv> Type_error Symbol_type_exception"

abbreviation asset_type_exception :: chain_exception where
  "asset_type_exception \<equiv> Type_error Asset_type_exception"

abbreviation overflow_exception :: chain_exception where
  "overflow_exception \<equiv> Type_error Overflow_exception"

abbreviation parse_error_exception :: chain_exception where
  "parse_error_exception \<equiv> Type_error Parse_error_exception"

abbreviation action_type_exception :: chain_exception where
  "action_type_exception \<equiv> Type_error Action_type_exception"

abbreviation permission_query_exception :: chain_exception where
  "permission_query_exception \<equiv> Type_error Permission_query_exception"

abbreviation unactivated_key_type :: chain_exception where
  "unactivated_key_type \<equiv> Type_error Unactivated_key_type"

abbreviation sig_variable_size_limit_exception :: chain_exception where
  "sig_variable_size_limit_exception \<equiv> Type_error Sig_variable_size_limit_exception"

abbreviation action_validate_exception :: chain_exception where
  "action_validate_exception \<equiv> Type_error Action_validate_exception"

text \<open>The database, resource limits and contract tables.\<close>

abbreviation db_not_found :: chain_exception where
  "db_not_found \<equiv> Database_error Db_not_found"

abbreviation db_not_unique :: chain_exception where
  "db_not_unique \<equiv> Database_error Db_not_unique"

abbreviation database_exception :: chain_exception where
  "database_exception \<equiv> Database_error Database_exception"

abbreviation rate_limiting_state_inconsistent :: chain_exception where
  "rate_limiting_state_inconsistent \<equiv> Database_error Rate_limiting_state_inconsistent"

abbreviation resource_limit_exception :: chain_exception where
  "resource_limit_exception \<equiv> Database_error Resource_limit_exception"

abbreviation tx_cpu_usage_exceeded :: chain_exception where
  "tx_cpu_usage_exceeded \<equiv> Database_error Tx_cpu_usage_exceeded"

abbreviation tx_net_usage_exceeded :: chain_exception where
  "tx_net_usage_exceeded \<equiv> Database_error Tx_net_usage_exceeded"

abbreviation block_resource_exhausted :: chain_exception where
  "block_resource_exhausted \<equiv> Database_error Block_resource_exhausted"

abbreviation ram_usage_exceeded :: chain_exception where
  "ram_usage_exceeded \<equiv> Database_error Ram_usage_exceeded"

abbreviation table_not_in_cache :: chain_exception where
  "table_not_in_cache \<equiv> Database_error Table_not_in_cache"

abbreviation invalid_table_iterator :: chain_exception where
  "invalid_table_iterator \<equiv> Database_error Invalid_table_iterator"

abbreviation table_operation_not_permitted :: chain_exception where
  "table_operation_not_permitted \<equiv> Database_error Table_operation_not_permitted"

abbreviation table_access_violation :: chain_exception where
  "table_access_violation \<equiv> Database_error Table_access_violation"

abbreviation invalid_table_payer :: chain_exception where
  "invalid_table_payer \<equiv> Database_error Invalid_table_payer"

abbreviation snapshot_exception :: chain_exception where
  "snapshot_exception \<equiv> Database_error Snapshot_exception"

text \<open>Blocks and their headers.\<close>

abbreviation block_validate_exception :: chain_exception where
  "block_validate_exception \<equiv> Block_error Block_validate_exception"

abbreviation unlinkable_block_exception :: chain_exception where
  "unlinkable_block_exception \<equiv> Block_error Unlinkable_block_exception"

abbreviation producer_double_confirm :: chain_exception where
  "producer_double_confirm \<equiv> Block_error Producer_double_confirm"

abbreviation wrong_producer :: chain_exception where
  "wrong_producer \<equiv> Block_error Wrong_producer"

abbreviation producer_schedule_exception :: chain_exception where
  "producer_schedule_exception \<equiv> Block_error Producer_schedule_exception"

abbreviation wrong_signing_key :: chain_exception where
  "wrong_signing_key \<equiv> Block_error Wrong_signing_key"

abbreviation no_block_signatures :: chain_exception where
  "no_block_signatures \<equiv> Block_error No_block_signatures"

abbreviation invalid_block_header_extension :: chain_exception where
  "invalid_block_header_extension \<equiv> Block_error Invalid_block_header_extension"

abbreviation ill_formed_protocol_feature_activation :: chain_exception where
  "ill_formed_protocol_feature_activation \<equiv> Block_error Ill_formed_protocol_feature_activation"

abbreviation invalid_block_extension :: chain_exception where
  "invalid_block_extension \<equiv> Block_error Invalid_block_extension"

abbreviation ill_formed_additional_block_signatures_extension :: chain_exception where
  "ill_formed_additional_block_signatures_extension \<equiv> Block_error Ill_formed_additional_block_signatures_extension"

abbreviation subjective_block_production_exception :: chain_exception where
  "subjective_block_production_exception \<equiv> Block_error Subjective_block_production_exception"

text \<open>The fork database and protocol features.\<close>

abbreviation fork_database_exception :: chain_exception where
  "fork_database_exception \<equiv> Chain_error Fork_database_exception"

abbreviation fork_db_block_not_found :: chain_exception where
  "fork_db_block_not_found \<equiv> Chain_error Fork_db_block_not_found"

abbreviation protocol_feature_exception :: chain_exception where
  "protocol_feature_exception \<equiv> Chain_error Protocol_feature_exception"

abbreviation protocol_feature_validation_exception :: chain_exception where
  "protocol_feature_validation_exception \<equiv> Chain_error Protocol_feature_validation_exception"

abbreviation protocol_feature_iterator_exception :: chain_exception where
  "protocol_feature_iterator_exception \<equiv> Chain_error Protocol_feature_iterator_exception"

abbreviation protocol_feature_bad_block_exception :: chain_exception where
  "protocol_feature_bad_block_exception \<equiv> Chain_error Protocol_feature_bad_block_exception"

text \<open>Transactions and authorization.\<close>

abbreviation transaction_exception :: chain_exception where
  "transaction_exception \<equiv> Transaction_error Transaction_exception"

abbreviation invalid_transaction_extension :: chain_exception where
  "invalid_transaction_extension \<equiv> Transaction_error Invalid_transaction_extension"

abbreviation ill_formed_deferred_transaction_generation_context :: chain_exception where
  "ill_formed_deferred_transaction_generation_context \<equiv> Transaction_error Ill_formed_deferred_transaction_generation_context"

abbreviation tx_duplicate_sig :: chain_exception where
  "tx_duplicate_sig \<equiv> Transaction_error Tx_duplicate_sig"

abbreviation tx_too_big :: chain_exception where
  "tx_too_big \<equiv> Transaction_error Tx_too_big"

abbreviation tx_decompression_error :: chain_exception where
  "tx_decompression_error \<equiv> Transaction_error Tx_decompression_error"

abbreviation unknown_transaction_compression :: chain_exception where
  "unknown_transaction_compression \<equiv> Transaction_error Unknown_transaction_compression"

abbreviation tx_not_found :: chain_exception where
  "tx_not_found \<equiv> Transaction_error Tx_not_found"

abbreviation tx_irrelevant_sig :: chain_exception where
  "tx_irrelevant_sig \<equiv> Transaction_error Tx_irrelevant_sig"

abbreviation invalid_permission :: chain_exception where
  "invalid_permission \<equiv> Transaction_error Invalid_permission"

abbreviation unlinkable_min_permission_action :: chain_exception where
  "unlinkable_min_permission_action \<equiv> Transaction_error Unlinkable_min_permission_action"

abbreviation irrelevant_auth_exception :: chain_exception where
  "irrelevant_auth_exception \<equiv> Transaction_error Irrelevant_auth_exception"

abbreviation unsatisfied_authorization :: chain_exception where
  "unsatisfied_authorization \<equiv> Transaction_error Unsatisfied_authorization"

abbreviation missing_auth_exception :: chain_exception where
  "missing_auth_exception \<equiv> Transaction_error Missing_auth_exception"

type_synonym 'a result = "chain_exception + 'a"

definition bind_r :: "'a result \<Rightarrow> ('a \<Rightarrow> 'b result) \<Rightarrow> 'b result" where
  "bind_r m f = (case m of Inl e \<Rightarrow> Inl e | Inr x \<Rightarrow> f x)"

text \<open>\<^verbatim>\<open>EOS_ASSERT( c, e, ... )\<close> followed by the rest of the function.\<close>

definition eos_assert :: "bool \<Rightarrow> chain_exception \<Rightarrow> unit result" where
  "eos_assert c e = (if c then Inr () else Inl e)"

definition is_ok :: "'a result \<Rightarrow> bool" where
  "is_ok r = (case r of Inl _ \<Rightarrow> False | Inr _ \<Rightarrow> True)"

definition of_option :: "chain_exception \<Rightarrow> 'a option \<Rightarrow> 'a result" where
  "of_option e m = (case m of None \<Rightarrow> Inl e | Some x \<Rightarrow> Inr x)"

text \<open>A loop over a container whose body may throw.\<close>

fun fold_r :: "('a \<Rightarrow> 's \<Rightarrow> 's result) \<Rightarrow> 'a list \<Rightarrow> 's \<Rightarrow> 's result" where
  "fold_r f [] s = Inr s"
| "fold_r f (x # xs) s = bind_r (f x s) (fold_r f xs)"

named_theorems result_simps \<open>unfolding of results\<close>

lemma bind_r_simps [simp, result_simps]:
  "bind_r (Inl e) f = Inl e"
  "bind_r (Inr x) f = f x"
  by (simp_all add: bind_r_def)

lemma bind_r_Inr_iff [result_simps]: "bind_r m f = Inr y \<longleftrightarrow> (\<exists>x. m = Inr x \<and> f x = Inr y)"
  by (cases m) auto

lemma bind_r_Inl_iff [result_simps]:
  "bind_r m f = Inl e \<longleftrightarrow> m = Inl e \<or> (\<exists>x. m = Inr x \<and> f x = Inl e)"
  by (cases m) auto

lemma bind_r_assoc: "bind_r (bind_r m f) g = bind_r m (\<lambda>x. bind_r (f x) g)"
  by (cases m) auto

lemma eos_assert_Inr_iff [simp, result_simps]: "eos_assert c e = Inr u \<longleftrightarrow> c"
  by (simp add: eos_assert_def)

lemma eos_assert_Inl_iff [simp, result_simps]: "eos_assert c e = Inl e' \<longleftrightarrow> \<not> c \<and> e' = e"
  by (auto simp: eos_assert_def)

lemma eos_assert_True [simp]: "eos_assert True e = Inr ()"
  by (simp add: eos_assert_def)

lemma eos_assert_False [simp]: "eos_assert False e = Inl e"
  by (simp add: eos_assert_def)

lemma of_option_simps [simp]:
  "of_option e None = Inl e"
  "of_option e (Some x) = Inr x"
  by (simp_all add: of_option_def)

lemma of_option_Inr_iff [simp, result_simps]: "of_option e m = Inr x \<longleftrightarrow> m = Some x"
  by (cases m) auto

lemma is_ok_simps [simp]: "is_ok (Inr x)" "\<not> is_ok (Inl e)"
  by (simp_all add: is_ok_def)

lemma is_ok_iff: "is_ok r \<longleftrightarrow> (\<exists>x. r = Inr x)"
  by (cases r) auto

text \<open>An invariant every step of a throwing loop preserves holds after the loop.\<close>

lemma fold_r_invariant:
  assumes "fold_r f xs s = Inr s'"
    and "I s"
    and "\<And>x s s'. x \<in> set xs \<Longrightarrow> I s \<Longrightarrow> f x s = Inr s' \<Longrightarrow> I s'"
  shows "I s'"
  using assms
proof (induction xs arbitrary: s)
  case (Cons x xs)
  from Cons.prems(1) obtain t where t: "f x s = Inr t" and rest: "fold_r f xs t = Inr s'"
    by (auto simp: bind_r_Inr_iff)
  have "I t"
    using Cons.prems(2,3) t by auto
  then show ?case
    using Cons.IH [OF rest] Cons.prems(3) by auto
qed simp

section \<open>Unsigned arithmetic\<close>

named_theorems u64_simps \<open>reduction of unsigned arithmetic that stays in range\<close>

lemma add64_small [u64_simps]: "a + b < 2 ^ 64 \<Longrightarrow> add64 a b = a + b"
  by (simp add: add64_def)

lemma add32_small [u64_simps]: "a + b < 2 ^ 32 \<Longrightarrow> add32 a b = a + b"
  by (simp add: add32_def)

lemma add32_bound [simp]: "add32 a b < 2 ^ 32"
  by (simp add: add32_def)

lemma sub32_small [u64_simps]: "b \<le> a \<Longrightarrow> a < 2 ^ 32 \<Longrightarrow> sub32 a b = a - b"
proof -
  assume le: "b \<le> a" and lt: "a < 2 ^ 32"
  then have "a + (2 ^ 32 - b mod 2 ^ 32) = (a - b) + 2 ^ 32"
    by simp
  with lt show ?thesis
    by (simp add: sub32_def)
qed

lemma sub32_bound [simp]: "sub32 a b < 2 ^ 32"
  by (simp add: sub32_def)

lemma mul64_small [u64_simps]: "a * b < 2 ^ 64 \<Longrightarrow> mul64 a b = a * b"
  by (simp add: mul64_def)

lemma mul128_small [u64_simps]: "a * b < 2 ^ 128 \<Longrightarrow> mul128 a b = a * b"
  by (simp add: mul128_def)

lemma mul128_u64 [u64_simps]: "a < 2 ^ 64 \<Longrightarrow> b < 2 ^ 64 \<Longrightarrow> mul128 a b = a * b"
proof -
  assume "a < 2 ^ 64" "b < 2 ^ 64"
  then have "a * b < 2 ^ 64 * 2 ^ 64"
    by (intro mult_strict_mono') simp_all
  then show ?thesis
    by (intro mul128_small) (simp add: power_add [symmetric])
qed

lemma sub64_small [u64_simps]: "b \<le> a \<Longrightarrow> a < 2 ^ 64 \<Longrightarrow> sub64 a b = a - b"
proof -
  assume le: "b \<le> a" and lt: "a < 2 ^ 64"
  then have "a + (2 ^ 64 - b mod 2 ^ 64) = (a - b) + 2 ^ 64"
    by simp
  with lt show ?thesis
    by (simp add: sub64_def)
qed

lemma add64_bound [simp]: "add64 a b < 2 ^ 64"
  by (simp add: add64_def)

lemma sub64_bound [simp]: "sub64 a b < 2 ^ 64"
  by (simp add: sub64_def)

lemma mul64_bound [simp]: "mul64 a b < 2 ^ 64"
  by (simp add: mul64_def)

lemma wrap_i64_id [simp]: "is_i64 x \<Longrightarrow> wrap_i64 x = x"
  by (simp add: wrap_i64_def is_i64_def)

lemma is_i64_wrap [simp]: "is_i64 (wrap_i64 x)"
proof -
  have "0 \<le> (x + 2 ^ 63) mod 2 ^ 64" "(x + 2 ^ 63) mod 2 ^ 64 < (2 ^ 64 :: int)"
    by simp_all
  then show ?thesis
    unfolding wrap_i64_def is_i64_def by simp
qed

section \<open>Lists\<close>

lemma last_conv_nth_odd: "odd (length xs) \<Longrightarrow> last xs = xs ! (length xs - 1)"
  by (metis last_conv_nth list.size(3) odd_pos less_numeral_extra(3))

lemma butlast_snoc_last: "xs \<noteq> [] \<Longrightarrow> butlast xs @ last xs # ys = xs @ ys"
  by (metis append.assoc append_Cons append_Nil append_butlast_last_id)

lemma result_ok: "\<not> isl r \<Longrightarrow> \<exists>v. r = Inr v"
  by (cases r) auto

end
