(* ===== verification/Merkle.thy ===== *)
theory Merkle
  imports Chain_Prelude
begin

text \<open>
  The Merkle trees of \<^verbatim>\<open>merkle.cpp\<close> and \<^verbatim>\<open>incremental_merkle.hpp\<close>. The first computes the
  root of a vector of digests by collapsing it level by level in place; the second keeps only the
  roots of the complete subtrees and is appended to one leaf at a time. The theory proves that
  both compute the same root.

  The hash function and the digest a default constructor yields belong to the cryptographic
  library and are parameters (\<open>hash\<close>, \<open>null_digest\<close>) of every definition that uses them.
\<close>

section \<open>Digests and canonical pairs\<close>

text \<open>A SHA-256 digest: the four 64 bit words of its \<^verbatim>\<open>_hash\<close> array.\<close>

record digest =
  dg0 :: u64
  dg1 :: u64
  dg2 :: u64
  dg3 :: u64

definition make_canonical_left :: "digest \<Rightarrow> digest" where
  "make_canonical_left val = val\<lparr>dg0 := dg0 val AND 0xFFFFFFFFFFFFFF7F\<rparr>"

definition make_canonical_right :: "digest \<Rightarrow> digest" where
  "make_canonical_right val = val\<lparr>dg0 := dg0 val OR 0x0000000000000080\<rparr>"

definition is_canonical_left :: "digest \<Rightarrow> bool" where
  "is_canonical_left val \<longleftrightarrow> dg0 val AND 0x0000000000000080 = 0"

definition is_canonical_right :: "digest \<Rightarrow> bool" where
  "is_canonical_right val \<longleftrightarrow> dg0 val AND 0x0000000000000080 \<noteq> 0"

definition make_canonical_pair :: "digest \<Rightarrow> digest \<Rightarrow> digest \<times> digest" where
  "make_canonical_pair l r = (make_canonical_left l, make_canonical_right r)"

type_synonym pair_hash = "digest \<times> digest \<Rightarrow> digest"

section \<open>The Merkle root of a vector\<close>

text \<open>
  The inner \<^verbatim>\<open>for\<close> loop, in place: slot \<open>i\<close> receives the hash of slots \<open>2i\<close> and \<open>2i+1\<close>.
\<close>

function merkle_level :: "pair_hash \<Rightarrow> nat \<Rightarrow> nat \<Rightarrow> digest list \<Rightarrow> digest list" where
  "merkle_level hash i n ids =
     (if i < n
      then merkle_level hash (i + 1) n
             (ids[i := hash (make_canonical_pair (ids ! (2 * i)) (ids ! (2 * i + 1)))])
      else ids)"
  by pat_completeness auto
termination
  by (relation "measure (\<lambda>(hash, i, n, ids). n - i)") auto

declare merkle_level.simps [simp del]

lemma length_merkle_level [simp]: "length (merkle_level hash i n ids) = length ids"
proof (induction hash i n ids rule: merkle_level.induct)
  case (1 hash i n ids)
  then show ?case
    by (simp add: merkle_level.simps [of hash i n ids])
qed

definition merkle_pad :: "digest list \<Rightarrow> digest list" where
  "merkle_pad ids = (if length ids mod 2 \<noteq> 0 then ids @ [last ids] else ids)"

text \<open>One iteration of the \<^verbatim>\<open>while\<close> loop: pad, collapse in place, shrink to half.\<close>

definition merkle_step :: "pair_hash \<Rightarrow> digest list \<Rightarrow> digest list" where
  "merkle_step hash ids =
     (let ids = merkle_pad ids; n = length ids div 2
      in take n (merkle_level hash 0 n ids))"

lemma length_merkle_step: "length (merkle_step hash ids) = (length ids + 1) div 2"
  by (auto simp: merkle_step_def merkle_pad_def Let_def min_def)

function merkle_loop :: "pair_hash \<Rightarrow> digest list \<Rightarrow> digest list" where
  "merkle_loop hash ids = (if length ids > 1 then merkle_loop hash (merkle_step hash ids) else ids)"
  by pat_completeness auto
termination
  by (relation "measure (\<lambda>(hash, ids). length ids)") (auto simp: length_merkle_step)

declare merkle_loop.simps [simp del]

definition merkle :: "pair_hash \<Rightarrow> digest \<Rightarrow> digest list \<Rightarrow> digest" where
  "merkle hash null_digest ids = (if 0 = length ids then null_digest else hd (merkle_loop hash ids))"

section \<open>The incremental Merkle tree\<close>

definition next_power_of_2 :: "u64 \<Rightarrow> u64" where
  "next_power_of_2 value0 =
     (let value1 = value0 - 1;
          value2 = value1 OR drop_bit 1 value1;
          value3 = value2 OR drop_bit 2 value2;
          value4 = value3 OR drop_bit 4 value3;
          value5 = value4 OR drop_bit 8 value4;
          value6 = value5 OR drop_bit 16 value5;
          value7 = value6 OR drop_bit 32 value6
      in value7 + 1)"

definition clz_power_2 :: "u64 \<Rightarrow> int" where
  "clz_power_2 value =
     64 - (if value \<noteq> 0 then 1 else 0)
        - (if value AND 0x00000000FFFFFFFF \<noteq> 0 then 32 else 0)
        - (if value AND 0x0000FFFF0000FFFF \<noteq> 0 then 16 else 0)
        - (if value AND 0x00FF00FF00FF00FF \<noteq> 0 then 8 else 0)
        - (if value AND 0x0F0F0F0F0F0F0F0F \<noteq> 0 then 4 else 0)
        - (if value AND 0x3333333333333333 \<noteq> 0 then 2 else 0)
        - (if value AND 0x5555555555555555 \<noteq> 0 then 1 else 0)"

definition calcluate_max_depth :: "u64 \<Rightarrow> int" where
  "calcluate_max_depth cnt = (if cnt = 0 then 0 else clz_power_2 (next_power_of_2 cnt) + 1)"

record incremental_merkle =
  node_count :: u64
  active_nodes :: "digest list"

definition incremental_merkle_init :: incremental_merkle where
  "incremental_merkle_init = \<lparr>node_count = 0, active_nodes = []\<rparr>"

text \<open>
  The \<^verbatim>\<open>while (current_depth > 0)\<close> loop of \<^verbatim>\<open>append\<close>, on the remaining depth. It returns the
  top of the collapsed tree and the updated active nodes. Reading past the end of the old active
  nodes is undefined in C++ and a failure here.
\<close>

fun append_loop :: "pair_hash \<Rightarrow> nat \<Rightarrow> u64 \<Rightarrow> digest \<Rightarrow> digest list \<Rightarrow> digest list \<Rightarrow> bool
    \<Rightarrow> (digest \<times> digest list) result" where
  "append_loop hash 0 index top_node active updated partial = Inr (top_node, updated)"
| "append_loop hash (Suc depth) index top_node active updated partial =
     (if index AND 1 = 0
      then append_loop hash depth (drop_bit 1 index) (hash (make_canonical_pair top_node top_node)) active
             (if partial then updated else updated @ [top_node]) True
      else (case active of
              [] \<Rightarrow> Inl undefined_behaviour
            | left_value # active' \<Rightarrow>
                append_loop hash depth (drop_bit 1 index) (hash (make_canonical_pair left_value top_node))
                  active' (if partial then updated @ [left_value] else updated) partial))"

definition append_node :: "pair_hash \<Rightarrow> incremental_merkle \<Rightarrow> digest \<Rightarrow> incremental_merkle result" where
  "append_node hash m digest =
     (let max_depth = calcluate_max_depth (node_count m + 1);
          current_depth = max_depth - 1
      in bind_r (append_loop hash (nat current_depth) (node_count m) digest (active_nodes m) [] False)
           (\<lambda>(top_node, updated). Inr \<lparr>node_count = node_count m + 1, active_nodes = updated @ [top_node]\<rparr>))"

definition get_root :: "digest \<Rightarrow> incremental_merkle \<Rightarrow> digest result" where
  "get_root null_digest m =
     (if node_count m > 0
      then (if active_nodes m = [] then Inl undefined_behaviour else Inr (last (active_nodes m)))
      else Inr null_digest)"

text \<open>Appending the digests of a list one after the other.\<close>

definition append_all :: "pair_hash \<Rightarrow> digest list \<Rightarrow> incremental_merkle \<Rightarrow> incremental_merkle result" where
  "append_all hash ids m = fold_r (\<lambda>d m. append_node hash m d) ids m"

section \<open>Canonical pairs\<close>

lemma and_0x80_iff: "(w :: u64) AND 0x80 = 0 \<longleftrightarrow> \<not> bit w 7"
proof -
  have eq: "(0x80 :: u64) = 2 ^ 7"
    by simp
  show ?thesis
    unfolding eq by (rule and_exp_eq_0_iff_not_bit)
qed

lemma canonical_left [simp]: "is_canonical_left (make_canonical_left d)"
proof -
  have "\<not> bit (0xFFFFFFFFFFFFFF7F :: u64) 7"
    by simp
  then show ?thesis
    by (simp add: is_canonical_left_def make_canonical_left_def and_0x80_iff bit_and_iff)
qed

lemma canonical_right [simp]: "is_canonical_right (make_canonical_right d)"
proof -
  have "bit (0x80 :: u64) 7"
    by simp
  then show ?thesis
    by (simp add: is_canonical_right_def make_canonical_right_def and_0x80_iff bit_or_iff)
qed

section \<open>Reference tree: pairing up one level\<close>

text \<open>
  \<open>pairup\<close> is one level of the tree with a missing right sibling implied by its left one;
  \<open>full_pairs\<close> keeps the complete pairs only. \<open>fulls\<close> lists the roots of the complete
  subtrees of a list of leaves, smallest first.
\<close>

fun pairup :: "('a \<Rightarrow> 'a \<Rightarrow> 'a) \<Rightarrow> 'a list \<Rightarrow> 'a list" where
  "pairup f [] = []"
| "pairup f [x] = [f x x]"
| "pairup f (x # y # zs) = f x y # pairup f zs"

fun full_pairs :: "('a \<Rightarrow> 'a \<Rightarrow> 'a) \<Rightarrow> 'a list \<Rightarrow> 'a list" where
  "full_pairs f [] = []"
| "full_pairs f [x] = []"
| "full_pairs f (x # y # zs) = f x y # full_pairs f zs"

lemma length_pairup [simp]: "length (pairup f xs) = (length xs + 1) div 2"
  by (induction f xs rule: pairup.induct) auto

lemma length_full_pairs [simp]: "length (full_pairs f xs) = length xs div 2"
  by (induction f xs rule: full_pairs.induct) auto

function fulls :: "('a \<Rightarrow> 'a \<Rightarrow> 'a) \<Rightarrow> 'a list \<Rightarrow> 'a list" where
  "fulls f xs =
     (if xs = [] then []
      else (if odd (length xs) then [last xs] else []) @ fulls f (full_pairs f xs))"
  by pat_completeness auto
termination
  by (relation "measure (\<lambda>(f, xs). length xs)") auto

declare fulls.simps [simp del]

lemma fulls_Nil [simp]: "fulls f [] = []"
  by (simp add: fulls.simps)

lemma fulls_single [simp]: "fulls f [x] = [x]"
  by (simp add: fulls.simps)

lemma fulls_odd: "odd (length xs) \<Longrightarrow> fulls f xs = last xs # fulls f (full_pairs f xs)"
  by (cases "xs = []") (auto simp: fulls.simps [of f xs])

lemma fulls_even: "even (length xs) \<Longrightarrow> fulls f xs = fulls f (full_pairs f xs)"
  by (cases "xs = []") (auto simp: fulls.simps [of f xs])

lemma full_pairs_snoc:
  "full_pairs f (xs @ [x]) =
     (if even (length xs) then full_pairs f xs else full_pairs f xs @ [f (last xs) x])"
  by (induction f xs rule: full_pairs.induct) auto

lemma pairup_snoc:
  "pairup f (xs @ [x]) = full_pairs f xs @ [if even (length xs) then f x x else f (last xs) x]"
  by (induction f xs rule: full_pairs.induct) auto

lemma pairup_nth:
  "2 * i + 1 < length xs \<Longrightarrow> pairup f xs ! i = f (xs ! (2 * i)) (xs ! (2 * i + 1))"
proof (induction f xs arbitrary: i rule: pairup.induct)
  case (3 f x y zs)
  then show ?case
    by (cases i) auto
qed auto

lemma pairup_pad: "odd (length xs) \<Longrightarrow> pairup f (xs @ [last xs]) = pairup f xs"
  by (induction f xs rule: pairup.induct) auto

section \<open>The in-place level equals pairing up\<close>

abbreviation node_hash :: "pair_hash \<Rightarrow> digest \<Rightarrow> digest \<Rightarrow> digest" where
  "node_hash hash \<equiv> (\<lambda>l r. hash (make_canonical_pair l r))"

text \<open>
  The slots below \<open>i\<close> hold results, the slots from \<open>i\<close> on still hold the old level: the
  writes never reach a slot that is yet to be read.
\<close>

lemma merkle_level_nth:
  assumes "i \<le> n" "2 * n \<le> length ids" "length ids' = length ids"
    and "\<And>j. j < i \<Longrightarrow> ids' ! j = node_hash hash (ids ! (2 * j)) (ids ! (2 * j + 1))"
    and "\<And>j. i \<le> j \<Longrightarrow> j < length ids \<Longrightarrow> ids' ! j = ids ! j"
    and "j < n"
  shows "merkle_level hash i n ids' ! j = node_hash hash (ids ! (2 * j)) (ids ! (2 * j + 1))"
  using assms(1,3-6)
proof (induction "n - i" arbitrary: i ids')
  case 0
  then show ?case
    by (simp add: merkle_level.simps)
next
  case (Suc k)
  let ?v = "hash (make_canonical_pair (ids' ! (2 * i)) (ids' ! (2 * i + 1)))"
  have lt: "i < n"
    using Suc.hyps(2) by linarith
  have v: "?v = node_hash hash (ids ! (2 * i)) (ids ! (2 * i + 1))"
    using Suc.prems(4) lt assms(2) by simp
  have "merkle_level hash (i + 1) n (ids'[i := ?v]) ! j
      = node_hash hash (ids ! (2 * j)) (ids ! (2 * j + 1))"
  proof (rule Suc.hyps(1))
    show "k = n - (i + 1)" "i + 1 \<le> n" "length (ids'[i := ?v]) = length ids" "j < n"
      using Suc.hyps(2) Suc.prems lt by auto
    show "ids'[i := ?v] ! l = node_hash hash (ids ! (2 * l)) (ids ! (2 * l + 1))" if "l < i + 1" for l
      using Suc.prems(2,3) that lt assms(2) v by (cases "l = i") auto
    show "ids'[i := ?v] ! l = ids ! l" if "i + 1 \<le> l" "l < length ids" for l
      using Suc.prems(4) that by simp
  qed
  with lt show ?case
    by (simp add: merkle_level.simps [of hash i])
qed

lemma merkle_step_pairup: "merkle_step hash ids = pairup (node_hash hash) ids"
proof -
  let ?f = "node_hash hash" and ?p = "merkle_pad ids"
  let ?n = "length ?p div 2"
  have pad: "pairup ?f ?p = pairup ?f ids" and even: "even (length ?p)"
    by (auto simp: merkle_pad_def pairup_pad odd_iff_mod_2_eq_one)
  have "take ?n (merkle_level hash 0 ?n ?p) = pairup ?f ?p"
  proof (rule nth_equalityI)
    show "length (take ?n (merkle_level hash 0 ?n ?p)) = length (pairup ?f ?p)"
      using even by simp
    fix j assume "j < length (take ?n (merkle_level hash 0 ?n ?p))"
    then have j: "j < ?n"
      by simp
    then have "merkle_level hash 0 ?n ?p ! j = ?f (?p ! (2 * j)) (?p ! (2 * j + 1))"
      by (intro merkle_level_nth) auto
    with j show "take ?n (merkle_level hash 0 ?n ?p) ! j = pairup ?f ?p ! j"
      by (simp add: pairup_nth)
  qed
  then show ?thesis
    by (simp add: merkle_step_def Let_def pad)
qed

lemma merkle_loop_levels:
  assumes "length ids \<le> 2 ^ d" "ids \<noteq> []"
    and "d = 0 \<or> 2 ^ (d - 1) < length ids"
  shows "merkle_loop hash ids = (pairup (node_hash hash) ^^ d) ids"
  using assms
proof (induction d arbitrary: ids)
  case 0
  then show ?case
    by (simp add: merkle_loop.simps)
next
  case (Suc d)
  have gt: "length ids > 1"
    using Suc.prems(3) by (simp add: Suc_lessI) (metis One_nat_def le_less_trans not_less one_le_numeral one_le_power)
  let ?ys = "pairup (node_hash hash) ids"
  have "merkle_loop hash ?ys = (pairup (node_hash hash) ^^ d) ?ys"
  proof (rule Suc.IH)
    show "length ?ys \<le> 2 ^ d" "?ys \<noteq> []"
      using Suc.prems(1) gt by (auto simp flip: length_greater_0_conv)
    show "d = 0 \<or> 2 ^ (d - 1) < length ?ys"
      using Suc.prems(3) by (cases d) auto
  qed
  with gt show ?case
    by (simp add: merkle_loop.simps [of hash ids] merkle_step_pairup funpow_swap1)
qed

section \<open>The depth of the tree\<close>

text \<open>Each shift-and-or step doubles the window of higher bits that are smeared downwards.\<close>

lemma smear_step:
  fixes v w :: u64
  assumes "\<And>i. bit v i \<longleftrightarrow> (\<exists>d < s. bit w (i + d))"
  shows "bit (v OR drop_bit s v) i \<longleftrightarrow> (\<exists>d<2 * s. bit w (i + d))"
proof -
  have "(\<exists>d<2 * s. bit w (i + d)) \<longleftrightarrow> (\<exists>d < s. bit w (i + d)) \<or> (\<exists>d < s. bit w (i + s + d))"
  proof
    assume "\<exists>d<2 * s. bit w (i + d)"
    then obtain d where d: "d < 2 * s" "bit w (i + d)"
      by blast
    then show "(\<exists>d < s. bit w (i + d)) \<or> (\<exists>d < s. bit w (i + s + d))"
    proof (cases "d < s")
      case False
      with d have "d - s < s" "bit w (i + s + (d - s))"
        by auto
      then show ?thesis by blast
    qed auto
  next
    assume "(\<exists>d < s. bit w (i + d)) \<or> (\<exists>d < s. bit w (i + s + d))"
    then show "\<exists>d<2 * s. bit w (i + d)"
    proof
      assume "\<exists>d < s. bit w (i + d)"
      then obtain d where "d < s" "bit w (i + d)"
        by blast
      then show ?thesis
        by (intro exI [of _ d]) auto
    next
      assume "\<exists>d < s. bit w (i + s + d)"
      then obtain d where "d < s" "bit w (i + (s + d))"
        by (auto simp: add.assoc)
      then show ?thesis
        by (intro exI [of _ "s + d"]) auto
    qed
  qed
  with assms show ?thesis
    by (simp add: bit_or_iff bit_drop_bit_eq add.commute [of s])
qed

lemma bit_next_power_of_2:
  "\<exists>s. next_power_of_2 value0 = s + 1 \<and> (\<forall>i. bit s i \<longleftrightarrow> (\<exists>d<64. bit (value0 - 1) (i + d)))"
proof -
  define v1 where "v1 = value0 - 1"
  define v2 where "v2 = v1 OR drop_bit 1 v1"
  define v3 where "v3 = v2 OR drop_bit 2 v2"
  define v4 where "v4 = v3 OR drop_bit 4 v3"
  define v5 where "v5 = v4 OR drop_bit 8 v4"
  define v6 where "v6 = v5 OR drop_bit 16 v5"
  define v7 where "v7 = v6 OR drop_bit 32 v6"
  have 1: "bit v1 i \<longleftrightarrow> (\<exists>d<1. bit v1 (i + d))" for i
    by simp
  have 2: "bit v2 i \<longleftrightarrow> (\<exists>d<2. bit v1 (i + d))" for i
    using smear_step [OF 1] by (simp add: v2_def)
  have 3: "bit v3 i \<longleftrightarrow> (\<exists>d<4. bit v1 (i + d))" for i
    using smear_step [OF 2] by (simp add: v3_def)
  have 4: "bit v4 i \<longleftrightarrow> (\<exists>d<8. bit v1 (i + d))" for i
    using smear_step [OF 3] by (simp add: v4_def)
  have 5: "bit v5 i \<longleftrightarrow> (\<exists>d<16. bit v1 (i + d))" for i
    using smear_step [OF 4] by (simp add: v5_def)
  have 6: "bit v6 i \<longleftrightarrow> (\<exists>d<32. bit v1 (i + d))" for i
    using smear_step [OF 5] by (simp add: v6_def)
  have 7: "bit v7 i \<longleftrightarrow> (\<exists>d<64. bit v1 (i + d))" for i
    using smear_step [OF 6] by (simp add: v7_def)
  have "next_power_of_2 value0 = v7 + 1"
    by (simp only: next_power_of_2_def Let_def v1_def v2_def v3_def v4_def v5_def v6_def v7_def)
  with 7 show ?thesis
    unfolding v1_def by blast
qed

lemma bit_word_unat: "bit (w :: u64) i \<longleftrightarrow> bit (unat w) i"
  by (simp add: bit_unsigned_iff)

lemma bit_nat_le: "bit (n :: nat) i \<Longrightarrow> 2 ^ i \<le> n"
  by (metis bit_iff_odd div_less even_zero not_less)

lemma bit_nat_top: "2 ^ i \<le> (n :: nat) \<Longrightarrow> n < 2 ^ Suc i \<Longrightarrow> bit n i"
proof -
  assume "2 ^ i \<le> n" "n < 2 ^ Suc i"
  then have "n div 2 ^ i = 1"
    by (intro div_nat_eqI) auto
  then show ?thesis
    by (simp add: bit_iff_odd)
qed

lemma next_power_of_2_eq:
  assumes "n \<le> 2 ^ d" "d = 0 \<or> 2 ^ (d - 1) < n" "0 < n" "d < 64" "unat w = n"
  shows "next_power_of_2 w = 2 ^ d"
proof -
  have w: "unat (w - 1) = n - 1"
    using assms(3,5) by (subst unat_minus_one) auto
  from bit_next_power_of_2 obtain s where
    s: "next_power_of_2 w = s + 1" and bits: "\<And>i. bit s i \<longleftrightarrow> (\<exists>j<64. bit (w - 1) (i + j))"
    by blast
  have high: "\<not> bit (w - 1) i" if "d \<le> i" for i
  proof
    assume "bit (w - 1) i"
    then have "2 ^ i \<le> n - 1"
      using bit_nat_le w by (simp add: bit_word_unat)
    moreover have "(2 :: nat) ^ d \<le> 2 ^ i"
      using that by simp
    ultimately show False
      using assms(1,3) by linarith
  qed
  have "s = mask d"
  proof (rule bit_word_eqI)
    fix i assume "i < LENGTH(64)"
    show "bit s i = bit (mask d :: u64) i"
    proof (cases "i < d")
      case True
      then have d: "d \<noteq> 0" "2 ^ (d - 1) < n"
        using assms(2) by auto
      have "bit (n - 1) (d - 1)"
        using d assms(1) by (intro bit_nat_top) auto
      then have "bit (w - 1) (i + (d - 1 - i))"
        using True w by (simp add: bit_word_unat)
      moreover have "d - 1 - i < 64"
        using assms(4) by simp
      ultimately show ?thesis
        using True \<open>i < LENGTH(64)\<close> bits by (auto simp: bit_mask_iff)
    next
      case False
      then show ?thesis
        using bits high by (auto simp: bit_mask_iff)
    qed
  qed
  then show ?thesis
    by (simp add: s inc_mask_eq_exp)
qed

lemma clz_power_2_exp: "d < 64 \<Longrightarrow> clz_power_2 (2 ^ d) = int d"
proof -
  have "\<forall>d\<in>set [0..<64]. clz_power_2 (2 ^ d) = int d"
    by (simp add: clz_power_2_def upt_conv_Cons)
  then show "d < 64 \<Longrightarrow> clz_power_2 (2 ^ d) = int d"
    by auto
qed

lemma log2_ceil_ex:
  assumes "0 < (n :: nat)" "n \<le> 2 ^ k"
  shows "\<exists>d\<le>k. n \<le> 2 ^ d \<and> (d = 0 \<or> 2 ^ (d - 1) < n)"
proof -
  let ?d = "LEAST d. n \<le> 2 ^ d"
  have "n \<le> 2 ^ ?d" "?d \<le> k"
    using assms(2) by (rule LeastI, rule Least_le)
  moreover have "?d = 0 \<or> 2 ^ (?d - 1) < n"
  proof (cases "?d = 0")
    case False
    then have "?d - 1 < ?d"
      by simp
    then show ?thesis
      using not_less_Least not_le by blast
  qed simp
  ultimately show ?thesis
    by blast
qed

lemma calcluate_max_depth_eq:
  assumes "n \<le> 2 ^ d" "d = 0 \<or> 2 ^ (d - 1) < n" "0 < n" "d < 64" "unat w = n"
  shows "calcluate_max_depth w = int d + 1"
proof -
  have "w \<noteq> 0"
    using assms by auto
  then show ?thesis
    by (simp add: calcluate_max_depth_def next_power_of_2_eq [OF assms] clz_power_2_exp assms(4))
qed

section \<open>Appending\<close>

lemma index_even_iff: "(index :: u64) AND 1 = 0 \<longleftrightarrow> even (unat index)"
  by (simp add: and_one_eq even_iff_mod_2_eq_zero unat_mod_distrib flip: unat_eq_0)

lemma unat_index_half: "unat (drop_bit 1 (index :: u64)) = unat index div 2"
  by (simp add: drop_bit_eq_div unat_div_distrib)

text \<open>
  Once the right-most node is partial the loop copies every remaining left sibling: the complete
  subtrees left of it, which are exactly those of the leaves before.
\<close>

lemma append_loop_partial:
  assumes "unat index = length xs" "length xs < 2 ^ d"
  shows "append_loop hash d index t (fulls (node_hash hash) xs @ rest) upd True =
    Inr (hd ((pairup (node_hash hash) ^^ d) (xs @ [t])), upd @ fulls (node_hash hash) xs)"
  using assms
proof (induction d arbitrary: index xs t upd)
  case (Suc d)
  let ?f = "node_hash hash"
  have half: "unat (drop_bit 1 index) = length (full_pairs ?f xs)" "length (full_pairs ?f xs) < 2 ^ d"
    using Suc.prems unat_index_half by auto
  show ?case
  proof (cases "even (length xs)")
    case True
    then show ?thesis
      using Suc.prems(1) Suc.IH [OF half]
      by (simp add: index_even_iff fulls_even [of xs] pairup_snoc funpow_swap1)
  next
    case False
    then show ?thesis
      using Suc.prems(1) Suc.IH [OF half]
      by (simp add: index_even_iff fulls_odd [of xs] pairup_snoc funpow_swap1)
  qed
qed simp

lemma append_loop_realized:
  assumes "unat index = length xs" "length xs < 2 ^ d"
  shows "\<exists>upd' rest'. append_loop hash d index t (fulls (node_hash hash) xs @ rest) upd False =
      Inr (hd ((pairup (node_hash hash) ^^ d) (xs @ [t])), upd')
    \<and> upd' @ [hd ((pairup (node_hash hash) ^^ d) (xs @ [t]))]
        = upd @ fulls (node_hash hash) (xs @ [t]) @ rest'"
  using assms
proof (induction d arbitrary: index xs t)
  case (Suc d)
  let ?f = "node_hash hash"
  have half: "unat (drop_bit 1 index) = length (full_pairs ?f xs)" "length (full_pairs ?f xs) < 2 ^ d"
    using Suc.prems unat_index_half by auto
  show ?case
  proof (cases "even (length xs)")
    case True
    then show ?thesis
      using Suc.prems(1) append_loop_partial [OF half]
      by (simp add: index_even_iff fulls_even [of xs] fulls_odd [of "xs @ [t]"] pairup_snoc
          full_pairs_snoc funpow_swap1)
  next
    case False
    then show ?thesis
      using Suc.prems(1) Suc.IH [OF half]
      by (simp add: index_even_iff fulls_odd [of xs] fulls_even [of "xs @ [t]"] pairup_snoc
          full_pairs_snoc funpow_swap1)
  qed
qed simp

section \<open>The accumulator interface\<close>

text \<open>
  What a user of an append-only commitment relies on: from the initial accumulator, appending
  never fails up to a capacity, and the root is a function of the appended list alone.
\<close>

locale merkle_accumulator =
  fixes init :: 'acc
    and app :: "'acc \<Rightarrow> 'd \<Rightarrow> 'acc result"
    and root :: "'acc \<Rightarrow> 'd result"
    and commits :: "'acc \<Rightarrow> 'd list \<Rightarrow> bool"
    and ref_root :: "'d list \<Rightarrow> 'd"
    and cap :: nat
  assumes commits_init: "commits init []"
    and commits_app: "commits m ds \<Longrightarrow> length ds < cap \<Longrightarrow> \<exists>m'. app m d = Inr m' \<and> commits m' (ds @ [d])"
    and commits_root: "commits m ds \<Longrightarrow> root m = Inr (ref_root ds)"
begin

lemma commits_fold:
  "commits m ds \<Longrightarrow> length ds + length es \<le> cap \<Longrightarrow>
     \<exists>m'. fold_r (\<lambda>d m. app m d) es m = Inr m' \<and> commits m' (ds @ es)"
proof (induction es arbitrary: m ds)
  case (Cons e es)
  then obtain m' where "app m e = Inr m'" "commits m' (ds @ [e])"
    using commits_app [of m ds e] by auto
  then show ?case
    using Cons.IH [of m' "ds @ [e]"] Cons.prems(2) by simp
qed simp

lemma root_fold:
  "length ds \<le> cap \<Longrightarrow> \<exists>m'. fold_r (\<lambda>d m. app m d) ds init = Inr m' \<and> root m' = Inr (ref_root ds)"
  using commits_fold [OF commits_init, of ds] commits_root by fastforce

lemma root_append:
  "commits m ds \<Longrightarrow> length ds < cap \<Longrightarrow> \<exists>m'. app m d = Inr m' \<and> root m' = Inr (ref_root (ds @ [d]))"
  using commits_app commits_root by meson

end

text \<open>The incremental tree commits to the leaves whose complete subtrees it stores.\<close>

definition merkle_commits :: "pair_hash \<Rightarrow> incremental_merkle \<Rightarrow> digest list \<Rightarrow> bool" where
  "merkle_commits hash m ids \<longleftrightarrow>
     unat (node_count m) = length ids
   \<and> take (length (fulls (node_hash hash) ids)) (active_nodes m) = fulls (node_hash hash) ids
   \<and> (ids \<noteq> [] \<longrightarrow> active_nodes m \<noteq> [] \<and> last (active_nodes m) = hd (merkle_loop hash ids))"

lemma merkle_commits_append:
  assumes "merkle_commits hash m ids" "length ids < 2 ^ 63"
  shows "\<exists>m'. append_node hash m x = Inr m' \<and> merkle_commits hash m' (ids @ [x])"
proof -
  let ?f = "node_hash hash" and ?n = "Suc (length ids)"
  have nc: "unat (node_count m) = length ids"
    and act: "take (length (fulls ?f ids)) (active_nodes m) = fulls ?f ids"
    using assms(1) by (simp_all add: merkle_commits_def)
  have cnt: "unat (node_count m + 1) = ?n"
    using nc assms(2) by (subst unat_word_ariths) simp
  obtain d where d: "d \<le> 63" "?n \<le> 2 ^ d" "d = 0 \<or> 2 ^ (d - 1) < ?n"
    using log2_ceil_ex [of ?n 63] assms(2) by auto
  have depth: "calcluate_max_depth (node_count m + 1) = int d + 1"
    using d cnt by (intro calcluate_max_depth_eq [where n = ?n]) auto
  obtain rest where rest: "active_nodes m = fulls ?f ids @ rest"
    using act append_take_drop_id by metis
  let ?root = "hd ((pairup ?f ^^ d) (ids @ [x]))"
  have root: "?root = hd (merkle_loop hash (ids @ [x]))"
    using d by (subst merkle_loop_levels [of _ d]) auto
  have "length ids < 2 ^ d"
    using d(2) by simp
  from append_loop_realized [OF nc this] obtain upd rest' where
    loop: "append_loop hash d (node_count m) x (active_nodes m) [] False = Inr (?root, upd)"
    and upd: "upd @ [?root] = fulls ?f (ids @ [x]) @ rest'"
    unfolding rest by (metis append_Nil)
  have "append_node hash m x = Inr \<lparr>node_count = node_count m + 1, active_nodes = upd @ [?root]\<rparr>"
    by (simp add: append_node_def Let_def depth loop)
  moreover have "last (upd @ [?root]) = hd (merkle_loop hash (ids @ [x]))"
    using root by simp
  ultimately show ?thesis
    using cnt upd by (auto simp: merkle_commits_def)
qed

interpretation imerkle: merkle_accumulator incremental_merkle_init "append_node hash"
  "get_root null_digest" "merkle_commits hash" "merkle hash null_digest" "2 ^ 63"
  for hash null_digest
proof unfold_locales
  show "merkle_commits hash incremental_merkle_init []"
    by (simp add: merkle_commits_def incremental_merkle_init_def)
  show "\<exists>m'. append_node hash m d = Inr m' \<and> merkle_commits hash m' (ds @ [d])"
    if "merkle_commits hash m ds" "length ds < 2 ^ 63" for m ds d
    using that by (rule merkle_commits_append)
  show "get_root null_digest m = Inr (merkle hash null_digest ds)" if "merkle_commits hash m ds" for m ds
    using that by (cases "ds = []") (auto simp: merkle_commits_def get_root_def merkle_def
        word_gt_0 unat_eq_0 [symmetric])
qed

section \<open>Properties\<close>

text \<open>
  C1. The incremental tree is equivalent to the tree built at once: appending the digests of
  a list one after the other (up to \<open>2 ^ 63\<close> of them) never reads past the stored active nodes
  and ends with a root equal to the one \<^verbatim>\<open>merkle\<close> computes for the whole list.
\<close>

theorem incremental_merkle_root:
  assumes "length ids \<le> 2 ^ 63"
  shows "\<exists>m. append_all hash ids incremental_merkle_init = Inr m
           \<and> get_root null_digest m = Inr (merkle hash null_digest ids)"
  using imerkle.root_fold [OF assms] by (simp add: append_all_def)

theorem incremental_merkle_root_witness:
  "\<exists>m. append_all (\<lambda>(l, r). l\<lparr>dg1 := dg1 l + dg0 r\<rparr>)
         [\<lparr>dg0 = 1, dg1 = 0, dg2 = 0, dg3 = 0\<rparr>, \<lparr>dg0 = 2, dg1 = 0, dg2 = 0, dg3 = 0\<rparr>,
          \<lparr>dg0 = 3, dg1 = 0, dg2 = 0, dg3 = 0\<rparr>] incremental_merkle_init = Inr m
     \<and> get_root \<lparr>dg0 = 0, dg1 = 0, dg2 = 0, dg3 = 0\<rparr> m
       = Inr (merkle (\<lambda>(l, r). l\<lparr>dg1 := dg1 l + dg0 r\<rparr>) \<lparr>dg0 = 0, dg1 = 0, dg2 = 0, dg3 = 0\<rparr>
           [\<lparr>dg0 = 1, dg1 = 0, dg2 = 0, dg3 = 0\<rparr>, \<lparr>dg0 = 2, dg1 = 0, dg2 = 0, dg3 = 0\<rparr>,
            \<lparr>dg0 = 3, dg1 = 0, dg2 = 0, dg3 = 0\<rparr>])"
  by (rule incremental_merkle_root) simp

end
