(* ===== verification/Names.thy ===== *)
theory Names
  imports Chain_Prelude
begin

text \<open>
  The 64 bit account, action and permission names of \<^verbatim>\<open>name.hpp\<close> and \<^verbatim>\<open>name.cpp\<close>: twelve
  base-32 characters and a thirteenth base-16 one packed into a word. The theory shows that
  printing and parsing are inverse, and which strings a name accepts.
\<close>

section \<open>Encoding and decoding\<close>

type_synonym name = u64
type_synonym account_name = name

text \<open>\<^verbatim>\<open>str[i]\<close> of a string view over a NUL-terminated string.\<close>

definition str_at :: "string \<Rightarrow> nat \<Rightarrow> char" where
  "str_at s i = (if i < length s then s ! i else CHR 0x00)"

definition char_to_symbol :: "char \<Rightarrow> u64" where
  "char_to_symbol c =
     (let k = of_char c :: nat
      in if of_char CHR ''a'' \<le> k \<and> k \<le> of_char CHR ''z'' then of_nat (k - of_char CHR ''a'') + 6
         else if of_char CHR ''1'' \<le> k \<and> k \<le> of_char CHR ''5'' then of_nat (k - of_char CHR ''1'') + 1
         else 0)"

text \<open>The \<^verbatim>\<open>for\<close> loop of \<^verbatim>\<open>string_to_uint64_t\<close>: it returns the final index and value.\<close>

function string_to_uint64_loop :: "string \<Rightarrow> nat \<Rightarrow> u64 \<Rightarrow> nat \<times> u64" where
  "string_to_uint64_loop str i n =
     (if str_at str i \<noteq> CHR 0x00 \<and> i < 12
      then string_to_uint64_loop str (i + 1)
             (n OR push_bit (64 - 5 * (i + 1)) (char_to_symbol (str_at str i) AND 0x1f))
      else (i, n))"
  by pat_completeness auto
termination
  by (relation "measure (\<lambda>(str, i, n). 12 - i)") auto

declare string_to_uint64_loop.simps [simp del]

definition string_to_uint64_t :: "string \<Rightarrow> u64" where
  "string_to_uint64_t str =
     (case string_to_uint64_loop str 0 0 of
        (i, n) \<Rightarrow> if i = 12 then n OR (char_to_symbol (str_at str 12) AND 0x0F) else n)"

definition charmap :: string where
  "charmap = ''.12345abcdefghijklmnopqrstuvwxyz''"

text \<open>The loop of \<^verbatim>\<open>name::to_string\<close>, filling \<^verbatim>\<open>str\<close> from its end.\<close>

function to_string_loop :: "nat \<Rightarrow> string \<Rightarrow> u64 \<Rightarrow> string" where
  "to_string_loop i str tmp =
     (if i \<le> 12
      then to_string_loop (i + 1)
             (str[12 - i := charmap ! unat (tmp AND (if i = 0 then 0x0f else 0x1f))])
             (drop_bit (if i = 0 then 4 else 5) tmp)
      else str)"
  by pat_completeness auto
termination
  by (relation "measure (\<lambda>(i, str, tmp). 13 - i)") auto

declare to_string_loop.simps [simp del]

definition trim_right_if :: "(char \<Rightarrow> bool) \<Rightarrow> string \<Rightarrow> string" where
  "trim_right_if P s = rev (dropWhile P (rev s))"

definition name_to_string :: "name \<Rightarrow> string" where
  "name_to_string value =
     trim_right_if (\<lambda>c. c = CHR ''.'') (to_string_loop 0 (replicate 13 CHR ''.'') value)"

definition name_set :: "string \<Rightarrow> name result" where
  "name_set str =
     bind_r (eos_assert (length str \<le> 13) name_type_exception) (\<lambda>_.
       let value = string_to_uint64_t str
       in bind_r (eos_assert (name_to_string value = str) name_type_exception) (\<lambda>_. Inr value))"

definition string_to_name :: "string \<Rightarrow> name" where
  "string_to_name str = string_to_uint64_t str"

definition name_empty :: "name \<Rightarrow> bool" where
  "name_empty n \<longleftrightarrow> 0 = n"

section \<open>Symbols and characters\<close>

lemma char_to_symbol_charmap: "k < 32 \<Longrightarrow> char_to_symbol (charmap ! k) = of_nat k"
proof -
  have "\<forall>k\<in>set [0..<32]. char_to_symbol (charmap ! k) = of_nat k"
    by (simp add: char_to_symbol_def charmap_def upt_conv_Cons)
  then show "k < 32 \<Longrightarrow> char_to_symbol (charmap ! k) = of_nat k"
    by auto
qed

lemma char_to_symbol_dot [simp]: "char_to_symbol CHR ''.'' = 0" "char_to_symbol CHR 0x00 = 0"
  by (simp_all add: char_to_symbol_def)

lemma nul_not_charmap: "CHR 0x00 \<notin> set charmap"
  by (simp add: charmap_def)

lemma length_charmap [simp]: "length charmap = 32"
  by (simp add: charmap_def)

lemma charmap_symbol: "c \<in> set charmap \<Longrightarrow> charmap ! unat (char_to_symbol c) = c"
proof -
  assume "c \<in> set charmap"
  then obtain k where "k < 32" "c = charmap ! k"
    by (auto simp: in_set_conv_nth)
  then show ?thesis
    by (simp add: char_to_symbol_charmap unat_of_nat)
qed

lemma symbol_bound: "c \<in> set charmap \<Longrightarrow> unat (char_to_symbol c) < 32"
proof -
  assume "c \<in> set charmap"
  then obtain k where "k < 32" "c = charmap ! k"
    by (auto simp: in_set_conv_nth)
  then show ?thesis
    by (simp add: char_to_symbol_charmap unat_of_nat)
qed

section \<open>The value of a string, bit by bit\<close>

text \<open>
  The packed value written without the loop's early exit: past the end of the string every
  character is NUL and contributes nothing.
\<close>

definition name_symbol :: "string \<Rightarrow> nat \<Rightarrow> u64" where
  "name_symbol s p = (char_to_symbol (str_at s p) AND (if p = 12 then 0x0f else 0x1f))"

definition name_shift :: "nat \<Rightarrow> nat" where
  "name_shift p = (if p = 12 then 0 else 59 - 5 * p)"

definition name_value :: "string \<Rightarrow> u64" where
  "name_value s = foldr (OR) (map (\<lambda>p. push_bit (name_shift p) (name_symbol s p)) [0..<13]) 0"

lemma bit_foldr_or: "bit (foldr (OR) ws (0 :: u64)) i \<longleftrightarrow> (\<exists>w\<in>set ws. bit w i)"
  by (induction ws) (auto simp: bit_or_iff)

lemma string_to_uint64_loop_value:
  assumes "CHR 0x00 \<notin> set s" "i \<le> 12"
  shows "\<exists>j. string_to_uint64_loop s i n =
      (j, n OR foldr (OR) (map (\<lambda>p. push_bit (name_shift p) (name_symbol s p)) [i..<12]) 0)
    \<and> (j = 12 \<or> length s \<le> j \<and> j < 12)"
  using assms(2)
proof (induction "12 - i" arbitrary: i n)
  case 0
  then show ?case
    by (simp add: string_to_uint64_loop.simps)
next
  case (Suc k)
  then have i: "i < 12" and k: "k = 12 - (i + 1)"
    by auto
  show ?case
  proof (cases "i < length s")
    case True
    then have "str_at s i \<noteq> CHR 0x00"
      using assms(1) by (metis nth_mem str_at_def)
    moreover have "push_bit (64 - 5 * (i + 1)) (char_to_symbol (str_at s i) AND 0x1f)
        = push_bit (name_shift i) (name_symbol s i)"
      using i by (simp add: name_shift_def name_symbol_def)
    ultimately show ?thesis
      using Suc.hyps(1) [OF k, of "n OR push_bit (name_shift i) (name_symbol s i)"] i
      by (simp add: string_to_uint64_loop.simps [of s i] upt_conv_Cons or.assoc)
  next
    case False
    have "name_symbol s p = 0" if "p \<ge> i" for p
      using that False by (simp add: name_symbol_def str_at_def)
    then have "foldr (OR) (map (\<lambda>p. push_bit (name_shift p) (name_symbol s p)) [i..<12]) 0 = (0 :: u64)"
      by (intro bit_word_eqI) (auto simp: bit_foldr_or)
    with False i show ?thesis
      by (simp add: string_to_uint64_loop.simps [of s i] str_at_def)
  qed
qed

lemma string_to_uint64_value:
  assumes "CHR 0x00 \<notin> set s"
  shows "string_to_uint64_t s = name_value s"
proof -
  let ?g = "\<lambda>p. push_bit (name_shift p) (name_symbol s p)"
  obtain j where loop: "string_to_uint64_loop s 0 0 = (j, foldr (OR) (map ?g [0..<12]) 0)"
    and j: "j = 12 \<or> length s \<le> j \<and> j < 12"
    using string_to_uint64_loop_value [OF assms, of 0 0] by auto
  have split: "name_value s = foldr (OR) (map ?g [0..<12]) 0 OR ?g 12"
  proof -
    have "[0..<13] = [0..<12] @ [12::nat]"
      by (simp add: upt_conv_Cons)
    then show ?thesis
      by (intro bit_word_eqI) (simp only: name_value_def bit_foldr_or bit_or_iff, auto)
  qed
  show ?thesis
  proof (cases "j = 12")
    case True
    then show ?thesis
      by (simp add: string_to_uint64_t_def loop split name_shift_def name_symbol_def)
  next
    case False
    with j have "?g 12 = 0"
      by (simp add: name_symbol_def str_at_def)
    with False show ?thesis
      by (simp add: string_to_uint64_t_def loop split)
  qed
qed

section \<open>Printing, digit by digit\<close>

definition name_digit :: "u64 \<Rightarrow> nat \<Rightarrow> u64" where
  "name_digit v p = (drop_bit (name_shift p) v AND (if p = 12 then 0x0f else 0x1f))"

definition name_chars :: "u64 \<Rightarrow> string" where
  "name_chars v = map (\<lambda>p. charmap ! unat (name_digit v p)) [0..<13]"

lemma length_to_string_loop [simp]: "length (to_string_loop i str tmp) = length str"
proof (induction i str tmp rule: to_string_loop.induct)
  case (1 i str tmp)
  then show ?case
    by (simp add: to_string_loop.simps [of i str tmp])
qed

lemma to_string_loop_nth:
  assumes "length str = 13" "p < 13"
  shows "to_string_loop i str (drop_bit (5 * i - 1) v) ! p
       = (if p + i \<le> 12 then charmap ! unat (name_digit v p) else str ! p)"
  using assms(1)
proof (induction "13 - i" arbitrary: i str)
  case 0
  then show ?case
    by (simp add: to_string_loop.simps)
next
  case (Suc k)
  let ?t = "drop_bit (5 * i - 1) v"
  let ?str = "str[12 - i := charmap ! unat (name_digit v (12 - i))]"
  have i: "i \<le> 12" and k: "k = 13 - (i + 1)"
    using Suc.hyps(2) by auto
  have dig: "?t AND (if i = 0 then 0x0f else 0x1f) = name_digit v (12 - i)"
  proof -
    have "name_shift (12 - i) = 5 * i - 1"
      using i by (cases "i = 0") (auto simp: name_shift_def)
    then show ?thesis
      using i by (auto simp: name_digit_def)
  qed
  have "drop_bit (if i = 0 then 4 else 5) ?t = drop_bit (5 * (i + 1) - 1) v"
    by auto
  then have "to_string_loop i str ?t = to_string_loop (i + 1) ?str (drop_bit (5 * (i + 1) - 1) v)"
    using i by (subst to_string_loop.simps) (simp only: dig if_True)
  then show ?case
    using Suc.hyps(1) [OF k, of ?str] Suc.prems i assms(2)
    by (auto simp: nth_list_update)
qed

lemma to_string_loop_chars: "to_string_loop 0 (replicate 13 CHR ''.'') v = name_chars v"
proof (rule nth_equalityI)
  fix p assume "p < length (to_string_loop 0 (replicate 13 CHR ''.'') v)"
  then have "p < 13"
    by simp
  then show "to_string_loop 0 (replicate 13 CHR ''.'') v ! p = name_chars v ! p"
    using to_string_loop_nth [of "replicate 13 CHR ''.''" p 0 v] by (simp add: name_chars_def)
qed (simp add: name_chars_def)

lemma bit_low_mask:
  "bit ((w :: u64) AND 0x1f) j \<longleftrightarrow> bit w j \<and> j < 5"
  "bit ((w :: u64) AND 0x0f) j \<longleftrightarrow> bit w j \<and> j < 4"
proof -
  have eq: "(0x1f :: u64) = mask 5" "(0x0f :: u64) = mask 4"
    by (simp_all add: mask_eq_exp_minus_1)
  show "bit (w AND 0x1f) j \<longleftrightarrow> bit w j \<and> j < 5" "bit (w AND 0x0f) j \<longleftrightarrow> bit w j \<and> j < 4"
    unfolding eq by (auto simp: bit_and_iff bit_mask_iff)
qed

definition name_width :: "nat \<Rightarrow> nat" where
  "name_width p = (if p = 12 then 4 else 5)"

lemma bit_name_digit: "bit (name_digit v p) j \<longleftrightarrow> j < name_width p \<and> bit v (name_shift p + j)"
  by (auto simp: name_digit_def name_width_def bit_low_mask bit_drop_bit_eq)

lemma bit_name_symbol: "bit (name_symbol s p) j \<longleftrightarrow> j < name_width p \<and> bit (char_to_symbol (str_at s p)) j"
  by (auto simp: name_symbol_def name_width_def bit_low_mask)

lemma name_slot_ex: "i < 64 \<Longrightarrow> \<exists>p<13. name_shift p \<le> i \<and> i - name_shift p < name_width p"
proof (cases "i < 4")
  case True
  then show ?thesis
    by (intro exI [of _ 12]) (simp add: name_shift_def name_width_def)
next
  case False
  assume "i < 64"
  with False have "name_shift (11 - (i - 4) div 5) = 4 + 5 * ((i - 4) div 5)"
    by (auto simp: name_shift_def)
  moreover have "4 + 5 * ((i - 4) div 5) \<le> i" "i - (4 + 5 * ((i - 4) div 5)) < 5"
    using False by presburger+
  moreover have "11 - (i - 4) div 5 < 12"
    by simp
  ultimately show ?thesis
    by (intro exI [of _ "11 - (i - 4) div 5"]) (simp add: name_width_def)
qed

lemma name_slot_unique:
  assumes "p < 13" "q < 13" "j < name_width p" "name_shift q \<le> name_shift p + j"
    "name_shift p + j - name_shift q < name_width q"
  shows "q = p"
  using assms by (auto simp: name_shift_def name_width_def split: if_splits)

lemma bit_name_value:
  assumes "i < 64"
  shows "bit (name_value s) i \<longleftrightarrow> (\<exists>p<13. name_shift p \<le> i \<and> bit (name_symbol s p) (i - name_shift p))"
  using assms by (auto simp: name_value_def bit_foldr_or bit_push_bit_iff)

lemma name_value_digits:
  assumes "\<And>p. p < 13 \<Longrightarrow> name_symbol s p = name_digit v p"
  shows "name_value s = v"
proof (rule bit_word_eqI)
  fix i assume "i < LENGTH(64)"
  then have i: "i < 64"
    by simp
  show "bit (name_value s) i = bit v i"
    using name_slot_ex [OF i] assms by (auto simp: bit_name_value [OF i] bit_name_digit)
qed

lemma name_digit_value:
  assumes "p < 13"
  shows "name_digit (name_value s) p = name_symbol s p"
proof (rule bit_word_eqI)
  fix j assume "j < LENGTH(64)"
  show "bit (name_digit (name_value s) p) j = bit (name_symbol s p) j"
  proof (cases "j < name_width p")
    case True
    then have lt: "name_shift p + j < 64"
      using assms by (auto simp: name_shift_def name_width_def split: if_splits)
    have "bit (name_value s) (name_shift p + j) \<longleftrightarrow> bit (name_symbol s p) j"
    proof
      assume "bit (name_value s) (name_shift p + j)"
      then obtain q where q: "q < 13" "name_shift q \<le> name_shift p + j"
        "bit (name_symbol s q) (name_shift p + j - name_shift q)"
        by (auto simp: bit_name_value [OF lt])
      then have "name_shift p + j - name_shift q < name_width q"
        by (simp add: bit_name_symbol)
      with q assms True have "q = p"
        by (intro name_slot_unique [of p q j]) auto
      with q show "bit (name_symbol s p) j"
        by simp
    next
      assume "bit (name_symbol s p) j"
      then show "bit (name_value s) (name_shift p + j)"
        using assms by (auto simp: bit_name_value [OF lt] intro!: exI [of _ p])
    qed
    then show ?thesis
      using True by (simp add: bit_name_digit)
  next
    case False
    then show ?thesis
      by (simp add: bit_name_digit bit_name_symbol)
  qed
qed

lemma unat_name_digit: "unat (name_digit v p) < (if p = 12 then 16 else 32)"
proof -
  have "name_digit v p \<le> (if p = 12 then 0x0f else 0x1f)"
    by (auto simp: name_digit_def word_and_le1)
  then show ?thesis
    by (auto simp: word_le_nat_alt split: if_splits)
qed

section \<open>Properties\<close>

lemma name_chars_in_charmap: "c \<in> set (name_chars v) \<Longrightarrow> c \<in> set charmap"
proof -
  assume "c \<in> set (name_chars v)"
  then obtain p where "c = charmap ! unat (name_digit v p)"
    by (auto simp: name_chars_def)
  moreover have "unat (name_digit v p) < 32"
    using unat_name_digit [of v p] by (auto split: if_splits)
  ultimately show ?thesis
    by simp
qed

lemma trim_right_split: "\<exists>k. s = trim_right_if (\<lambda>c. c = d) s @ replicate k d"
proof -
  have "rev s = takeWhile (\<lambda>c. c = d) (rev s) @ dropWhile (\<lambda>c. c = d) (rev s)"
    by simp
  moreover have "takeWhile (\<lambda>c. c = d) (rev s) = replicate (length (takeWhile (\<lambda>c. c = d) (rev s))) d"
    by (induction s rule: rev_induct) auto
  ultimately show ?thesis
    unfolding trim_right_if_def by (metis rev_append rev_replicate rev_rev_ident)
qed

lemma trim_right_last: "trim_right_if P s \<noteq> [] \<Longrightarrow> \<not> P (last (trim_right_if P s))"
  unfolding trim_right_if_def by (metis hd_dropWhile last_rev rev.simps(1) rev_rev_ident)

lemma name_symbol_trim:
  "t = s @ replicate k CHR ''.'' \<Longrightarrow> name_symbol s p = name_symbol t p"
  by (auto simp: name_symbol_def str_at_def nth_append)

lemma name_to_string_split: "\<exists>k. name_chars v = name_to_string v @ replicate k CHR ''.''"
  using trim_right_split [of "name_chars v" "CHR ''.''"] by (simp add: name_to_string_def to_string_loop_chars)

lemma name_to_string_charmap: "set (name_to_string v) \<subseteq> set charmap"
  using name_to_string_split [of v] name_chars_in_charmap [of _ v] by (metis Un_iff set_append subsetI)

lemma name_symbol_chars: "p < 13 \<Longrightarrow> name_symbol (name_chars v) p = name_digit v p"
proof -
  assume p: "p < 13"
  have bound: "unat (name_digit v p) < 32"
    using unat_name_digit [of v p] by (auto split: if_splits)
  then have "char_to_symbol (str_at (name_chars v) p) = name_digit v p"
    using p by (simp add: str_at_def name_chars_def char_to_symbol_charmap)
  then show ?thesis
    by (simp add: name_symbol_def name_digit_def and.assoc)
qed

lemma string_to_uint64_name_to_string: "string_to_uint64_t (name_to_string v) = v"
proof -
  obtain k where k: "name_chars v = name_to_string v @ replicate k CHR ''.''"
    using name_to_string_split by blast
  have "string_to_uint64_t (name_to_string v) = name_value (name_to_string v)"
    using name_to_string_charmap [of v] nul_not_charmap by (intro string_to_uint64_value) auto
  also have "\<dots> = v"
    using name_symbol_trim [OF k] name_symbol_chars by (intro name_value_digits) simp
  finally show ?thesis .
qed

text \<open>
  Printing a name and parsing the text again gives the name back, for every 64 bit value:
  the text is accepted by \<^verbatim>\<open>name::set\<close> and no value is lost by the trimming of trailing dots.
\<close>

theorem name_roundtrip: "name_set (name_to_string v) = Inr v"
proof -
  have "length (name_to_string v) \<le> 13"
    using name_to_string_split [of v] by (metis name_chars_def length_append length_map length_upt le_add1 diff_zero)
  then show ?thesis
    by (simp add: name_set_def Let_def string_to_uint64_name_to_string)
qed

definition name_normal :: "string \<Rightarrow> bool" where
  "name_normal s \<longleftrightarrow> length s \<le> 13 \<and> set s \<subseteq> set charmap \<and> (s \<noteq> [] \<longrightarrow> last s \<noteq> CHR ''.'')
     \<and> (length s = 13 \<longrightarrow> s ! 12 \<in> set (take 16 charmap))"

lemma name_to_string_normal: "name_normal (name_to_string v)"
proof -
  obtain k where k: "name_chars v = name_to_string v @ replicate k CHR ''.''"
    using name_to_string_split by blast
  have len: "length (name_chars v) = 13"
    by (simp add: name_chars_def)
  have "name_to_string v ! 12 \<in> set (take 16 charmap)" if "length (name_to_string v) = 13"
  proof -
    have "name_to_string v ! 12 = name_chars v ! 12"
      using k that by (metis lessI nth_append numeral_eq_Suc pred_numeral_simps(3) BitM.simps(2) less_numeral_extra(4) numeral_less_iff semiring_norm(68) semiring_norm(79) semiring_norm(80))
    also have "\<dots> = charmap ! unat (name_digit v 12)"
      by (simp add: name_chars_def)
    also have "\<dots> = take 16 charmap ! unat (name_digit v 12)"
      using unat_name_digit [of v 12] by simp
    also have "\<dots> \<in> set (take 16 charmap)"
      using unat_name_digit [of v 12] by (intro nth_mem) simp
    finally show ?thesis .
  qed
  then show ?thesis
    using k len name_to_string_charmap [of v] trim_right_last
    by (auto simp: name_normal_def name_to_string_def)
qed

lemma small_mask:
  "k < 16 \<Longrightarrow> of_nat k AND 0x0f = (of_nat k :: u64)"
  "k < 32 \<Longrightarrow> of_nat k AND 0x1f = (of_nat k :: u64)"
proof -
  have "\<forall>k\<in>set [0..<16]. of_nat k AND 0x0f = (of_nat k :: u64)"
    "\<forall>k\<in>set [0..<32]. of_nat k AND 0x1f = (of_nat k :: u64)"
    by (simp_all add: upt_conv_Cons)
  then show "k < 16 \<Longrightarrow> of_nat k AND 0x0f = (of_nat k :: u64)"
    "k < 32 \<Longrightarrow> of_nat k AND 0x1f = (of_nat k :: u64)"
    by auto
qed

lemma name_chars_value:
  assumes "name_normal s"
  shows "name_chars (name_value s) = s @ replicate (13 - length s) CHR ''.''"
proof (rule nth_equalityI)
  show "length (name_chars (name_value s)) = length (s @ replicate (13 - length s) CHR ''.'')"
    using assms by (simp add: name_chars_def name_normal_def)
  fix p assume "p < length (name_chars (name_value s))"
  then have p: "p < 13"
    by (simp add: name_chars_def)
  then have "name_chars (name_value s) ! p = charmap ! unat (name_symbol s p)"
    by (simp add: name_chars_def name_digit_value)
  also have "\<dots> = (s @ replicate (13 - length s) CHR ''.'') ! p"
  proof (cases "p < length s")
    case True
    then have in_map: "s ! p \<in> set charmap"
      using assms by (auto simp: name_normal_def)
    have "char_to_symbol (s ! p) AND (if p = 12 then 0x0f else 0x1f) = char_to_symbol (s ! p)"
    proof (cases "p = 12")
      case True
      then have "s ! p \<in> set (take 16 charmap)"
        using assms \<open>p < length s\<close> by (auto simp: name_normal_def)
      then obtain k where "k < 16" "s ! p = charmap ! k"
        by (auto simp: in_set_conv_nth)
      with True show ?thesis
        by (simp add: char_to_symbol_charmap small_mask)
    next
      case False
      obtain k where "k < 32" "s ! p = charmap ! k"
        using in_map by (auto simp: in_set_conv_nth)
      with False show ?thesis
        by (simp add: char_to_symbol_charmap small_mask)
    qed
    then show ?thesis
      using True in_map by (simp add: name_symbol_def str_at_def charmap_symbol nth_append)
  next
    case False
    with p have "p - length s < 13 - length s"
      by simp
    with False show ?thesis
      by (simp add: name_symbol_def str_at_def nth_append charmap_def)
  qed
  finally show "name_chars (name_value s) ! p = (s @ replicate (13 - length s) CHR ''.'') ! p" .
qed

lemma name_to_string_value:
  assumes "name_normal s"
  shows "name_to_string (name_value s) = s"
proof -
  have "trim_right_if (\<lambda>c. c = CHR ''.'') (s @ replicate n CHR ''.'') = s" for n
  proof -
    have "dropWhile (\<lambda>c. c = CHR ''.'') (rev s) = rev s"
      using assms by (cases s rule: rev_cases) (auto simp: name_normal_def)
    then show ?thesis
      by (simp add: trim_right_if_def dropWhile_append)
  qed
  then show ?thesis
    by (simp add: name_to_string_def to_string_loop_chars name_chars_value [OF assms])
qed

text \<open>
  The strings a name accepts are exactly the normalised ones: at most thirteen characters of
  the character map, no trailing dot, and a thirteenth character of the first sixteen. Every other
  string is refused with the name exception.
\<close>

theorem name_set_accepts:
  "name_set s = (if name_normal s then Inr (string_to_uint64_t s) else Inl name_type_exception)"
proof (cases "name_normal s")
  case True
  then have "CHR 0x00 \<notin> set s" "length s \<le> 13"
    using nul_not_charmap by (auto simp: name_normal_def)
  with True show ?thesis
    by (simp add: name_set_def Let_def string_to_uint64_value name_to_string_value)
next
  case False
  then have "length s \<le> 13 \<Longrightarrow> name_to_string (string_to_uint64_t s) \<noteq> s"
    using name_to_string_normal [of "string_to_uint64_t s"] by auto
  with False show ?thesis
    by (auto simp: name_set_def Let_def eos_assert_def)
qed

end
