(* ===== verification/Authority.thy ===== *)
theory Authority
  imports Names "HOL-Library.Product_Lexorder" "HOL-Library.Multiset"
begin

text \<open>
  Authorities (\<^verbatim>\<open>authority.hpp\<close>): weighted keys, permissions and waits with a threshold, and the
  \<^verbatim>\<open>validate\<close> function that accepts one. Public keys are only compared for equality and order, so
  a key is a number; a permission level is the pair of actor and permission name, which the code
  orders lexicographically. The shared-memory copies of these structures hold the same values.
\<close>

type_synonym public_key_type = nat
type_synonym permission_level = "account_name \<times> name"

record permission_level_weight =
  plw_permission :: permission_level
  plw_weight :: nat

record key_weight =
  kw_key :: public_key_type
  kw_weight :: nat

record wait_weight =
  ww_wait_sec :: nat
  ww_weight :: nat

record authority =
  auth_threshold :: nat
  auth_keys :: "key_weight list"
  auth_accounts :: "permission_level_weight list"
  auth_waits :: "wait_weight list"

definition authority_of_key :: "public_key_type \<Rightarrow> nat \<Rightarrow> authority" where
  "authority_of_key k delay_sec =
     (if delay_sec > 0
      then \<lparr>auth_threshold = 2, auth_keys = [\<lparr>kw_key = k, kw_weight = 1\<rparr>], auth_accounts = [],
            auth_waits = [\<lparr>ww_wait_sec = delay_sec, ww_weight = 1\<rparr>]\<rparr>
      else \<lparr>auth_threshold = 1, auth_keys = [\<lparr>kw_key = k, kw_weight = 1\<rparr>], auth_accounts = [], auth_waits = []\<rparr>)"

definition authority_of_permission :: "permission_level \<Rightarrow> nat \<Rightarrow> authority" where
  "authority_of_permission p delay_sec =
     (if delay_sec > 0
      then \<lparr>auth_threshold = 2, auth_keys = [], auth_accounts = [\<lparr>plw_permission = p, plw_weight = 1\<rparr>],
            auth_waits = [\<lparr>ww_wait_sec = delay_sec, ww_weight = 1\<rparr>]\<rparr>
      else \<lparr>auth_threshold = 1, auth_keys = [], auth_accounts = [\<lparr>plw_permission = p, plw_weight = 1\<rparr>],
            auth_waits = []\<rparr>)"

text \<open>Sizes charged per element, rounded up to the alignment of 16.\<close>

definition billable_size_v :: "nat \<Rightarrow> nat" where
  "billable_size_v value = ((value + 16 - 1) div 16) * 16"

definition authority_get_billable_size :: "(public_key_type \<Rightarrow> nat) \<Rightarrow> authority \<Rightarrow> nat" where
  "authority_get_billable_size pack_size a =
     (let accounts_size = length (auth_accounts a) * billable_size_v 24;
          waits_size = length (auth_waits a) * billable_size_v 16;
          keys_size = fold (\<lambda>k acc. acc + billable_size_v 8 + pack_size (kw_key k)) (auth_keys a) 0
      in accounts_size + waits_size + keys_size)"

section \<open>Validation\<close>

text \<open>
  One of the three loops of \<^verbatim>\<open>validate\<close>: \<open>prev\<close> is the element seen before, \<open>tot\<close> the 32-bit total
  so far; the loop gives up when two neighbours are not in strictly ascending order.
\<close>

fun validate_items :: "('a \<Rightarrow> 'k :: linorder) \<Rightarrow> ('a \<Rightarrow> nat) \<Rightarrow> 'a option \<Rightarrow> nat \<Rightarrow> 'a list \<Rightarrow> nat option" where
  "validate_items k w prev tot [] = Some tot"
| "validate_items k w prev tot (x # xs) =
     (if (case prev of None \<Rightarrow> False | Some p \<Rightarrow> \<not> k p < k x) then None
      else validate_items k w (Some x) (add32 tot (w x)) xs)"

definition authority_validate :: "authority \<Rightarrow> bool" where
  "authority_validate a =
     (if length (auth_keys a) + length (auth_accounts a) + length (auth_waits a) > 2 ^ 16 then False
      else if auth_threshold a = 0 then False
      else (case validate_items kw_key kw_weight None 0 (auth_keys a) of
              None \<Rightarrow> False
            | Some tot \<Rightarrow>
                (case validate_items plw_permission plw_weight None tot (auth_accounts a) of
                   None \<Rightarrow> False
                 | Some tot \<Rightarrow>
                     if auth_waits a \<noteq> [] \<and> ww_wait_sec (hd (auth_waits a)) = 0 then False
                     else (case validate_items ww_wait_sec ww_weight None tot (auth_waits a) of
                             None \<Rightarrow> False
                           | Some tot \<Rightarrow> tot \<ge> auth_threshold a))))"

section \<open>What validation accepts\<close>

definition authority_total_weight :: "authority \<Rightarrow> nat" where
  "authority_total_weight a =
     sum_list (map kw_weight (auth_keys a)) + sum_list (map plw_weight (auth_accounts a))
     + sum_list (map ww_weight (auth_waits a))"

text \<open>Weights are 16-bit values.\<close>

definition weights_u16 :: "authority \<Rightarrow> bool" where
  "weights_u16 a \<longleftrightarrow> (\<forall>x\<in>set (auth_keys a). kw_weight x < 2 ^ 16) \<and> (\<forall>x\<in>set (auth_accounts a). plw_weight x < 2 ^ 16)
     \<and> (\<forall>x\<in>set (auth_waits a). ww_weight x < 2 ^ 16)"

lemma validate_items_Some:
  "validate_items k w (Some p) tot xs =
     (if sorted_wrt (<) (map k (p # xs)) then Some (fold (\<lambda>x t. add32 t (w x)) xs tot) else None)"
proof (induction xs arbitrary: p tot)
  case (Cons x xs)
  show ?case
    using less_trans by (auto simp: Cons.IH)
qed simp

lemma validate_items_None:
  "validate_items k w None tot xs =
     (if sorted_wrt (<) (map k xs) then Some (fold (\<lambda>x t. add32 t (w x)) xs tot) else None)"
  by (cases xs) (simp_all add: validate_items_Some)

lemma fold_add32:
  "tot + sum_list (map w xs) < 2 ^ 32 \<Longrightarrow> fold (\<lambda>x t. add32 t (w x)) xs tot = tot + sum_list (map w xs)"
  by (induction xs arbitrary: tot) (simp_all add: add32_small)

lemma sum_list_bound: "\<forall>x\<in>set xs. w x \<le> (b :: nat) \<Longrightarrow> sum_list (map w xs) \<le> length xs * b"
  by (induction xs) auto

lemma authority_total_weight_bound:
  assumes "length (auth_keys a) + length (auth_accounts a) + length (auth_waits a) \<le> 2 ^ 16" "weights_u16 a"
  shows "authority_total_weight a < 2 ^ 32"
proof -
  have "sum_list (map kw_weight (auth_keys a)) \<le> length (auth_keys a) * (2 ^ 16 - 1)"
    "sum_list (map plw_weight (auth_accounts a)) \<le> length (auth_accounts a) * (2 ^ 16 - 1)"
    "sum_list (map ww_weight (auth_waits a)) \<le> length (auth_waits a) * (2 ^ 16 - 1)"
    using assms(2) by (intro sum_list_bound; force simp: weights_u16_def)+
  then have "authority_total_weight a \<le> (length (auth_keys a) + length (auth_accounts a) + length (auth_waits a)) * (2 ^ 16 - 1)"
    by (simp add: authority_total_weight_def)
  also have "\<dots> \<le> 2 ^ 16 * (2 ^ 16 - 1)"
    using assms(1) by (intro mult_le_mono1)
  finally show ?thesis
    by simp
qed

text \<open>
  C15. \<^verbatim>\<open>validate\<close> accepts exactly the authorities that are well formed and can be satisfied: at
  most 65536 factors, a positive threshold, keys, permissions and waits each strictly ascending
  (hence without duplicates), no wait of zero, and weights whose true sum reaches the threshold;
  the 32-bit total it computes never wraps.
\<close>

theorem authority_validate_correct:
  assumes "weights_u16 a"
  shows "authority_validate a \<longleftrightarrow>
    length (auth_keys a) + length (auth_accounts a) + length (auth_waits a) \<le> 2 ^ 16
    \<and> 0 < auth_threshold a
    \<and> sorted_wrt (<) (map kw_key (auth_keys a))
    \<and> sorted_wrt (<) (map plw_permission (auth_accounts a))
    \<and> sorted_wrt (<) (map ww_wait_sec (auth_waits a)) \<and> 0 \<notin> set (map ww_wait_sec (auth_waits a))
    \<and> auth_threshold a \<le> authority_total_weight a"
proof (cases "length (auth_keys a) + length (auth_accounts a) + length (auth_waits a) \<le> 2 ^ 16")
  case True
  then have bound: "authority_total_weight a < 2 ^ 32"
    using assms by (rule authority_total_weight_bound)
  have zero: "(auth_waits a \<noteq> [] \<and> ww_wait_sec (hd (auth_waits a)) = 0) \<longleftrightarrow> 0 \<in> set (map ww_wait_sec (auth_waits a))"
    if "sorted_wrt (<) (map ww_wait_sec (auth_waits a))"
    using that by (cases "auth_waits a") force+
  show ?thesis
    using True bound zero
    by (auto simp: authority_validate_def validate_items_None fold_add32 authority_total_weight_def)
next
  case False
  then show ?thesis
    by (simp add: authority_validate_def)
qed

theorem authority_validate_correct_witness:
  "authority_validate \<lparr>auth_threshold = 3, auth_keys = [\<lparr>kw_key = 1, kw_weight = 1\<rparr>, \<lparr>kw_key = 2, kw_weight = 1\<rparr>],
     auth_accounts = [\<lparr>plw_permission = (5, 6), plw_weight = 1\<rparr>], auth_waits = [\<lparr>ww_wait_sec = 10, ww_weight = 1\<rparr>]\<rparr>
   \<and> \<not> authority_validate \<lparr>auth_threshold = 3, auth_keys = [\<lparr>kw_key = 1, kw_weight = 1\<rparr>, \<lparr>kw_key = 1, kw_weight = 2\<rparr>],
     auth_accounts = [], auth_waits = []\<rparr>"
  by (simp add: authority_validate_correct weights_u16_def authority_total_weight_def)

end
