(* ===== verification/Assets.thy ===== *)
theory Assets
  imports Names
begin

text \<open>
  Token symbols and amounts (\<^verbatim>\<open>symbol.hpp\<close>, \<^verbatim>\<open>asset.hpp\<close>, \<^verbatim>\<open>asset.cpp\<close>): the 64-bit encoding
  of a symbol, its textual forms, and the arithmetic of amounts. Trimming, conversion between
  strings and 64-bit integers and checked arithmetic belong to the \<^verbatim>\<open>fc\<close> library; they are the
  fields of \<open>fc_text\<close>, an argument of the definitions that use them, and \<open>fc_text_ok\<close> says what
  those functions are documented to do.
\<close>

section \<open>Strings\<close>

text \<open>\<^verbatim>\<open>std::to_string\<close> of an unsigned number.\<close>

definition digit_char :: "nat \<Rightarrow> char" where
  "digit_char d = char_of (48 + d)"

fun dec_string :: "nat \<Rightarrow> string" where
  "dec_string n = (if n < 10 then [digit_char n] else dec_string (n div 10) @ [digit_char (n mod 10)])"

declare dec_string.simps [simp del]

text \<open>\<^verbatim>\<open>std::string::find\<close> of a character; \<open>None\<close> is \<^verbatim>\<open>npos\<close>.\<close>

definition find_pos :: "char \<Rightarrow> string \<Rightarrow> nat option" where
  "find_pos c s = (if c \<in> set s then Some (length (takeWhile (\<lambda>x. x \<noteq> c) s)) else None)"

record fc_text =
  fc_trim :: "string \<Rightarrow> string"
  fc_to_string :: "int \<Rightarrow> string"
  fc_to_int64 :: "string \<Rightarrow> int result"
  safe_mul :: "int \<Rightarrow> int \<Rightarrow> int result"
  safe_add :: "int \<Rightarrow> int \<Rightarrow> int result"

section \<open>Symbols\<close>

type_synonym symbol = u64

definition max_precision :: nat where
  "max_precision = 18"

definition is_upper :: "char \<Rightarrow> bool" where
  "is_upper c \<longleftrightarrow> of_char CHR ''A'' \<le> (of_char c :: nat) \<and> (of_char c :: nat) \<le> of_char CHR ''Z''"

text \<open>The loop over the characters of the name; shifting a 64-bit value by 64 bits or more is undefined.\<close>

fun string_to_symbol_loop :: "nat \<Rightarrow> u64 \<Rightarrow> string \<Rightarrow> u64 result" where
  "string_to_symbol_loop i result [] = Inr result"
| "string_to_symbol_loop i result (c # str) =
     bind_r (eos_assert (is_upper c) symbol_type_exception) (\<lambda>_.
       if 8 * (i + 1) \<ge> 64 then Inl undefined_behaviour
       else string_to_symbol_loop (i + 1) (result OR push_bit (8 * (i + 1)) (of_char c)) str)"

definition string_to_symbol :: "u8 \<Rightarrow> string \<Rightarrow> u64 result" where
  "string_to_symbol precision str =
     bind_r (string_to_symbol_loop 0 0 (takeWhile (\<lambda>c. c \<noteq> CHR 0x00) str)) (\<lambda>result.
       Inr (result OR ucast precision))"

function symbol_name_loop :: "u64 \<Rightarrow> string" where
  "symbol_name_loop v = (if v > 0 then char_of (unat (v AND 0xFF)) # symbol_name_loop (drop_bit 8 v) else [])"
  by pat_completeness auto
termination
proof (relation "measure unat")
  fix v :: u64
  assume "0 < v"
  then have "0 < unat v"
    by (simp add: unat_gt_0 word_gt_0)
  then show "(drop_bit 8 v, v) \<in> measure unat"
    by (simp only: in_measure unat_drop_bit_eq) (simp add: drop_bit_eq_div)
qed simp

declare symbol_name_loop.simps [simp del]

definition symbol_name :: "symbol \<Rightarrow> string" where
  "symbol_name m_value = symbol_name_loop (drop_bit 8 m_value)"

definition symbol_decimals :: "symbol \<Rightarrow> u8" where
  "symbol_decimals m_value = ucast (m_value AND 0xFF)"

definition valid_name :: "string \<Rightarrow> bool" where
  "valid_name nm \<longleftrightarrow> list_all is_upper nm"

definition symbol_valid :: "symbol \<Rightarrow> bool" where
  "symbol_valid m_value \<longleftrightarrow> unat (symbol_decimals m_value) \<le> max_precision \<and> valid_name (symbol_name m_value)"

definition symbol_of_value :: "u64 \<Rightarrow> symbol result" where
  "symbol_of_value v = bind_r (eos_assert (symbol_valid v) symbol_type_exception) (\<lambda>_. Inr v)"

definition symbol_of_name :: "u8 \<Rightarrow> string \<Rightarrow> symbol result" where
  "symbol_of_name p s = bind_r (string_to_symbol p s) symbol_of_value"

definition symbol_from_string :: "fc_text \<Rightarrow> string \<Rightarrow> symbol result" where
  "symbol_from_string fx from =
     (let s = fc_trim fx from in
      bind_r (eos_assert (s \<noteq> []) symbol_type_exception) (\<lambda>_.
      bind_r (of_option symbol_type_exception (find_pos CHR '','' s)) (\<lambda>comma_pos.
        (let prec_part = take comma_pos s in
         bind_r (fc_to_int64 fx prec_part) (\<lambda>v.
           (let p = word_of_int v :: u8;
                name_part = drop (comma_pos + 1) s
            in bind_r (eos_assert (unat p \<le> max_precision) symbol_type_exception) (\<lambda>_.
               bind_r (string_to_symbol p name_part) symbol_of_value)))))))"

text \<open>The \<^verbatim>\<open>while\<close> loop multiplying by ten.\<close>

primrec pow10_loop :: "nat \<Rightarrow> u64 \<Rightarrow> u64" where
  "pow10_loop 0 p10 = p10"
| "pow10_loop (Suc p) p10 = pow10_loop p (p10 * 10)"

definition symbol_precision :: "symbol \<Rightarrow> u64 result" where
  "symbol_precision m_value =
     bind_r (eos_assert (unat (symbol_decimals m_value) \<le> max_precision) symbol_type_exception) (\<lambda>_.
       Inr (pow10_loop (unat (symbol_decimals m_value)) 1))"

definition symbol_to_string :: "symbol \<Rightarrow> string" where
  "symbol_to_string m_value = dec_string (unat (symbol_decimals m_value)) @ '','' @ symbol_name m_value"

definition to_symbol_code :: "symbol \<Rightarrow> u64" where
  "to_symbol_code m_value = drop_bit 8 m_value"

definition symbol_reflector_init :: "symbol \<Rightarrow> unit result" where
  "symbol_reflector_init m_value =
     bind_r (eos_assert (unat (symbol_decimals m_value) \<le> max_precision) symbol_type_exception) (\<lambda>_.
       eos_assert (valid_name (symbol_name m_value)) symbol_type_exception)"

section \<open>Assets\<close>

record asset =
  amount :: int
  sym :: symbol

definition max_amount :: int where
  "max_amount = 2 ^ 62 - 1"

definition is_amount_within_range :: "asset \<Rightarrow> bool" where
  "is_amount_within_range a \<longleftrightarrow> - max_amount \<le> amount a \<and> amount a \<le> max_amount"

definition asset_is_valid :: "asset \<Rightarrow> bool" where
  "asset_is_valid a \<longleftrightarrow> is_amount_within_range a \<and> symbol_valid (sym a)"

definition make_asset :: "int \<Rightarrow> symbol \<Rightarrow> asset result" where
  "make_asset n i =
     (let a = \<lparr>amount = n, sym = i\<rparr> in
      bind_r (eos_assert (is_amount_within_range a) asset_type_exception) (\<lambda>_.
      bind_r (eos_assert (symbol_valid (sym a)) asset_type_exception) (\<lambda>_. Inr a)))"

definition asset_reflector_init :: "asset \<Rightarrow> unit result" where
  "asset_reflector_init a =
     bind_r (eos_assert (is_amount_within_range a) asset_type_exception) (\<lambda>_.
       eos_assert (symbol_valid (sym a)) asset_type_exception)"

text \<open>Signed 64-bit arithmetic whose overflow C++ leaves undefined.\<close>

definition i64_op :: "int \<Rightarrow> int result" where
  "i64_op x = (if is_i64 x then Inr x else Inl undefined_behaviour)"

definition asset_add_assign :: "asset \<Rightarrow> asset \<Rightarrow> asset result" where
  "asset_add_assign a b =
     bind_r (eos_assert (sym a = sym b) asset_type_exception) (\<lambda>_.
     bind_r (i64_op (amount a + amount b)) (\<lambda>n. Inr (a\<lparr>amount := n\<rparr>)))"

definition asset_sub_assign :: "asset \<Rightarrow> asset \<Rightarrow> asset result" where
  "asset_sub_assign a b =
     bind_r (eos_assert (sym a = sym b) asset_type_exception) (\<lambda>_.
     bind_r (i64_op (amount a - amount b)) (\<lambda>n. Inr (a\<lparr>amount := n\<rparr>)))"

definition asset_neg :: "asset \<Rightarrow> asset result" where
  "asset_neg a = bind_r (i64_op (- amount a)) (\<lambda>n. make_asset n (sym a))"

definition asset_sub :: "asset \<Rightarrow> asset \<Rightarrow> asset result" where
  "asset_sub a b =
     bind_r (eos_assert (sym a = sym b) asset_type_exception) (\<lambda>_.
     bind_r (i64_op (amount a - amount b)) (\<lambda>n. make_asset n (sym a)))"

definition asset_add :: "asset \<Rightarrow> asset \<Rightarrow> asset result" where
  "asset_add a b =
     bind_r (eos_assert (sym a = sym b) asset_type_exception) (\<lambda>_.
     bind_r (i64_op (amount a + amount b)) (\<lambda>n. make_asset n (sym a)))"

definition asset_eq :: "asset \<Rightarrow> asset \<Rightarrow> bool" where
  "asset_eq a b \<longleftrightarrow> sym a = sym b \<and> amount a = amount b"

definition asset_less :: "asset \<Rightarrow> asset \<Rightarrow> bool result" where
  "asset_less a b =
     bind_r (eos_assert (sym a = sym b) asset_type_exception) (\<lambda>_.
       Inr (amount a < amount b \<or> (amount a = amount b \<and> sym a < sym b)))"

definition asset_less_eq :: "asset \<Rightarrow> asset \<Rightarrow> bool result" where
  "asset_less_eq a b = (if asset_eq a b then Inr True else asset_less a b)"

definition asset_greater :: "asset \<Rightarrow> asset \<Rightarrow> bool result" where
  "asset_greater a b = bind_r (asset_less_eq a b) (\<lambda>r. Inr (\<not> r))"

definition asset_greater_eq :: "asset \<Rightarrow> asset \<Rightarrow> bool result" where
  "asset_greater_eq a b = bind_r (asset_less a b) (\<lambda>r. Inr (\<not> r))"

text \<open>
  \<^verbatim>\<open>std::abs\<close> of the least 64-bit integer is undefined; the precision is read as a signed number.
\<close>

definition asset_to_string :: "fc_text \<Rightarrow> asset \<Rightarrow> string result" where
  "asset_to_string fx a =
     (let sign = (if amount a < 0 then ''-'' else '''') in
      bind_r (i64_op \<bar>amount a\<bar>) (\<lambda>abs_amount.
      bind_r (symbol_precision (sym a)) (\<lambda>p10.
        (let precision = sint p10;
             result = fc_to_string fx (tdiv abs_amount precision);
             result = (if symbol_decimals (sym a) \<noteq> 0
                       then (let fract = abs_amount - precision * tdiv abs_amount precision
                             in result @ ''.'' @ drop 1 (fc_to_string fx (precision + fract)))
                       else result)
         in Inr (sign @ result @ '' '' @ symbol_name (sym a))))))"

definition asset_from_string :: "fc_text \<Rightarrow> string \<Rightarrow> asset result" where
  "asset_from_string fx from =
     (let s = fc_trim fx from in
      bind_r (of_option asset_type_exception (find_pos CHR '' '' s)) (\<lambda>space_pos.
        (let symbol_str = fc_trim fx (drop (space_pos + 1) s);
             amount_str = take space_pos s;
             dot_pos = find_pos CHR ''.'' amount_str
         in bind_r (case dot_pos of None \<Rightarrow> Inr ()
                    | Some d \<Rightarrow> eos_assert (d \<noteq> length amount_str - 1) asset_type_exception) (\<lambda>_.
            (let precision_digit_str = (case dot_pos of None \<Rightarrow> ''0'' | Some d \<Rightarrow> dec_string (length amount_str - d - 1));
                 symbol_part = precision_digit_str @ '','' @ symbol_str
             in bind_r (symbol_from_string fx symbol_part) (\<lambda>sym.
                bind_r (case dot_pos of
                          None \<Rightarrow> bind_r (fc_to_int64 fx amount_str) (\<lambda>int_part. Inr (int_part, 0))
                        | Some d \<Rightarrow>
                            bind_r (fc_to_int64 fx (take d amount_str)) (\<lambda>int_part.
                            bind_r (fc_to_int64 fx (drop (d + 1) amount_str)) (\<lambda>fract_part.
                            bind_r (if str_at amount_str 0 = CHR ''-'' then safe_mul fx fract_part (- 1) else Inr fract_part) (\<lambda>fract_part.
                              Inr (int_part, fract_part))))) (\<lambda>(int_part, fract_part).
                bind_r (symbol_precision sym) (\<lambda>p10.
                bind_r (safe_mul fx int_part (sint p10)) (\<lambda>amount.
                bind_r (safe_add fx amount fract_part) (\<lambda>amount.
                  make_asset amount sym))))))))))"

section \<open>What the library functions promise\<close>

definition is_digit :: "char \<Rightarrow> bool" where
  "is_digit c \<longleftrightarrow> of_char CHR ''0'' \<le> (of_char c :: nat) \<and> (of_char c :: nat) \<le> of_char CHR ''9''"

definition dec_value :: "string \<Rightarrow> nat" where
  "dec_value s = foldl (\<lambda>n c. 10 * n + (of_char c - 48)) 0 s"

definition is_space :: "char \<Rightarrow> bool" where
  "is_space c \<longleftrightarrow> c \<in> {CHR '' '', CHR 0x09, CHR 0x0A, CHR 0x0B, CHR 0x0C, CHR 0x0D}"

text \<open>
  Trimming leaves a string alone that neither starts nor ends with white space; numbers are
  printed and read in decimal; checked arithmetic returns the exact result when it fits.
\<close>

definition fc_text_ok :: "fc_text \<Rightarrow> bool" where
  "fc_text_ok fx \<longleftrightarrow>
     (\<forall>s. s = [] \<or> (\<not> is_space (hd s) \<and> \<not> is_space (last s)) \<longrightarrow> fc_trim fx s = s) \<and>
     (\<forall>n. 0 \<le> n \<and> is_i64 n \<longrightarrow> fc_to_string fx n = dec_string (nat n)) \<and>
     (\<forall>s. s \<noteq> [] \<and> list_all is_digit s \<and> dec_value s < 2 ^ 63 \<longrightarrow>
        fc_to_int64 fx s = Inr (int (dec_value s)) \<and> fc_to_int64 fx (CHR ''-'' # s) = Inr (- int (dec_value s))) \<and>
     (\<forall>a b. is_i64 (a * b) \<longrightarrow> safe_mul fx a b = Inr (a * b)) \<and>
     (\<forall>a b. is_i64 (a + b) \<longrightarrow> safe_add fx a b = Inr (a + b))"

section \<open>Bytes of a symbol\<close>

text \<open>The number whose base-256 digits, least significant first, are the characters of a string.\<close>

fun bytes_value :: "string \<Rightarrow> nat" where
  "bytes_value [] = 0"
| "bytes_value (c # s) = of_char c + 256 * bytes_value s"

lemma of_char_less: "(of_char c :: nat) < 256"
  by simp

lemma unat_u8_less: "unat p < 256" for p :: u8
  using unsigned_less [of p] by simp

lemma unat_u64_less: "unat v < 2 ^ 64" for v :: u64
  using unsigned_less [of v] by simp

lemma unat_or_push_bit:
  fixes r :: u64
  assumes "unat r < 2 ^ k" "n < 2 ^ (64 - k)" "k \<le> 64"
  shows "unat (r OR push_bit k (of_nat n)) = unat r + n * 2 ^ k"
proof -
  have n64: "n < 2 ^ 64"
    using assms(2) by (rule order_less_le_trans) (rule power_increasing, simp_all)
  have hi: "\<not> bit r i" if "k \<le> i" for i
  proof -
    have "take_bit k (unat r) = unat r"
      using assms(1) by (simp add: take_bit_nat_eq_self)
    then have "bit (unat r) i \<longleftrightarrow> i < k \<and> bit (unat r) i"
      by (metis bit_take_bit_iff)
    then show ?thesis
      using that by (simp add: bit_unsigned_iff)
  qed
  then have "\<not> bit r i \<or> \<not> bit (push_bit k (of_nat n) :: u64) i" for i
    using hi [of i] by (auto simp: bit_push_bit_iff)
  then have "r OR push_bit k (of_nat n) = r + push_bit k (of_nat n)"
    by (metis disjunctive_add)
  moreover have "push_bit k (of_nat n) = (of_nat (n * 2 ^ k) :: u64)"
    by (simp add: push_bit_eq_mult)
  moreover have "n * 2 ^ k < 2 ^ 64" "unat r + n * 2 ^ k < 2 ^ 64"
  proof -
    have "n + 1 \<le> 2 ^ (64 - k)"
      using assms(2) by simp
    then have "(n + 1) * 2 ^ k \<le> 2 ^ (64 - k) * 2 ^ k"
      by (rule mult_right_mono) simp
    then have "n * 2 ^ k + 2 ^ k \<le> 2 ^ 64"
      using assms(3) by (simp add: power_add [symmetric])
    then show "n * 2 ^ k < 2 ^ 64" "unat r + n * 2 ^ k < 2 ^ 64"
      using assms(1) by (auto simp: add_less_le_mono)
  qed
  ultimately show ?thesis
    by (simp only: unat_word_ariths(1) unat_of_nat len_of_numeral_defs) simp
qed

lemma bytes_value_bound: "bytes_value s < 256 ^ length s"
proof (induction s)
  case (Cons c s)
  then show ?case
    using of_char_less [of c] unfolding bytes_value.simps length_Cons power_Suc by linarith
qed simp

text \<open>Building a symbol from its name, and reading the name back.\<close>

lemma string_to_symbol_loop_value:
  assumes "list_all is_upper s" "i + length s \<le> 7" "unat r < 2 ^ (8 * (i + 1))"
  shows "\<exists>v. string_to_symbol_loop i r s = Inr v \<and> unat v = unat r + bytes_value s * 2 ^ (8 * (i + 1))"
  using assms
proof (induction s arbitrary: i r)
  case (Cons c s)
  let ?k = "8 * (i + 1)"
  let ?r = "r OR push_bit ?k (of_char c)"
  have "of_char c = (of_nat (of_char c) :: u64)"
    by (rule of_nat_of_char [symmetric])
  moreover have "(of_char c :: nat) < 2 ^ (64 - ?k)"
  proof -
    have "(2 :: nat) ^ 8 \<le> 2 ^ (64 - ?k)"
      using Cons.prems(2) by (intro power_increasing) simp_all
    then show ?thesis
      by (rule order_less_le_trans [rotated]) simp
  qed
  ultimately have r: "unat ?r = unat r + of_char c * 2 ^ ?k"
    using unat_or_push_bit [of r ?k "of_char c"] Cons.prems by simp
  have "unat r + of_char c * 2 ^ ?k < 256 * 2 ^ ?k"
  proof -
    have "(of_char c + 1 :: nat) * 2 ^ ?k \<le> 256 * 2 ^ ?k"
      using of_char_less [of c] by (intro mult_right_mono) (simp_all only: Suc_leI Suc_eq_plus1 [symmetric] zero_le)
    then show ?thesis
      using Cons.prems(3) by (simp only: add_mult_distrib)
  qed
  then have "unat ?r < 2 ^ (8 * (i + 1 + 1))"
    unfolding r by (simp add: power_add)
  then obtain v where "string_to_symbol_loop (i + 1) ?r s = Inr v"
      "unat v = unat ?r + bytes_value s * 2 ^ (8 * (i + 1 + 1))"
    using Cons.IH [of "i + 1" ?r] Cons.prems by auto
  then show ?case
    using Cons.prems r by (simp add: power_add algebra_simps)
qed simp

lemma unat_drop_bit_8: "unat (drop_bit 8 v) = unat v div 256" for v :: u64
  by (simp only: unat_drop_bit_eq) (simp add: drop_bit_eq_div)

lemma unat_and_255: "unat (v AND 0xFF) = unat v mod 256" for v :: u64
proof -
  have "v AND 0xFF = take_bit 8 v"
    by (simp add: take_bit_eq_mask mask_eq_exp_minus_1)
  then show ?thesis
    by (simp only: unsigned_take_bit_eq) (simp add: take_bit_eq_mod)
qed

lemma symbol_name_loop_Nil [simp]: "symbol_name_loop 0 = []"
  by (simp add: symbol_name_loop.simps)

lemma bytes_value_name: "bytes_value (symbol_name_loop v) = unat v"
proof (induction v rule: symbol_name_loop.induct)
  case (1 v)
  show ?case
  proof (cases "v > 0")
    case True
    have "unat v mod 256 + 256 * (unat v div 256) = unat v"
      by simp
    then show ?thesis
      using 1 True by (simp add: symbol_name_loop.simps [of v] unat_and_255 unat_drop_bit_8)
  qed (simp add: symbol_name_loop.simps word_gt_0)
qed

lemma symbol_name_loop_value:
  assumes "unat v = bytes_value s" "CHR 0x00 \<notin> set s"
  shows "symbol_name_loop v = s"
  using assms
proof (induction s arbitrary: v)
  case Nil
  then show ?case
    by (simp add: unat_eq_zero)
next
  case (Cons c s)
  have "(of_char c :: nat) \<noteq> 0"
  proof
    assume "(of_char c :: nat) = 0"
    then have "char_of (of_char c :: nat) = CHR 0x00"
      by (simp add: char_of_def)
    then show False
      using Cons.prems(2) by simp
  qed
  then have pos: "v > 0"
    using Cons.prems(1) by (auto simp: word_gt_0)
  have "unat v mod 256 = of_char c" "unat v div 256 = bytes_value s"
    using Cons.prems(1) of_char_less [of c] by simp_all
  moreover have "symbol_name_loop (drop_bit 8 v) = s"
    using Cons calculation(2) by (simp add: unat_drop_bit_8)
  ultimately show ?case
    by (simp add: symbol_name_loop.simps [of v] pos unat_and_255)
qed

lemma upper_not_nul: "is_upper c \<Longrightarrow> c \<noteq> CHR 0x00"
  by (auto simp: is_upper_def)

lemma symbol_name_upper_length: "length (symbol_name_loop v) \<le> n" if "unat v < 256 ^ n"
  using that
proof (induction n arbitrary: v)
  case 0
  then show ?case
    by (simp add: unat_eq_zero)
next
  case (Suc n)
  then have "unat v div 256 < 256 ^ n"
    by (simp add: less_mult_imp_div_less)
  then show ?case
    using Suc.IH [of "drop_bit 8 v"] by (simp add: symbol_name_loop.simps [of v] unat_drop_bit_8)
qed

lemma string_to_symbol_value:
  assumes "list_all is_upper s" "length s \<le> 7"
  shows "\<exists>v. string_to_symbol p s = Inr v \<and> unat v = unat p + 256 * bytes_value s"
proof -
  have tw: "takeWhile (\<lambda>c. c \<noteq> CHR 0x00) s = s"
    using assms(1) upper_not_nul by (auto simp: takeWhile_eq_all_conv list_all_iff)
  obtain v where v: "string_to_symbol_loop 0 0 s = Inr v" "unat v = bytes_value s * 256"
    using string_to_symbol_loop_value [of s 0 0] assms by auto
  moreover have "unat (v OR ucast p) = unat p + 256 * bytes_value s"
  proof -
    have p: "unat (ucast p :: u64) = unat p" "unat p < 256"
      using unat_u8_less [of p] by (simp_all add: unsigned_ucast_eq take_bit_nat_eq_self)
    have "bytes_value s < 256 ^ 7"
      using bytes_value_bound [of s] power_increasing [OF assms(2), of "256 :: nat"] by simp
    then have "unat (ucast p OR push_bit 8 (of_nat (bytes_value s)) :: u64) = unat (ucast p :: u64) + bytes_value s * 2 ^ 8"
      using p by (intro unat_or_push_bit) simp_all
    moreover have "push_bit 8 (of_nat (bytes_value s)) = (of_nat (unat v) :: u64)"
      unfolding v(2) by (simp add: push_bit_eq_mult)
    ultimately show ?thesis
      by (simp add: or.commute p)
  qed
  ultimately show ?thesis
    by (simp add: string_to_symbol_def tw v(1))
qed

lemma decimals_value: "unat (symbol_decimals v) = unat v mod 256"
proof -
  have "unat (symbol_decimals v) = unat (v AND 0xFF) mod 256"
    by (simp add: symbol_decimals_def unsigned_ucast_eq take_bit_eq_mod)
  then show ?thesis
    by (simp add: unat_and_255)
qed

section \<open>Round trip of symbols\<close>

lemma dec_string_less: "n < 10 \<Longrightarrow> dec_string n = [digit_char n]"
  by (simp add: dec_string.simps)

lemma digit_char_digit: "d < 10 \<Longrightarrow> is_digit (digit_char d) \<and> of_char (digit_char d) - 48 = d"
  by (simp add: is_digit_def digit_char_def)

lemma dec_value_snoc: "dec_value (s @ [c]) = 10 * dec_value s + (of_char c - 48)"
  by (simp add: dec_value_def)

lemma dec_string_ok: "dec_string n \<noteq> [] \<and> list_all is_digit (dec_string n) \<and> dec_value (dec_string n) = n"
proof (induction n rule: dec_string.induct)
  case (1 n)
  show ?case
  proof (cases "n < 10")
    case True
    then show ?thesis
      using digit_char_digit [of n] by (simp add: dec_string_less dec_value_def)
  next
    case False
    then show ?thesis
      using 1 digit_char_digit [of "n mod 10"] by (simp add: dec_string.simps [of n] dec_value_snoc)
  qed
qed

text \<open>The last digits of a number, padded with zeros.\<close>

primrec pad_digits :: "nat \<Rightarrow> nat \<Rightarrow> string" where
  "pad_digits 0 f = []"
| "pad_digits (Suc d) f = pad_digits d (f div 10) @ [digit_char (f mod 10)]"

lemma dec_string_pad: "f < 10 ^ d \<Longrightarrow> dec_string (10 ^ d + f) = CHR ''1'' # pad_digits d f"
proof (induction d arbitrary: f)
  case 0
  then show ?case
    by (simp add: dec_string_less digit_char_def char_of_def bit_simps)
next
  case (Suc d)
  then have "f div 10 < 10 ^ d"
    by (simp add: less_mult_imp_div_less)
  moreover have "(10 ^ Suc d + f) div 10 = 10 ^ d + f div 10" "(10 ^ Suc d + f) mod 10 = f mod 10"
    by simp_all
  moreover have "\<not> 10 ^ Suc d + f < 10"
    using one_le_power [of "10 :: nat" d] unfolding power_Suc by linarith
  ultimately show ?case
    using Suc.IH by (simp add: dec_string.simps [of "10 ^ Suc d + f"] del: power_Suc)
qed

lemma pad_digits_ok:
  "f < 10 ^ d \<Longrightarrow> length (pad_digits d f) = d \<and> list_all is_digit (pad_digits d f) \<and> dec_value (pad_digits d f) = f"
proof (induction d arbitrary: f)
  case 0
  then show ?case
    by (simp add: dec_value_def)
next
  case (Suc d)
  then have "f div 10 < 10 ^ d"
    by (simp add: less_mult_imp_div_less)
  then show ?case
    using Suc.IH [of "f div 10"] digit_char_digit [of "f mod 10"] by (simp add: dec_value_snoc)
qed

lemma not_space: "is_digit c \<Longrightarrow> \<not> is_space c" "is_upper c \<Longrightarrow> \<not> is_space c" "\<not> is_space CHR ''-''"
  by (auto simp: is_digit_def is_upper_def is_space_def)

lemma not_punct: "is_digit c \<Longrightarrow> c \<notin> {CHR '','', CHR ''.'', CHR '' '', CHR ''-''}" "is_upper c \<Longrightarrow> c \<notin> {CHR '','', CHR ''.'', CHR '' ''}"
  by (auto simp: is_digit_def is_upper_def)

lemma find_pos_append: "c \<notin> set s \<Longrightarrow> find_pos c (s @ c # t) = Some (length s)"
  by (auto simp: find_pos_def takeWhile_append)

lemma find_pos_None: "c \<notin> set s \<Longrightarrow> find_pos c s = None"
  by (simp add: find_pos_def)

text \<open>The value of a valid symbol is rebuilt from its precision and its name.\<close>

lemma symbol_rebuild:
  assumes "symbol_valid v"
  shows "string_to_symbol (symbol_decimals v) (symbol_name v) = Inr v"
proof -
  have "unat (drop_bit 8 v) < 256 ^ 7"
    using unat_u64_less [of v] by (simp add: unat_drop_bit_8 less_mult_imp_div_less)
  then have "length (symbol_name v) \<le> 7"
    unfolding symbol_name_def by (rule symbol_name_upper_length)
  then obtain w where w: "string_to_symbol (symbol_decimals v) (symbol_name v) = Inr w"
      "unat w = unat (symbol_decimals v) + 256 * bytes_value (symbol_name v)"
    using string_to_symbol_value assms by (auto simp: symbol_valid_def valid_name_def)
  have "unat w = unat v mod 256 + 256 * (unat v div 256)"
    by (simp add: w(2) decimals_value symbol_name_def bytes_value_name unat_drop_bit_8)
  then have "w = v"
    by (metis mod_mult_div_eq word_unat_eq_iff)
  then show ?thesis
    by (simp add: w(1))
qed

text \<open>
  The same holds for what is read: the symbol built from a name of at most seven capital letters
  has that name and that precision.
\<close>

lemma symbol_of_name_reads:
  assumes "list_all is_upper s" "length s \<le> 7" "unat p \<le> max_precision"
  shows "\<exists>v. symbol_of_name p s = Inr v \<and> symbol_name v = s \<and> symbol_decimals v = p \<and> symbol_valid v"
proof -
  obtain v where v: "string_to_symbol p s = Inr v" "unat v = unat p + 256 * bytes_value s"
    using string_to_symbol_value assms by blast
  note p = unat_u8_less [of p]
  have "symbol_name v = s"
    unfolding symbol_name_def using assms(1) upper_not_nul p
    by (intro symbol_name_loop_value) (auto simp: unat_drop_bit_8 v(2) list_all_iff)
  moreover have "symbol_decimals v = p"
    using p by (simp add: word_unat_eq_iff decimals_value v(2))
  ultimately show ?thesis
    using assms v(1) by (simp add: symbol_of_name_def symbol_of_value_def symbol_valid_def valid_name_def)
qed

lemma fc_text_okD:
  assumes "fc_text_ok fx"
  shows "s = [] \<or> (\<not> is_space (hd s) \<and> \<not> is_space (last s)) \<Longrightarrow> fc_trim fx s = s"
    and "0 \<le> n \<Longrightarrow> is_i64 n \<Longrightarrow> fc_to_string fx n = dec_string (nat n)"
    and "t \<noteq> [] \<Longrightarrow> list_all is_digit t \<Longrightarrow> dec_value t < 2 ^ 63 \<Longrightarrow> fc_to_int64 fx t = Inr (int (dec_value t))"
    and "t \<noteq> [] \<Longrightarrow> list_all is_digit t \<Longrightarrow> dec_value t < 2 ^ 63 \<Longrightarrow> fc_to_int64 fx (CHR ''-'' # t) = Inr (- int (dec_value t))"
    and "is_i64 (a * b) \<Longrightarrow> safe_mul fx a b = Inr (a * b)"
    and "is_i64 (a + b) \<Longrightarrow> safe_add fx a b = Inr (a + b)"
  using assms unfolding fc_text_ok_def by blast+

text \<open>The precision is read modulo 256.\<close>

lemma symbol_from_string_number:
  assumes "fc_text_ok fx" "symbol_valid v" "k < 2 ^ 63" "of_nat k = symbol_decimals v"
  shows "symbol_from_string fx (dec_string k @ '','' @ symbol_name v) = Inr v"
proof -
  let ?d = "dec_string k" and ?n = "symbol_name v"
  let ?s = "?d @ CHR '','' # ?n"
  have d: "?d \<noteq> []" "list_all is_digit ?d" "dec_value ?d = k"
    using dec_string_ok by auto
  have dec: "unat (symbol_decimals v) \<le> 18" and up: "list_all is_upper ?n"
    using assms(2) by (auto simp: symbol_valid_def max_precision_def valid_name_def)
  have "\<not> is_space (hd ?s)"
    using d(1,2) not_space(1) by (cases ?d) auto
  moreover have "\<not> is_space (last ?s)"
    using up not_space(2) by (cases "?n = []") (auto simp: list_all_iff is_space_def)
  ultimately have "fc_trim fx ?s = ?s"
    using fc_text_okD(1) [OF assms(1)] by blast
  moreover have "CHR '','' \<notin> set ?d"
    using d(2) not_punct(1) by (auto simp: list_all_iff)
  moreover have "fc_to_int64 fx ?d = Inr (int k)"
    using fc_text_okD(3) [OF assms(1) d(1,2)] d(3) assms(3) by simp
  ultimately show ?thesis
    using symbol_rebuild [OF assms(2)] dec assms(2,4)
    by (simp add: symbol_from_string_def Let_def find_pos_append max_precision_def symbol_of_value_def)
qed

lemma symbol_from_string_parts:
  assumes "fc_text_ok fx" "symbol_valid v"
  shows "symbol_from_string fx (dec_string (unat (symbol_decimals v)) @ '','' @ symbol_name v) = Inr v"
  using assms unat_u8_less [of "symbol_decimals v"] by (intro symbol_from_string_number) simp_all

text \<open>
  Printing a valid symbol and parsing the text gives the symbol back, and so does building it
  from its precision and its name.
\<close>

lemma symbol_roundtrip:
  assumes "fc_text_ok fx" "symbol_valid v"
  shows "symbol_from_string fx (symbol_to_string v) = Inr v \<and> symbol_of_name (symbol_decimals v) (symbol_name v) = Inr v"
  using symbol_from_string_parts [OF assms] symbol_rebuild [OF assms(2)] assms(2)
  by (simp add: symbol_to_string_def symbol_of_name_def symbol_of_value_def)

section \<open>Arithmetic of assets\<close>

lemma make_asset_iff: "make_asset n i = Inr a \<longleftrightarrow> a = \<lparr>amount = n, sym = i\<rparr> \<and> asset_is_valid a"
  by (auto simp: make_asset_def Let_def bind_r_Inr_iff asset_is_valid_def)

lemma valid_amount: "asset_is_valid a \<Longrightarrow> \<bar>amount a\<bar> < 2 ^ 62"
  by (auto simp: asset_is_valid_def is_amount_within_range_def max_amount_def)

lemma asset_operators:
  assumes "asset_is_valid a" "asset_is_valid b"
  shows "asset_add a b = (if sym a = sym b \<and> \<bar>amount a + amount b\<bar> \<le> max_amount
                          then Inr \<lparr>amount = amount a + amount b, sym = sym a\<rparr> else Inl asset_type_exception)"
    and "asset_sub a b = (if sym a = sym b \<and> \<bar>amount a - amount b\<bar> \<le> max_amount
                          then Inr \<lparr>amount = amount a - amount b, sym = sym a\<rparr> else Inl asset_type_exception)"
    and "asset_neg a = Inr \<lparr>amount = - amount a, sym = sym a\<rparr>"
    and "\<And>c. asset_add a b = Inr c \<or> asset_sub a b = Inr c \<or> asset_neg a = Inr c \<Longrightarrow> asset_is_valid c"
proof -
  have ab: "\<bar>amount a\<bar> < 2 ^ 62" "\<bar>amount b\<bar> < 2 ^ 62" "symbol_valid (sym a)" "- max_amount \<le> amount a \<and> amount a \<le> max_amount"
    using assms valid_amount by (auto simp: asset_is_valid_def is_amount_within_range_def)
  have "is_i64 (amount a + amount b)" "is_i64 (amount a - amount b)" "is_i64 (- amount a)"
    using ab(1,2) by (auto simp: is_i64_def)
  then show "asset_add a b = (if sym a = sym b \<and> \<bar>amount a + amount b\<bar> \<le> max_amount
                          then Inr \<lparr>amount = amount a + amount b, sym = sym a\<rparr> else Inl asset_type_exception)"
    and "asset_sub a b = (if sym a = sym b \<and> \<bar>amount a - amount b\<bar> \<le> max_amount
                          then Inr \<lparr>amount = amount a - amount b, sym = sym a\<rparr> else Inl asset_type_exception)"
    and "asset_neg a = Inr \<lparr>amount = - amount a, sym = sym a\<rparr>"
    using ab(3,4)
    by (auto simp: asset_add_def asset_sub_def asset_neg_def i64_op_def make_asset_def is_amount_within_range_def eos_assert_def)
  show "asset_is_valid c" if "asset_add a b = Inr c \<or> asset_sub a b = Inr c \<or> asset_neg a = Inr c" for c
    using that by (auto simp: asset_add_def asset_sub_def asset_neg_def bind_r_Inr_iff make_asset_iff)
qed

text \<open>
  Sums, differences and negations of valid assets are valid assets and carry the exact
  amounts: the operators throw exactly when the symbols differ or the result leaves the range
  of amounts, and never overflow.
\<close>

theorem asset_arithmetic:
  assumes "asset_is_valid a" "asset_is_valid b"
  shows "asset_add a b = (if sym a = sym b \<and> \<bar>amount a + amount b\<bar> \<le> max_amount
                          then Inr \<lparr>amount = amount a + amount b, sym = sym a\<rparr> else Inl asset_type_exception) \<and>
         asset_sub a b = (if sym a = sym b \<and> \<bar>amount a - amount b\<bar> \<le> max_amount
                          then Inr \<lparr>amount = amount a - amount b, sym = sym a\<rparr> else Inl asset_type_exception) \<and>
         asset_neg a = Inr \<lparr>amount = - amount a, sym = sym a\<rparr> \<and>
         (\<forall>c. asset_add a b = Inr c \<or> asset_sub a b = Inr c \<or> asset_neg a = Inr c \<longrightarrow> asset_is_valid c)"
  by (intro conjI allI impI asset_operators [OF assms])

section \<open>Round trip of assets\<close>

lemma pow10_loop_value: "pow10_loop d x = x * 10 ^ d"
  by (induction d arbitrary: x) (simp_all add: mult.assoc)

lemma precision_value:
  assumes "symbol_valid v"
  shows "\<exists>p10. symbol_precision v = Inr p10 \<and> sint p10 = 10 ^ unat (symbol_decimals v)"
proof -
  let ?d = "unat (symbol_decimals v)"
  have d: "?d \<le> 18"
    using assms by (simp add: symbol_valid_def max_precision_def)
  have "(10 :: int) ^ ?d \<le> 10 ^ 18"
    using d by (intro power_increasing) simp_all
  then have "sint (word_of_int (10 ^ ?d) :: u64) = 10 ^ ?d"
    unfolding sint_sbintrunc' by (intro signed_take_bit_int_eq_self) (simp_all add: order_trans [OF _ zero_le_power])
  then show ?thesis
    using d by (simp add: symbol_precision_def max_precision_def pow10_loop_value)
qed

definition asset_digits :: "nat \<Rightarrow> nat \<Rightarrow> string" where
  "asset_digits d m = dec_string (m div 10 ^ d) @ (if d = 0 then [] else CHR ''.'' # pad_digits d (m mod 10 ^ d))"

definition asset_sign :: "asset \<Rightarrow> string" where
  "asset_sign a = (if amount a < 0 then ''-'' else [])"

lemma small_sum_i64: "0 \<le> x \<Longrightarrow> x < y \<Longrightarrow> y \<le> 10 ^ 18 \<Longrightarrow> is_i64 (y + x)"
  by (simp add: is_i64_def)

lemma asset_to_string_parts:
  assumes "fc_text_ok fx" "asset_is_valid a"
  shows "asset_to_string fx a =
    Inr (asset_sign a @ asset_digits (unat (symbol_decimals (sym a))) (nat \<bar>amount a\<bar>) @ CHR '' '' # symbol_name (sym a))"
proof -
  let ?d = "unat (symbol_decimals (sym a))" and ?m = "nat \<bar>amount a\<bar>"
  have m: "int ?m = \<bar>amount a\<bar>" "\<bar>amount a\<bar> < 2 ^ 62"
    using valid_amount [OF assms(2)] by simp_all
  have v: "symbol_valid (sym a)"
    using assms(2) by (simp add: asset_is_valid_def)
  then have "(10 :: int) ^ ?d \<le> 10 ^ 18"
    by (intro power_increasing) (simp_all add: symbol_valid_def max_precision_def)
  obtain p10 where p10: "symbol_precision (sym a) = Inr p10" "sint p10 = int (10 ^ ?d)"
    using precision_value [OF v] by auto
  have q: "tdiv \<bar>amount a\<bar> (int (10 ^ ?d)) = int (?m div 10 ^ ?d)"
    by (cases "amount a = 0") (simp_all add: tdiv_def zdiv_int)
  then have f: "\<bar>amount a\<bar> - int (10 ^ ?d) * tdiv \<bar>amount a\<bar> (int (10 ^ ?d)) = int (?m mod 10 ^ ?d)"
    using m(1) by (metis minus_mult_div_eq_mod zdiv_int zmod_int)
  have le: "int (?m div 10 ^ ?d) \<le> int ?m"
    by (simp only: of_nat_le_iff div_le_dividend)
  have qs: "fc_to_string fx (int (?m div 10 ^ ?d)) = dec_string (?m div 10 ^ ?d)"
    using fc_text_okD(2) [OF assms(1), of "int (?m div 10 ^ ?d)"] le m by (auto simp: is_i64_def)
  have "int (?m mod 10 ^ ?d) < int (10 ^ ?d)"
    by (simp only: of_nat_less_iff mod_less_divisor zero_less_power zero_less_numeral)
  then have "is_i64 (int (10 ^ ?d + ?m mod 10 ^ ?d))"
    unfolding of_nat_add using \<open>(10 :: int) ^ ?d \<le> 10 ^ 18\<close> by (intro small_sum_i64) simp_all
  then have "fc_to_string fx (int (10 ^ ?d) + int (?m mod 10 ^ ?d)) = dec_string (10 ^ ?d + ?m mod 10 ^ ?d)"
    using fc_text_okD(2) [OF assms(1), of "int (10 ^ ?d + ?m mod 10 ^ ?d)"]
    unfolding of_nat_add [symmetric] by (simp only: nat_int of_nat_0_le_iff)
  then have fs: "drop 1 (fc_to_string fx (int (10 ^ ?d) + int (?m mod 10 ^ ?d))) = pad_digits ?d (?m mod 10 ^ ?d)"
    by (simp add: dec_string_pad)
  have "is_i64 \<bar>amount a\<bar>" "symbol_decimals (sym a) \<noteq> 0 \<longleftrightarrow> ?d \<noteq> 0"
    using m(2) by (auto simp: is_i64_def unat_eq_zero)
  then show ?thesis
    using f [folded p10(2)] q [folded p10(2)] qs fs [folded p10(2)]
    by (auto simp: asset_to_string_def p10(1) i64_op_def asset_digits_def asset_sign_def)
qed

lemma signed_i64: "0 \<le> x \<Longrightarrow> x < 2 ^ 62 \<Longrightarrow> is_i64 ((if b then - 1 else 1) * x)"
  by (simp add: is_i64_def)

lemma asset_digits_chars:
  "asset_digits d m \<noteq> [] \<and> is_digit (hd (asset_digits d m)) \<and> (\<forall>c\<in>set (asset_digits d m). is_digit c \<or> c = CHR ''.'')"
proof -
  have "is_digit (hd (dec_string n))" for n
    using dec_string_ok [of n] by (cases "dec_string n") auto
  then show ?thesis
    using dec_string_ok [of "m div 10 ^ d"] pad_digits_ok [of "m mod 10 ^ d" d]
    by (auto simp: asset_digits_def list_all_iff)
qed

text \<open>The two halves of the number are read back with the sign of the amount.\<close>

lemma read_signed:
  assumes "fc_text_ok fx" "t \<noteq> []" "list_all is_digit t" "dec_value t < 2 ^ 63"
  shows "fc_to_int64 fx (asset_sign a @ t) = Inr ((if amount a < 0 then - 1 else 1) * int (dec_value t))"
  using fc_text_okD(3,4) [OF assms] by (simp add: asset_sign_def)

lemma asset_amount_parts:
  "(if n < 0 then - 1 else 1) * int (nat \<bar>n\<bar> div p) * int p + (if n < 0 then - 1 else 1) * int (nat \<bar>n\<bar> mod p) = n"
proof -
  have "int (nat \<bar>n\<bar> div p) * int p + int (nat \<bar>n\<bar> mod p) = \<bar>n\<bar>"
    by (metis abs_ge_zero div_mult_mod_eq int_nat_eq of_nat_add of_nat_mult)
  then show ?thesis
    by (auto simp: algebra_simps split: if_splits)
qed

lemma asset_digits_dot:
  "find_pos CHR ''.'' (asset_sign a @ asset_digits d m) =
     (if d = 0 then None else Some (length (asset_sign a @ dec_string (m div 10 ^ d))))"
proof -
  have "CHR ''.'' \<notin> set (dec_string n)" for n
    using dec_string_ok [of n] not_punct(1) by (auto simp: list_all_iff)
  then have nd: "CHR ''.'' \<notin> set (asset_sign a @ dec_string (m div 10 ^ d))"
    by (auto simp: asset_sign_def)
  show ?thesis
    using find_pos_append [OF nd, of "pad_digits d (m mod 10 ^ d)"] find_pos_None [OF nd]
    by (cases "d = 0") (simp_all add: asset_digits_def)
qed

text \<open>Evaluation of the parser on a number, with and without a decimal point, and a name.\<close>

lemma asset_from_string_nodot:
  assumes "fc_trim fx (A @ CHR '' '' # n) = A @ CHR '' '' # n" "fc_trim fx n = n" "CHR '' '' \<notin> set A"
    and "find_pos CHR ''.'' A = None" "symbol_from_string fx (''0'' @ '','' @ n) = Inr v" "symbol_precision v = Inr p10"
    and "fc_to_int64 fx A = Inr i" "safe_mul fx i (sint p10) = Inr x" "safe_add fx x 0 = Inr z"
  shows "asset_from_string fx (A @ CHR '' '' # n) = make_asset z v"
  using assms by (simp add: asset_from_string_def find_pos_append)

lemma asset_from_string_dot:
  assumes "fc_trim fx (A @ CHR '' '' # n) = A @ CHR '' '' # n" "fc_trim fx n = n" "CHR '' '' \<notin> set A"
    and "A = L @ CHR ''.'' # D" "CHR ''.'' \<notin> set L" "D \<noteq> []"
    and "symbol_from_string fx (dec_string (length D) @ '','' @ n) = Inr v" "symbol_precision v = Inr p10"
    and "fc_to_int64 fx L = Inr i" "fc_to_int64 fx D = Inr g"
    and "(if str_at A 0 = CHR ''-'' then safe_mul fx g (- 1) else Inr g) = Inr f"
    and "safe_mul fx i (sint p10) = Inr x" "safe_add fx x f = Inr z"
  shows "asset_from_string fx (A @ CHR '' '' # n) = make_asset z v"
proof -
  have "find_pos CHR '' '' (A @ CHR '' '' # n) = Some (length A)"
    by (rule find_pos_append [OF assms(3)])
  moreover have "find_pos CHR ''.'' A = Some (length L)"
    unfolding assms(4) by (rule find_pos_append [OF assms(5)])
  moreover have "length A = length L + 1 + length D" "take (length L) A = L" "drop (length L + 1) A = D"
    using assms(4) by simp_all
  moreover have "length L \<noteq> length L + length D"
    using assms(6) by simp
  ultimately show ?thesis
    using assms(1,2,7-) by (simp add: asset_from_string_def)
qed

text \<open>The two halves of an amount, put together again.\<close>

lemma signed_parts:
  assumes "fc_text_ok fx" "\<bar>n\<bar> < 2 ^ 62" "sg = (if n < 0 then - 1 else 1)" "q = nat \<bar>n\<bar> div p" "f = nat \<bar>n\<bar> mod p"
  shows "safe_mul fx (sg * int q) (int p) = Inr (sg * int q * int p)"
    and "safe_add fx (sg * int q * int p) (sg * int f) = Inr n"
    and "safe_mul fx (int f) (- 1) = Inr (- int f)" "q < 2 ^ 62" "f < 2 ^ 62"
proof -
  have m: "nat \<bar>n\<bar> < 2 ^ 62"
    using assms(2) by (simp add: nat_less_iff)
  have "q * p \<le> nat \<bar>n\<bar>"
    unfolding assms(4) by (rule div_times_less_eq_dividend)
  then have "q * p < 2 ^ 62"
    using m by simp
  then have "int q * int p < 2 ^ 62"
    by (metis of_nat_less_iff of_nat_mult of_nat_numeral of_nat_power)
  then have "is_i64 (sg * int q * int p)"
    unfolding assms(3) mult.assoc by (intro signed_i64) simp_all
  then show "safe_mul fx (sg * int q) (int p) = Inr (sg * int q * int p)"
    using fc_text_okD(5) [OF assms(1)] by blast
  have "sg * int q * int p + sg * int f = n"
    unfolding assms(3-5) by (rule asset_amount_parts)
  moreover have "is_i64 n"
    using assms(2) by (auto simp: is_i64_def)
  ultimately show "safe_add fx (sg * int q * int p) (sg * int f) = Inr n"
    using fc_text_okD(6) [OF assms(1)] by metis
  show qf: "q < 2 ^ 62" "f < 2 ^ 62"
    unfolding assms(4,5) using m by (meson div_le_dividend mod_less_eq_dividend le_less_trans)+
  then show "safe_mul fx (int f) (- 1) = Inr (- int f)"
    using fc_text_okD(5) [OF assms(1), of "int f" "- 1"] by (simp add: is_i64_def)
qed

text \<open>
  C38. Printing a valid asset whose symbol has a name and parsing the text gives the asset back:
  no digit is lost, whatever the sign and the number of decimals.
\<close>

theorem asset_roundtrip:
  assumes fx: "fc_text_ok fx" and a: "asset_is_valid a" and ne: "symbol_name (sym a) \<noteq> []"
  shows "\<exists>s. asset_to_string fx a = Inr s \<and> asset_from_string fx s = Inr a"
proof -
  let ?d = "unat (symbol_decimals (sym a))" and ?m = "nat \<bar>amount a\<bar>" and ?n = "symbol_name (sym a)"
  let ?A = "asset_sign a @ asset_digits ?d ?m" and ?q = "?m div 10 ^ ?d" and ?f = "?m mod 10 ^ ?d"
  let ?sg = "if amount a < 0 then - 1 else (1 :: int)"
  have v: "symbol_valid (sym a)" and up: "list_all is_upper ?n"
    using a by (auto simp: asset_is_valid_def symbol_valid_def valid_name_def)
  have A: "?A \<noteq> []" "\<not> is_space (hd ?A)" "CHR '' '' \<notin> set ?A" "str_at ?A 0 = CHR ''-'' \<longleftrightarrow> amount a < 0"
    using asset_digits_chars [of ?d ?m] not_space not_punct(1) [of "hd (asset_digits ?d ?m)"] not_punct(1) [of "CHR '' ''"]
    by (auto simp: asset_sign_def str_at_def hd_conv_nth)
  have n: "\<not> is_space (hd ?n)" "\<not> is_space (last ?n)"
    using up ne not_space(2) by (auto simp: list_all_iff)
  have "hd (?A @ CHR '' '' # ?n) = hd ?A" "last (?A @ CHR '' '' # ?n) = last ?n"
    using A(1) ne by (simp_all only: hd_append2 last_appendR last_ConsR list.distinct not_False_eq_True)
  then have trim: "fc_trim fx (?A @ CHR '' '' # ?n) = ?A @ CHR '' '' # ?n" "fc_trim fx ?n = ?n"
    using fc_text_okD(1) [OF fx, of "?A @ CHR '' '' # ?n"] fc_text_okD(1) [OF fx, of ?n] A(2) n by (simp_all only: simp_thms)
  note q = dec_string_ok [of ?q] and f = pad_digits_ok [of ?f ?d]
  note parts = signed_parts [OF fx valid_amount [OF a] refl refl refl, of "10 ^ ?d"]
  obtain p10 where p10: "symbol_precision (sym a) = Inr p10" "sint p10 = int (10 ^ ?d)"
    using precision_value [OF v] by auto
  have L: "fc_to_int64 fx (asset_sign a @ dec_string ?q) = Inr (?sg * int ?q)"
    using read_signed [OF fx, of "dec_string ?q" a] q parts(4) by simp
  have "asset_from_string fx (?A @ CHR '' '' # ?n) = make_asset (amount a) (sym a)"
  proof (cases "?d = 0")
    case True
    have "''0'' = dec_string ?d"
      by (simp add: True dec_string_less digit_char_def char_of_def bit_simps)
    then show ?thesis
      using True parts L symbol_from_string_parts [OF fx v] asset_digits_dot [of a ?d ?m]
      by (intro asset_from_string_nodot [OF trim A(3) _ _ p10(1)]) (simp_all only: p10(2), simp_all add: asset_digits_def)
  next
    case False
    have eq: "?A = (asset_sign a @ dec_string ?q) @ CHR ''.'' # pad_digits ?d ?f"
      using False by (simp add: asset_digits_def)
    have nd: "CHR ''.'' \<notin> set (asset_sign a @ dec_string ?q)"
      using q not_punct(1) by (auto simp: list_all_iff asset_sign_def)
    have ne: "pad_digits ?d ?f \<noteq> []"
      using f False by auto
    have sy: "symbol_from_string fx (dec_string (length (pad_digits ?d ?f)) @ '','' @ ?n) = Inr (sym a)"
      using symbol_from_string_parts [OF fx v] f by simp
    have D: "fc_to_int64 fx (pad_digits ?d ?f) = Inr (int ?f)"
      using fc_text_okD(3) [OF fx ne] f parts(5) by simp
    have sg: "(if str_at ?A 0 = CHR ''-'' then safe_mul fx (int ?f) (- 1) else Inr (int ?f)) = Inr (?sg * int ?f)"
      unfolding A(4) parts(3) by (simp split: if_splits)
    show ?thesis
      by (rule asset_from_string_dot [OF trim A(3) eq nd ne sy p10(1) L D sg parts(1,2) [folded p10(2)]])
  qed
  then show ?thesis
    using asset_to_string_parts [OF fx a] a by (simp add: make_asset_iff)
qed

section \<open>Errors of the parser\<close>

text \<open>
  The precision of a symbol is reduced to eight bits before it is compared with the greatest
  one: \<open>256 + p\<close> is read as \<open>p\<close>.
\<close>

theorem symbol_precision_wraps:
  assumes "fc_text_ok fx" "symbol_valid v"
  shows "symbol_from_string fx (dec_string (256 + unat (symbol_decimals v)) @ '','' @ symbol_name v) = Inr v"
proof -
  have z: "(256 :: u8) = 0"
    by simp
  have "of_nat (256 + unat (symbol_decimals v)) = symbol_decimals v"
    unfolding of_nat_add of_nat_numeral z by simp
  then show ?thesis
    using assms unat_u8_less [of "symbol_decimals v"] by (intro symbol_from_string_number) simp_all
qed

section \<open>A concrete library\<close>

definition sample_to_int64 :: "string \<Rightarrow> int result" where
  "sample_to_int64 s =
     (if s \<noteq> [] \<and> list_all is_digit s \<and> dec_value s < 2 ^ 63 then Inr (int (dec_value s))
      else if s \<noteq> [] \<and> hd s = CHR ''-'' \<and> tl s \<noteq> [] \<and> list_all is_digit (tl s) \<and> dec_value (tl s) < 2 ^ 63
      then Inr (- int (dec_value (tl s))) else Inl parse_error_exception)"

definition sample_text :: fc_text where
  "sample_text =
     \<lparr>fc_trim = \<lambda>s. rev (dropWhile is_space (rev (dropWhile is_space s))),
      fc_to_string = \<lambda>n. if n < 0 then CHR ''-'' # dec_string (nat (- n)) else dec_string (nat n),
      fc_to_int64 = sample_to_int64,
      safe_mul = \<lambda>a b. if is_i64 (a * b) then Inr (a * b) else Inl overflow_exception,
      safe_add = \<lambda>a b. if is_i64 (a + b) then Inr (a + b) else Inl overflow_exception\<rparr>"

lemma sample_text_ok: "fc_text_ok sample_text"
proof -
  have drop: "dropWhile is_space s = s" if "s \<noteq> []" "\<not> is_space (hd s)" for s
    using that by (cases s) auto
  have trim: "rev (dropWhile is_space (rev (dropWhile is_space s))) = s" if "\<not> is_space (hd s)" "\<not> is_space (last s)" for s
    using that drop [of s] drop [of "rev s"] by (cases "s = []") (auto simp: hd_rev)
  have "\<not> is_digit CHR ''-''"
    by (simp add: is_digit_def)
  then show ?thesis
    by (auto simp: fc_text_ok_def sample_text_def sample_to_int64_def trim)
qed

text \<open>The symbol \<^verbatim>\<open>4,EOS\<close>, and an amount of it.\<close>

definition sample_symbol :: symbol where
  "sample_symbol = 0x534F4504"

lemma sample_symbol_parts: "symbol_name sample_symbol = ''EOS''" "symbol_decimals sample_symbol = 4"
  by (simp_all add: symbol_name_def symbol_decimals_def sample_symbol_def symbol_name_loop.simps char_of_def bit_simps)

lemma sample_symbol_valid: "symbol_valid sample_symbol"
  by (simp add: symbol_valid_def sample_symbol_parts valid_name_def is_upper_def max_precision_def)

lemma symbol_roundtrip_sample:
  "symbol_from_string sample_text (symbol_to_string sample_symbol) = Inr sample_symbol"
  using symbol_roundtrip [OF sample_text_ok sample_symbol_valid] by simp

theorem symbol_precision_wraps_witness:
  "symbol_from_string sample_text (dec_string (256 + 4) @ '','' @ ''EOS'') = Inr sample_symbol"
  using symbol_precision_wraps [OF sample_text_ok sample_symbol_valid] by (simp add: sample_symbol_parts)

theorem asset_roundtrip_witness:
  "\<exists>s. asset_to_string sample_text \<lparr>amount = - 15, sym = sample_symbol\<rparr> = Inr s
     \<and> asset_from_string sample_text s = Inr \<lparr>amount = - 15, sym = sample_symbol\<rparr>"
  by (rule asset_roundtrip [OF sample_text_ok])
    (simp_all add: asset_is_valid_def is_amount_within_range_def max_amount_def sample_symbol_valid sample_symbol_parts)

theorem asset_arithmetic_witness:
  "asset_add \<lparr>amount = 5, sym = sample_symbol\<rparr> \<lparr>amount = - 7, sym = sample_symbol\<rparr> = Inr \<lparr>amount = - 2, sym = sample_symbol\<rparr>"
proof -
  have "asset_is_valid \<lparr>amount = n, sym = sample_symbol\<rparr>" if "\<bar>n\<bar> \<le> max_amount" for n
    using that by (auto simp: asset_is_valid_def is_amount_within_range_def sample_symbol_valid)
  then have "asset_is_valid \<lparr>amount = 5, sym = sample_symbol\<rparr>" "asset_is_valid \<lparr>amount = - 7, sym = sample_symbol\<rparr>"
    by (simp_all add: max_amount_def)
  from asset_arithmetic [OF this] show ?thesis
    by (simp add: max_amount_def)
qed

end
