(* ===== verification/Producer_Schedule.thy ===== *)
theory Producer_Schedule
  imports Authority
begin

text \<open>
  Producer schedules (\<^verbatim>\<open>producer_schedule.hpp\<close>): the authorities that sign blocks, their weighted
  key check, and the conversion of the schedules of the legacy format. The copies the database
  keeps in shared memory hold the same values.
\<close>

record legacy_producer_key =
  pk_producer_name :: account_name
  pk_block_signing_key :: public_key_type

record legacy_producer_schedule =
  lps_version :: nat
  lps_producers :: "legacy_producer_key list"

record block_signing_authority_v0 =
  bsa_threshold :: nat
  bsa_keys :: "key_weight list"

datatype block_signing_authority = bsa_v0 block_signing_authority_v0

record producer_authority =
  pa_producer_name :: account_name
  pa_authority :: block_signing_authority

record producer_authority_schedule =
  sched_version :: nat
  sched_producers :: "producer_authority list"

definition empty_schedule :: producer_authority_schedule where
  "empty_schedule = \<lparr>sched_version = 0, sched_producers = []\<rparr>"

text \<open>One key of the loop; the total saturates and stops growing once the threshold is reached.\<close>

definition satisfy_step :: "public_key_type set \<Rightarrow> nat \<Rightarrow> key_weight \<Rightarrow> nat \<times> nat \<Rightarrow> nat \<times> nat" where
  "satisfy_step presented_keys threshold kw = (\<lambda>(total_weight, num_relevant_keys).
     if kw_key kw \<in> presented_keys
     then (if total_weight < threshold then total_weight + min (u32_max - total_weight) (kw_weight kw) else total_weight,
           num_relevant_keys + 1)
     else (total_weight, num_relevant_keys))"

definition keys_satisfy_and_relevant_v0 :: "public_key_type set \<Rightarrow> block_signing_authority_v0 \<Rightarrow> bool \<times> nat" where
  "keys_satisfy_and_relevant_v0 presented_keys a =
     (case fold (satisfy_step presented_keys (bsa_threshold a)) (bsa_keys a) (0, 0) of
        (total_weight, num_relevant_keys) \<Rightarrow> (total_weight \<ge> bsa_threshold a, num_relevant_keys))"

fun keys_satisfy_and_relevant :: "public_key_type set \<Rightarrow> block_signing_authority \<Rightarrow> bool \<times> nat" where
  "keys_satisfy_and_relevant presented_keys (bsa_v0 a) = keys_satisfy_and_relevant_v0 presented_keys a"

fun bsa_num_keys :: "block_signing_authority \<Rightarrow> nat" where
  "bsa_num_keys (bsa_v0 a) = length (bsa_keys a)"

definition producer_authority_of_legacy :: "legacy_producer_key \<Rightarrow> producer_authority" where
  "producer_authority_of_legacy p =
     \<lparr>pa_producer_name = pk_producer_name p,
      pa_authority = bsa_v0 \<lparr>bsa_threshold = 1, bsa_keys = [\<lparr>kw_key = pk_block_signing_key p, kw_weight = 1\<rparr>]\<rparr>\<rparr>"

definition schedule_of_legacy :: "legacy_producer_schedule \<Rightarrow> producer_authority_schedule" where
  "schedule_of_legacy old =
     \<lparr>sched_version = lps_version old, sched_producers = map producer_authority_of_legacy (lps_producers old)\<rparr>"

text \<open>The comparison of two schedules, producer by producer.\<close>

fun producers_equal :: "producer_authority list \<Rightarrow> producer_authority list \<Rightarrow> bool" where
  "producers_equal (a # as) (b # bs) = (if a \<noteq> b then False else producers_equal as bs)"
| "producers_equal as bs = True"

definition schedule_equal :: "producer_authority_schedule \<Rightarrow> producer_authority_schedule \<Rightarrow> bool" where
  "schedule_equal a b =
     (if sched_version a \<noteq> sched_version b then False
      else if length (sched_producers a) \<noteq> length (sched_producers b) then False
      else producers_equal (sched_producers a) (sched_producers b))"

section \<open>Lemmas\<close>

lemma schedule_equal_iff: "schedule_equal a b \<longleftrightarrow> a = b"
proof -
  have "length as = length bs \<Longrightarrow> producers_equal as bs \<longleftrightarrow> as = bs" for as bs
    by (induction as bs rule: producers_equal.induct) auto
  then show ?thesis
    by (cases a; cases b) (auto simp: schedule_equal_def)
qed

lemma satisfy_fold:
  assumes "t \<le> u32_max" "tot < t \<Longrightarrow> tot = w" "t \<le> tot \<Longrightarrow> t \<le> w"
    "fold (satisfy_step K t) ks (tot, n) = (tot', n')"
  shows "(t \<le> tot' \<longleftrightarrow> t \<le> w + sum_list (map kw_weight (filter (\<lambda>k. kw_key k \<in> K) ks)))
    \<and> n' = n + length (filter (\<lambda>k. kw_key k \<in> K) ks)"
  using assms
proof (induction ks arbitrary: tot n w)
  case Nil
  then show ?case
    by (cases "tot < t") auto
next
  case (Cons k ks)
  show ?case
  proof (cases "kw_key k \<in> K")
    case True
    let ?tot = "if tot < t then tot + min (u32_max - tot) (kw_weight k) else tot"
    have "?tot < t \<Longrightarrow> ?tot = w + kw_weight k" "t \<le> ?tot \<Longrightarrow> t \<le> w + kw_weight k"
      using Cons.prems(1-3) by (auto simp: min_def split: if_splits)
    from Cons.IH [OF Cons.prems(1) this, of "n + 1"] show ?thesis
      using Cons.prems(4) True by (simp add: satisfy_step_def add.assoc)
  next
    case False
    then show ?thesis
      using Cons.IH [OF Cons.prems(1-3)] Cons.prems(4) by (simp add: satisfy_step_def)
  qed
qed

lemma keys_satisfy_and_relevant_v0_eq:
  assumes "bsa_threshold a \<le> u32_max"
  shows "keys_satisfy_and_relevant_v0 K a =
    (bsa_threshold a \<le> sum_list (map kw_weight (filter (\<lambda>k. kw_key k \<in> K) (bsa_keys a))),
     length (filter (\<lambda>k. kw_key k \<in> K) (bsa_keys a)))"
proof -
  obtain tot n where f: "fold (satisfy_step K (bsa_threshold a)) (bsa_keys a) (0, 0) = (tot, n)"
    by fastforce
  show ?thesis
    using satisfy_fold [OF assms _ _ f, of 0] f by (simp add: keys_satisfy_and_relevant_v0_def)
qed

end
