(* ===== verification/Block_Time.thy ===== *)
theory Block_Time
  imports Chain_Prelude
begin

text \<open>
  Block timestamps (\<^verbatim>\<open>block_timestamp.hpp\<close>): a 32-bit slot number counting intervals of three
  seconds from the year 2000, and its conversions from and to a time point, which is a signed
  64-bit number of microseconds.
\<close>

type_synonym block_timestamp = nat
type_synonym time_point = int

definition block_interval_ms :: nat where
  "block_interval_ms = 3000"

definition block_timestamp_epoch :: nat where
  "block_timestamp_epoch = 946684800000"

definition timestamp_next :: "block_timestamp \<Rightarrow> block_timestamp result" where
  "timestamp_next slot =
     bind_r (eos_assert (u32_max - slot \<ge> 1) overflow_exception) (\<lambda>_. Inr (add32 slot 1))"

definition to_time_point :: "block_timestamp \<Rightarrow> time_point" where
  "to_time_point slot =
     (let msec = wrap_i64 (int slot * int block_interval_ms);
          msec = wrap_i64 (msec + int block_timestamp_epoch)
      in wrap_i64 (msec * 1000))"

text \<open>
  The subtraction of the unsigned epoch makes the rest of the computation unsigned; the slot keeps
  the low 32 bits of the quotient.
\<close>

definition set_time_point :: "time_point \<Rightarrow> block_timestamp" where
  "set_time_point t =
     (let msec_since_epoch = tdiv t 1000
      in nat ((msec_since_epoch - int block_timestamp_epoch) mod 2 ^ 64) div block_interval_ms mod 2 ^ 32)"

definition set_time_point_sec :: "nat \<Rightarrow> block_timestamp" where
  "set_time_point_sec sec_since_epoch =
     sub64 (mul64 sec_since_epoch 1000) block_timestamp_epoch div block_interval_ms mod 2 ^ 32"

lemma to_time_point_exact:
  assumes "slot < 2 ^ 32"
  shows "to_time_point slot = (int slot * 3000 + 946684800000) * 1000"
proof -
  have "int slot < 2 ^ 32"
    using assms by (metis of_nat_less_iff of_nat_numeral of_nat_power)
  then have "is_i64 (int slot * 3000)" "is_i64 (int slot * 3000 + 946684800000)"
    "is_i64 ((int slot * 3000 + 946684800000) * 1000)"
    by (auto simp: is_i64_def)
  then show ?thesis
    by (simp add: to_time_point_def block_interval_ms_def block_timestamp_epoch_def)
qed

lemma tdiv_nonneg: "0 \<le> a \<Longrightarrow> 0 < b \<Longrightarrow> tdiv a b = a div b"
  by (cases "a = 0") (simp_all add: tdiv_def)

text \<open>
  Converting a block time to a time point and back is the identity on every 32-bit slot, and
  a time point inside the representable range falls into the slot that starts at most one
  interval before it.
\<close>

theorem timestamp_roundtrip:
  assumes "slot < 2 ^ 32" "to_time_point slot \<le> t" "t < to_time_point slot + 3000000"
  shows "set_time_point t = slot \<and> set_time_point (to_time_point slot) = slot"
proof -
  have exact: "set_time_point u = slot"
    if "(int slot * 3000 + 946684800000) * 1000 \<le> u" "u < (int slot * 3000 + 946684800000) * 1000 + 3000000" for u
  proof -
    have slot: "int slot < 2 ^ 32"
      using assms(1) by (metis of_nat_less_iff of_nat_numeral of_nat_power)
    define r where "r = u div 1000 - (int slot * 3000 + 946684800000)"
    have r: "u div 1000 = int slot * 3000 + 946684800000 + r" "0 \<le> r" "r < 3000"
      using that by (auto simp: r_def)
    then have "nat ((u div 1000 - 946684800000) mod 2 ^ 64) = slot * 3000 + nat r"
      using slot by simp
    moreover have "(slot * 3000 + nat r) div 3000 = slot"
      using r by simp
    ultimately show ?thesis
      using that(1) assms(1)
      by (simp add: set_time_point_def tdiv_nonneg block_interval_ms_def block_timestamp_epoch_def)
  qed
  then show ?thesis
    using assms to_time_point_exact [OF assms(1)] by simp
qed

theorem timestamp_roundtrip_witness:
  "set_time_point (to_time_point 5 + 2999999) = 5 \<and> set_time_point (to_time_point 5) = 5"
  by (rule timestamp_roundtrip) simp_all

end
