(* ===== verification/Block_Header.thy ===== *)
theory Block_Header
  imports Producer_Schedule Block_Time Merkle
begin

text \<open>
  Block headers (\<^verbatim>\<open>block_header.hpp\<close>, \<^verbatim>\<open>block_header.cpp\<close>, \<^verbatim>\<open>protocol_feature_activation.cpp\<close>): the
  header, its identifier, which carries the block number, and its extensions. Hashing, signature
  recovery, serialisation and byte swapping belong to the \<^verbatim>\<open>fc\<close> library; they are the fields of
  \<open>fc_env\<close>, an argument of every definition that uses them.
\<close>

type_synonym block_id_type = digest
type_synonym signature_type = nat
type_synonym bytes = "u8 list"

datatype builtin_protocol_feature_t =
    preactivate_feature
  | only_link_to_existing_permission
  | replace_deferred
  | no_duplicate_deferred_id
  | fix_linkauth_restriction
  | disallow_empty_producer_schedule
  | restrict_action_to_self
  | only_bill_first_authorizer
  | forward_setcode
  | get_sender
  | ram_restrictions
  | webauthn_key
  | wtmsig_block_signatures

datatype block_header_extension =
    protocol_feature_activation "digest list"
  | producer_schedule_change_extension producer_authority_schedule

record block_header =
  hdr_timestamp :: block_timestamp
  hdr_producer :: account_name
  hdr_confirmed :: nat
  hdr_previous :: block_id_type
  hdr_transaction_mroot :: digest
  hdr_action_mroot :: digest
  hdr_schedule_version :: nat
  hdr_new_producers :: "legacy_producer_schedule option"
  hdr_extensions :: "(nat \<times> bytes) list"

record signed_block_header = block_header +
  hdr_producer_signature :: signature_type

record fc_env =
  hash_header :: "block_header \<Rightarrow> digest"
  hash_pair :: "digest \<times> digest \<Rightarrow> digest"
  hash_legacy_schedule :: "legacy_producer_schedule \<Rightarrow> digest"
  hash_schedule :: "producer_authority_schedule \<Rightarrow> digest"
  null_digest :: digest
  endian_reverse_u32 :: "u32 \<Rightarrow> u32"
  pack_activation :: "digest list \<Rightarrow> bytes"
  unpack_activation :: "bytes \<Rightarrow> digest list result"
  pack_schedule :: "producer_authority_schedule \<Rightarrow> bytes"
  unpack_schedule :: "bytes \<Rightarrow> producer_authority_schedule result"
  recover_key :: "signature_type \<Rightarrow> digest \<Rightarrow> public_key_type result"

section \<open>Identifiers\<close>

definition header_digest :: "fc_env \<Rightarrow> 'a block_header_scheme \<Rightarrow> digest" where
  "header_digest env h = hash_header env (block_header.truncate h)"

definition num_from_id :: "fc_env \<Rightarrow> block_id_type \<Rightarrow> u32" where
  "num_from_id env i = endian_reverse_u32 env (ucast (dg0 i))"

definition header_block_num :: "fc_env \<Rightarrow> 'a block_header_scheme \<Rightarrow> u32" where
  "header_block_num env h = num_from_id env (hdr_previous h) + 1"

definition header_id :: "fc_env \<Rightarrow> 'a block_header_scheme \<Rightarrow> block_id_type" where
  "header_id env h =
     (let result = header_digest env h;
          result = result\<lparr>dg0 := dg0 result AND 0xffffffff00000000\<rparr>
      in result\<lparr>dg0 := dg0 result + ucast (endian_reverse_u32 env (header_block_num env h))\<rparr>)"

section \<open>Extensions\<close>

definition activation_extension_id :: nat where
  "activation_extension_id = 0"

definition schedule_change_extension_id :: nat where
  "schedule_change_extension_id = 1"

text \<open>The check run when an activation extension is unpacked: at least one digest, none repeated.\<close>

fun activation_no_repeat :: "digest set \<Rightarrow> digest list \<Rightarrow> unit result" where
  "activation_no_repeat s [] = Inr ()"
| "activation_no_repeat s (d # ds) =
     bind_r (eos_assert (d \<notin> s) ill_formed_protocol_feature_activation) (\<lambda>_. activation_no_repeat (insert d s) ds)"

definition activation_reflector_init :: "digest list \<Rightarrow> unit result" where
  "activation_reflector_init protocol_features =
     bind_r (eos_assert (length protocol_features > 0) ill_formed_protocol_feature_activation) (\<lambda>_.
       activation_no_repeat {} protocol_features)"

text \<open>\<^verbatim>\<open>decompose\<close>: the payload unpacked as the type the identifier names; \<open>None\<close> for an unknown identifier.\<close>

definition extract_extension :: "fc_env \<Rightarrow> nat \<Rightarrow> bytes \<Rightarrow> block_header_extension option result" where
  "extract_extension env i data =
     (if i = activation_extension_id
      then bind_r (unpack_activation env data) (\<lambda>ds.
           bind_r (activation_reflector_init ds) (\<lambda>_. Inr (Some (protocol_feature_activation ds))))
      else if i = schedule_change_extension_id
      then bind_r (unpack_schedule env data) (\<lambda>s. Inr (Some (producer_schedule_change_extension s)))
      else Inr None)"

text \<open>
  The loop; \<open>first\<close> tells whether this is the first extension. Both extension types ask to be
  unique, and ascending identifiers keep the multimap in the order of the list.
\<close>

fun extract_extensions ::
    "fc_env \<Rightarrow> bool \<Rightarrow> nat \<Rightarrow> (nat \<times> bytes) list \<Rightarrow> (nat \<times> block_header_extension) list result" where
  "extract_extensions env first id_type_lower_bound [] = Inr []"
| "extract_extensions env first id_type_lower_bound ((i, data) # es) =
     bind_r (eos_assert (i \<ge> id_type_lower_bound) invalid_block_header_extension) (\<lambda>_.
     bind_r (extract_extension env i data) (\<lambda>match.
       case match of
         None \<Rightarrow> Inl invalid_block_header_extension
       | Some e \<Rightarrow>
           bind_r (eos_assert (first \<or> i > id_type_lower_bound) invalid_block_header_extension) (\<lambda>_.
           bind_r (extract_extensions env False i es) (\<lambda>rest. Inr ((i, e) # rest)))))"

definition validate_and_extract_header_extensions ::
    "fc_env \<Rightarrow> 'a block_header_scheme \<Rightarrow> (nat \<times> block_header_extension) list result" where
  "validate_and_extract_header_extensions env h = extract_extensions env True 0 (hdr_extensions h)"

definition ext_count :: "(nat \<times> 'a) list \<Rightarrow> nat \<Rightarrow> nat" where
  "ext_count exts i = length (filter (\<lambda>e. fst e = i) exts)"

definition ext_lower_bound :: "(nat \<times> 'a) list \<Rightarrow> nat \<Rightarrow> 'a result" where
  "ext_lower_bound exts i = of_option undefined_behaviour (map_option snd (List.find (\<lambda>e. fst e \<ge> i) exts))"

text \<open>Adding an extension keeps them ordered by identifier, after those with an equal one.\<close>

fun emplace_extension :: "(nat \<times> bytes) list \<Rightarrow> nat \<Rightarrow> bytes \<Rightarrow> (nat \<times> bytes) list" where
  "emplace_extension [] eid data = [(eid, data)]"
| "emplace_extension (e # es) eid data =
     (if eid < fst e then (eid, data) # e # es else e # emplace_extension es eid data)"

section \<open>Activated protocol features\<close>

definition protocol_feature_activation_set :: "digest set \<Rightarrow> digest list \<Rightarrow> bool \<Rightarrow> digest set result" where
  "protocol_feature_activation_set s1 additional_features enforce_disjoint =
     (let expected_size = card s1 + length additional_features;
          protocol_features = s1 \<union> set additional_features
      in bind_r (eos_assert (\<not> enforce_disjoint \<or> card protocol_features = expected_size) invalid_block_header_extension) (\<lambda>_.
           Inr protocol_features))"

section \<open>Properties\<close>

lemma bit_high_mask: "bit (0xffffffff00000000 :: u64) n \<longleftrightarrow> 32 \<le> n \<and> n < 64"
proof -
  have mask: "(0xffffffff00000000 :: u64) = push_bit 32 (mask 32)"
    by (simp add: mask_eq_exp_minus_1 push_bit_eq_mult)
  show ?thesis
    unfolding mask by (auto simp: bit_simps)
qed

lemma and_high_mask: "ucast ((w AND 0xffffffff00000000) + ucast r :: u64) = (r :: u32)" for w :: u64
proof -
  have r: "\<not> bit r n" if "32 \<le> n" for n
    using bit_imp_le_length [of r n] that by auto
  have "\<not> bit (w AND 0xffffffff00000000) n \<or> \<not> bit (ucast r :: u64) n" for n
    using r [of n] unfolding bit_and_iff bit_high_mask bit_ucast_iff by blast
  then have "(w AND 0xffffffff00000000) + ucast r = (w AND 0xffffffff00000000) OR (ucast r :: u64)"
    by (intro disjunctive_add)
  then show ?thesis
    by (intro bit_word_eqI) (simp only: bit_ucast_iff bit_or_iff bit_and_iff bit_high_mask, simp)
qed

text \<open>
  The identifier of a block determines its number: reading the number back from the
  identifier gives the number of the header, whatever the hash function, as long as swapping the
  bytes of a 32-bit integer twice gives it back.
\<close>

theorem num_from_header_id:
  assumes "\<And>x. endian_reverse_u32 env (endian_reverse_u32 env x) = x"
  shows "num_from_id env (header_id env h) = header_block_num env h"
  by (simp add: num_from_id_def header_id_def and_high_mask assms Let_def)

section \<open>A concrete environment\<close>

definition byte_swap :: "u32 \<Rightarrow> u32" where
  "byte_swap x = (push_bit 24 x OR push_bit 8 (x AND push_bit 8 (mask 8)))
     OR ((drop_bit 8 x AND push_bit 8 (mask 8)) OR drop_bit 24 x)"

lemma bit_byte_swap:
  assumes "n < 32"
  shows "bit (byte_swap x) n =
    bit x (if n < 8 then n + 24 else if n < 16 then n + 8 else if n < 24 then n - 8 else n - 24)"
proof -
  have "\<not> bit x m" if "32 \<le> m" for m
    using bit_imp_le_length [of x m] that by auto
  then show ?thesis
    using assms by (auto simp: byte_swap_def bit_simps add.commute)
qed

lemma byte_swap_involution: "byte_swap (byte_swap x) = x"
  by (rule bit_word_eqI) (auto simp: bit_byte_swap)

definition toy_digest :: "nat \<Rightarrow> digest" where
  "toy_digest n = \<lparr>dg0 = 0, dg1 = of_nat n, dg2 = 0, dg3 = 0\<rparr>"

text \<open>An instance with the real byte swap and simple stand-ins for hashing, packing and recovery.\<close>

definition sample_env :: fc_env where
  "sample_env =
     \<lparr>hash_header = \<lambda>h. toy_digest (hdr_timestamp h + 1), hash_pair = \<lambda>(l, r). l\<lparr>dg1 := dg1 l + dg1 r\<rparr>,
      hash_legacy_schedule = \<lambda>s. toy_digest (lps_version s), hash_schedule = \<lambda>s. toy_digest (sched_version s),
      null_digest = toy_digest 0, endian_reverse_u32 = byte_swap,
      pack_activation = \<lambda>ds. [], unpack_activation = \<lambda>b. Inr [toy_digest 7],
      pack_schedule = \<lambda>s. [], unpack_schedule = \<lambda>b. Inr \<lparr>sched_version = 1, sched_producers = []\<rparr>,
      recover_key = \<lambda>sig d. Inr sig\<rparr>"

theorem num_from_header_id_witness:
  "num_from_id sample_env (header_id sample_env
     \<lparr>hdr_timestamp = 5, hdr_producer = 1, hdr_confirmed = 0, hdr_previous = toy_digest 0, hdr_transaction_mroot = toy_digest 0,
      hdr_action_mroot = toy_digest 0, hdr_schedule_version = 0, hdr_new_producers = None, hdr_extensions = []\<rparr>)
   = byte_swap 0 + 1"
proof -
  have inv: "endian_reverse_u32 sample_env (endian_reverse_u32 sample_env x) = x" for x
    by (simp add: sample_env_def byte_swap_involution)
  show ?thesis
    unfolding num_from_header_id [OF inv]
    by (simp add: header_block_num_def num_from_id_def sample_env_def toy_digest_def)
qed

end
