(* ===== verification/Transactions.thy ===== *)
theory Transactions
  imports Authority Assets Block_Header
begin

text \<open>
  Transactions (\<^verbatim>\<open>action.hpp\<close>, \<^verbatim>\<open>transaction.hpp\<close>, \<^verbatim>\<open>transaction.cpp\<close>,
  \<^verbatim>\<open>transaction_metadata.hpp\<close>, \<^verbatim>\<open>transaction_metadata.cpp\<close>): the reference to a recent block,
  extensions, the digest that is signed and the recovery of keys from signatures, and packed
  transactions with their compression. Hashing, serialisation, key recovery and the zlib filters
  are library code, fields of \<open>tx_env\<close>; \<open>tx_codec_ok\<close> says what serialisation and compression
  promise. The zlib decompressor is given by the pieces it writes to its sink and by whether the
  stream ended well.
\<close>

section \<open>Data\<close>

record action =
  act_account :: account_name
  act_name :: name
  act_authorization :: "permission_level list"
  act_data :: bytes

record transaction_header =
  expiration :: nat
  ref_block_num :: u16
  ref_block_prefix :: u32
  max_net_usage_words :: nat
  max_cpu_usage_ms :: nat
  delay_sec :: nat

record transaction = transaction_header +
  context_free_actions :: "action list"
  actions :: "action list"
  transaction_extensions :: "(nat \<times> bytes) list"
  fee :: asset

record signed_transaction = transaction +
  trx_signatures :: "signature_type list"
  context_free_data :: "bytes list"

record deferred_transaction_generation_context =
  sender_trx_id :: digest
  sender_id :: nat
  sender :: account_name

record tx_env =
  sha256 :: "bytes \<Rightarrow> digest"
  pack_digest :: "digest \<Rightarrow> bytes"
  default_digest :: digest
  pack_trx :: "transaction \<Rightarrow> bytes"
  unpack_trx :: "bytes \<Rightarrow> transaction result"
  pack_cfd :: "bytes list \<Rightarrow> bytes"
  unpack_cfd :: "bytes \<Rightarrow> bytes list result"
  pack_signatures :: "signature_type list \<Rightarrow> bytes"
  pack_compression :: "nat \<Rightarrow> bytes"
  pack_bytes :: "bytes \<Rightarrow> bytes"
  unpack_deferred_context :: "bytes \<Rightarrow> deferred_transaction_generation_context result"
  zlib_inflate :: "bytes \<Rightarrow> bytes list \<times> bool"
  zlib_deflate :: "bytes \<Rightarrow> bytes"
  tx_recover_key :: "signature_type \<Rightarrow> digest \<Rightarrow> public_key_type result"
  tx_endian_reverse_u32 :: "u32 \<Rightarrow> u32"
  sig_variable_size :: "signature_type \<Rightarrow> nat"

section \<open>The header of a transaction\<close>

definition get_ref_blocknum :: "'a transaction_header_scheme \<Rightarrow> nat \<Rightarrow> nat" where
  "get_ref_blocknum t head_blocknum = add32 ((head_blocknum div 0xffff) * 0xffff) (head_blocknum mod 0xffff)"

definition set_reference_block :: "tx_env \<Rightarrow> block_id_type \<Rightarrow> 'a transaction_header_scheme \<Rightarrow> 'a transaction_header_scheme" where
  "set_reference_block env reference_block t =
     t\<lparr>ref_block_num := ucast (tx_endian_reverse_u32 env (ucast (dg0 reference_block))),
       ref_block_prefix := ucast (dg1 reference_block)\<rparr>"

definition verify_reference_block :: "tx_env \<Rightarrow> block_id_type \<Rightarrow> 'a transaction_header_scheme \<Rightarrow> bool" where
  "verify_reference_block env reference_block t \<longleftrightarrow>
     ref_block_num t = ucast (tx_endian_reverse_u32 env (ucast (dg0 reference_block))) \<and>
     ref_block_prefix t = ucast (dg1 reference_block)"

definition validate_trx_header :: "'a transaction_header_scheme \<Rightarrow> unit result" where
  "validate_trx_header t = eos_assert (max_net_usage_words t < u32_max div 8) transaction_exception"

definition total_actions :: "'a transaction_scheme \<Rightarrow> nat" where
  "total_actions t = (length (context_free_actions t) + length (actions t)) mod 2 ^ 32"

fun first_authorizer_of :: "action list \<Rightarrow> account_name" where
  "first_authorizer_of [] = 0"
| "first_authorizer_of (a # as) =
     (case act_authorization a of [] \<Rightarrow> first_authorizer_of as | u # us \<Rightarrow> fst u)"

definition first_authorizer :: "'a transaction_scheme \<Rightarrow> account_name" where
  "first_authorizer t = first_authorizer_of (actions t)"

section \<open>Digests and keys\<close>

definition trx_id_of :: "tx_env \<Rightarrow> 'a transaction_scheme \<Rightarrow> digest" where
  "trx_id_of env t = sha256 env (pack_trx env (transaction.truncate t))"

definition trx_sig_digest :: "tx_env \<Rightarrow> 'a transaction_scheme \<Rightarrow> digest \<Rightarrow> bytes list \<Rightarrow> digest" where
  "trx_sig_digest env t chain_id cfd =
     sha256 env (pack_digest env chain_id @ pack_trx env (transaction.truncate t) @
       (if length cfd > 0 then pack_digest env (sha256 env (pack_cfd env cfd)) else pack_digest env (default_digest env)))"

text \<open>Time points are microseconds; a clock gives the readings of \<^verbatim>\<open>fc::time_point::now\<close> in order.\<close>

type_synonym time_point = int
type_synonym clock = "nat \<Rightarrow> time_point"

text \<open>
  The loop over the signatures. \<open>now\<close> gives the readings of the clock in order; \<open>i\<close> counts the
  readings made so far.
\<close>

fun signature_keys_loop ::
    "tx_env \<Rightarrow> clock \<Rightarrow> time_point \<Rightarrow> digest \<Rightarrow> bool \<Rightarrow> nat \<Rightarrow> public_key_type set \<Rightarrow> signature_type list
       \<Rightarrow> (nat \<times> public_key_type set) result" where
  "signature_keys_loop env now deadline digest allow_duplicate_keys i keys [] = Inr (i, keys)"
| "signature_keys_loop env now deadline digest allow_duplicate_keys i keys (sig # sigs) =
     bind_r (eos_assert (now i < deadline) tx_cpu_usage_exceeded) (\<lambda>_.
     bind_r (tx_recover_key env sig digest) (\<lambda>k.
     bind_r (eos_assert (allow_duplicate_keys \<or> k \<notin> keys) tx_duplicate_sig) (\<lambda>_.
       signature_keys_loop env now deadline digest allow_duplicate_keys (i + 1) (insert k keys) sigs)))"

definition get_signature_keys ::
    "tx_env \<Rightarrow> clock \<Rightarrow> 'a transaction_scheme \<Rightarrow> signature_type list \<Rightarrow> digest \<Rightarrow> time_point \<Rightarrow> bytes list \<Rightarrow> bool
       \<Rightarrow> (int \<times> public_key_type set) result" where
  "get_signature_keys env now t signatures chain_id deadline cfd allow_duplicate_keys =
     (let start = now 0;
          digest = trx_sig_digest env t chain_id cfd
      in bind_r (signature_keys_loop env now deadline digest allow_duplicate_keys 1 {} signatures) (\<lambda>(i, keys).
           Inr (now i - start, keys)))"

definition signed_get_signature_keys ::
    "tx_env \<Rightarrow> clock \<Rightarrow> signed_transaction \<Rightarrow> digest \<Rightarrow> time_point \<Rightarrow> bool \<Rightarrow> (int \<times> public_key_type set) result" where
  "signed_get_signature_keys env now t chain_id deadline allow_duplicate_keys =
     get_signature_keys env now t (trx_signatures t) chain_id deadline (context_free_data t) allow_duplicate_keys"

text \<open>Signing appends the signature the key makes of the digest.\<close>

definition sign_trx :: "tx_env \<Rightarrow> (digest \<Rightarrow> signature_type) \<Rightarrow> digest \<Rightarrow> signed_transaction \<Rightarrow> signed_transaction" where
  "sign_trx env key_sign chain_id t =
     t\<lparr>trx_signatures := trx_signatures t @ [key_sign (trx_sig_digest env t chain_id (context_free_data t))]\<rparr>"

section \<open>Extensions\<close>

definition deferred_context_reflector_init :: "deferred_transaction_generation_context \<Rightarrow> unit result" where
  "deferred_context_reflector_init c = eos_assert (sender c \<noteq> 0) ill_formed_deferred_transaction_generation_context"

definition deferred_context_extension_id :: nat where
  "deferred_context_extension_id = 0"

fun extract_trx_extensions ::
    "tx_env \<Rightarrow> bool \<Rightarrow> nat \<Rightarrow> (nat \<times> bytes) list \<Rightarrow> (nat \<times> deferred_transaction_generation_context) list result" where
  "extract_trx_extensions env first id_type_lower_bound [] = Inr []"
| "extract_trx_extensions env first id_type_lower_bound ((i, data) # es) =
     bind_r (eos_assert (i \<ge> id_type_lower_bound) invalid_transaction_extension) (\<lambda>_.
     bind_r (if i = deferred_context_extension_id
             then bind_r (unpack_deferred_context env data) (\<lambda>c.
                  bind_r (deferred_context_reflector_init c) (\<lambda>_. Inr c))
             else Inl invalid_transaction_extension) (\<lambda>c.
     bind_r (eos_assert (first \<or> i > id_type_lower_bound) invalid_transaction_extension) (\<lambda>_.
     bind_r (extract_trx_extensions env False i es) (\<lambda>rest. Inr ((i, c) # rest)))))"

definition validate_and_extract_trx_extensions ::
    "tx_env \<Rightarrow> 'a transaction_scheme \<Rightarrow> (nat \<times> deferred_transaction_generation_context) list result" where
  "validate_and_extract_trx_extensions env t = extract_trx_extensions env True 0 (transaction_extensions t)"

text \<open>The extensions read by identifier; \<open>unpack\<close> is the conversion of the type asked for.\<close>

fun get_from_extensions :: "(bytes \<Rightarrow> 'v result) \<Rightarrow> (nat \<times> bytes) list \<Rightarrow> nat \<Rightarrow> 'v option result" where
  "get_from_extensions unpack [] typ_id = Inr None"
| "get_from_extensions unpack ((i, data) # es) typ_id =
     (if i = typ_id then bind_r (unpack data) (\<lambda>v. Inr (Some v)) else get_from_extensions unpack es typ_id)"

fun set_to_extensions :: "bytes \<Rightarrow> (nat \<times> bytes) list \<Rightarrow> nat \<Rightarrow> (nat \<times> bytes) list" where
  "set_to_extensions data [] typ_id = [(typ_id, data)]"
| "set_to_extensions data (e # es) typ_id =
     (if fst e = typ_id then (typ_id, data) # es else e # set_to_extensions data es typ_id)"

section \<open>Compression\<close>

definition decompress_limit :: nat where
  "decompress_limit = 1 * 1024 * 1024"

text \<open>\<^verbatim>\<open>read_limiter::write\<close> for every piece the decompressor passes on; the output so far is its state.\<close>

definition limiter_write :: "bytes \<Rightarrow> bytes \<Rightarrow> bytes result" where
  "limiter_write s out =
     bind_r (eos_assert (length out + length s \<le> decompress_limit) tx_decompression_error) (\<lambda>_. Inr (out @ s))"

definition zlib_decompress :: "tx_env \<Rightarrow> bytes \<Rightarrow> bytes result" where
  "zlib_decompress env data =
     (case zlib_inflate env data of (pieces, ended) \<Rightarrow>
        bind_r (fold_r limiter_write pieces []) (\<lambda>out.
          if ended then Inr out else Inl unhandled_exception))"

definition unpack_context_free_data :: "tx_env \<Rightarrow> bytes \<Rightarrow> bytes list result" where
  "unpack_context_free_data env data = (if length data = 0 then Inr [] else unpack_cfd env data)"

definition zlib_decompress_context_free_data :: "tx_env \<Rightarrow> bytes \<Rightarrow> bytes list result" where
  "zlib_decompress_context_free_data env data =
     (if length data = 0 then Inr []
      else bind_r (zlib_decompress env data) (unpack_context_free_data env))"

definition zlib_decompress_transaction :: "tx_env \<Rightarrow> bytes \<Rightarrow> transaction result" where
  "zlib_decompress_transaction env data = bind_r (zlib_decompress env data) (unpack_trx env)"

definition pack_context_free_data :: "tx_env \<Rightarrow> bytes list \<Rightarrow> bytes" where
  "pack_context_free_data env cfd = (if length cfd = 0 then [] else pack_cfd env cfd)"

definition zlib_compress_context_free_data :: "tx_env \<Rightarrow> bytes list \<Rightarrow> bytes" where
  "zlib_compress_context_free_data env cfd =
     (if length cfd = 0 then [] else zlib_deflate env (pack_context_free_data env cfd))"

definition zlib_compress_transaction :: "tx_env \<Rightarrow> transaction \<Rightarrow> bytes" where
  "zlib_compress_transaction env t = zlib_deflate env (pack_trx env t)"

section \<open>Packed transactions\<close>

text \<open>The compression is one byte: 0 is none, 1 is zlib, and the file or message may hold another.\<close>

record packed_transaction =
  ptrx_signatures :: "signature_type list"
  ptrx_compression :: nat
  packed_context_free_data :: bytes
  packed_trx :: bytes
  unpacked_trx :: signed_transaction
  ptrx_id :: digest

definition compression_none :: nat where
  "compression_none = 0"

definition compression_zlib :: nat where
  "compression_zlib = 1"

definition make_signed :: "transaction \<Rightarrow> signature_type list \<Rightarrow> bytes list \<Rightarrow> signed_transaction" where
  "make_signed t sigs cfd = transaction.extend t (signed_transaction.fields sigs cfd)"

definition local_unpack_transaction :: "tx_env \<Rightarrow> bytes list \<Rightarrow> packed_transaction \<Rightarrow> packed_transaction result" where
  "local_unpack_transaction env cfd p =
     bind_r (if ptrx_compression p = compression_none then unpack_trx env (packed_trx p)
             else if ptrx_compression p = compression_zlib then zlib_decompress_transaction env (packed_trx p)
             else Inl unknown_transaction_compression) (\<lambda>t.
       Inr (p\<lparr>unpacked_trx := make_signed t (ptrx_signatures p) cfd, ptrx_id := trx_id_of env t\<rparr>))"

definition local_unpack_context_free_data :: "tx_env \<Rightarrow> packed_transaction \<Rightarrow> packed_transaction result" where
  "local_unpack_context_free_data env p =
     bind_r (eos_assert (context_free_data (unpacked_trx p) = []) tx_decompression_error) (\<lambda>_.
     bind_r (if ptrx_compression p = compression_none then unpack_context_free_data env (packed_context_free_data p)
             else if ptrx_compression p = compression_zlib
             then zlib_decompress_context_free_data env (packed_context_free_data p)
             else Inl unknown_transaction_compression) (\<lambda>cfd.
       Inr (p\<lparr>unpacked_trx := (unpacked_trx p)\<lparr>context_free_data := cfd\<rparr>\<rparr>)))"

definition local_pack_transaction :: "tx_env \<Rightarrow> packed_transaction \<Rightarrow> packed_transaction result" where
  "local_pack_transaction env p =
     bind_r (if ptrx_compression p = compression_none then Inr (pack_trx env (transaction.truncate (unpacked_trx p)))
             else if ptrx_compression p = compression_zlib
             then Inr (zlib_compress_transaction env (transaction.truncate (unpacked_trx p)))
             else Inl unknown_transaction_compression) (\<lambda>b. Inr (p\<lparr>packed_trx := b\<rparr>))"

definition local_pack_context_free_data :: "tx_env \<Rightarrow> packed_transaction \<Rightarrow> packed_transaction result" where
  "local_pack_context_free_data env p =
     bind_r (if ptrx_compression p = compression_none
             then Inr (pack_context_free_data env (context_free_data (unpacked_trx p)))
             else if ptrx_compression p = compression_zlib
             then Inr (zlib_compress_context_free_data env (context_free_data (unpacked_trx p)))
             else Inl unknown_transaction_compression) (\<lambda>b. Inr (p\<lparr>packed_context_free_data := b\<rparr>))"

text \<open>The default transaction that the members not named by a constructor hold.\<close>

definition empty_transaction :: "asset \<Rightarrow> transaction" where
  "empty_transaction zero_fee =
     \<lparr>expiration = 0, ref_block_num = 0, ref_block_prefix = 0, max_net_usage_words = 0, max_cpu_usage_ms = 0, delay_sec = 0,
      context_free_actions = [], actions = [], transaction_extensions = [], fee = zero_fee\<rparr>"

definition packed_of_signed :: "tx_env \<Rightarrow> signed_transaction \<Rightarrow> nat \<Rightarrow> packed_transaction result" where
  "packed_of_signed env t c =
     (let p = \<lparr>ptrx_signatures = trx_signatures t, ptrx_compression = c, packed_context_free_data = [], packed_trx = [],
               unpacked_trx = t, ptrx_id = trx_id_of env t\<rparr>
      in bind_r (local_pack_transaction env p) (local_pack_context_free_data env))"

definition packed_of_bytes ::
    "tx_env \<Rightarrow> asset \<Rightarrow> bytes \<Rightarrow> signature_type list \<Rightarrow> bytes \<Rightarrow> nat \<Rightarrow> packed_transaction result" where
  "packed_of_bytes env zero_fee packed_txn sigs packed_cfd c =
     (let p = \<lparr>ptrx_signatures = sigs, ptrx_compression = c, packed_context_free_data = packed_cfd, packed_trx = packed_txn,
               unpacked_trx = make_signed (empty_transaction zero_fee) [] [], ptrx_id = default_digest env\<rparr>
      in bind_r (local_unpack_transaction env [] p) (\<lambda>p.
           if packed_context_free_data p \<noteq> [] then local_unpack_context_free_data env p else Inr p))"

definition packed_of_bytes_cfd ::
    "tx_env \<Rightarrow> asset \<Rightarrow> bytes \<Rightarrow> signature_type list \<Rightarrow> bytes list \<Rightarrow> nat \<Rightarrow> packed_transaction result" where
  "packed_of_bytes_cfd env zero_fee packed_txn sigs cfd c =
     (let p = \<lparr>ptrx_signatures = sigs, ptrx_compression = c, packed_context_free_data = [], packed_trx = packed_txn,
               unpacked_trx = make_signed (empty_transaction zero_fee) [] [], ptrx_id = default_digest env\<rparr>
      in bind_r (local_unpack_transaction env cfd p) (\<lambda>p.
           if context_free_data (unpacked_trx p) \<noteq> [] then local_pack_context_free_data env p else Inr p))"

definition packed_of_transaction ::
    "tx_env \<Rightarrow> transaction \<Rightarrow> signature_type list \<Rightarrow> bytes \<Rightarrow> nat \<Rightarrow> packed_transaction result" where
  "packed_of_transaction env t sigs packed_cfd c =
     (let p = \<lparr>ptrx_signatures = sigs, ptrx_compression = c, packed_context_free_data = packed_cfd, packed_trx = [],
               unpacked_trx = make_signed t sigs [], ptrx_id = trx_id_of env t\<rparr>
      in bind_r (local_pack_transaction env p) (\<lambda>p.
           if packed_context_free_data p \<noteq> [] then local_unpack_context_free_data env p else Inr p))"

text \<open>What runs after the four reflected members have been read from a stream.\<close>

definition packed_reflector_init :: "tx_env \<Rightarrow> packed_transaction \<Rightarrow> packed_transaction result" where
  "packed_reflector_init env p =
     bind_r (eos_assert (expiration (unpacked_trx p) = 0) tx_decompression_error) (\<lambda>_.
     bind_r (local_unpack_transaction env [] p) (local_unpack_context_free_data env))"

definition get_raw_transaction :: "tx_env \<Rightarrow> packed_transaction \<Rightarrow> bytes result" where
  "get_raw_transaction env p =
     (if ptrx_compression p = compression_none then Inr (packed_trx p)
      else if ptrx_compression p = compression_zlib then zlib_decompress env (packed_trx p)
      else Inl unknown_transaction_compression)"

definition fixed_net_overhead_of_packed_trx :: nat where
  "fixed_net_overhead_of_packed_trx = 16"

definition get_unprunable_size :: "packed_transaction \<Rightarrow> nat result" where
  "get_unprunable_size p =
     (let size = add64 fixed_net_overhead_of_packed_trx (length (packed_trx p))
      in bind_r (eos_assert (size \<le> u32_max) tx_too_big) (\<lambda>_. Inr size))"

definition get_prunable_size :: "tx_env \<Rightarrow> packed_transaction \<Rightarrow> nat result" where
  "get_prunable_size env p =
     (let size = add64 (length (pack_signatures env (ptrx_signatures p))) (length (packed_context_free_data p))
      in bind_r (eos_assert (size \<le> u32_max) tx_too_big) (\<lambda>_. Inr size))"

definition packed_digest :: "tx_env \<Rightarrow> packed_transaction \<Rightarrow> digest" where
  "packed_digest env p =
     (let prunable = sha256 env (pack_signatures env (ptrx_signatures p) @ pack_bytes env (packed_context_free_data p))
      in sha256 env (pack_compression env (ptrx_compression p) @ pack_bytes env (packed_trx p) @ pack_digest env prunable))"

section \<open>Metadata\<close>

datatype trx_type = trx_input | trx_implicit | trx_scheduled

record transaction_metadata =
  tm_packed_trx :: packed_transaction
  tm_sig_cpu_usage :: int
  tm_recovered_pub_keys :: "public_key_type set"
  tm_implicit :: bool
  tm_scheduled :: bool
  tm_accepted :: bool

definition tm_id :: "transaction_metadata \<Rightarrow> digest" where
  "tm_id m = ptrx_id (tm_packed_trx m)"

fun check_variable_sig_size :: "tx_env \<Rightarrow> nat \<Rightarrow> signature_type list \<Rightarrow> unit result" where
  "check_variable_sig_size env m [] = Inr ()"
| "check_variable_sig_size env m (sig # sigs) =
     bind_r (eos_assert (sig_variable_size env sig \<le> m) sig_variable_size_limit_exception) (\<lambda>_.
       check_variable_sig_size env m sigs)"

text \<open>
  The task the thread pool runs; the first reading of the clock makes the deadline, and \<open>None\<close>
  is the unlimited time. The greatest time point is above every reading.
\<close>

definition start_recover_keys ::
    "tx_env \<Rightarrow> clock \<Rightarrow> packed_transaction \<Rightarrow> digest \<Rightarrow> int option \<Rightarrow> nat \<Rightarrow> transaction_metadata result" where
  "start_recover_keys env now trx chain_id time_limit max_variable_sig_size =
     (let (deadline, later) =
        (case time_limit of None \<Rightarrow> (int i64_max, now) | Some limit \<Rightarrow> (now 0 + limit, \<lambda>i. now (i + 1)))
      in bind_r (check_variable_sig_size env max_variable_sig_size (trx_signatures (unpacked_trx trx))) (\<lambda>_.
         bind_r (signed_get_signature_keys env later (unpacked_trx trx) chain_id deadline False) (\<lambda>(cpu_usage, keys).
           Inr \<lparr>tm_packed_trx = trx, tm_sig_cpu_usage = cpu_usage, tm_recovered_pub_keys = keys,
                tm_implicit = False, tm_scheduled = False, tm_accepted = False\<rparr>)))"

definition create_no_recover_keys :: "packed_transaction \<Rightarrow> trx_type \<Rightarrow> transaction_metadata" where
  "create_no_recover_keys trx t =
     \<lparr>tm_packed_trx = trx, tm_sig_cpu_usage = 0, tm_recovered_pub_keys = {},
      tm_implicit = (t = trx_implicit), tm_scheduled = (t = trx_scheduled), tm_accepted = False\<rparr>"

section \<open>Decompression\<close>

lemma fold_limiter:
  assumes "length out \<le> decompress_limit"
  shows "fold_r limiter_write ps out =
    (if length out + length (concat ps) \<le> decompress_limit then Inr (out @ concat ps) else Inl tx_decompression_error)"
  using assms
proof (induction ps arbitrary: out)
  case (Cons p ps)
  show ?case
  proof (cases "length out + length p \<le> decompress_limit")
    case True
    then show ?thesis
      using Cons.IH [of "out @ p"] by (simp add: limiter_write_def)
  qed (simp add: limiter_write_def)
qed simp

text \<open>
  Decompression returns exactly what the decompressor produced when that fits into one
  mebibyte, and refuses it otherwise, whatever the pieces it arrives in.
\<close>

theorem zlib_decompress_bounded:
  assumes "zlib_inflate env data = (pieces, ended)"
  shows "zlib_decompress env data =
    (if length (concat pieces) > 2 ^ 20 then Inl tx_decompression_error
     else if ended then Inr (concat pieces) else Inl unhandled_exception)"
proof -
  have "decompress_limit = 2 ^ 20"
    by (simp add: decompress_limit_def)
  then show ?thesis
    using fold_limiter [of "[]" pieces] by (simp add: zlib_decompress_def assms)
qed

section \<open>Round trip of packed transactions\<close>

text \<open>
  Serialisation of the transaction and of its context-free data is inverted by deserialisation and
  never empty, and the decompressor gives back what was compressed.
\<close>

definition tx_codec_ok :: "tx_env \<Rightarrow> signed_transaction \<Rightarrow> bool" where
  "tx_codec_ok env t \<longleftrightarrow>
     unpack_trx env (pack_trx env (transaction.truncate t)) = Inr (transaction.truncate t) \<and>
     unpack_cfd env (pack_cfd env (context_free_data t)) = Inr (context_free_data t) \<and> pack_cfd env (context_free_data t) \<noteq> [] \<and>
     (\<forall>b. zlib_deflate env b \<noteq> [] \<and> (\<exists>ps. zlib_inflate env (zlib_deflate env b) = (ps, True) \<and> concat ps = b))"

lemma zlib_roundtrip: "tx_codec_ok env t \<Longrightarrow> length b \<le> decompress_limit \<Longrightarrow> zlib_decompress env (zlib_deflate env b) = Inr b"
proof -
  assume ok: "tx_codec_ok env t" and le: "length b \<le> decompress_limit"
  from ok obtain ps where "zlib_inflate env (zlib_deflate env b) = (ps, True)" "concat ps = b"
    unfolding tx_codec_ok_def by blast
  then show ?thesis
    using fold_limiter [of "[]" ps] le by (simp add: zlib_decompress_def)
qed

lemma tx_codec_okD:
  assumes "tx_codec_ok env t"
  shows "unpack_trx env (pack_trx env (transaction.truncate t)) = Inr (transaction.truncate t)"
    "unpack_cfd env (pack_cfd env (context_free_data t)) = Inr (context_free_data t)"
    "pack_cfd env (context_free_data t) \<noteq> []" "zlib_deflate env b \<noteq> []"
  using assms unfolding tx_codec_ok_def by blast+

lemma make_signed_split [simp]:
  "make_signed (transaction.truncate t) (trx_signatures t) (context_free_data t) = t"
  "context_free_data (make_signed u sigs cfd) = cfd" "trx_signatures (make_signed u sigs cfd) = sigs"
  "(make_signed u sigs cfd)\<lparr>context_free_data := cfd'\<rparr> = make_signed u sigs cfd'"
  "transaction.truncate (make_signed u sigs cfd) = u"
  "trx_id_of env (make_signed u sigs cfd) = trx_id_of env u"
  "trx_id_of env (transaction.truncate t) = trx_id_of env t"
  by (simp_all add: make_signed_def transaction.defs signed_transaction.defs trx_id_of_def)

text \<open>The two forms of the body, by compression.\<close>

definition fits :: "tx_env \<Rightarrow> nat \<Rightarrow> signed_transaction \<Rightarrow> bool" where
  "fits env c t \<longleftrightarrow> c = compression_none \<or>
     (c = compression_zlib \<and> length (pack_trx env (transaction.truncate t)) \<le> 2 ^ 20 \<and>
      length (pack_cfd env (context_free_data t)) \<le> 2 ^ 20)"

lemma compression_distinct [simp]: "compression_none \<noteq> compression_zlib" "compression_zlib \<noteq> compression_none"
  by (simp_all add: compression_none_def compression_zlib_def)

lemma expiration_empty [simp]: "expiration (make_signed (empty_transaction z) sigs cfd) = 0"
  by (simp add: make_signed_def empty_transaction_def transaction.defs signed_transaction.defs)

lemma packed_of_signed_body:
  assumes "tx_codec_ok env t" "fits env c t"
  obtains b d where "packed_of_signed env t c = Inr \<lparr>ptrx_signatures = trx_signatures t, ptrx_compression = c,
       packed_context_free_data = d, packed_trx = b, unpacked_trx = t, ptrx_id = trx_id_of env t\<rparr>"
    "(if c = compression_none then unpack_trx env b else zlib_decompress_transaction env b) = Inr (transaction.truncate t)"
    "(if c = compression_none then unpack_context_free_data env d else zlib_decompress_context_free_data env d)
       = Inr (context_free_data t)"
    "d = [] \<longleftrightarrow> context_free_data t = []"
    "(if c = compression_none then Inr b else zlib_decompress env b) = Inr (pack_trx env (transaction.truncate t))"
    "(if c = compression_none then pack_context_free_data env (context_free_data t)
      else zlib_compress_context_free_data env (context_free_data t)) = d"
proof (cases "c = compression_none")
  case True
  then show thesis
    using tx_codec_okD [OF assms(1)]
    by (intro that [of "pack_context_free_data env (context_free_data t)" "pack_trx env (transaction.truncate t)"])
      (simp_all add: packed_of_signed_def local_pack_transaction_def local_pack_context_free_data_def Let_def
        unpack_context_free_data_def pack_context_free_data_def)
next
  case False
  then have c: "c = compression_zlib" "length (pack_trx env (transaction.truncate t)) \<le> decompress_limit"
      "length (pack_cfd env (context_free_data t)) \<le> decompress_limit"
    using assms(2) by (auto simp: fits_def decompress_limit_def)
  then show thesis
    using False tx_codec_okD [OF assms(1)] zlib_roundtrip [OF assms(1) c(2)] zlib_roundtrip [OF assms(1) c(3)]
    by (intro that [of "zlib_compress_context_free_data env (context_free_data t)"
          "zlib_compress_transaction env (transaction.truncate t)"])
      (simp_all add: packed_of_signed_def local_pack_transaction_def local_pack_context_free_data_def Let_def
        zlib_decompress_context_free_data_def zlib_compress_context_free_data_def zlib_decompress_transaction_def
        zlib_compress_transaction_def unpack_context_free_data_def pack_context_free_data_def)
qed

text \<open>The ways of reading, given what the body and the context-free data unpack to.\<close>

lemma packed_read:
  assumes c: "c = compression_none \<or> c = compression_zlib"
    and u: "(if c = compression_none then unpack_trx env b else zlib_decompress_transaction env b) = Inr u"
    and d: "(if c = compression_none then unpack_context_free_data env d else zlib_decompress_context_free_data env d) = Inr k"
    and e: "d = [] \<longleftrightarrow> k = []"
    and P: "P = \<lparr>ptrx_signatures = s, ptrx_compression = c, packed_context_free_data = d, packed_trx = b,
             unpacked_trx = make_signed u s k, ptrx_id = trx_id_of env u\<rparr>"
  shows "packed_of_bytes env z b s d c = Inr P"
    and "packed_reflector_init env (P\<lparr>unpacked_trx := make_signed (empty_transaction z) [] [], ptrx_id := default_digest env\<rparr>) = Inr P"
    and "(if c = compression_none then pack_context_free_data env k else zlib_compress_context_free_data env k) = d
      \<Longrightarrow> packed_of_bytes_cfd env z b s k c = Inr P"
proof -
  have unpack: "local_unpack_transaction env k' \<lparr>ptrx_signatures = s, ptrx_compression = c, packed_context_free_data = d',
      packed_trx = b, unpacked_trx = t', ptrx_id = i\<rparr>
    = Inr \<lparr>ptrx_signatures = s, ptrx_compression = c, packed_context_free_data = d', packed_trx = b,
           unpacked_trx = make_signed u s k', ptrx_id = trx_id_of env u\<rparr>" for k' d' t' i
    using c u by (auto simp: local_unpack_transaction_def)
  have cfd: "local_unpack_context_free_data env (P\<lparr>unpacked_trx := make_signed u s []\<rparr>) = Inr P"
    using c d by (auto simp: local_unpack_context_free_data_def P)
  show "packed_of_bytes env z b s d c = Inr P"
    using cfd e by (auto simp: packed_of_bytes_def unpack P)
  show "packed_reflector_init env (P\<lparr>unpacked_trx := make_signed (empty_transaction z) [] [], ptrx_id := default_digest env\<rparr>) = Inr P"
    using cfd by (simp add: packed_reflector_init_def P unpack)
  assume "(if c = compression_none then pack_context_free_data env k else zlib_compress_context_free_data env k) = d"
  then show "packed_of_bytes_cfd env z b s k c = Inr P"
    using c e by (auto simp: packed_of_bytes_cfd_def unpack P local_pack_context_free_data_def)
qed

text \<open>
  C36. Packing a signed transaction, with or without compression, always succeeds, and every way
  of reading the packed form gives the same object: from the packed bytes, from the packed body
  with the context-free data, and from a stream of the four reflected members. Under compression
  this holds as long as the body and the context-free data stay within the limit of the
  decompressor.
\<close>

theorem packed_transaction_roundtrip:
  assumes "tx_codec_ok env t" "fits env c t"
  shows "\<exists>p. packed_of_signed env t c = Inr p \<and> unpacked_trx p = t \<and> ptrx_id p = trx_id_of env t
     \<and> packed_of_bytes env z (packed_trx p) (ptrx_signatures p) (packed_context_free_data p) c = Inr p
     \<and> packed_of_bytes_cfd env z (packed_trx p) (ptrx_signatures p) (context_free_data t) c = Inr p
     \<and> packed_reflector_init env (p\<lparr>unpacked_trx := make_signed (empty_transaction z) [] [], ptrx_id := default_digest env\<rparr>) = Inr p
     \<and> get_raw_transaction env p = Inr (pack_trx env (transaction.truncate t))"
proof -
  obtain b d where bd: "packed_of_signed env t c = Inr \<lparr>ptrx_signatures = trx_signatures t, ptrx_compression = c,
       packed_context_free_data = d, packed_trx = b, unpacked_trx = t, ptrx_id = trx_id_of env t\<rparr>"
    "(if c = compression_none then unpack_trx env b else zlib_decompress_transaction env b) = Inr (transaction.truncate t)"
    "(if c = compression_none then unpack_context_free_data env d else zlib_decompress_context_free_data env d)
       = Inr (context_free_data t)"
    "d = [] \<longleftrightarrow> context_free_data t = []"
    "(if c = compression_none then Inr b else zlib_decompress env b) = Inr (pack_trx env (transaction.truncate t))"
    "(if c = compression_none then pack_context_free_data env (context_free_data t)
      else zlib_compress_context_free_data env (context_free_data t)) = d"
    by (rule packed_of_signed_body [OF assms])
  have c: "c = compression_none \<or> c = compression_zlib"
    using assms(2) by (auto simp: fits_def)
  note read = packed_read [OF c bd(2,3,4) refl, of z "trx_signatures t"]
  show ?thesis
    using bd(1,5) c read(1,2) read(3) [OF bd(6)] by (auto simp: get_raw_transaction_def)
qed

section \<open>Signatures\<close>

lemma signature_keys_loop_sound:
  assumes "signature_keys_loop env now deadline d False i keys sigs = Inr (j, keys')"
  shows "j = i + length sigs \<and> (\<forall>n. i \<le> n \<and> n < j \<longrightarrow> now n < deadline)
    \<and> (\<exists>ks. list_all2 (\<lambda>sig k. tx_recover_key env sig d = Inr k) sigs ks \<and> distinct ks \<and> set ks \<inter> keys = {} \<and> keys' = keys \<union> set ks)"
  using assms
proof (induction sigs arbitrary: i keys)
  case (Cons sig sigs)
  from Cons.prems obtain k where k: "now i < deadline" "tx_recover_key env sig d = Inr k" "k \<notin> keys"
    and rest: "signature_keys_loop env now deadline d False (i + 1) (insert k keys) sigs = Inr (j, keys')"
    by (auto simp: bind_r_Inr_iff)
  from Cons.IH [OF rest] obtain ks where ks: "j = i + 1 + length sigs" "\<forall>n. i + 1 \<le> n \<and> n < j \<longrightarrow> now n < deadline"
    "list_all2 (\<lambda>sig k. tx_recover_key env sig d = Inr k) sigs ks" "distinct ks" "set ks \<inter> insert k keys = {}" "keys' = insert k keys \<union> set ks"
    by blast
  have "now n < deadline" if "i \<le> n" "n < j" for n
    using ks(2) k(1) that by (cases "n = i") simp_all
  moreover have "list_all2 (\<lambda>sig k. tx_recover_key env sig d = Inr k) (sig # sigs) (k # ks) \<and> distinct (k # ks)
      \<and> set (k # ks) \<inter> keys = {} \<and> keys' = keys \<union> set (k # ks)"
    using ks(3-6) k(2,3) by simp
  moreover have "j = i + length (sig # sigs)"
    using ks(1) by simp
  ultimately show ?case
    by (intro conjI exI [of _ "k # ks"]) simp_all
qed simp

text \<open>
  C37. When the keys of a transaction have been recovered, they are exactly the keys of its
  signatures over the digest of the chain, the transaction and the context-free data, no two
  signatures share a key, and every clock reading made on the way was before the deadline.
\<close>

theorem get_signature_keys_sound:
  assumes "signed_get_signature_keys env now t chain_id deadline False = Inr (usage, keys)"
  shows "\<exists>ks. list_all2 (\<lambda>sig k. tx_recover_key env sig (trx_sig_digest env t chain_id (context_free_data t)) = Inr k) (trx_signatures t) ks
     \<and> distinct ks \<and> keys = set ks \<and> card keys = length (trx_signatures t)
     \<and> usage = now (length (trx_signatures t) + 1) - now 0
     \<and> (\<forall>n. 1 \<le> n \<and> n \<le> length (trx_signatures t) \<longrightarrow> now n < deadline)"
proof -
  let ?d = "trx_sig_digest env t chain_id (context_free_data t)"
  obtain j where j: "signature_keys_loop env now deadline ?d False 1 {} (trx_signatures t) = Inr (j, keys)" "usage = now j - now 0"
    using assms by (auto simp: signed_get_signature_keys_def get_signature_keys_def bind_r_Inr_iff Let_def)
  from signature_keys_loop_sound [OF j(1)] obtain ks where ks: "j = 1 + length (trx_signatures t)"
    "\<forall>n. 1 \<le> n \<and> n < j \<longrightarrow> now n < deadline"
    "list_all2 (\<lambda>sig k. tx_recover_key env sig ?d = Inr k) (trx_signatures t) ks" "distinct ks" "keys = set ks"
    by auto
  then have "card keys = length (trx_signatures t)"
    by (simp add: distinct_card list_all2_lengthD)
  then show ?thesis
    using ks j(2) by (intro exI [of _ ks]) auto
qed

section \<open>References to blocks\<close>

text \<open>
  A transaction that refers to a block is recognised as referring to it, and only by blocks
  that agree with it in the low 16 bits of the number and in the prefix.
\<close>

lemma reference_block_checked:
  "verify_reference_block env b (set_reference_block env a t) \<longleftrightarrow>
     (ucast (tx_endian_reverse_u32 env (ucast (dg0 a))) :: u16) = ucast (tx_endian_reverse_u32 env (ucast (dg0 b)))
     \<and> (ucast (dg1 a) :: u32) = ucast (dg1 b)"
  by (simp add: verify_reference_block_def set_reference_block_def)

text \<open>
  \<^verbatim>\<open>get_ref_blocknum\<close> does not depend on the number the transaction carries: it returns the
  number of the head block it is given.
\<close>

theorem get_ref_blocknum_is_head:
  assumes "head_blocknum < 2 ^ 32"
  shows "get_ref_blocknum t head_blocknum = head_blocknum"
  using assms by (simp add: get_ref_blocknum_def add32_def div_mult_mod_eq)

section \<open>A concrete transaction\<close>

definition sample_trx :: signed_transaction where
  "sample_trx = make_signed (empty_transaction \<lparr>amount = 0, sym = sample_symbol\<rparr>) [7, 8] [[1, 2]]"

text \<open>Stand-ins that serialise the sample and compress by adding a byte.\<close>

definition sample_tx_env :: tx_env where
  "sample_tx_env =
     \<lparr>sha256 = \<lambda>b. toy_digest (length b), pack_digest = \<lambda>d. [ucast (dg1 d)], default_digest = toy_digest 0,
      pack_trx = \<lambda>t. [3], unpack_trx = \<lambda>b. Inr (transaction.truncate sample_trx),
      pack_cfd = \<lambda>c. [4], unpack_cfd = \<lambda>b. Inr [[1, 2]],
      pack_signatures = \<lambda>s. map of_nat s, pack_compression = \<lambda>c. [of_nat c], pack_bytes = \<lambda>b. b,
      unpack_deferred_context = \<lambda>b. Inr \<lparr>sender_trx_id = toy_digest 1, sender_id = 1, sender = 1\<rparr>,
      zlib_inflate = \<lambda>b. ([tl b], True), zlib_deflate = \<lambda>b. 0 # b,
      tx_recover_key = \<lambda>sig d. Inr (sig + 1), tx_endian_reverse_u32 = byte_swap, sig_variable_size = \<lambda>s. 0\<rparr>"

lemma sample_codec: "tx_codec_ok sample_tx_env sample_trx"
  by (simp add: tx_codec_ok_def sample_tx_env_def sample_trx_def)

theorem packed_transaction_roundtrip_witness:
  "\<exists>p. packed_of_signed sample_tx_env sample_trx compression_zlib = Inr p \<and> unpacked_trx p = sample_trx
     \<and> packed_of_bytes sample_tx_env \<lparr>amount = 0, sym = sample_symbol\<rparr> (packed_trx p) (ptrx_signatures p) (packed_context_free_data p) compression_zlib = Inr p"
proof -
  have "fits sample_tx_env compression_zlib sample_trx"
    by (simp add: fits_def sample_tx_env_def)
  from packed_transaction_roundtrip [OF sample_codec this] show ?thesis
    by blast
qed

theorem zlib_decompress_bounded_witness:
  "zlib_decompress sample_tx_env [0, 5, 6] = Inr [5, 6] \<and> zlib_decompress sample_tx_env (0 # replicate (1 + 2 ^ 20) 0) = Inl tx_decompression_error"
proof -
  have "zlib_inflate sample_tx_env [0, 5, 6] = ([[5, 6]], True)"
    "zlib_inflate sample_tx_env (0 # replicate (1 + 2 ^ 20) 0) = ([replicate (1 + 2 ^ 20) 0], True)"
    by (simp_all add: sample_tx_env_def)
  from zlib_decompress_bounded [OF this(1)] zlib_decompress_bounded [OF this(2)] show ?thesis
    by simp
qed

theorem get_signature_keys_sound_witness:
  "\<exists>usage keys ks. signed_get_signature_keys sample_tx_env int sample_trx (toy_digest 5) 100 False = Inr (usage, keys)
     \<and> keys = set ks \<and> distinct ks \<and> card keys = 2 \<and> usage = 3"
proof -
  have "\<exists>usage keys. signed_get_signature_keys sample_tx_env int sample_trx (toy_digest 5) 100 False = Inr (usage, keys)"
    by (simp add: signed_get_signature_keys_def get_signature_keys_def sample_trx_def sample_tx_env_def Let_def)
  then obtain usage keys where k: "signed_get_signature_keys sample_tx_env int sample_trx (toy_digest 5) 100 False = Inr (usage, keys)"
    by blast
  from get_signature_keys_sound [OF k] show ?thesis
    using k by (auto simp: sample_trx_def)
qed

theorem get_ref_blocknum_is_head_witness: "get_ref_blocknum sample_trx 70000 = 70000"
  by (rule get_ref_blocknum_is_head) simp

end
