(* ===== verification/Tables.thy ===== *)
theory Tables
  imports Chain_Prelude
begin

text \<open>
  The rows of a database index with a unique ordered key. The chain keeps its state in tables
  declared with \<^verbatim>\<open>ordered_unique\<close> keys; a table is modelled by its rows in the order of that
  key, a strictly sorted association list. \<open>unique_table\<close> is the interface the components use:
  what a lookup returns after an insertion, a removal or a modification.
\<close>

type_synonym ('k, 'v) table = "('k \<times> 'v) list"

definition tbl_find :: "'k \<Rightarrow> ('k, 'v) table \<Rightarrow> 'v option" where
  "tbl_find k t = map_of t k"

definition tbl_get :: "'k \<Rightarrow> ('k, 'v) table \<Rightarrow> 'v result" where
  "tbl_get k t = of_option db_not_found (tbl_find k t)"

text \<open>Writing a row: in place when the key exists, at its ordered position otherwise.\<close>

fun tbl_put :: "'k :: linorder \<Rightarrow> 'v \<Rightarrow> ('k, 'v) table \<Rightarrow> ('k, 'v) table" where
  "tbl_put k v [] = [(k, v)]"
| "tbl_put k v ((k', v') # t) =
     (if k < k' then (k, v) # (k', v') # t
      else if k = k' then (k, v) # t
      else (k', v') # tbl_put k v t)"

definition tbl_create :: "'k :: linorder \<Rightarrow> 'v \<Rightarrow> ('k, 'v) table \<Rightarrow> ('k, 'v) table result" where
  "tbl_create k v t = (if tbl_find k t = None then Inr (tbl_put k v t) else Inl db_not_unique)"

definition tbl_remove :: "'k \<Rightarrow> ('k, 'v) table \<Rightarrow> ('k, 'v) table" where
  "tbl_remove k t = filter (\<lambda>r. fst r \<noteq> k) t"

definition tbl_keys :: "('k, 'v) table \<Rightarrow> 'k set" where
  "tbl_keys t = fst ` set t"

definition tbl_wf :: "('k :: linorder, 'v) table \<Rightarrow> bool" where
  "tbl_wf t \<longleftrightarrow> sorted_wrt (<) (map fst t)"

text \<open>The sum of a quantity over the rows.\<close>

definition tbl_sum :: "('k \<Rightarrow> 'v \<Rightarrow> nat) \<Rightarrow> ('k, 'v) table \<Rightarrow> nat" where
  "tbl_sum f t = sum_list (map (\<lambda>r. f (fst r) (snd r)) t)"

section \<open>Lookups\<close>

lemma tbl_find_Nil [simp]: "tbl_find k [] = None"
  by (simp add: tbl_find_def)

lemma tbl_find_put [simp]: "tbl_find k' (tbl_put k v t) = (if k' = k then Some v else tbl_find k' t)"
  by (induction k v t rule: tbl_put.induct) (auto simp: tbl_find_def)

lemma tbl_find_remove [simp]: "tbl_find k' (tbl_remove k t) = (if k' = k then None else tbl_find k' t)"
  by (induction t) (auto simp: tbl_find_def tbl_remove_def)

lemma tbl_find_keys: "tbl_find k t \<noteq> None \<longleftrightarrow> k \<in> tbl_keys t"
  by (simp add: tbl_find_def tbl_keys_def map_of_eq_None_iff)

lemma tbl_find_Some_keys: "tbl_find k t = Some v \<Longrightarrow> k \<in> tbl_keys t"
  using tbl_find_keys by (metis option.distinct(1))

lemma tbl_find_None_keys: "tbl_find k t = None \<longleftrightarrow> k \<notin> tbl_keys t"
  by (simp add: tbl_find_def tbl_keys_def map_of_eq_None_iff)

lemma tbl_get_Inr [simp]: "tbl_get k t = Inr v \<longleftrightarrow> tbl_find k t = Some v"
  by (simp add: tbl_get_def)

lemma tbl_get_Inl [simp]: "tbl_get k t = Inl e \<longleftrightarrow> tbl_find k t = None \<and> e = db_not_found"
  by (auto simp: tbl_get_def of_option_def split: option.splits)

lemma tbl_create_Inr [simp]:
  "tbl_create k v t = Inr t' \<longleftrightarrow> tbl_find k t = None \<and> t' = tbl_put k v t"
  by (auto simp: tbl_create_def)

lemma tbl_keys_put [simp]: "tbl_keys (tbl_put k v t) = insert k (tbl_keys t)"
  by (induction k v t rule: tbl_put.induct) (auto simp: tbl_keys_def)

lemma tbl_keys_remove [simp]: "tbl_keys (tbl_remove k t) = tbl_keys t - {k}"
  by (auto simp: tbl_keys_def tbl_remove_def)

section \<open>Order\<close>

lemma tbl_wf_Nil [simp]: "tbl_wf []"
  by (simp add: tbl_wf_def)

lemma tbl_keys_Nil [simp]: "tbl_keys [] = {}"
  by (simp add: tbl_keys_def)

lemma tbl_keys_Cons [simp]: "tbl_keys (r # t) = insert (fst r) (tbl_keys t)"
  by (simp add: tbl_keys_def)

lemma tbl_wf_Cons [simp]: "tbl_wf (r # t) \<longleftrightarrow> (\<forall>k\<in>tbl_keys t. fst r < k) \<and> tbl_wf t"
  by (simp add: tbl_wf_def tbl_keys_def)

lemma tbl_find_Cons: "tbl_find k (r # t) = (if fst r = k then Some (snd r) else tbl_find k t)"
  by (cases r) (simp add: tbl_find_def)

lemma tbl_wf_put [simp]: "tbl_wf t \<Longrightarrow> tbl_wf (tbl_put k v t)"
  by (induction k v t rule: tbl_put.induct) auto

lemma tbl_wf_remove [simp]: "tbl_wf t \<Longrightarrow> tbl_wf (tbl_remove k t)"
proof (induction t)
  case (Cons r t)
  have "tbl_keys (tbl_remove k t) \<subseteq> tbl_keys t"
    by auto
  with Cons show ?case
    by (auto simp: tbl_remove_def)
qed (simp add: tbl_remove_def)

lemma tbl_find_in: "tbl_find k t = Some v \<Longrightarrow> (k, v) \<in> set t"
  by (simp add: tbl_find_def map_of_SomeD)

lemma tbl_wf_find: "tbl_wf t \<Longrightarrow> (k, v) \<in> set t \<Longrightarrow> tbl_find k t = Some v"
proof (induction t)
  case (Cons r t)
  then show ?case
    by (force simp: tbl_find_Cons tbl_keys_def)
qed simp

lemma tbl_wf_head:
  assumes "tbl_wf ((k, v) # t)"
  shows "tbl_wf t" "tbl_find k t = None" "tbl_remove k ((k, v) # t) = t"
proof -
  show "tbl_wf t" "tbl_find k t = None"
    using assms by (auto simp: tbl_find_None_keys)
  have "\<forall>r\<in>set t. fst r \<noteq> k"
    using assms by (auto simp: tbl_keys_def)
  then show "tbl_remove k ((k, v) # t) = t"
    by (simp add: tbl_remove_def)
qed

section \<open>Sums over rows\<close>

lemma tbl_sum_Nil [simp]: "tbl_sum f [] = 0"
  by (simp add: tbl_sum_def)

lemma tbl_sum_Cons [simp]: "tbl_sum f (r # t) = f (fst r) (snd r) + tbl_sum f t"
  by (simp add: tbl_sum_def)

lemma tbl_sum_put:
  "tbl_wf t \<Longrightarrow>
     tbl_sum f (tbl_put k v t) + (case tbl_find k t of None \<Rightarrow> 0 | Some v' \<Rightarrow> f k v') = tbl_sum f t + f k v"
proof (induction k v t rule: tbl_put.induct)
  case (2 k v k' v' t)
  have "tbl_find k ((k', v') # t) = None" if "k < k'"
    using that 2(2) by (auto simp: tbl_find_None_keys)
  with 2 show ?case
    by (auto simp: tbl_find_Cons split: option.splits)
qed simp

lemma tbl_sum_ge: "tbl_find k t = Some v \<Longrightarrow> f k v \<le> tbl_sum f t"
  by (induction t) (auto simp: tbl_find_Cons split: if_splits)

lemma tbl_sum_put_found:
  "tbl_wf t \<Longrightarrow> tbl_find k t = Some v' \<Longrightarrow> tbl_sum f (tbl_put k v t) = tbl_sum f t + f k v - f k v'"
  using tbl_sum_put [of t f k v] by simp

lemma tbl_sum_remove_zero: "(\<And>v. f k v = 0) \<Longrightarrow> tbl_sum f (tbl_remove k t) = tbl_sum f t"
  by (induction t) (auto simp: tbl_remove_def)

lemma tbl_sum_remove:
  "tbl_wf t \<Longrightarrow> tbl_find k t = Some v \<Longrightarrow> tbl_sum f (tbl_remove k t) + f k v = tbl_sum f t"
proof (induction t)
  case (Cons r t)
  show ?case
  proof (cases "fst r = k")
    case True
    then have "tbl_remove k (r # t) = t" "v = snd r"
      using tbl_wf_head(3) [of k "snd r" t] Cons.prems by (auto simp: tbl_find_Cons)
    with True show ?thesis
      by simp
  next
    case False
    then have "tbl_remove k (r # t) = r # tbl_remove k t" "tbl_find k t = Some v"
      using Cons.prems by (auto simp: tbl_remove_def tbl_find_Cons)
    with Cons show ?thesis
      by simp
  qed
qed simp

lemma tbl_sum_add: "tbl_sum (\<lambda>k v. f k v + g k v) t = tbl_sum f t + tbl_sum g t"
  by (induction t) auto

lemma tbl_sum_zero: "(\<And>k v. f k v = 0) \<Longrightarrow> tbl_sum f t = 0"
  by (induction t) auto

section \<open>The interface\<close>

locale unique_table =
  fixes empty :: 't
    and find :: "'k \<Rightarrow> 't \<Rightarrow> 'v option"
    and put :: "'k \<Rightarrow> 'v \<Rightarrow> 't \<Rightarrow> 't"
    and remove :: "'k \<Rightarrow> 't \<Rightarrow> 't"
    and invar :: "'t \<Rightarrow> bool"
  assumes find_empty: "find k empty = None"
    and find_put: "invar t \<Longrightarrow> find k' (put k v t) = (if k' = k then Some v else find k' t)"
    and find_remove: "invar t \<Longrightarrow> find k' (remove k t) = (if k' = k then None else find k' t)"
    and invar_empty: "invar empty"
    and invar_put: "invar t \<Longrightarrow> invar (put k v t)"
    and invar_remove: "invar t \<Longrightarrow> invar (remove k t)"
begin

text \<open>Loading rows one after the other: the last row written under a key is the one found.\<close>

lemma invar_load: "invar t \<Longrightarrow> invar (fold (\<lambda>(k, v). put k v) rows t)"
  by (induction rows arbitrary: t) (auto simp: invar_put)

lemma find_load:
  "invar t \<Longrightarrow> find k (fold (\<lambda>(k, v). put k v) rows t) =
     (case map_of (rev rows) k of None \<Rightarrow> find k t | Some v \<Rightarrow> Some v)"
proof (induction rows arbitrary: t)
  case (Cons r rows)
  obtain k' v where r: "r = (k', v)"
    by (cases r)
  have "find k (fold (\<lambda>(k, v). put k v) rows (put k' v t)) =
     (case map_of (rev rows) k of None \<Rightarrow> find k (put k' v t) | Some v \<Rightarrow> Some v)"
    using Cons.IH Cons.prems invar_put by blast
  then show ?case
    using Cons.prems by (simp add: r find_put map_add_def split: option.splits)
qed simp

end

interpretation tbl: unique_table "[]" "tbl_find :: 'k :: linorder \<Rightarrow> ('k, 'v) table \<Rightarrow> 'v option" tbl_put tbl_remove tbl_wf
  by unfold_locales auto

end
