(* ===== verification/Block_Header_State.thy ===== *)
theory Block_Header_State
  imports Block_Header Tables
begin

text \<open>
  The header state machine (\<^verbatim>\<open>block_header_state.hpp\<close>, \<^verbatim>\<open>block_header_state.cpp\<close>): scheduling of
  producers, DPoS confirmations and irreversibility, promotion of pending schedules, the header
  template of the next block and the validation of a received one, and block signatures. The two
  maps from producers to block numbers are tables; block numbers are 32-bit values kept as
  naturals, confirmation counts 8-bit ones.
\<close>

record schedule_info =
  schedule_lib_num :: nat
  schedule_hash :: digest
  info_schedule :: producer_authority_schedule

record block_header_state_common =
  block_num :: nat
  dpos_proposed_irreversible_blocknum :: nat
  dpos_irreversible_blocknum :: nat
  active_schedule :: producer_authority_schedule
  blockroot_merkle :: incremental_merkle
  producer_to_last_produced :: "(account_name, nat) table"
  producer_to_last_implied_irb :: "(account_name, nat) table"
  valid_block_signing_authority :: block_signing_authority
  confirm_count :: "nat list"

record pending_block_header_state = block_header_state_common +
  prev_activated_protocol_features :: "digest set"
  prev_pending_schedule :: schedule_info
  was_pending_promoted :: bool
  previous :: block_id_type
  producer :: account_name
  timestamp :: block_timestamp
  active_schedule_version :: nat
  confirmed :: nat

record block_header_state = block_header_state_common +
  bhs_id :: block_id_type
  header :: signed_block_header
  pending_schedule :: schedule_info
  activated_protocol_features :: "digest set"
  additional_signatures :: "signature_type list"
  header_exts :: "(nat \<times> block_header_extension) list"

type_synonym builtin_digests = "builtin_protocol_feature_t \<Rightarrow> digest option"
type_synonym feature_validator = "block_timestamp \<Rightarrow> digest set \<Rightarrow> digest list \<Rightarrow> unit result"

definition maximum_tracked_dpos_confirmations :: nat where
  "maximum_tracked_dpos_confirmations = 1024"

definition producer_repetitions :: nat where
  "producer_repetitions = 1"

definition is_builtin_activated :: "digest set \<Rightarrow> builtin_digests \<Rightarrow> builtin_protocol_feature_t \<Rightarrow> bool" where
  "is_builtin_activated pfa pfs feature_codename =
     (case pfs feature_codename of None \<Rightarrow> False | Some d \<Rightarrow> d \<in> pfa)"

section \<open>The next block\<close>

text \<open>An empty schedule makes the remainder, or the access to the vector, undefined.\<close>

definition get_scheduled_producer :: "'a block_header_state_common_scheme \<Rightarrow> block_timestamp \<Rightarrow> producer_authority result" where
  "get_scheduled_producer s t =
     (let n = length (sched_producers (active_schedule s)) in
      if n = 0 then Inl undefined_behaviour
      else (let index = t mod (n * producer_repetitions);
                index = index div producer_repetitions
            in Inr (sched_producers (active_schedule s) ! index)))"

text \<open>\<^verbatim>\<open>std::nth_element\<close> puts the element of the sorted order at the position asked for.\<close>

definition calc_dpos_last_irreversible :: "'a block_header_state_common_scheme \<Rightarrow> account_name \<Rightarrow> nat" where
  "calc_dpos_last_irreversible s producer_of_next_block =
     (let blocknums = map (\<lambda>i. if fst i = producer_of_next_block then dpos_proposed_irreversible_blocknum s else snd i)
                        (producer_to_last_implied_irb s)
      in if length blocknums = 0 then 0
         else (let index = (length blocknums - 1) div 3 in sort blocknums ! index))"

definition grow_confirm_count :: "nat list \<Rightarrow> nat \<Rightarrow> nat list" where
  "grow_confirm_count cc required_confs =
     (if length cc < maximum_tracked_dpos_confirmations then cc @ [required_confs mod 256]
      else tl cc @ [required_confs mod 256])"

definition dec8 :: "nat \<Rightarrow> nat" where
  "dec8 x = (if x = 0 then 255 else x - 1)"

text \<open>
  The loop over the confirmations, from the newest entry down; the first argument is \<^verbatim>\<open>i + 1\<close>. An
  entry that reaches zero ends the loop, and it and the older ones are dropped.
\<close>

fun confirm_loop :: "nat \<Rightarrow> nat \<Rightarrow> nat list \<Rightarrow> nat list \<times> nat option" where
  "confirm_loop 0 blocks_to_confirm cc = (cc, None)"
| "confirm_loop (Suc i) blocks_to_confirm cc =
     (if blocks_to_confirm = 0 then (cc, None)
      else (let cc = cc[i := dec8 (cc ! i)]
            in if cc ! i = 0 then (if i = length cc - 1 then [] else drop (i + 1) cc, Some i)
               else confirm_loop i (blocks_to_confirm - 1) cc))"

definition confirm_blocks :: "nat list \<Rightarrow> nat \<Rightarrow> nat \<Rightarrow> nat \<Rightarrow> nat list \<times> nat" where
  "confirm_blocks cc new_block_num num_prev_blocks_to_confirm proposed =
     (case confirm_loop (length cc) (num_prev_blocks_to_confirm + 1) cc of
        (cc', None) \<Rightarrow> (cc', proposed)
      | (cc', Some i) \<Rightarrow> (cc', sub32 new_block_num (length cc - 1 - i)))"

definition promote_last_produced ::
    "(account_name, nat) table \<Rightarrow> producer_authority list \<Rightarrow> account_name \<Rightarrow> nat \<Rightarrow> nat \<Rightarrow> (account_name, nat) table" where
  "promote_last_produced last_produced pros current new_block_num lib =
     tbl_put current new_block_num
       (fold (\<lambda>pro m.
          tbl_put (pa_producer_name pro)
            (if pa_producer_name pro = current then new_block_num
             else (case tbl_find (pa_producer_name pro) last_produced of Some existing \<Rightarrow> existing | None \<Rightarrow> lib)) m) pros [])"

definition promote_last_implied_irb ::
    "(account_name, nat) table \<Rightarrow> producer_authority list \<Rightarrow> account_name \<Rightarrow> nat \<Rightarrow> nat \<Rightarrow> (account_name, nat) table" where
  "promote_last_implied_irb last_implied pros current proposed lib =
     fold (\<lambda>pro m.
       tbl_put (pa_producer_name pro)
         (if pa_producer_name pro = current then proposed
          else (case tbl_find (pa_producer_name pro) last_implied of Some existing \<Rightarrow> existing | None \<Rightarrow> lib)) m) pros []"

definition next_when :: "block_header_state \<Rightarrow> block_timestamp \<Rightarrow> block_timestamp result" where
  "next_when s when =
     (if when \<noteq> 0
      then bind_r (eos_assert (when > hdr_timestamp (header s)) block_validate_exception) (\<lambda>_. Inr when)
      else Inr (add32 (hdr_timestamp (header s)) 1))"

definition check_double_confirm :: "block_header_state \<Rightarrow> account_name \<Rightarrow> nat \<Rightarrow> unit result" where
  "check_double_confirm s pname num_prev_blocks_to_confirm =
     (case tbl_find pname (producer_to_last_produced s) of
        None \<Rightarrow> Inr ()
      | Some last_num \<Rightarrow> eos_assert (last_num < sub32 (add32 (block_num s) 1) num_prev_blocks_to_confirm) producer_double_confirm)"

definition bhs_next ::
    "fc_env \<Rightarrow> block_header_state \<Rightarrow> block_timestamp \<Rightarrow> nat \<Rightarrow> pending_block_header_state result" where
  "bhs_next env s when num_prev_blocks_to_confirm =
     bind_r (next_when s when) (\<lambda>when.
     bind_r (get_scheduled_producer s when) (\<lambda>proauth.
     bind_r (check_double_confirm s (pa_producer_name proauth) num_prev_blocks_to_confirm) (\<lambda>_.
     bind_r (append_node (hash_pair env) (blockroot_merkle s) (bhs_id s)) (\<lambda>merkle'.
       (let num = add32 (block_num s) 1;
            pname = pa_producer_name proauth;
            required_confs = length (sched_producers (active_schedule s)) * 2 div 3 + 1;
            cc = grow_confirm_count (confirm_count s) required_confs
        in case confirm_blocks cc num num_prev_blocks_to_confirm (dpos_proposed_irreversible_blocknum s) of (cc', proposed) \<Rightarrow>
          (let lib = calc_dpos_last_irreversible s pname;
               promoted = (length (sched_producers (info_schedule (pending_schedule s))) > 0
                           \<and> lib \<ge> schedule_lib_num (pending_schedule s));
               pend = info_schedule (pending_schedule s)
           in Inr \<lparr>block_num = num,
                   dpos_proposed_irreversible_blocknum = proposed,
                   dpos_irreversible_blocknum = lib,
                   active_schedule = (if promoted then pend else active_schedule s),
                   blockroot_merkle = merkle',
                   producer_to_last_produced =
                     (if promoted then promote_last_produced (producer_to_last_produced s) (sched_producers pend) pname num lib
                      else tbl_put pname num (producer_to_last_produced s)),
                   producer_to_last_implied_irb =
                     (if promoted
                      then promote_last_implied_irb (producer_to_last_implied_irb s) (sched_producers pend) pname
                             (dpos_proposed_irreversible_blocknum s) lib
                      else tbl_put pname (dpos_proposed_irreversible_blocknum s) (producer_to_last_implied_irb s)),
                   valid_block_signing_authority = pa_authority proauth,
                   confirm_count = cc',
                   prev_activated_protocol_features = activated_protocol_features s,
                   prev_pending_schedule = pending_schedule s,
                   was_pending_promoted = promoted,
                   previous = bhs_id s,
                   producer = pname,
                   timestamp = when,
                   active_schedule_version = sched_version (active_schedule s),
                   confirmed = num_prev_blocks_to_confirm\<rparr>))))))"

section \<open>The header template\<close>

definition downgrade_producer :: "producer_authority \<Rightarrow> legacy_producer_key result" where
  "downgrade_producer p =
     (case pa_authority p of bsa_v0 auth \<Rightarrow>
        (case bsa_keys auth of
           [k] \<Rightarrow> bind_r (eos_assert (kw_weight k = bsa_threshold auth) producer_schedule_exception) (\<lambda>_.
                    Inr \<lparr>pk_producer_name = pa_producer_name p, pk_block_signing_key = kw_key k\<rparr>)
         | _ \<Rightarrow> Inl producer_schedule_exception))"

fun downgrade_producers :: "producer_authority list \<Rightarrow> legacy_producer_key list result" where
  "downgrade_producers [] = Inr []"
| "downgrade_producers (p # ps) =
     bind_r (downgrade_producer p) (\<lambda>k. bind_r (downgrade_producers ps) (\<lambda>ks. Inr (k # ks)))"

definition make_block_header ::
    "fc_env \<Rightarrow> pending_block_header_state \<Rightarrow> digest \<Rightarrow> digest \<Rightarrow> producer_authority_schedule option \<Rightarrow> digest list
       \<Rightarrow> builtin_digests \<Rightarrow> signed_block_header result" where
  "make_block_header env p transaction_mroot action_mroot new_producers new_protocol_feature_activations pfs =
     (let exts = (if length new_protocol_feature_activations > 0
                  then emplace_extension [] activation_extension_id (pack_activation env new_protocol_feature_activations)
                  else []);
          h = \<lparr>hdr_timestamp = timestamp p, hdr_producer = producer p, hdr_confirmed = confirmed p,
               hdr_previous = previous p, hdr_transaction_mroot = transaction_mroot, hdr_action_mroot = action_mroot,
               hdr_schedule_version = active_schedule_version p, hdr_new_producers = None, hdr_extensions = exts,
               hdr_producer_signature = 0\<rparr>
      in case new_producers of
           None \<Rightarrow> Inr h
         | Some np \<Rightarrow>
             if is_builtin_activated (prev_activated_protocol_features p) pfs wtmsig_block_signatures
             then Inr (h\<lparr>hdr_extensions := emplace_extension exts schedule_change_extension_id (pack_schedule env np)\<rparr>)
             else bind_r (downgrade_producers (sched_producers np)) (\<lambda>ks.
                    Inr (h\<lparr>hdr_new_producers := Some \<lparr>lps_version = sched_version np, lps_producers = ks\<rparr>\<rparr>)))"

section \<open>Finishing a header state\<close>

text \<open>A schedule in the legacy field of the header.\<close>

definition check_legacy_schedule ::
    "fc_env \<Rightarrow> pending_block_header_state \<Rightarrow> bool \<Rightarrow> legacy_producer_schedule option
       \<Rightarrow> (producer_authority_schedule \<times> digest) option result" where
  "check_legacy_schedule env p wtmsig_enabled np =
     (case np of
        None \<Rightarrow> Inr None
      | Some new_producers \<Rightarrow>
          bind_r (eos_assert (\<not> wtmsig_enabled) producer_schedule_exception) (\<lambda>_.
          bind_r (eos_assert (\<not> was_pending_promoted p) producer_schedule_exception) (\<lambda>_.
          bind_r (eos_assert (lps_version new_producers = add32 (sched_version (active_schedule p)) 1) producer_schedule_exception) (\<lambda>_.
          bind_r (eos_assert (sched_producers (info_schedule (prev_pending_schedule p)) = []) producer_schedule_exception) (\<lambda>_.
            Inr (Some (schedule_of_legacy new_producers, hash_legacy_schedule env new_producers)))))))"

text \<open>A schedule in the header extension; it overrides the result of the legacy field.\<close>

definition check_extension_schedule ::
    "fc_env \<Rightarrow> pending_block_header_state \<Rightarrow> bool \<Rightarrow> (nat \<times> block_header_extension) list
       \<Rightarrow> (producer_authority_schedule \<times> digest) option \<Rightarrow> (producer_authority_schedule \<times> digest) option result" where
  "check_extension_schedule env p wtmsig_enabled exts maybe =
     (if ext_count exts schedule_change_extension_id > 0
      then bind_r (eos_assert wtmsig_enabled producer_schedule_exception) (\<lambda>_.
           bind_r (eos_assert (\<not> was_pending_promoted p) producer_schedule_exception) (\<lambda>_.
           bind_r (ext_lower_bound exts schedule_change_extension_id) (\<lambda>e.
             case e of
               protocol_feature_activation ds \<Rightarrow> Inl undefined_behaviour
             | producer_schedule_change_extension new_producer_schedule \<Rightarrow>
                 bind_r (eos_assert (sched_version new_producer_schedule = add32 (sched_version (active_schedule p)) 1)
                           producer_schedule_exception) (\<lambda>_.
                 bind_r (eos_assert (sched_producers (info_schedule (prev_pending_schedule p)) = [])
                           producer_schedule_exception) (\<lambda>_.
                   Inr (Some (new_producer_schedule, hash_schedule env new_producer_schedule)))))))
      else Inr maybe)"

text \<open>
  The activation of protocol features. The test of the source is
  \<^verbatim>\<open>exts.count( extension_id() > 0 )\<close>: it counts the key that the comparison converts to.
\<close>

definition apply_activations ::
    "pending_block_header_state \<Rightarrow> feature_validator \<Rightarrow> (nat \<times> block_header_extension) list \<Rightarrow> digest set result" where
  "apply_activations p validator exts =
     (if ext_count exts (if activation_extension_id > 0 then 1 else 0) > 0
      then bind_r (ext_lower_bound exts activation_extension_id) (\<lambda>e.
             case e of
               producer_schedule_change_extension s \<Rightarrow> Inl undefined_behaviour
             | protocol_feature_activation new_protocol_features \<Rightarrow>
                 bind_r (validator (timestamp p) (prev_activated_protocol_features p) new_protocol_features) (\<lambda>_.
                   protocol_feature_activation_set (prev_activated_protocol_features p) new_protocol_features True))
      else Inr (prev_activated_protocol_features p))"

definition next_pending_schedule ::
    "pending_block_header_state \<Rightarrow> (producer_authority_schedule \<times> digest) option \<Rightarrow> schedule_info" where
  "next_pending_schedule p maybe =
     (case maybe of
        Some (s, hash) \<Rightarrow> \<lparr>schedule_lib_num = block_num p, schedule_hash = hash, info_schedule = s\<rparr>
      | None \<Rightarrow>
          \<lparr>schedule_lib_num = schedule_lib_num (prev_pending_schedule p),
           schedule_hash = schedule_hash (prev_pending_schedule p),
           info_schedule =
             (if was_pending_promoted p
              then empty_schedule\<lparr>sched_version := sched_version (info_schedule (prev_pending_schedule p))\<rparr>
              else info_schedule (prev_pending_schedule p))\<rparr>)"

definition finish_next_common ::
    "fc_env \<Rightarrow> pending_block_header_state \<Rightarrow> signed_block_header \<Rightarrow> builtin_digests \<Rightarrow> feature_validator
       \<Rightarrow> block_header_state result" where
  "finish_next_common env p h pfs validator =
     bind_r (eos_assert (hdr_timestamp h = timestamp p) block_validate_exception) (\<lambda>_.
     bind_r (eos_assert (hdr_previous h = previous p) unlinkable_block_exception) (\<lambda>_.
     bind_r (eos_assert (hdr_confirmed h = confirmed p) block_validate_exception) (\<lambda>_.
     bind_r (eos_assert (hdr_producer h = producer p) wrong_producer) (\<lambda>_.
     bind_r (eos_assert (hdr_schedule_version h = active_schedule_version p) producer_schedule_exception) (\<lambda>_.
     bind_r (validate_and_extract_header_extensions env h) (\<lambda>exts.
       (let wtmsig_enabled =
              (if hdr_new_producers h \<noteq> None \<or> ext_count exts schedule_change_extension_id > 0
               then is_builtin_activated (prev_activated_protocol_features p) pfs wtmsig_block_signatures
               else False)
        in bind_r (check_legacy_schedule env p wtmsig_enabled (hdr_new_producers h)) (\<lambda>maybe.
           bind_r (check_extension_schedule env p wtmsig_enabled exts maybe) (\<lambda>maybe.
           bind_r (apply_activations p validator exts) (\<lambda>new_activated_protocol_features.
             Inr \<lparr>block_num = block_num p,
                  dpos_proposed_irreversible_blocknum = dpos_proposed_irreversible_blocknum p,
                  dpos_irreversible_blocknum = dpos_irreversible_blocknum p,
                  active_schedule = active_schedule p,
                  blockroot_merkle = blockroot_merkle p,
                  producer_to_last_produced = producer_to_last_produced p,
                  producer_to_last_implied_irb = producer_to_last_implied_irb p,
                  valid_block_signing_authority = valid_block_signing_authority p,
                  confirm_count = confirm_count p,
                  bhs_id = header_id env h,
                  header = h,
                  pending_schedule = next_pending_schedule p maybe,
                  activated_protocol_features = new_activated_protocol_features,
                  additional_signatures = [],
                  header_exts = exts\<rparr>)))))))))) "

section \<open>Signatures\<close>

definition sig_digest :: "fc_env \<Rightarrow> block_header_state \<Rightarrow> digest result" where
  "sig_digest env s =
     bind_r (get_root (null_digest env) (blockroot_merkle s)) (\<lambda>root.
       let header_bmroot = hash_pair env (header_digest env (header s), root)
       in Inr (hash_pair env (header_bmroot, schedule_hash (pending_schedule s))))"

fun collect_keys :: "fc_env \<Rightarrow> digest \<Rightarrow> public_key_type set \<Rightarrow> signature_type list \<Rightarrow> public_key_type set result" where
  "collect_keys env d keys [] = Inr keys"
| "collect_keys env d keys (s # ss) =
     bind_r (recover_key env s d) (\<lambda>k.
     bind_r (eos_assert (k \<notin> keys) wrong_signing_key) (\<lambda>_. collect_keys env d (insert k keys) ss))"

definition verify_signee :: "fc_env \<Rightarrow> block_header_state \<Rightarrow> unit result" where
  "verify_signee env s =
     (let num_keys_in_authority = bsa_num_keys (valid_block_signing_authority s) in
      bind_r (eos_assert (1 + length (additional_signatures s) \<le> num_keys_in_authority) wrong_signing_key) (\<lambda>_.
      bind_r (sig_digest env s) (\<lambda>digest.
      bind_r (recover_key env (hdr_producer_signature (header s)) digest) (\<lambda>k.
      bind_r (collect_keys env digest {k} (additional_signatures s)) (\<lambda>keys.
        (case keys_satisfy_and_relevant keys (valid_block_signing_authority s) of (is_satisfied, relevant_sig_count) \<Rightarrow>
           bind_r (eos_assert (relevant_sig_count = card keys) wrong_signing_key) (\<lambda>_.
             eos_assert is_satisfied wrong_signing_key)))))))"

definition sign_block :: "fc_env \<Rightarrow> (digest \<Rightarrow> signature_type list) \<Rightarrow> block_header_state \<Rightarrow> block_header_state result" where
  "sign_block env signer s =
     bind_r (sig_digest env s) (\<lambda>d.
       (let sigs = signer d in
        bind_r (eos_assert (sigs \<noteq> []) no_block_signatures) (\<lambda>_.
          (let s' = s\<lparr>header := (header s)\<lparr>hdr_producer_signature := last sigs\<rparr>, additional_signatures := butlast sigs\<rparr>
           in bind_r (verify_signee env s') (\<lambda>_. Inr s')))))"

definition finish_next ::
    "fc_env \<Rightarrow> pending_block_header_state \<Rightarrow> signed_block_header \<Rightarrow> signature_type list \<Rightarrow> builtin_digests \<Rightarrow> feature_validator
       \<Rightarrow> bool \<Rightarrow> block_header_state result" where
  "finish_next env p h additional_sigs pfs validator skip_validate_signee =
     bind_r (if additional_sigs \<noteq> []
             then eos_assert (is_builtin_activated (prev_activated_protocol_features p) pfs wtmsig_block_signatures)
                    producer_schedule_exception
             else Inr ()) (\<lambda>_.
     bind_r (finish_next_common env p h pfs validator) (\<lambda>result.
       (let result = (if additional_sigs \<noteq> [] then result\<lparr>additional_signatures := additional_sigs\<rparr> else result)
        in bind_r (if skip_validate_signee then Inr () else verify_signee env result) (\<lambda>_. Inr result))))"

definition finish_next_sign ::
    "fc_env \<Rightarrow> pending_block_header_state \<Rightarrow> signed_block_header \<Rightarrow> builtin_digests \<Rightarrow> feature_validator
       \<Rightarrow> (digest \<Rightarrow> signature_type list) \<Rightarrow> (signed_block_header \<times> block_header_state) result" where
  "finish_next_sign env p h pfs validator signer =
     bind_r (finish_next_common env p h pfs validator) (\<lambda>result.
     bind_r (sign_block env signer result) (\<lambda>result.
       (let h = h\<lparr>hdr_producer_signature := hdr_producer_signature (header result)\<rparr>
        in bind_r (if additional_signatures result \<noteq> []
                   then eos_assert (is_builtin_activated (prev_activated_protocol_features p) pfs wtmsig_block_signatures)
                          producer_schedule_exception
                   else Inr ()) (\<lambda>_. Inr (h, result)))))"

text \<open>The transition a received header makes.\<close>

definition bhs_next_header ::
    "fc_env \<Rightarrow> block_header_state \<Rightarrow> signed_block_header \<Rightarrow> signature_type list \<Rightarrow> builtin_digests \<Rightarrow> feature_validator
       \<Rightarrow> bool \<Rightarrow> block_header_state result" where
  "bhs_next_header env s h additional_sigs pfs validator skip_validate_signee =
     bind_r (bhs_next env s (hdr_timestamp h) (hdr_confirmed h)) (\<lambda>p.
       finish_next env p h additional_sigs pfs validator skip_validate_signee)"

definition get_new_protocol_feature_activations :: "block_header_state \<Rightarrow> digest list result" where
  "get_new_protocol_feature_activations s =
     (if ext_count (header_exts s) activation_extension_id = 0 then Inr []
      else bind_r (ext_lower_bound (header_exts s) activation_extension_id) (\<lambda>e.
             case e of
               protocol_feature_activation ds \<Rightarrow> Inr ds
             | producer_schedule_change_extension s \<Rightarrow> Inl undefined_behaviour))"

section \<open>Genesis\<close>

text \<open>
  The header state the controller starts from: the initial producers are both the active and the
  pending schedule, every counter is zero and every map empty.
\<close>

definition genesis_header :: "fc_env \<Rightarrow> block_timestamp \<Rightarrow> digest \<Rightarrow> signed_block_header" where
  "genesis_header env initial_timestamp chain_id =
     \<lparr>hdr_timestamp = initial_timestamp, hdr_producer = 0, hdr_confirmed = 1, hdr_previous = null_digest env,
      hdr_transaction_mroot = null_digest env, hdr_action_mroot = chain_id, hdr_schedule_version = 0,
      hdr_new_producers = None, hdr_extensions = [], hdr_producer_signature = 0\<rparr>"

definition genesis_header_state ::
    "fc_env \<Rightarrow> block_timestamp \<Rightarrow> digest \<Rightarrow> legacy_producer_key list \<Rightarrow> block_header_state" where
  "genesis_header_state env initial_timestamp chain_id initial_producer_list =
     (let initial_schedule = \<lparr>lps_version = 0, lps_producers = initial_producer_list\<rparr>;
          h = genesis_header env initial_timestamp chain_id
      in \<lparr>block_num = unat (header_block_num env h),
          dpos_proposed_irreversible_blocknum = 0,
          dpos_irreversible_blocknum = 0,
          active_schedule = schedule_of_legacy initial_schedule,
          blockroot_merkle = incremental_merkle_init,
          producer_to_last_produced = [],
          producer_to_last_implied_irb = [],
          valid_block_signing_authority = bsa_v0 \<lparr>bsa_threshold = 0, bsa_keys = []\<rparr>,
          confirm_count = [],
          bhs_id = header_id env h,
          header = h,
          pending_schedule = \<lparr>schedule_lib_num = 0, schedule_hash = hash_legacy_schedule env initial_schedule,
                              info_schedule = schedule_of_legacy initial_schedule\<rparr>,
          activated_protocol_features = {},
          additional_signatures = [],
          header_exts = []\<rparr>)"

end
