(* ===== verification/Dpos.thy ===== *)
theory Dpos
  imports Block_Header_State
begin

text \<open>
  The properties of the header state machine: what the irreversible block number means, that a
  block is proposed as irreversible only after two thirds of the producers have confirmed it, how
  schedules follow each other, what a received header must satisfy and what signatures are accepted.
\<close>

section \<open>Order statistics\<close>

lemma length_filter_sort: "length (filter P (sort xs)) = length (filter P xs)"
  by (metis mset_filter mset_sort size_mset)

lemma sorted_nth_count_ge:
  assumes "sorted ys" "k < length ys"
  shows "length ys - k \<le> length (filter (\<lambda>x. ys ! k \<le> x) ys)"
proof -
  have "\<forall>x\<in>set (drop k ys). ys ! k \<le> x"
    using assms by (auto simp: in_set_conv_nth sorted_iff_nth_mono)
  then have "filter (\<lambda>x. ys ! k \<le> x) (drop k ys) = drop k ys"
    by simp
  then have "length (filter (\<lambda>x. ys ! k \<le> x) (drop k ys)) = length ys - k"
    by simp
  moreover have "filter (\<lambda>x. ys ! k \<le> x) ys = filter (\<lambda>x. ys ! k \<le> x) (take k ys) @ filter (\<lambda>x. ys ! k \<le> x) (drop k ys)"
    by (metis append_take_drop_id filter_append)
  ultimately show ?thesis
    by simp
qed

lemma sorted_nth_count_gt:
  assumes "sorted ys" "k < length ys" "ys ! k < w"
  shows "length (filter (\<lambda>x. w \<le> x) ys) \<le> length ys - k - 1"
proof -
  have "\<forall>x\<in>set (take (Suc k) ys). \<not> w \<le> x"
  proof
    fix x
    assume "x \<in> set (take (Suc k) ys)"
    then obtain i where "i \<le> k" "x = ys ! i"
      using assms(2) by (auto simp: in_set_conv_nth less_Suc_eq_le)
    then have "x \<le> ys ! k"
      using assms(1,2) by (simp add: sorted_nth_mono)
    then show "\<not> w \<le> x"
      using assms(3) by simp
  qed
  then have "filter (\<lambda>x. w \<le> x) (take (Suc k) ys) = []"
    by (simp add: filter_empty_conv)
  then have "filter (\<lambda>x. w \<le> x) ys = filter (\<lambda>x. w \<le> x) (drop (Suc k) ys)"
    by (metis append_take_drop_id filter_append append_Nil)
  then show ?thesis
    by (metis length_filter_le length_drop diff_Suc_eq_diff_pred diff_commute diff_diff_left add.commute plus_1_eq_Suc)
qed

text \<open>The last implied irreversible block of every producer, with the one of the next producer brought up to date.\<close>

definition implied_blocknums :: "'a block_header_state_common_scheme \<Rightarrow> account_name \<Rightarrow> nat list" where
  "implied_blocknums s p =
     map (\<lambda>i. if fst i = p then dpos_proposed_irreversible_blocknum s else snd i) (producer_to_last_implied_irb s)"

lemma calc_dpos_sort:
  "calc_dpos_last_irreversible s p =
     (if implied_blocknums s p = [] then 0 else sort (implied_blocknums s p) ! ((length (implied_blocknums s p) - 1) div 3))"
  by (simp add: calc_dpos_last_irreversible_def implied_blocknums_def Let_def)

lemma two_thirds_index:
  assumes "0 < n"
  shows "2 * n < 3 * (n - (n - 1) div 3) \<and> 3 * (n - (n - 1) div 3 - 1) \<le> 2 * (n :: nat)"
proof -
  define q where "q = (n - 1) div 3"
  have "q * 3 + (n - 1) mod 3 = n - 1" "(n - 1) mod 3 < 3"
    unfolding q_def by (rule div_mult_mod_eq) simp
  then have "3 * q < n" "n \<le> 3 * q + 3"
    using assms by linarith+
  then have "2 * n < 3 * (n - q) \<and> 3 * (n - q - 1) \<le> 2 * n"
    by linarith
  then show ?thesis
    by (simp only: q_def)
qed

text \<open>
  C6. The irreversible block number is the two-thirds quantile: more than two thirds of the
  producers imply a number at least as high, and no higher number has that support.
\<close>

theorem dpos_irreversible_two_thirds:
  assumes "producer_to_last_implied_irb s \<noteq> []"
  shows "2 * length (implied_blocknums s p)
      < 3 * length (filter (\<lambda>b. calc_dpos_last_irreversible s p \<le> b) (implied_blocknums s p))
    \<and> (\<forall>w > calc_dpos_last_irreversible s p.
        3 * length (filter (\<lambda>b. w \<le> b) (implied_blocknums s p)) \<le> 2 * length (implied_blocknums s p))"
proof -
  let ?xs = "implied_blocknums s p"
  let ?k = "(length ?xs - 1) div 3"
  have ne: "?xs \<noteq> []"
    using assms by (simp add: implied_blocknums_def)
  then have v: "calc_dpos_last_irreversible s p = sort ?xs ! ?k"
    by (simp add: calc_dpos_sort)
  have k: "?k < length (sort ?xs)"
    using ne by (cases ?xs) auto
  have ge: "length ?xs - ?k \<le> length (filter (\<lambda>b. sort ?xs ! ?k \<le> b) ?xs)"
    using sorted_nth_count_ge [OF sorted_sort k] by (simp add: length_filter_sort)
  have gt: "length (filter (\<lambda>b. w \<le> b) ?xs) \<le> length ?xs - ?k - 1" if "sort ?xs ! ?k < w" for w
    using sorted_nth_count_gt [OF sorted_sort k that] by (simp add: length_filter_sort)
  have "0 < length ?xs"
    using ne by simp
  moreover have "2 * n < 3 * (n - (n - 1) div 3) \<and> 3 * (n - (n - 1) div 3 - 1) \<le> 2 * n" if "0 < n" for n :: nat
    using that by (rule two_thirds_index)
  ultimately have "2 * length ?xs < 3 * (length ?xs - ?k)" "3 * (length ?xs - ?k - 1) \<le> 2 * length ?xs"
    by blast+
  then show ?thesis
    using ge gt unfolding v by (meson le_trans less_le_trans mult_le_mono2)
qed

section \<open>The confirmation loop\<close>

definition dec_tail :: "nat list \<Rightarrow> nat \<Rightarrow> nat list" where
  "dec_tail cc m = map (\<lambda>j. if m \<le> j then cc ! j - 1 else cc ! j) [0..<length cc]"

lemma length_dec_tail [simp]: "length (dec_tail cc m) = length cc"
  by (simp add: dec_tail_def)

lemma nth_dec_tail [simp]: "j < length cc \<Longrightarrow> dec_tail cc m ! j = (if m \<le> j then cc ! j - 1 else cc ! j)"
  by (simp add: dec_tail_def)

lemma dec_tail_update:
  assumes "i < length cc" "0 < cc ! i"
  shows "(dec_tail cc (Suc i))[i := dec8 (dec_tail cc (Suc i) ! i)] = dec_tail cc i"
  by (rule nth_equalityI) (use assms in \<open>auto simp: nth_list_update dec8_def\<close>)

lemma drop_dec_tail: "drop (Suc i) (dec_tail cc i) = drop (Suc i) (dec_tail cc (Suc i))"
  by (rule nth_equalityI) auto

lemma confirm_loop_from:
  assumes "\<forall>j<length cc. 0 < cc ! j" "i \<le> length cc" "\<forall>j<length cc. i \<le> j \<longrightarrow> 2 \<le> cc ! j"
    "confirm_loop i b (dec_tail cc i) = (cc', r)"
  shows "case r of
      None \<Rightarrow> cc' = dec_tail cc (i - b) \<and> (\<forall>j<length cc. i - b \<le> j \<longrightarrow> 2 \<le> cc ! j)
    | Some k \<Rightarrow> i - b \<le> k \<and> k < i \<and> cc ! k = 1 \<and> cc' = drop (Suc k) (dec_tail cc (Suc k))
        \<and> (\<forall>j<length cc. k < j \<longrightarrow> 2 \<le> cc ! j)"
  using assms(2-4)
proof (induction i arbitrary: b)
  case (Suc i)
  have i: "i < length cc" "0 < cc ! i"
    using Suc.prems(1) assms(1) by auto
  show ?case
  proof (cases "b = 0")
    case True
    then show ?thesis
      using Suc.prems by auto
  next
    case False
    note upd = dec_tail_update [OF i]
    show ?thesis
    proof (cases "cc ! i = 1")
      case True
      then have "cc' = drop (Suc i) (dec_tail cc i)" "r = Some i"
        using Suc.prems(3) False i upd by (auto simp: Let_def dec8_def split: if_splits)
      then show ?thesis
        using True Suc.prems(2) False by (auto simp: drop_dec_tail Suc_le_eq)
    next
      case ne: False
      then have rest: "confirm_loop i (b - 1) (dec_tail cc i) = (cc', r)"
        using Suc.prems(3) False i upd by (auto simp: Let_def dec8_def split: if_splits)
      have "\<forall>j<length cc. i \<le> j \<longrightarrow> 2 \<le> cc ! j"
        using Suc.prems(2) ne i by (metis Suc_leI le_neq_implies_less less_2_cases_iff not_less neq0_conv One_nat_def)
      from Suc.IH [OF _ this rest] show ?thesis
        using i False by (auto split: option.splits)
    qed
  qed
qed auto

text \<open>The loop in terms of the distance from the newest block.\<close>

lemma confirm_loop_distance:
  assumes "\<forall>x\<in>set cc. 0 < x" "confirm_loop (length cc) b cc = (cc', r)"
  shows "length cc' \<le> length cc"
    and "d < length cc' \<Longrightarrow> rev cc' ! d = (if d < b then rev cc ! d - 1 else rev cc ! d) \<and> 0 < rev cc' ! d"
    and "r = None \<Longrightarrow> length cc' = length cc"
    and "r = Some k \<Longrightarrow> length cc' < length cc \<and> k = length cc - 1 - length cc' \<and> length cc' < b \<and> rev cc ! length cc' = 1"
proof -
  have pos: "\<forall>j<length cc. 0 < cc ! j"
    using assms(1) by simp
  have start: "dec_tail cc (length cc) = cc"
    by (rule nth_equalityI) auto
  have loop: "case r of
      None \<Rightarrow> cc' = dec_tail cc (length cc - b) \<and> (\<forall>j<length cc. length cc - b \<le> j \<longrightarrow> 2 \<le> cc ! j)
    | Some k \<Rightarrow> length cc - b \<le> k \<and> k < length cc \<and> cc ! k = 1 \<and> cc' = drop (Suc k) (dec_tail cc (Suc k))
        \<and> (\<forall>j<length cc. k < j \<longrightarrow> 2 \<le> cc ! j)"
    by (rule confirm_loop_from [OF pos]) (auto simp: start assms(2))
  show "length cc' \<le> length cc" "r = None \<Longrightarrow> length cc' = length cc"
    using loop by (auto split: option.splits)
  show "length cc' < length cc \<and> k = length cc - 1 - length cc' \<and> length cc' < b \<and> rev cc ! length cc' = 1" if "r = Some k"
    using loop that by (auto simp: rev_nth)
  show "rev cc' ! d = (if d < b then rev cc ! d - 1 else rev cc ! d) \<and> 0 < rev cc' ! d" if d: "d < length cc'"
  proof (cases r)
    case None
    then have cc': "cc' = dec_tail cc (length cc - b)" "\<forall>j<length cc. length cc - b \<le> j \<longrightarrow> 2 \<le> cc ! j"
      using loop by auto
    have j: "length cc - Suc d < length cc" "(length cc - b \<le> length cc - Suc d) = (d < b)"
      using d by (auto simp: cc'(1))
    show ?thesis
      using d pos [rule_format, OF j(1)] cc'(2) [rule_format, OF j(1)] j by (auto simp: cc'(1) rev_nth)
  next
    case (Some k)
    then have k: "length cc - b \<le> k" "k < length cc" "cc' = drop (Suc k) (dec_tail cc (Suc k))"
      "\<forall>j<length cc. k < j \<longrightarrow> 2 \<le> cc ! j"
      using loop by auto
    have j: "length cc - Suc d < length cc" "k < length cc - Suc d" "d < b"
      using d k(1,2) by (auto simp: k(3))
    have "rev cc' ! d = cc ! (length cc - Suc d) - 1"
    proof -
      have "Suc (k + (length cc - Suc (Suc (k + d)))) = length cc - Suc d"
        using j(2) by simp
      then show ?thesis
        using d j k(2) by (simp add: rev_nth k(3) nth_drop)
    qed
    then show ?thesis
      using j k(4) [rule_format, OF j(1,2)] by (simp add: rev_nth)
  qed
qed

section \<open>One step of the chain\<close>

lemma bhs_next_Inr:
  assumes "bhs_next env s when c = Inr p"
  shows "next_when s when = Inr (timestamp p)"
    and "\<exists>pa. get_scheduled_producer s (timestamp p) = Inr pa \<and> producer p = pa_producer_name pa
          \<and> valid_block_signing_authority p = pa_authority pa"
    and "check_double_confirm s (producer p) c = Inr ()"
    and "append_node (hash_pair env) (blockroot_merkle s) (bhs_id s) = Inr (blockroot_merkle p)"
    and "block_num p = add32 (block_num s) 1"
    and "confirm_blocks (grow_confirm_count (confirm_count s) (length (sched_producers (active_schedule s)) * 2 div 3 + 1))
           (block_num p) c (dpos_proposed_irreversible_blocknum s)
         = (confirm_count p, dpos_proposed_irreversible_blocknum p)"
    and "dpos_irreversible_blocknum p = calc_dpos_last_irreversible s (producer p)"
    and "was_pending_promoted p \<longleftrightarrow> sched_producers (info_schedule (pending_schedule s)) \<noteq> []
           \<and> schedule_lib_num (pending_schedule s) \<le> dpos_irreversible_blocknum p"
    and "active_schedule p = (if was_pending_promoted p then info_schedule (pending_schedule s) else active_schedule s)"
    and "producer_to_last_produced p =
           (if was_pending_promoted p
            then promote_last_produced (producer_to_last_produced s) (sched_producers (info_schedule (pending_schedule s)))
                   (producer p) (block_num p) (dpos_irreversible_blocknum p)
            else tbl_put (producer p) (block_num p) (producer_to_last_produced s))"
    and "producer_to_last_implied_irb p =
           (if was_pending_promoted p
            then promote_last_implied_irb (producer_to_last_implied_irb s) (sched_producers (info_schedule (pending_schedule s)))
                   (producer p) (dpos_proposed_irreversible_blocknum s) (dpos_irreversible_blocknum p)
            else tbl_put (producer p) (dpos_proposed_irreversible_blocknum s) (producer_to_last_implied_irb s))"
    and "prev_pending_schedule p = pending_schedule s" "previous p = bhs_id s" "confirmed p = c"
    and "active_schedule_version p = sched_version (active_schedule s)"
    and "prev_activated_protocol_features p = activated_protocol_features s"
proof -
  obtain cc' proposed where cb:
    "confirm_blocks (grow_confirm_count (confirm_count s) (length (sched_producers (active_schedule s)) * 2 div 3 + 1))
       (add32 (block_num s) 1) c (dpos_proposed_irreversible_blocknum s) = (cc', proposed)"
    by fastforce
  obtain w pa m where step: "next_when s when = Inr w" "get_scheduled_producer s w = Inr pa"
    "check_double_confirm s (pa_producer_name pa) c = Inr ()"
    "append_node (hash_pair env) (blockroot_merkle s) (bhs_id s) = Inr m"
    using assms unfolding bhs_next_def by (auto simp: bind_r_Inr_iff)
  note p = assms [unfolded bhs_next_def Let_def step bind_r_simps cb prod.case sum.inject, symmetric]
  show "next_when s when = Inr (timestamp p)"
    "\<exists>pa. get_scheduled_producer s (timestamp p) = Inr pa \<and> producer p = pa_producer_name pa
       \<and> valid_block_signing_authority p = pa_authority pa"
    "check_double_confirm s (producer p) c = Inr ()"
    "append_node (hash_pair env) (blockroot_merkle s) (bhs_id s) = Inr (blockroot_merkle p)"
    "block_num p = add32 (block_num s) 1"
    "confirm_blocks (grow_confirm_count (confirm_count s) (length (sched_producers (active_schedule s)) * 2 div 3 + 1))
       (block_num p) c (dpos_proposed_irreversible_blocknum s) = (confirm_count p, dpos_proposed_irreversible_blocknum p)"
    "dpos_irreversible_blocknum p = calc_dpos_last_irreversible s (producer p)"
    "was_pending_promoted p \<longleftrightarrow> sched_producers (info_schedule (pending_schedule s)) \<noteq> []
       \<and> schedule_lib_num (pending_schedule s) \<le> dpos_irreversible_blocknum p"
    "active_schedule p = (if was_pending_promoted p then info_schedule (pending_schedule s) else active_schedule s)"
    "prev_pending_schedule p = pending_schedule s" "previous p = bhs_id s" "confirmed p = c"
    "active_schedule_version p = sched_version (active_schedule s)"
    "prev_activated_protocol_features p = activated_protocol_features s"
    using p step cb by simp_all
  show "producer_to_last_produced p =
      (if was_pending_promoted p
       then promote_last_produced (producer_to_last_produced s) (sched_producers (info_schedule (pending_schedule s)))
              (producer p) (block_num p) (dpos_irreversible_blocknum p)
       else tbl_put (producer p) (block_num p) (producer_to_last_produced s))"
    "producer_to_last_implied_irb p =
      (if was_pending_promoted p
       then promote_last_implied_irb (producer_to_last_implied_irb s) (sched_producers (info_schedule (pending_schedule s)))
              (producer p) (dpos_proposed_irreversible_blocknum s) (dpos_irreversible_blocknum p)
       else tbl_put (producer p) (dpos_proposed_irreversible_blocknum s) (producer_to_last_implied_irb s))"
    using p by simp_all
qed

text \<open>The part of a header state that finishing takes over from the pending state unchanged.\<close>

definition same_common :: "'a block_header_state_common_scheme \<Rightarrow> 'b block_header_state_common_scheme \<Rightarrow> bool" where
  "same_common s p \<longleftrightarrow> block_num s = block_num p
     \<and> dpos_proposed_irreversible_blocknum s = dpos_proposed_irreversible_blocknum p
     \<and> dpos_irreversible_blocknum s = dpos_irreversible_blocknum p
     \<and> active_schedule s = active_schedule p \<and> blockroot_merkle s = blockroot_merkle p
     \<and> producer_to_last_produced s = producer_to_last_produced p
     \<and> producer_to_last_implied_irb s = producer_to_last_implied_irb p
     \<and> valid_block_signing_authority s = valid_block_signing_authority p
     \<and> confirm_count s = confirm_count p"

definition header_matches :: "signed_block_header \<Rightarrow> pending_block_header_state \<Rightarrow> bool" where
  "header_matches h p \<longleftrightarrow> hdr_timestamp h = timestamp p \<and> hdr_previous h = previous p \<and> hdr_confirmed h = confirmed p
     \<and> hdr_producer h = producer p \<and> hdr_schedule_version h = active_schedule_version p"

text \<open>What a new pending schedule must satisfy.\<close>

definition may_propose :: "pending_block_header_state \<Rightarrow> producer_authority_schedule \<Rightarrow> bool" where
  "may_propose p sch \<longleftrightarrow> \<not> was_pending_promoted p \<and> sched_version sch = add32 (sched_version (active_schedule p)) 1
     \<and> sched_producers (info_schedule (prev_pending_schedule p)) = []"

text \<open>The schedule a header proposes, in its field or in one of its extensions.\<close>

definition proposes :: "fc_env \<Rightarrow> signed_block_header \<Rightarrow> producer_authority_schedule \<Rightarrow> bool" where
  "proposes env h sch \<longleftrightarrow>
     (\<exists>l. hdr_new_producers h = Some l \<and> sch = schedule_of_legacy l)
     \<or> (\<exists>exts. validate_and_extract_header_extensions env h = Inr exts
          \<and> producer_schedule_change_extension sch \<in> snd ` set exts)"

lemma check_legacy_schedule_Inr:
  "check_legacy_schedule env p w np = Inr m \<Longrightarrow>
     \<forall>sch hash. m = Some (sch, hash) \<longrightarrow> may_propose p sch \<and> (\<exists>l. np = Some l \<and> sch = schedule_of_legacy l)"
  by (auto simp: check_legacy_schedule_def bind_r_Inr_iff may_propose_def schedule_of_legacy_def split: option.splits)

lemma ext_lower_bound_in: "ext_lower_bound exts i = Inr e \<Longrightarrow> e \<in> snd ` set exts"
  by (auto simp: ext_lower_bound_def of_option_def find_Some_iff image_iff split: option.splits)

lemma check_extension_schedule_Inr:
  assumes "check_extension_schedule env p w exts m = Inr m'" "m' = Some (sch, hash)"
  shows "m' = m \<or> (may_propose p sch \<and> producer_schedule_change_extension sch \<in> snd ` set exts)"
proof (cases "ext_count exts schedule_change_extension_id > 0")
  case True
  then obtain e where e: "ext_lower_bound exts schedule_change_extension_id = Inr e"
    using assms(1) by (auto simp: check_extension_schedule_def bind_r_Inr_iff)
  show ?thesis
  proof (cases e)
    case (producer_schedule_change_extension n)
    then have "n = sch" "may_propose p n"
      using assms True e by (auto simp: check_extension_schedule_def bind_r_Inr_iff may_propose_def)
    then show ?thesis
      using ext_lower_bound_in [OF e] producer_schedule_change_extension by simp
  qed (use assms True e in \<open>auto simp: check_extension_schedule_def bind_r_Inr_iff\<close>)
qed (use assms in \<open>simp add: check_extension_schedule_def\<close>)

lemma finish_next_common_Inr:
  assumes "finish_next_common env p h pfs validator = Inr s"
  shows "header_matches h p" and "same_common s p" and "bhs_id s = header_id env h" and "header s = h"
    and "\<exists>m. pending_schedule s = next_pending_schedule p m
          \<and> (\<forall>sch hash. m = Some (sch, hash) \<longrightarrow> may_propose p sch \<and> proposes env h sch)"
    and "\<exists>exts. validate_and_extract_header_extensions env h = Inr exts \<and> header_exts s = exts
          \<and> apply_activations p validator exts = Inr (activated_protocol_features s)"
    and "additional_signatures s = []"
proof -
  obtain exts w m m' act where step: "header_matches h p" "validate_and_extract_header_extensions env h = Inr exts"
    "check_legacy_schedule env p w (hdr_new_producers h) = Inr m" "check_extension_schedule env p w exts m = Inr m'"
    "apply_activations p validator exts = Inr act" "same_common s p" "bhs_id s = header_id env h" "header s = h"
    "pending_schedule s = next_pending_schedule p m'" "activated_protocol_features s = act"
    "additional_signatures s = []" "header_exts s = exts"
    using assms unfolding finish_next_common_def Let_def header_matches_def
    by (auto simp: bind_r_Inr_iff same_common_def)
  then show "header_matches h p" "same_common s p" "bhs_id s = header_id env h" "header s = h"
    "additional_signatures s = []"
    "\<exists>exts. validate_and_extract_header_extensions env h = Inr exts \<and> header_exts s = exts
       \<and> apply_activations p validator exts = Inr (activated_protocol_features s)"
    by auto
  have "may_propose p sch \<and> proposes env h sch" if m': "m' = Some (sch, hash)" for sch hash
    using check_extension_schedule_Inr [OF step(4) m'] check_legacy_schedule_Inr [OF step(3)] m' step(2)
    unfolding proposes_def by blast
  then show "\<exists>m. pending_schedule s = next_pending_schedule p m
      \<and> (\<forall>sch hash. m = Some (sch, hash) \<longrightarrow> may_propose p sch \<and> proposes env h sch)"
    using step(9) by blast
qed

lemma finish_next_Inr:
  assumes "finish_next env p h sigs pfs validator skip = Inr s"
  obtains s0 where "finish_next_common env p h pfs validator = Inr s0" "s = s0\<lparr>additional_signatures := sigs\<rparr>"
    "sigs \<noteq> [] \<Longrightarrow> is_builtin_activated (prev_activated_protocol_features p) pfs wtmsig_block_signatures"
    "skip \<or> verify_signee env s = Inr ()"
proof -
  obtain s0 where s0: "finish_next_common env p h pfs validator = Inr s0"
    "s = (if sigs \<noteq> [] then s0\<lparr>additional_signatures := sigs\<rparr> else s0)"
    "sigs \<noteq> [] \<Longrightarrow> is_builtin_activated (prev_activated_protocol_features p) pfs wtmsig_block_signatures"
    "skip \<or> verify_signee env s = Inr ()"
    using assms by (auto simp: finish_next_def bind_r_Inr_iff Let_def split: if_splits)
  moreover have "s = s0\<lparr>additional_signatures := sigs\<rparr>"
    using s0(2) finish_next_common_Inr(7) [OF s0(1)] by auto
  ultimately show thesis
    using that by blast
qed

lemma bhs_next_header_Inr:
  assumes "bhs_next_header env s h sigs pfs validator skip = Inr s'"
  obtains p m where "bhs_next env s (hdr_timestamp h) (hdr_confirmed h) = Inr p" "header_matches h p" "same_common s' p"
    "header s' = h" "bhs_id s' = header_id env h" "pending_schedule s' = next_pending_schedule p m"
    "\<forall>sch hash. m = Some (sch, hash) \<longrightarrow> may_propose p sch" "\<forall>sch hash. m = Some (sch, hash) \<longrightarrow> proposes env h sch"
    "additional_signatures s' = sigs" "skip \<or> verify_signee env s' = Inr ()"
proof -
  obtain p where p: "bhs_next env s (hdr_timestamp h) (hdr_confirmed h) = Inr p"
    "finish_next env p h sigs pfs validator skip = Inr s'"
    using assms by (auto simp: bhs_next_header_def bind_r_Inr_iff)
  obtain s0 where s0: "finish_next_common env p h pfs validator = Inr s0" "s' = s0\<lparr>additional_signatures := sigs\<rparr>"
    "skip \<or> verify_signee env s' = Inr ()"
    using finish_next_Inr [OF p(2)] by metis
  note f = finish_next_common_Inr [OF s0(1)]
  obtain m where "pending_schedule s0 = next_pending_schedule p m" "\<forall>sch hash. m = Some (sch, hash) \<longrightarrow> may_propose p sch"
    "\<forall>sch hash. m = Some (sch, hash) \<longrightarrow> proposes env h sch"
    using f(5) by blast
  then show thesis
    using that [OF p(1) f(1), of m] f(2-4) s0(2,3) by (simp add: same_common_def)
qed

section \<open>Chains of headers\<close>

definition max_producers :: nat where
  "max_producers = 23"

text \<open>A block of a chain: the header, and the states before and after it.\<close>

record chain_block =
  cf_before :: block_header_state
  cf_header :: signed_block_header
  cf_after :: block_header_state

definition cf_num :: "chain_block \<Rightarrow> nat" where
  "cf_num e = block_num (cf_after e)"

definition cf_producer :: "chain_block \<Rightarrow> account_name" where
  "cf_producer e = hdr_producer (cf_header e)"

definition cf_confirmed :: "chain_block \<Rightarrow> nat" where
  "cf_confirmed e = hdr_confirmed (cf_header e)"

text \<open>The schedule that signs the block.\<close>

definition cf_schedule :: "chain_block \<Rightarrow> producer_authority_schedule" where
  "cf_schedule e = active_schedule (cf_before e)"

definition schedule_names :: "producer_authority_schedule \<Rightarrow> account_name set" where
  "schedule_names sch = pa_producer_name ` set (sched_producers sch)"

definition cf_active :: "chain_block \<Rightarrow> nat" where
  "cf_active e = length (sched_producers (cf_schedule e))"

definition cf_parent :: "chain_block \<Rightarrow> block_id_type" where
  "cf_parent e = bhs_id (cf_before e)"

lemma chain_block_simps [simp]:
  "cf_num \<lparr>cf_before = s, cf_header = h, cf_after = s'\<rparr> = block_num s'"
  "cf_producer \<lparr>cf_before = s, cf_header = h, cf_after = s'\<rparr> = hdr_producer h"
  "cf_confirmed \<lparr>cf_before = s, cf_header = h, cf_after = s'\<rparr> = hdr_confirmed h"
  "cf_schedule \<lparr>cf_before = s, cf_header = h, cf_after = s'\<rparr> = active_schedule s"
  "cf_active \<lparr>cf_before = s, cf_header = h, cf_after = s'\<rparr> = length (sched_producers (active_schedule s))"
  "cf_parent \<lparr>cf_before = s, cf_header = h, cf_after = s'\<rparr> = bhs_id s"
  by (simp_all add: cf_num_def cf_producer_def cf_confirmed_def cf_schedule_def cf_active_def cf_parent_def)

text \<open>
  The block numbers a producer stands for with a block: those of the range it confirms, which ends
  before the block, and the block itself, which the loop counts as well.
\<close>

definition confirms :: "chain_block \<Rightarrow> nat \<Rightarrow> bool" where
  "confirms e b \<longleftrightarrow> cf_num e - cf_confirmed e \<le> b \<and> b \<le> cf_num e"

definition confirmations :: "chain_block list \<Rightarrow> nat \<Rightarrow> nat" where
  "confirmations hist b = length (filter (\<lambda>e. confirms e b) hist)"

text \<open>The header states reached from a genesis state by received headers, with the blocks, newest first.\<close>

inductive header_chain ::
    "fc_env \<Rightarrow> builtin_digests \<Rightarrow> feature_validator \<Rightarrow> block_header_state \<Rightarrow> chain_block list \<Rightarrow> bool" for env pfs validator where
  genesis: "header_chain env pfs validator (genesis_header_state env t chain_id ps) []"
| block: "header_chain env pfs validator s hist \<Longrightarrow> bhs_next_header env s h sigs pfs validator skip = Inr s' \<Longrightarrow>
    header_chain env pfs validator s' (\<lparr>cf_before = s, cf_header = h, cf_after = s'\<rparr> # hist)"

text \<open>
  Chains whose blocks confirm no more blocks than there are before them, so that neither the range
  nor the block number wraps around, and whose schedules respect \<^verbatim>\<open>config::max_producers\<close>.
\<close>

definition ranges_ok :: "chain_block list \<Rightarrow> bool" where
  "ranges_ok hist \<longleftrightarrow> (\<forall>e\<in>set hist. cf_confirmed e < cf_num e \<and> cf_active e \<le> max_producers)"

text \<open>The confirmation counts: what each tracked block still needs.\<close>

definition counts_ok :: "block_header_state \<Rightarrow> chain_block list \<Rightarrow> bool" where
  "counts_ok s hist \<longleftrightarrow> block_num s < 2 ^ 32
     \<and> dpos_proposed_irreversible_blocknum s + length (confirm_count s) \<le> block_num s
     \<and> (\<forall>e\<in>set hist. cf_num e \<le> block_num s)
     \<and> (\<forall>d<length (confirm_count s). 0 < rev (confirm_count s) ! d
          \<and> (\<exists>e\<in>set hist. cf_num e = block_num s - d
               \<and> rev (confirm_count s) ! d + confirmations hist (block_num s - d) = cf_active e * 2 div 3 + 1))"

text \<open>A producer that may produce has every block it stated recorded.\<close>

definition last_produced_ok :: "block_header_state \<Rightarrow> chain_block list \<Rightarrow> bool" where
  "last_produced_ok s hist \<longleftrightarrow>
     (\<forall>e\<in>set hist. case tbl_find (cf_producer e) (producer_to_last_produced s) of
        Some l \<Rightarrow> cf_num e \<le> l
      | None \<Rightarrow> cf_producer e \<notin> pa_producer_name ` set (sched_producers (active_schedule s))
          \<and> (sched_producers (info_schedule (pending_schedule s)) \<noteq> [] \<longrightarrow> cf_num e \<le> schedule_lib_num (pending_schedule s)))"

text \<open>No producer stands twice for the same block number.\<close>

definition confirmers_distinct :: "chain_block list \<Rightarrow> bool" where
  "confirmers_distinct hist \<longleftrightarrow> (\<forall>b. distinct (map cf_producer (filter (\<lambda>e. confirms e b) hist)))"

lemma length_genesis [simp]:
  "confirm_count (genesis_header_state env t i ps) = []"
  "dpos_proposed_irreversible_blocknum (genesis_header_state env t i ps) = 0"
  "dpos_irreversible_blocknum (genesis_header_state env t i ps) = 0"
  "producer_to_last_implied_irb (genesis_header_state env t i ps) = []"
  "block_num (genesis_header_state env t i ps) < 2 ^ 32"
  using unsigned_less [of "header_block_num env (genesis_header env t i)", where ?'a = nat]
  by (simp_all add: genesis_header_state_def Let_def)

lemma counts_ok_genesis: "counts_ok (genesis_header_state env t i ps) []"
  using length_genesis(5) [of env t i ps] by (simp add: counts_ok_def)

lemma confirmations_Cons [simp]:
  "confirmations (e # hist) b = (if confirms e b then 1 else 0) + confirmations hist b"
  by (simp add: confirmations_def)

lemma confirmations_future: "\<forall>e\<in>set hist. cf_num e < b \<Longrightarrow> confirmations hist b = 0"
  by (auto simp: confirmations_def filter_empty_conv confirms_def)

lemma length_grow: "length (grow_confirm_count cc r) \<le> length cc + 1" "0 < length (grow_confirm_count cc r)"
  by (auto simp: grow_confirm_count_def)

lemma nth_rev_grow:
  assumes "d < length (grow_confirm_count cc r)"
  shows "rev (grow_confirm_count cc r) ! d = (if d = 0 then r mod 256 else rev cc ! (d - 1))"
    and "0 < d \<Longrightarrow> d - 1 < length cc"
proof -
  have "rev (tl cc) ! i = rev cc ! i" if "i < length cc - 1" for i
    using that by (cases cc) (simp_all add: nth_append)
  then show "rev (grow_confirm_count cc r) ! d = (if d = 0 then r mod 256 else rev cc ! (d - 1))"
    using assms by (cases d) (auto simp: grow_confirm_count_def split: if_splits)
  show "0 < d \<Longrightarrow> d - 1 < length cc"
    using assms by (auto simp: grow_confirm_count_def split: if_splits)
qed

lemma confirms_distance: "cf_confirmed e < cf_num e \<Longrightarrow> d \<le> cf_num e \<Longrightarrow> confirms e (cf_num e - d) \<longleftrightarrow> d < cf_confirmed e + 1"
  by (auto simp: confirms_def)

text \<open>The entries after growing, before the loop: what each block still needed.\<close>

definition needs :: "nat list \<Rightarrow> nat \<Rightarrow> chain_block list \<Rightarrow> chain_block list \<Rightarrow> bool" where
  "needs cc num hist hist' \<longleftrightarrow> (\<forall>d<length cc. 0 < rev cc ! d
     \<and> (\<exists>e\<in>set hist. cf_num e = num - d \<and> rev cc ! d + confirmations hist' (num - d) = cf_active e * 2 div 3 + 1))"

lemma needs_grow:
  assumes "counts_ok s hist" "cf_num e = block_num s + 1" "cf_active e \<le> max_producers"
  shows "needs (grow_confirm_count (confirm_count s) (cf_active e * 2 div 3 + 1)) (block_num s + 1) (e # hist) hist"
  unfolding needs_def
proof (intro allI impI)
  fix d
  assume d: "d < length (grow_confirm_count (confirm_count s) (cf_active e * 2 div 3 + 1))"
  note g = nth_rev_grow [OF d]
  show "0 < rev (grow_confirm_count (confirm_count s) (cf_active e * 2 div 3 + 1)) ! d
    \<and> (\<exists>e'\<in>set (e # hist). cf_num e' = block_num s + 1 - d
         \<and> rev (grow_confirm_count (confirm_count s) (cf_active e * 2 div 3 + 1)) ! d + confirmations hist (block_num s + 1 - d)
           = cf_active e' * 2 div 3 + 1)"
  proof (cases d)
    case 0
    have "confirmations hist (block_num s + 1) = 0"
      using assms(1) by (intro confirmations_future) (auto simp: counts_ok_def)
    moreover have "cf_active e * 2 div 3 + 1 < 256"
      using assms(3) by (simp add: max_producers_def)
    ultimately show ?thesis
      using g(1) 0 assms(2) by simp
  next
    case (Suc d')
    have "d' < length (confirm_count s)"
      using g(2) Suc by simp
    then show ?thesis
      using g(1) Suc assms(1) unfolding counts_ok_def by auto
  qed
qed

lemma needs_pos: "needs cc num hist hist' \<Longrightarrow> \<forall>x\<in>set cc. 0 < x"
  unfolding needs_def by (metis in_set_conv_nth set_rev length_rev)

lemma needs_confirm:
  assumes "needs cc num (e # hist) hist" "confirm_loop (length cc) (c + 1) cc = (cc', r)" "length cc \<le> num" "c < num"
    "cf_num e = num" "cf_confirmed e = c"
  shows "needs cc' num (e # hist) (e # hist)"
    and "r = Some k \<Longrightarrow> \<exists>e'\<in>set (e # hist). cf_num e' = num - length cc'
          \<and> confirmations (e # hist) (num - length cc') = cf_active e' * 2 div 3 + 1"
proof -
  have pos: "\<forall>x\<in>set cc. 0 < x"
    using assms(1) by (rule needs_pos)
  note loop = confirm_loop_distance [OF pos assms(2)]
  have conf: "confirmations (e # hist) (num - d) = (if d < c + 1 then 1 else 0) + confirmations hist (num - d)"
    if "d < length cc" for d
    using that assms(3-6) confirms_distance [of e d] by simp
  show "needs cc' num (e # hist) (e # hist)"
    unfolding needs_def
  proof (intro allI impI)
    fix d
    assume d: "d < length cc'"
    then have d0: "d < length cc"
      using loop(1) by simp
    obtain e' where e': "0 < rev cc ! d" "e' \<in> set (e # hist)" "cf_num e' = num - d"
      "rev cc ! d + confirmations hist (num - d) = cf_active e' * 2 div 3 + 1"
      using assms(1) d0 unfolding needs_def by blast
    have "rev cc' ! d + confirmations (e # hist) (num - d) = rev cc ! d + confirmations hist (num - d)"
      using loop(2) [OF d] conf [OF d0] e'(1) by (simp del: confirmations_Cons)
    then have "rev cc' ! d + confirmations (e # hist) (num - d) = cf_active e' * 2 div 3 + 1"
      using e'(4) by (simp only:)
    then show "0 < rev cc' ! d \<and> (\<exists>e'\<in>set (e # hist). cf_num e' = num - d
        \<and> rev cc' ! d + confirmations (e # hist) (num - d) = cf_active e' * 2 div 3 + 1)"
      using loop(2) [OF d] e'(2,3) by blast
  qed
  show "\<exists>e'\<in>set (e # hist). cf_num e' = num - length cc'
      \<and> confirmations (e # hist) (num - length cc') = cf_active e' * 2 div 3 + 1" if "r = Some k"
  proof -
    have m: "length cc' < length cc" "length cc' < c + 1" "rev cc ! length cc' = 1"
      using loop(4) [OF that] by auto
    obtain e' where e': "e' \<in> set (e # hist)" "cf_num e' = num - length cc'"
      "rev cc ! length cc' + confirmations hist (num - length cc') = cf_active e' * 2 div 3 + 1"
      using assms(1) m(1) unfolding needs_def by blast
    have "confirmations (e # hist) (num - length cc') = cf_active e' * 2 div 3 + 1"
      using conf [OF m(1)] m(2,3) e'(3) by (simp only: if_True)
    then show ?thesis
      using e'(1,2) by blast
  qed
qed

lemma counts_ok_step:
  assumes "counts_ok s hist" "bhs_next env s when c = Inr p" "same_common s' p" "block_num s + 1 < 2 ^ 32" "c \<le> block_num s"
    "length (sched_producers (active_schedule s)) \<le> max_producers"
    "cf_num e = block_num s'" "cf_confirmed e = c" "cf_active e = length (sched_producers (active_schedule s))"
  shows "counts_ok s' (e # hist)"
    and "dpos_proposed_irreversible_blocknum s' = dpos_proposed_irreversible_blocknum s
      \<or> (dpos_proposed_irreversible_blocknum s < dpos_proposed_irreversible_blocknum s'
         \<and> (\<exists>e'\<in>set (e # hist). cf_num e' = dpos_proposed_irreversible_blocknum s'
              \<and> confirmations (e # hist) (cf_num e') = cf_active e' * 2 div 3 + 1))"
proof -
  let ?num = "block_num s + 1"
  let ?cc = "grow_confirm_count (confirm_count s) (length (sched_producers (active_schedule s)) * 2 div 3 + 1)"
  have num: "block_num s' = ?num"
    using assms(3,4) bhs_next_Inr(5) [OF assms(2)] by (simp add: same_common_def add32_small)
  have e: "cf_num e = ?num"
    using assms(7) num by simp
  have cb: "confirm_blocks ?cc ?num c (dpos_proposed_irreversible_blocknum s)
      = (confirm_count s', dpos_proposed_irreversible_blocknum s')"
    using bhs_next_Inr(6) [OF assms(2)] assms(3) num by (simp add: same_common_def)
  obtain cc' r where loop: "confirm_loop (length ?cc) (c + 1) ?cc = (cc', r)"
    by fastforce
  have bound: "dpos_proposed_irreversible_blocknum s + length ?cc \<le> ?num"
  proof -
    have "dpos_proposed_irreversible_blocknum s + length (confirm_count s) \<le> block_num s"
      using assms(1) by (simp add: counts_ok_def)
    then show ?thesis
      using length_grow(1) [of "confirm_count s" "length (sched_producers (active_schedule s)) * 2 div 3 + 1"] by linarith
  qed
  have n0: "needs ?cc ?num (e # hist) hist"
    using needs_grow [OF assms(1), of e] assms(6,9) by (simp add: e)
  have pos: "\<forall>x\<in>set ?cc. 0 < x"
    using n0 by (rule needs_pos)
  have "length ?cc \<le> ?num" "c < ?num"
    using bound assms(5) by simp_all
  note nc = needs_confirm [OF n0 loop this e assms(8)] and ld = confirm_loop_distance [OF pos loop]
  have cc': "confirm_count s' = cc'"
    using cb loop by (auto simp: confirm_blocks_def split: option.splits)
  have proposed: "dpos_proposed_irreversible_blocknum s' =
      (case r of None \<Rightarrow> dpos_proposed_irreversible_blocknum s | Some k \<Rightarrow> ?num - length cc')"
    using cb loop ld(1,4) assms(4) bound by (auto simp: confirm_blocks_def sub32_small split: option.splits)
  have "dpos_proposed_irreversible_blocknum s' + length cc' \<le> ?num"
    using bound ld(1,3) by (cases r) (auto simp: proposed)
  moreover have "\<forall>e'\<in>set (e # hist). cf_num e' \<le> ?num"
    using assms(1) by (auto simp: counts_ok_def e)
  ultimately show "counts_ok s' (e # hist)"
    using nc(1) assms(4) unfolding counts_ok_def cc' num needs_def by blast
  show "dpos_proposed_irreversible_blocknum s' = dpos_proposed_irreversible_blocknum s
      \<or> (dpos_proposed_irreversible_blocknum s < dpos_proposed_irreversible_blocknum s'
         \<and> (\<exists>e'\<in>set (e # hist). cf_num e' = dpos_proposed_irreversible_blocknum s'
              \<and> confirmations (e # hist) (cf_num e') = cf_active e' * 2 div 3 + 1))"
  proof (cases r)
    case (Some k)
    have "dpos_proposed_irreversible_blocknum s < ?num - length cc'"
      using ld(4) [OF Some] bound by linarith
    then show ?thesis
      using nc(2) [OF Some] unfolding proposed Some option.case by metis
  qed (simp add: proposed)
qed

section \<open>Distinct confirmers\<close>

lemma find_fold_put:
  "tbl_find q (fold (\<lambda>pro m. tbl_put (pa_producer_name pro) (f (pa_producer_name pro)) m) pros m0) =
     (if q \<in> pa_producer_name ` set pros then Some (f q) else tbl_find q m0)"
  by (induction pros arbitrary: m0) auto

lemma find_promote_last_produced:
  "tbl_find q (promote_last_produced lp pros current num lib) =
     (if q = current then Some num
      else if q \<in> pa_producer_name ` set pros then Some (case tbl_find q lp of Some l \<Rightarrow> l | None \<Rightarrow> lib)
      else None)"
  by (simp add: promote_last_produced_def find_fold_put
      [where f = "\<lambda>n. if n = current then num else (case tbl_find n lp of Some l \<Rightarrow> l | None \<Rightarrow> lib)"])

lemma scheduled_producer_active:
  "get_scheduled_producer s t = Inr pa \<Longrightarrow> pa \<in> set (sched_producers (active_schedule s))"
  by (auto simp: get_scheduled_producer_def Let_def producer_repetitions_def split: if_splits)

lemma producer_active:
  assumes "bhs_next env s when c = Inr p"
  shows "producer p \<in> pa_producer_name ` set (sched_producers (active_schedule s))"
  using bhs_next_Inr(2) [OF assms] scheduled_producer_active by fastforce

lemma pending_cases:
  assumes "pending_schedule s' = next_pending_schedule p m" "\<forall>sch hash. m = Some (sch, hash) \<longrightarrow> Q sch"
  obtains (proposed) sch where "Q sch" "info_schedule (pending_schedule s') = sch"
      "schedule_lib_num (pending_schedule s') = block_num p"
    | (promoted) "was_pending_promoted p" "sched_producers (info_schedule (pending_schedule s')) = []"
      "sched_version (info_schedule (pending_schedule s')) = sched_version (info_schedule (prev_pending_schedule p))"
    | (kept) "\<not> was_pending_promoted p" "info_schedule (pending_schedule s') = info_schedule (prev_pending_schedule p)"
      "schedule_lib_num (pending_schedule s') = schedule_lib_num (prev_pending_schedule p)"
proof (cases m)
  case None
  then show thesis
    using that(2,3) assms(1) by (cases "was_pending_promoted p") (auto simp: next_pending_schedule_def empty_schedule_def)
next
  case (Some x)
  then show thesis
    using that(1) assms by (cases x) (auto simp: next_pending_schedule_def)
qed

lemma last_produced_ok_step:
  assumes "last_produced_ok s hist" "\<forall>e\<in>set hist. cf_num e \<le> block_num s" "bhs_next env s when c = Inr p" "same_common s' p"
    "pending_schedule s' = next_pending_schedule p m" "\<forall>sch hash. m = Some (sch, hash) \<longrightarrow> may_propose p sch"
    "block_num s + 1 < 2 ^ 32" "cf_num e = block_num s'" "cf_producer e = producer p"
  shows "last_produced_ok s' (e # hist)"
proof -
  note n = bhs_next_Inr [OF assms(3)]
  have num: "block_num s' = block_num s + 1" "block_num p = block_num s + 1"
    using n(5) assms(4,7) by (simp_all add: same_common_def add32_small)
  have lp: "producer_to_last_produced s' = producer_to_last_produced p" "active_schedule s' = active_schedule p"
    using assms(4) by (simp_all add: same_common_def)
  have ok: "case tbl_find (cf_producer x) (producer_to_last_produced s') of
        Some l \<Rightarrow> cf_num x \<le> l
      | None \<Rightarrow> cf_producer x \<notin> pa_producer_name ` set (sched_producers (active_schedule s'))
          \<and> (sched_producers (info_schedule (pending_schedule s')) \<noteq> [] \<longrightarrow> cf_num x \<le> schedule_lib_num (pending_schedule s'))"
    if x: "x \<in> set hist" "cf_producer x \<noteq> producer p" for x
  proof -
    have le: "cf_num x \<le> block_num s + 1"
      using assms(2) x(1) by fastforce
    have old: "case tbl_find (cf_producer x) (producer_to_last_produced s) of
        Some l \<Rightarrow> cf_num x \<le> l
      | None \<Rightarrow> cf_producer x \<notin> pa_producer_name ` set (sched_producers (active_schedule s))
          \<and> (sched_producers (info_schedule (pending_schedule s)) \<noteq> [] \<longrightarrow> cf_num x \<le> schedule_lib_num (pending_schedule s))"
      using assms(1) x(1) unfolding last_produced_ok_def by blast
    show ?thesis
    proof (cases "was_pending_promoted p")
      case True
      have empty: "sched_producers (info_schedule (pending_schedule s')) = []"
        using assms(5,6) by (cases rule: pending_cases) (use True in \<open>auto simp: may_propose_def\<close>)
      have "schedule_lib_num (pending_schedule s) \<le> dpos_irreversible_blocknum p"
        "sched_producers (info_schedule (pending_schedule s)) \<noteq> []"
        using n(8) True by auto
      then show ?thesis
        using old x(2) empty
        by (auto simp: lp n(10) True n(9) find_promote_last_produced split: option.splits)
    next
      case False
      have "sched_producers (info_schedule (pending_schedule s')) \<noteq> [] \<longrightarrow>
          cf_num x \<le> schedule_lib_num (pending_schedule s')
          \<or> (sched_producers (info_schedule (pending_schedule s)) \<noteq> []
             \<and> schedule_lib_num (pending_schedule s') = schedule_lib_num (pending_schedule s))"
        using assms(5,6) by (cases rule: pending_cases) (use False n(12) num(2) le in auto)
      then show ?thesis
        using old x(2) by (auto simp: lp n(10) False n(9) split: option.splits)
    qed
  qed
  have own: "tbl_find (producer p) (producer_to_last_produced s') = Some (block_num s + 1)"
    by (simp add: lp n(10) num find_promote_last_produced)
  show ?thesis
    unfolding last_produced_ok_def
  proof
    fix x
    assume x: "x \<in> set (e # hist)"
    show "case tbl_find (cf_producer x) (producer_to_last_produced s') of
        Some l \<Rightarrow> cf_num x \<le> l
      | None \<Rightarrow> cf_producer x \<notin> pa_producer_name ` set (sched_producers (active_schedule s'))
          \<and> (sched_producers (info_schedule (pending_schedule s')) \<noteq> [] \<longrightarrow> cf_num x \<le> schedule_lib_num (pending_schedule s'))"
    proof (cases "cf_producer x = producer p")
      case True
      have "cf_num x \<le> block_num s + 1"
        using x assms(2,8) num by fastforce
      then show ?thesis
        using own True by simp
    next
      case False
      then show ?thesis
        using x ok assms(9) by auto
    qed
  qed
qed

lemma confirmers_distinct_step:
  assumes "confirmers_distinct hist" "last_produced_ok s hist" "bhs_next env s when c = Inr p"
    "block_num s + 1 < 2 ^ 32" "c \<le> block_num s" "cf_num e = block_num s + 1" "cf_producer e = producer p" "cf_confirmed e = c"
  shows "confirmers_distinct (e # hist)"
proof -
  have early: "cf_num x < block_num s + 1 - c" if "x \<in> set hist" "cf_producer x = producer p" for x
  proof -
    have "case tbl_find (producer p) (producer_to_last_produced s) of
        Some l \<Rightarrow> cf_num x \<le> l
      | None \<Rightarrow> producer p \<notin> pa_producer_name ` set (sched_producers (active_schedule s))"
      using assms(2) that unfolding last_produced_ok_def by (auto split: option.splits)
    then obtain l where l: "tbl_find (producer p) (producer_to_last_produced s) = Some l" "cf_num x \<le> l"
      using producer_active [OF assms(3)] by (auto split: option.splits)
    then have "l < sub32 (add32 (block_num s) 1) c"
      using bhs_next_Inr(3) [OF assms(3)] by (simp add: check_double_confirm_def)
    then show ?thesis
      using l(2) assms(4,5) by (simp add: add32_small sub32_small)
  qed
  then have "\<not> confirms x b" if "x \<in> set hist" "cf_producer x = producer p" "confirms e b" for x b
    using that assms(6,8) by (fastforce simp: confirms_def)
  then show ?thesis
    using assms(1,7) by (force simp: confirmers_distinct_def)
qed

definition proposed_ok :: "block_header_state \<Rightarrow> chain_block list \<Rightarrow> bool" where
  "proposed_ok s hist \<longleftrightarrow> 0 < dpos_proposed_irreversible_blocknum s \<longrightarrow>
     (\<exists>e\<in>set hist. cf_num e = dpos_proposed_irreversible_blocknum s \<and> cf_active e * 2 div 3 + 1 \<le> confirmations hist (cf_num e))"

text \<open>The number of a block of a chain within the bounds follows that of the block before.\<close>

lemma ranges_ok_Cons:
  assumes "ranges_ok (\<lparr>cf_before = s, cf_header = h, cf_after = s'\<rparr> # hist)" "block_num s < 2 ^ 32"
    "bhs_next env s (hdr_timestamp h) (hdr_confirmed h) = Inr p" "same_common s' p"
  shows "ranges_ok hist" "block_num s + 1 < 2 ^ 32" "block_num s' = block_num s + 1" "hdr_confirmed h \<le> block_num s"
    "length (sched_producers (active_schedule s)) \<le> max_producers"
proof -
  have r: "hdr_confirmed h < block_num s'" "block_num s' = add32 (block_num s) 1"
    using assms(1,4) bhs_next_Inr(5) [OF assms(3)] by (auto simp: ranges_ok_def same_common_def)
  show lt: "block_num s + 1 < 2 ^ 32"
  proof (rule ccontr)
    assume "\<not> block_num s + 1 < 2 ^ 32"
    then have "block_num s = 2 ^ 32 - 1"
      using assms(2) by simp
    then show False
      using r by (simp add: add32_def)
  qed
  then show num: "block_num s' = block_num s + 1"
    using r(2) by (simp add: add32_small)
  show "hdr_confirmed h \<le> block_num s"
    using r(1) num by simp
  show "ranges_ok hist" "length (sched_producers (active_schedule s)) \<le> max_producers"
    using assms(1) by (auto simp: ranges_ok_def)
qed

lemma header_chain_inv:
  "header_chain env pfs validator s hist \<Longrightarrow> ranges_ok hist \<Longrightarrow>
     counts_ok s hist \<and> last_produced_ok s hist \<and> confirmers_distinct hist \<and> proposed_ok s hist \<and> distinct (map cf_num hist)"
proof (induction rule: header_chain.induct)
  case (genesis t chain_id ps)
  then show ?case
    by (simp add: counts_ok_genesis last_produced_ok_def confirmers_distinct_def proposed_ok_def)
next
  case (block s hist h sigs skip s')
  let ?e = "\<lparr>cf_before = s, cf_header = h, cf_after = s'\<rparr>"
  obtain p m where p: "bhs_next env s (hdr_timestamp h) (hdr_confirmed h) = Inr p" "header_matches h p" "same_common s' p"
    "pending_schedule s' = next_pending_schedule p m" "\<forall>sch hash. m = Some (sch, hash) \<longrightarrow> may_propose p sch"
    by (rule bhs_next_header_Inr [OF block.hyps(2)]) (rule that)
  have pro: "hdr_producer h = producer p"
    using p(2) by (simp add: header_matches_def)
  have "ranges_ok hist"
    using block.prems by (simp add: ranges_ok_def)
  then have inv: "counts_ok s hist" "last_produced_ok s hist" "confirmers_distinct hist" "proposed_ok s hist" "distinct (map cf_num hist)"
    using block.IH by auto
  have "block_num s < 2 ^ 32"
    using inv(1) by (simp add: counts_ok_def)
  note bd = ranges_ok_Cons [OF block.prems this p(1,3)]
  note c = counts_ok_step [OF inv(1) p(1,3) bd(2,4,5), of ?e, simplified chain_block_simps, OF refl refl refl]
  have "last_produced_ok s' (?e # hist)"
    using inv(1) pro by (intro last_produced_ok_step [OF inv(2) _ p(1,3,4,5) bd(2)]) (auto simp: counts_ok_def)
  moreover have "confirmers_distinct (?e # hist)"
    using bd(3) pro by (intro confirmers_distinct_step [OF inv(3,2) p(1) bd(2,4)]) simp_all
  moreover have "distinct (map cf_num (?e # hist))"
    using inv(1,5) bd(3) by (fastforce simp: counts_ok_def)
  moreover have "proposed_ok s' (?e # hist)"
    using c(2)
  proof
    assume same: "dpos_proposed_irreversible_blocknum s' = dpos_proposed_irreversible_blocknum s"
    have "confirmations hist b \<le> confirmations (?e # hist) b" for b
      by simp
    moreover have "0 < dpos_proposed_irreversible_blocknum s \<longrightarrow> (\<exists>x\<in>set hist. cf_num x = dpos_proposed_irreversible_blocknum s
        \<and> cf_active x * 2 div 3 + 1 \<le> confirmations hist (cf_num x))"
      using inv(4) unfolding proposed_ok_def .
    ultimately show ?thesis
      unfolding proposed_ok_def same by (meson le_trans list.set_intros(2))
  next
    assume "dpos_proposed_irreversible_blocknum s < dpos_proposed_irreversible_blocknum s'
      \<and> (\<exists>x\<in>set (?e # hist). cf_num x = dpos_proposed_irreversible_blocknum s'
           \<and> confirmations (?e # hist) (cf_num x) = cf_active x * 2 div 3 + 1)"
    then obtain x where "x \<in> set (?e # hist)" "cf_num x = dpos_proposed_irreversible_blocknum s'"
      "confirmations (?e # hist) (cf_num x) = cf_active x * 2 div 3 + 1"
      by blast
    then show ?thesis
      unfolding proposed_ok_def by (intro impI bexI [of _ x]) simp_all
  qed
  ultimately show ?case
    using c(1) by blast
qed

text \<open>Every block is made by a producer of the schedule that signs it.\<close>

lemma header_chain_producers:
  "header_chain env pfs validator s hist \<Longrightarrow> \<forall>x\<in>set hist. cf_producer x \<in> schedule_names (cf_schedule x)"
proof (induction rule: header_chain.induct)
  case (block s hist h sigs skip s')
  obtain p m where p: "bhs_next env s (hdr_timestamp h) (hdr_confirmed h) = Inr p" "header_matches h p"
    by (rule bhs_next_header_Inr [OF block.hyps(2)]) (rule that)
  then show ?case
    using producer_active [OF p(1)] block.IH by (auto simp: header_matches_def schedule_names_def)
qed simp

text \<open>The blocks after a block whose confirmed range contains it.\<close>

definition later_confirming :: "chain_block list \<Rightarrow> chain_block \<Rightarrow> chain_block set" where
  "later_confirming hist e = {x \<in> set hist. cf_num x - cf_confirmed x \<le> cf_num e \<and> cf_num e < cf_num x}"

lemma stand_for_block:
  assumes "inj_on cf_num (set hist)" "e \<in> set hist"
  shows "{x \<in> set hist. confirms x (cf_num e)} = insert e (later_confirming hist e)" "e \<notin> later_confirming hist e"
proof -
  have "x = e" if "x \<in> set hist" "cf_num x = cf_num e" for x
    using inj_onD [OF assms(1) that(2,1) assms(2)] .
  then show "{x \<in> set hist. confirms x (cf_num e)} = insert e (later_confirming hist e)" "e \<notin> later_confirming hist e"
    using assms(2) unfolding later_confirming_def confirms_def by (force, simp)
qed

lemma confirmers_of_block:
  assumes "confirmers_distinct hist" "inj_on cf_num (set hist)" "e \<in> set hist"
  shows "inj_on cf_producer (insert e (later_confirming hist e))"
    and "confirmations hist (cf_num e) = card (insert (cf_producer e) (cf_producer ` later_confirming hist e))"
proof -
  have dist: "distinct (map cf_producer (filter (\<lambda>x. confirms x (cf_num e)) hist))"
    using assms(1) by (simp add: confirmers_distinct_def)
  then have "inj_on cf_producer {x \<in> set hist. confirms x (cf_num e)}"
    by (simp add: distinct_map)
  then show "inj_on cf_producer (insert e (later_confirming hist e))"
    unfolding stand_for_block(1) [OF assms(2,3)] .
  have "confirmations hist (cf_num e) = card (cf_producer ` {x \<in> set hist. confirms x (cf_num e)})"
    using dist distinct_card [of "map cf_producer (filter (\<lambda>x. confirms x (cf_num e)) hist)"] by (simp add: confirmations_def)
  then show "confirmations hist (cf_num e) = card (insert (cf_producer e) (cf_producer ` later_confirming hist e))"
    unfolding stand_for_block(1) [OF assms(2,3)] by simp
qed

text \<open>
  C5. DPoS: let a chain have blocks whose confirmed ranges do not reach below its first block, and
  schedules of at most the maximal size. When a header state of it proposes a block as
  irreversible, that block is on the chain, and the producers of the blocks whose confirmed range
  contains it, together with its own producer, which the code counts as confirming its own block,
  are more than two thirds of the producers active at it. They are counted once each: the block's
  own producer is not among the others, and no producer confirms the same number twice, across
  schedule changes included. Each of them was active at the block it confirmed with; when these
  blocks are signed by the schedule of the proposed block, all are active at the proposed block.
\<close>

theorem proposed_irreversible_confirmed:
  assumes "header_chain env pfs validator s hist" "ranges_ok hist" "0 < dpos_proposed_irreversible_blocknum s"
  shows "\<exists>e\<in>set hist. cf_num e = dpos_proposed_irreversible_blocknum s
    \<and> cf_producer e \<notin> cf_producer ` later_confirming hist e \<and> inj_on cf_producer (later_confirming hist e)
    \<and> cf_active e * 2 div 3 + 1 \<le> card (insert (cf_producer e) (cf_producer ` later_confirming hist e))
    \<and> (\<forall>x\<in>insert e (later_confirming hist e). cf_producer x \<in> schedule_names (cf_schedule x))
    \<and> ((\<forall>x\<in>later_confirming hist e. cf_schedule x = cf_schedule e) \<longrightarrow>
         insert (cf_producer e) (cf_producer ` later_confirming hist e) \<subseteq> schedule_names (cf_schedule e))"
proof -
  have inv: "proposed_ok s hist" "confirmers_distinct hist" "inj_on cf_num (set hist)"
    using header_chain_inv [OF assms(1,2)] by (simp_all add: distinct_map)
  obtain e where e: "e \<in> set hist" "cf_num e = dpos_proposed_irreversible_blocknum s"
    "cf_active e * 2 div 3 + 1 \<le> confirmations hist (cf_num e)"
    using inv(1) assms(3) unfolding proposed_ok_def by auto
  note c = confirmers_of_block [OF inv(2,3) e(1)] and s = stand_for_block [OF inv(3) e(1)]
  have "cf_producer e \<notin> cf_producer ` later_confirming hist e" "inj_on cf_producer (later_confirming hist e)"
    using c(1) s(2) by (auto simp: inj_on_insert)
  moreover have active: "\<forall>x\<in>insert e (later_confirming hist e). cf_producer x \<in> schedule_names (cf_schedule x)"
    using header_chain_producers [OF assms(1)] e(1) by (auto simp: later_confirming_def)
  moreover have "(\<forall>x\<in>later_confirming hist e. cf_schedule x = cf_schedule e) \<longrightarrow>
      insert (cf_producer e) (cf_producer ` later_confirming hist e) \<subseteq> schedule_names (cf_schedule e)"
    using active by auto
  moreover note e(3) [unfolded c(2)]
  ultimately show ?thesis
    by (intro bexI [OF _ e(1)] conjI e(2)) assumption+
qed

section \<open>The tree of block identifiers\<close>

lemma header_chain_merkle:
  "header_chain env pfs validator s hist \<Longrightarrow> length hist \<le> 2 ^ 63 \<Longrightarrow>
     merkle_commits (hash_pair env) (blockroot_merkle s) (rev (map cf_parent hist))"
proof (induction rule: header_chain.induct)
  case (genesis t chain_id ps)
  have "blockroot_merkle (genesis_header_state env t chain_id ps) = incremental_merkle_init"
    by (simp add: genesis_header_state_def Let_def)
  then show ?case
    using imerkle.commits_init by simp
next
  case (block s hist h sigs skip s')
  obtain p m where p: "bhs_next env s (hdr_timestamp h) (hdr_confirmed h) = Inr p" "same_common s' p"
    by (rule bhs_next_header_Inr [OF block.hyps(2)]) (rule that)
  have "append_node (hash_pair env) (blockroot_merkle s) (bhs_id s) = Inr (blockroot_merkle s')"
    using bhs_next_Inr(4) [OF p(1)] p(2) by (simp add: same_common_def)
  moreover have "length (rev (map cf_parent hist)) < 2 ^ 63" "length hist \<le> 2 ^ 63"
    using block.prems by simp_all
  ultimately show ?case
    using imerkle.commits_app [of "hash_pair env" "blockroot_merkle s" "rev (map cf_parent hist)" "bhs_id s"] block.IH
    by auto
qed


end
