(* ===== verification/Header_Validation.thy ===== *)
theory Header_Validation
  imports Dpos
begin

text \<open>
  What a received header must satisfy to be accepted, how producer schedules follow each other,
  which signatures a block needs, and that the headers a producer makes are accepted.
\<close>

section \<open>Accepted headers\<close>

text \<open>
  C9. A header that is accepted on top of a state links to it, is later than it, is made by the
  producer the active schedule names for its slot and is to be signed by that producer's
  authority, and its number is the next one.
\<close>

theorem accepted_header:
  assumes "bhs_next_header env s h sigs pfs validator skip = Inr s'" "hdr_timestamp (header s) < u32_max" "block_num s < u32_max"
  shows "hdr_previous h = bhs_id s \<and> hdr_timestamp (header s) < hdr_timestamp h \<and> block_num s' = block_num s + 1
    \<and> (\<exists>pa. get_scheduled_producer s (hdr_timestamp h) = Inr pa \<and> pa \<in> set (sched_producers (active_schedule s))
          \<and> hdr_producer h = pa_producer_name pa \<and> valid_block_signing_authority s' = pa_authority pa)
    \<and> hdr_schedule_version h = sched_version (active_schedule s)
    \<and> header s' = h \<and> bhs_id s' = header_id env h \<and> (skip \<or> verify_signee env s' = Inr ())"
proof -
  obtain p m where p: "bhs_next env s (hdr_timestamp h) (hdr_confirmed h) = Inr p" "header_matches h p" "same_common s' p"
    "header s' = h" "bhs_id s' = header_id env h" "skip \<or> verify_signee env s' = Inr ()"
    by (rule bhs_next_header_Inr [OF assms(1)]) (rule that)
  note n = bhs_next_Inr [OF p(1)]
  have t: "hdr_timestamp h = timestamp p" "hdr_previous h = bhs_id s" "hdr_producer h = producer p"
    "hdr_schedule_version h = sched_version (active_schedule s)"
    using p(2) n(13,15) by (simp_all add: header_matches_def)
  have "next_when s (hdr_timestamp h) = Inr (hdr_timestamp h)"
    using n(1) t(1) by simp
  then have "hdr_timestamp (header s) < hdr_timestamp h"
    using assms(2) by (auto simp: next_when_def bind_r_Inr_iff add32_def u32_max_def split: if_splits)
  moreover have "block_num s' = block_num s + 1"
    using n(5) p(3) assms(3) by (simp add: same_common_def add32_def u32_max_def)
  moreover obtain pa where "get_scheduled_producer s (hdr_timestamp h) = Inr pa" "hdr_producer h = pa_producer_name pa"
    "valid_block_signing_authority s' = pa_authority pa"
    using n(2) p(3) t by (auto simp: same_common_def)
  ultimately show ?thesis
    using t p(4-6) scheduled_producer_active by blast
qed

section \<open>Schedules\<close>

text \<open>
  A pending schedule is the genesis schedule itself, or a block of the chain proposed it, with the
  version after the active one, and the number of that block is recorded with it.
\<close>

definition schedule_ok :: "fc_env \<Rightarrow> block_header_state \<Rightarrow> chain_block list \<Rightarrow> bool" where
  "schedule_ok env s hist \<longleftrightarrow>
     sched_producers (info_schedule (pending_schedule s)) = []
     \<or> info_schedule (pending_schedule s) = active_schedule s
     \<or> (sched_version (info_schedule (pending_schedule s)) = add32 (sched_version (active_schedule s)) 1
        \<and> (\<exists>e\<in>set hist. proposes env (cf_header e) (info_schedule (pending_schedule s))
             \<and> cf_num e = schedule_lib_num (pending_schedule s)))"

lemma schedule_ok_step:
  assumes "schedule_ok env s hist" "bhs_next_header env s h sigs pfs validator skip = Inr s'"
  shows "schedule_ok env s' (\<lparr>cf_before = s, cf_header = h, cf_after = s'\<rparr> # hist)"
    and "active_schedule s' = active_schedule s
      \<or> (sched_version (active_schedule s') = add32 (sched_version (active_schedule s)) 1
         \<and> (\<exists>e\<in>set hist. proposes env (cf_header e) (active_schedule s') \<and> cf_num e \<le> dpos_irreversible_blocknum s'))"
proof -
  obtain p m where p: "bhs_next env s (hdr_timestamp h) (hdr_confirmed h) = Inr p" "same_common s' p"
    "pending_schedule s' = next_pending_schedule p m" "\<forall>sch hash. m = Some (sch, hash) \<longrightarrow> may_propose p sch"
    "\<forall>sch hash. m = Some (sch, hash) \<longrightarrow> proposes env h sch"
    by (rule bhs_next_header_Inr [OF assms(2)]) (rule that)
  note n = bhs_next_Inr [OF p(1)]
  have act: "active_schedule s' = active_schedule p" "dpos_irreversible_blocknum s' = dpos_irreversible_blocknum p"
    "block_num s' = block_num p"
    using p(2) by (simp_all add: same_common_def)
  show "active_schedule s' = active_schedule s
      \<or> (sched_version (active_schedule s') = add32 (sched_version (active_schedule s)) 1
         \<and> (\<exists>e\<in>set hist. proposes env (cf_header e) (active_schedule s') \<and> cf_num e \<le> dpos_irreversible_blocknum s'))"
    using assms(1) n(8,9) act by (auto simp: schedule_ok_def)
  have "\<forall>sch hash. m = Some (sch, hash) \<longrightarrow> may_propose p sch \<and> proposes env h sch"
    using p(4,5) by blast
  with p(3) show "schedule_ok env s' (\<lparr>cf_before = s, cf_header = h, cf_after = s'\<rparr> # hist)"
  proof (cases rule: pending_cases)
    case (proposed sch)
    then show ?thesis
      by (auto simp: schedule_ok_def act may_propose_def n(9,12))
  next
    case promoted
    then show ?thesis
      by (simp add: schedule_ok_def act n(9,12))
  next
    case kept
    then show ?thesis
      using assms(1) by (auto simp: schedule_ok_def act n(9,12))
  qed
qed

lemma header_chain_schedule_ok: "header_chain env pfs validator s hist \<Longrightarrow> schedule_ok env s hist"
proof (induction rule: header_chain.induct)
  case (genesis t chain_id ps)
  then show ?case
    by (auto simp: schedule_ok_def genesis_header_state_def Let_def)
next
  case (block s hist h sigs skip s')
  then show ?case
    using schedule_ok_step(1) by blast
qed

text \<open>
  C8. Along a chain the active schedule changes only to one that an earlier block of the chain
  proposed, in its header field or in its schedule change extension, once that block is
  irreversible in the state that activates it, and the version then goes up by exactly one.
\<close>

theorem schedule_promotion:
  assumes "header_chain env pfs validator s hist" "bhs_next_header env s h sigs pfs validator skip = Inr s'"
  shows "active_schedule s' = active_schedule s
    \<or> (sched_version (active_schedule s') = add32 (sched_version (active_schedule s)) 1
       \<and> (\<exists>e\<in>set hist. proposes env (cf_header e) (active_schedule s') \<and> cf_num e \<le> dpos_irreversible_blocknum s'))"
  using schedule_ok_step(2) [OF header_chain_schedule_ok [OF assms(1)] assms(2)] .

section \<open>Signatures\<close>

lemma collect_keys_Inr:
  "collect_keys env d K ss = Inr K' \<longleftrightarrow>
     (\<exists>ks. list_all2 (\<lambda>sig k. recover_key env sig d = Inr k) ss ks \<and> distinct ks \<and> set ks \<inter> K = {} \<and> K' = K \<union> set ks)"
proof (induction ss arbitrary: K)
  case (Cons a ss)
  show ?case
  proof
    assume "collect_keys env d K (a # ss) = Inr K'"
    then obtain k where k: "recover_key env a d = Inr k" "k \<notin> K" "collect_keys env d (insert k K) ss = Inr K'"
      by (auto simp: bind_r_Inr_iff)
    then obtain ks where "list_all2 (\<lambda>sig k. recover_key env sig d = Inr k) ss ks" "distinct ks"
      "set ks \<inter> insert k K = {}" "K' = insert k K \<union> set ks"
      using Cons.IH by blast
    then show "\<exists>ks. list_all2 (\<lambda>sig k. recover_key env sig d = Inr k) (a # ss) ks \<and> distinct ks \<and> set ks \<inter> K = {} \<and> K' = K \<union> set ks"
      using k(1,2) by (intro exI [of _ "k # ks"]) auto
  next
    assume "\<exists>ks. list_all2 (\<lambda>sig k. recover_key env sig d = Inr k) (a # ss) ks \<and> distinct ks \<and> set ks \<inter> K = {} \<and> K' = K \<union> set ks"
    then obtain k ks where k: "recover_key env a d = Inr k" "list_all2 (\<lambda>sig k. recover_key env sig d = Inr k) ss ks"
      "distinct (k # ks)" "set (k # ks) \<inter> K = {}" "K' = K \<union> set (k # ks)"
      by (auto simp: list_all2_Cons1)
    then have "collect_keys env d (insert k K) ss = Inr K'"
      unfolding Cons.IH by (intro exI [of _ ks]) auto
    then show "collect_keys env d K (a # ss) = Inr K'"
      using k(1,4) by simp
  qed
qed auto

lemma relevant_all:
  assumes "distinct (map kw_key kws)" "finite K"
  shows "length (filter (\<lambda>k. kw_key k \<in> K) kws) = card K \<longleftrightarrow> K \<subseteq> kw_key ` set kws"
proof -
  have "length (filter (\<lambda>k. kw_key k \<in> K) kws) = card (kw_key ` set (filter (\<lambda>k. kw_key k \<in> K) kws))"
    using assms(1) distinct_card [of "map kw_key (filter (\<lambda>k. kw_key k \<in> K) kws)"] distinct_map_filter by fastforce
  also have "kw_key ` set (filter (\<lambda>k. kw_key k \<in> K) kws) = kw_key ` set kws \<inter> K"
    by auto
  finally have len: "length (filter (\<lambda>k. kw_key k \<in> K) kws) = card (kw_key ` set kws \<inter> K)" .
  show ?thesis
    unfolding len using card_subset_eq [OF assms(2), of "kw_key ` set kws \<inter> K"] by (auto simp: Int_absorb1)
qed

text \<open>
  C10. The signatures of a block are accepted exactly when every one of them recovers to a
  different key, all of these keys belong to the signing authority of the scheduled producer, and
  their weights reach its threshold; the saturating sum of the code never changes the verdict.
\<close>

theorem verify_signee_iff:
  assumes "valid_block_signing_authority s = bsa_v0 a" "distinct (map kw_key (bsa_keys a))" "bsa_threshold a \<le> u32_max"
  shows "verify_signee env s = Inr () \<longleftrightarrow>
    (\<exists>d ks. sig_digest env s = Inr d
       \<and> list_all2 (\<lambda>sig k. recover_key env sig d = Inr k) (hdr_producer_signature (header s) # additional_signatures s) ks
       \<and> distinct ks \<and> set ks \<subseteq> kw_key ` set (bsa_keys a)
       \<and> bsa_threshold a \<le> sum_list (map kw_weight (filter (\<lambda>k. kw_key k \<in> set ks) (bsa_keys a))))"
    (is "_ \<longleftrightarrow> ?R")
proof
  assume "verify_signee env s = Inr ()"
  then obtain d k K where v: "sig_digest env s = Inr d" "recover_key env (hdr_producer_signature (header s)) d = Inr k"
    "collect_keys env d {k} (additional_signatures s) = Inr K"
    "length (filter (\<lambda>k. kw_key k \<in> K) (bsa_keys a)) = card K"
    "bsa_threshold a \<le> sum_list (map kw_weight (filter (\<lambda>k. kw_key k \<in> K) (bsa_keys a)))"
    using assms(3) by (auto simp: verify_signee_def assms(1) bind_r_Inr_iff keys_satisfy_and_relevant_v0_eq)
  then obtain ks where ks: "list_all2 (\<lambda>sig k. recover_key env sig d = Inr k) (additional_signatures s) ks" "distinct ks"
    "k \<notin> set ks" "K = insert k (set ks)"
    by (auto simp: collect_keys_Inr)
  then have "finite K"
    by simp
  then have "K \<subseteq> kw_key ` set (bsa_keys a)"
    using v(4) relevant_all [OF assms(2)] by blast
  then show ?R
    using v ks by (intro exI [of _ d] exI [of _ "k # ks"]) simp
next
  assume ?R
  then obtain d k ks where v: "sig_digest env s = Inr d" "recover_key env (hdr_producer_signature (header s)) d = Inr k"
    "list_all2 (\<lambda>sig k. recover_key env sig d = Inr k) (additional_signatures s) ks" "distinct (k # ks)"
    "set (k # ks) \<subseteq> kw_key ` set (bsa_keys a)"
    "bsa_threshold a \<le> sum_list (map kw_weight (filter (\<lambda>x. kw_key x \<in> set (k # ks)) (bsa_keys a)))"
    by (auto simp: list_all2_Cons1)
  have "collect_keys env d {k} (additional_signatures s) = Inr (set (k # ks))"
    using v(3,4) by (auto simp: collect_keys_Inr)
  moreover have "length (filter (\<lambda>x. kw_key x \<in> set (k # ks)) (bsa_keys a)) = card (set (k # ks))"
    using relevant_all [OF assms(2)] v(5) by blast
  moreover have "1 + length (additional_signatures s) \<le> length (bsa_keys a)"
  proof -
    have "length (k # ks) = card (set (k # ks))"
      using v(4) distinct_card by metis
    also have "\<dots> \<le> card (kw_key ` set (bsa_keys a))"
      using v(5) by (intro card_mono) auto
    also have "\<dots> \<le> length (bsa_keys a)"
      using card_image_le [of "set (bsa_keys a)" kw_key] card_length [of "bsa_keys a"] by (meson List.finite_set le_trans)
    finally show ?thesis
      using list_all2_lengthD [OF v(3)] by simp
  qed
  ultimately show "verify_signee env s = Inr ()"
    using v(1,2,6) assms(3) by (simp add: verify_signee_def assms(1) keys_satisfy_and_relevant_v0_eq del: set_simps)
qed

section \<open>Headers a producer makes\<close>

definition extensions_of :: "fc_env \<Rightarrow> digest list \<Rightarrow> producer_authority_schedule option \<Rightarrow> (nat \<times> block_header_extension) list" where
  "extensions_of env acts sch =
     (if acts = [] then [] else [(activation_extension_id, protocol_feature_activation acts)])
     @ (case sch of None \<Rightarrow> [] | Some n \<Rightarrow> [(schedule_change_extension_id, producer_schedule_change_extension n)])"

lemma activation_no_repeat_ok: "distinct ds \<Longrightarrow> set ds \<inter> s = {} \<Longrightarrow> activation_no_repeat s ds = Inr ()"
  by (induction ds arbitrary: s) (auto simp: eos_assert_def)

lemma extract_own_extensions:
  assumes "acts \<noteq> [] \<Longrightarrow> unpack_activation env (pack_activation env acts) = Inr acts" "distinct acts"
    "\<And>n. sch = Some n \<Longrightarrow> unpack_schedule env (pack_schedule env n) = Inr n"
  shows "extract_extensions env True 0
      ((if acts = [] then [] else [(activation_extension_id, pack_activation env acts)])
       @ (case sch of None \<Rightarrow> [] | Some n \<Rightarrow> [(schedule_change_extension_id, pack_schedule env n)]))
    = Inr (extensions_of env acts sch)"
  using assms
  by (cases sch) (auto simp: extensions_of_def extract_extension_def activation_reflector_init_def activation_no_repeat_ok
      activation_extension_id_def schedule_change_extension_id_def eos_assert_def)

lemma apply_own_activations:
  assumes "finite (prev_activated_protocol_features p)" "distinct acts" "set acts \<inter> prev_activated_protocol_features p = {}"
    "acts \<noteq> [] \<Longrightarrow> validator (timestamp p) (prev_activated_protocol_features p) acts = Inr ()"
  shows "apply_activations p validator (extensions_of env acts sch) = Inr (prev_activated_protocol_features p \<union> set acts)"
proof (cases "acts = []")
  case True
  then show ?thesis
    by (cases sch) (auto simp: apply_activations_def extensions_of_def ext_count_def activation_extension_id_def
        schedule_change_extension_id_def)
next
  case False
  have "card (prev_activated_protocol_features p \<union> set acts) = card (prev_activated_protocol_features p) + length acts"
    using assms(1-3) by (subst card_Un_disjoint) (auto simp: distinct_card)
  then show ?thesis
    using False assms(4) by (simp add: apply_activations_def extensions_of_def ext_count_def ext_lower_bound_def
        activation_extension_id_def protocol_feature_activation_set_def eos_assert_def Let_def)
qed

definition finished_state ::
    "fc_env \<Rightarrow> pending_block_header_state \<Rightarrow> signed_block_header \<Rightarrow> (nat \<times> block_header_extension) list
       \<Rightarrow> (producer_authority_schedule \<times> digest) option \<Rightarrow> digest set \<Rightarrow> block_header_state" where
  "finished_state env p h exts maybe act =
     \<lparr>block_num = block_num p, dpos_proposed_irreversible_blocknum = dpos_proposed_irreversible_blocknum p,
      dpos_irreversible_blocknum = dpos_irreversible_blocknum p, active_schedule = active_schedule p,
      blockroot_merkle = blockroot_merkle p, producer_to_last_produced = producer_to_last_produced p,
      producer_to_last_implied_irb = producer_to_last_implied_irb p,
      valid_block_signing_authority = valid_block_signing_authority p, confirm_count = confirm_count p,
      bhs_id = header_id env h, header = h, pending_schedule = next_pending_schedule p maybe,
      activated_protocol_features = act, additional_signatures = [], header_exts = exts\<rparr>"

text \<open>
  C11. The headers producers make are accepted: a header made from a pending state, with protocol
  feature activations the validator allows and that are not activated yet, and with a schedule
  that may be proposed, passes every check of the receiving side, activates exactly these
  features and makes the schedule pending as of this block. Packing followed by unpacking is
  assumed to give back what was packed.
\<close>

theorem produced_header_accepted:
  assumes "make_block_header env p troot aroot np acts pfs = Inr h"
    and "acts \<noteq> [] \<Longrightarrow> unpack_activation env (pack_activation env acts) = Inr acts" "distinct acts"
    and "\<And>n. np = Some n \<Longrightarrow> unpack_schedule env (pack_schedule env n) = Inr n \<and> may_propose p n"
    and "finite (prev_activated_protocol_features p)" "set acts \<inter> prev_activated_protocol_features p = {}"
    and "acts \<noteq> [] \<Longrightarrow> validator (timestamp p) (prev_activated_protocol_features p) acts = Inr ()"
  shows "\<exists>s. finish_next_common env p h pfs validator = Inr s
    \<and> activated_protocol_features s = prev_activated_protocol_features p \<union> set acts
    \<and> (\<forall>n. np = Some n \<longrightarrow> schedule_lib_num (pending_schedule s) = block_num p
          \<and> sched_version (info_schedule (pending_schedule s)) = sched_version n)"
proof -
  let ?w = "is_builtin_activated (prev_activated_protocol_features p) pfs wtmsig_block_signatures"
  let ?sch = "if ?w then np else None"
  have h: "header_matches h p" "hdr_extensions h =
      (if acts = [] then [] else [(activation_extension_id, pack_activation env acts)])
       @ (case ?sch of None \<Rightarrow> [] | Some n \<Rightarrow> [(schedule_change_extension_id, pack_schedule env n)])"
    "case np of None \<Rightarrow> hdr_new_producers h = None
      | Some n \<Rightarrow> (if ?w then hdr_new_producers h = None else (\<exists>l. hdr_new_producers h = Some l \<and> lps_version l = sched_version n))"
    using assms(1)
    by (auto simp: make_block_header_def header_matches_def Let_def bind_r_Inr_iff activation_extension_id_def
        schedule_change_extension_id_def split: option.splits if_splits)
  have exts: "validate_and_extract_header_extensions env h = Inr (extensions_of env acts ?sch)"
    unfolding validate_and_extract_header_extensions_def h(2)
    by (rule extract_own_extensions) (use assms(2-4) in \<open>auto split: if_splits\<close>)
  have act: "apply_activations p validator (extensions_of env acts ?sch) = Inr (prev_activated_protocol_features p \<union> set acts)"
    by (rule apply_own_activations) (use assms(3,5,6,7) in auto)
  have count: "ext_count (extensions_of env acts ?sch) schedule_change_extension_id = (if ?sch = None then 0 else 1)"
    "\<And>n. ?sch = Some n \<Longrightarrow> ext_lower_bound (extensions_of env acts ?sch) schedule_change_extension_id
       = Inr (producer_schedule_change_extension n)"
    by (auto simp: extensions_of_def ext_count_def ext_lower_bound_def activation_extension_id_def
        schedule_change_extension_id_def split: option.splits)
  let ?exts = "extensions_of env acts ?sch"
  let ?en = "if hdr_new_producers h \<noteq> None \<or> ext_count ?exts schedule_change_extension_id > 0 then ?w else False"
  obtain m m' where sched: "check_legacy_schedule env p ?en (hdr_new_producers h) = Inr m"
    "check_extension_schedule env p ?en ?exts m = Inr m'"
    "\<forall>n. np = Some n \<longrightarrow> (\<exists>s' hash. m' = Some (s', hash) \<and> sched_version s' = sched_version n)"
  proof (cases np)
    case None
    then show thesis
      using h(3) count(1) that [of None None] by (simp add: check_legacy_schedule_def check_extension_schedule_def)
  next
    case (Some n)
    have "may_propose p n"
      using assms(4) Some by blast
    then show thesis
      using h(3) count Some that
      by (cases ?w) (auto simp: check_legacy_schedule_def check_extension_schedule_def may_propose_def schedule_of_legacy_def)
  qed
  have "finish_next_common env p h pfs validator =
      bind_r (check_legacy_schedule env p ?en (hdr_new_producers h)) (\<lambda>maybe.
      bind_r (check_extension_schedule env p ?en ?exts maybe) (\<lambda>maybe.
      bind_r (apply_activations p validator ?exts) (\<lambda>act. Inr (finished_state env p h ?exts maybe act))))"
    using h(1) by (simp add: finish_next_common_def header_matches_def Let_def exts finished_state_def eos_assert_def)
  then show ?thesis
    using sched act by (auto simp: finished_state_def next_pending_schedule_def)
qed

section \<open>Irreversibility does not go back\<close>

lemma nth_sort_le_iff:
  fixes v :: nat
  assumes "k < length xs"
  shows "sort xs ! k \<le> v \<longleftrightarrow> k < length (filter (\<lambda>x. x \<le> v) xs)"
proof
  have len: "k < length (sort xs)"
    using assms by simp
  have split: "length (filter (\<lambda>x. x \<le> v) xs) + length (filter (\<lambda>x. Suc v \<le> x) xs) = length xs"
    using sum_length_filter_compl [of "\<lambda>x. x \<le> v" xs] by (simp add: not_le Suc_le_eq)
  show "k < length (filter (\<lambda>x. x \<le> v) xs)" if "sort xs ! k \<le> v"
    using sorted_nth_count_gt [OF sorted_sort len, of "Suc v"] that split assms by (simp add: length_filter_sort)
  show "sort xs ! k \<le> v" if "k < length (filter (\<lambda>x. x \<le> v) xs)"
  proof (rule ccontr)
    assume "\<not> sort xs ! k \<le> v"
    then have "filter (\<lambda>x. sort xs ! k \<le> x) (filter (\<lambda>x. x \<le> v) xs) = []"
      by (auto simp: filter_empty_conv)
    then have "length (filter (\<lambda>x. sort xs ! k \<le> x) xs) \<le> length (filter (\<lambda>x. Suc v \<le> x) xs)"
      using \<open>\<not> sort xs ! k \<le> v\<close> by (intro length_filter_conv_card [THEN eq_refl, THEN le_trans]) (auto simp: length_filter_conv_card intro!: card_mono)
    then show False
      using sorted_nth_count_ge [OF sorted_sort len] that split assms by (simp add: length_filter_sort)
  qed
qed

lemma nth_sort_mono:
  fixes xs :: "nat list"
  assumes "list_all2 (\<le>) xs ys" "k < length xs"
  shows "sort xs ! k \<le> sort ys ! k"
proof -
  let ?v = "sort ys ! k"
  have "length (filter (\<lambda>x. x \<le> v) ys) \<le> length (filter (\<lambda>x. x \<le> v) xs)" for v
    using assms(1) by (induction rule: list_all2_induct) auto
  then have "length (filter (\<lambda>x. x \<le> ?v) ys) \<le> length (filter (\<lambda>x. x \<le> ?v) xs)" .
  moreover have "k < length (filter (\<lambda>x. x \<le> ?v) ys)"
    using nth_sort_le_iff [of k ys ?v] assms list_all2_lengthD [OF assms(1)] by simp
  ultimately show ?thesis
    using nth_sort_le_iff [OF assms(2)] by simp
qed

lemma nth_sort_snoc_max:
  fixes xs :: "nat list"
  assumes "k < length xs" "k \<le> k'" "k' \<le> length xs" "\<forall>x\<in>set xs. x \<le> m"
  shows "sort xs ! k \<le> sort (m # xs) ! k'"
proof (cases "m \<le> sort (m # xs) ! k'")
  case True
  have "sort xs ! k \<in> set xs"
    using assms(1) by (metis length_sort nth_mem set_sort)
  then show ?thesis
    using True assms(4) by (meson le_trans)
next
  case False
  have "k' < length (filter (\<lambda>x. x \<le> sort (m # xs) ! k') (m # xs))"
    using nth_sort_le_iff [of k' "m # xs" "sort (m # xs) ! k'"] assms(3) by simp
  then have "k < length (filter (\<lambda>x. x \<le> sort (m # xs) ! k') xs)"
    using False assms(2) by simp
  then show ?thesis
    using nth_sort_le_iff [OF assms(1)] by blast
qed

text \<open>The quantile of a map of implied irreversible blocks, and the states whose irreversible number it supports.\<close>

definition quantile :: "nat list \<Rightarrow> nat" where
  "quantile xs = (if xs = [] then 0 else sort xs ! ((length xs - 1) div 3))"

definition irreversible_supported :: "block_header_state \<Rightarrow> bool" where
  "irreversible_supported s \<longleftrightarrow> tbl_wf (producer_to_last_implied_irb s)
     \<and> (\<forall>x\<in>set (map snd (producer_to_last_implied_irb s)). x \<le> dpos_proposed_irreversible_blocknum s)
     \<and> dpos_irreversible_blocknum s \<le> quantile (map snd (producer_to_last_implied_irb s))"

lemma quantile_mono: "list_all2 (\<le>) xs ys \<Longrightarrow> quantile xs \<le> quantile ys"
proof (cases "xs = []")
  case False
  assume le: "list_all2 (\<le>) xs ys"
  then have len: "length xs = length ys"
    by (rule list_all2_lengthD)
  then have "ys \<noteq> []" "(length xs - 1) div 3 < length xs"
    using False by (cases xs; fastforce)+
  then show ?thesis
    using nth_sort_mono [OF le] False len by (simp add: quantile_def)
qed (simp add: quantile_def)

lemma calc_dpos_quantile: "calc_dpos_last_irreversible s q = quantile (implied_blocknums s q)"
  by (simp add: calc_dpos_sort quantile_def)

lemma implied_ge:
  "\<forall>x\<in>set (map snd (producer_to_last_implied_irb s)). x \<le> dpos_proposed_irreversible_blocknum s \<Longrightarrow>
     list_all2 (\<le>) (map snd (producer_to_last_implied_irb s)) (implied_blocknums s q)"
  by (auto simp: implied_blocknums_def list.rel_map intro!: list.rel_refl_strong)

lemma snd_tbl_put:
  assumes "tbl_wf t"
  shows "mset (map snd (tbl_put k v t)) =
    (if tbl_find k t = None then add_mset v (mset (map snd t)) else mset (map (\<lambda>i. if fst i = k then v else snd i) t))"
  using assms
proof (induction k v t rule: tbl_put.induct)
  case (2 k v k' v' t)
  have gt: "\<forall>r\<in>set t. k' < fst r"
    using 2(2) by (auto simp: tbl_keys_def)
  have "tbl_find k ((k', v') # t) = None" if "k < k'"
    using that gt by (force simp: tbl_find_None_keys tbl_keys_def)
  moreover have "image_mset (\<lambda>i. if fst i = k then v else snd i) (mset t) = image_mset snd (mset t)" if "k = k'"
    using gt that by (intro image_mset_cong) auto
  ultimately show ?case
    using 2 by (auto simp: tbl_find_Cons)
qed simp

lemma quantile_mset: "mset xs = mset ys \<Longrightarrow> quantile xs = quantile ys"
  unfolding quantile_def by (metis mset_zero_iff properties_for_sort size_mset sorted_sort mset_sort)

lemma implied_supported:
  assumes "tbl_wf t" "\<forall>x\<in>set (map snd t). x \<le> m" "t = producer_to_last_implied_irb s" "m = dpos_proposed_irreversible_blocknum s"
  shows "quantile (implied_blocknums s q) \<le> quantile (map snd (tbl_put q m t))"
proof (cases "tbl_find q t")
  case None
  have absent: "implied_blocknums s q = map snd t"
    using None by (auto simp: implied_blocknums_def assms(3,4) tbl_find_None_keys tbl_keys_def)
  have put: "quantile (map snd (tbl_put q m t)) = quantile (m # map snd t)"
    using snd_tbl_put [OF assms(1), of q m] None by (intro quantile_mset) simp
  show ?thesis
  proof (cases "t = []")
    case False
    then have "sort (map snd t) ! ((length t - 1) div 3) \<le> sort (m # map snd t) ! (length t div 3)"
      using assms(2) by (intro nth_sort_snoc_max) (auto simp: div_le_mono less_Suc_eq_le le_less_trans [OF div_le_dividend])
    then have "quantile (map snd t) \<le> quantile (m # map snd t)"
      using False by (simp add: quantile_def)
    then show ?thesis
      by (simp only: absent put)
  qed (simp add: absent quantile_def)
next
  case (Some v)
  have implied: "implied_blocknums s q = map (\<lambda>i. if fst i = q then m else snd i) t"
    unfolding implied_blocknums_def assms(3,4) ..
  have "quantile (map snd (tbl_put q m t)) = quantile (implied_blocknums s q)"
    using snd_tbl_put [OF assms(1), of q m] Some by (intro quantile_mset) (simp add: implied)
  then show ?thesis
    by simp
qed

lemma set_tbl_put: "snd ` set (tbl_put k v t) \<subseteq> insert v (snd ` set t)"
  by (induction k v t rule: tbl_put.induct) auto

lemma quantile_ge_iff:
  assumes "xs \<noteq> []"
  shows "v \<le> quantile xs \<longleftrightarrow> 2 * length xs < 3 * length (filter (\<lambda>b. v \<le> b) xs)"
proof -
  let ?k = "(length xs - 1) div 3"
  have k: "?k < length (sort xs)"
    using assms by (cases xs) (auto simp: less_Suc_eq_le le_less_trans [OF div_le_dividend])
  have q: "quantile xs = sort xs ! ?k"
    using assms by (simp add: quantile_def)
  have tt: "2 * length xs < 3 * (length xs - ?k)" "3 * (length xs - ?k - 1) \<le> 2 * length xs"
    using two_thirds_index [of "length xs"] assms by auto
  show ?thesis
  proof
    assume "v \<le> quantile xs"
    then have "length (filter (\<lambda>b. quantile xs \<le> b) ys) \<le> length (filter (\<lambda>b. v \<le> b) ys)" for ys
      by (induction ys) auto
    then have "length (filter (\<lambda>b. quantile xs \<le> b) xs) \<le> length (filter (\<lambda>b. v \<le> b) xs)" .
    then show "2 * length xs < 3 * length (filter (\<lambda>b. v \<le> b) xs)"
      using sorted_nth_count_ge [OF sorted_sort k] tt(1) by (simp add: length_filter_sort q)
  next
    assume "2 * length xs < 3 * length (filter (\<lambda>b. v \<le> b) xs)"
    then show "v \<le> quantile xs"
      using sorted_nth_count_gt [OF sorted_sort k, of v] tt(2) by (simp add: length_filter_sort q not_less flip: not_le) (meson not_less)
  qed
qed

text \<open>
  A block that promotes the pending schedule, and one after which more than two thirds of the
  producers of its active schedule stand for the irreversible block: a producer kept from the
  schedule before stands for what it stood for, a new one for the irreversible block itself.
\<close>

definition promotes :: "chain_block \<Rightarrow> bool" where
  "promotes e \<longleftrightarrow> sched_producers (info_schedule (pending_schedule (cf_before e))) \<noteq> []
     \<and> schedule_lib_num (pending_schedule (cf_before e)) \<le> dpos_irreversible_blocknum (cf_after e)"

definition keeps_up :: "chain_block \<Rightarrow> bool" where
  "keeps_up e \<longleftrightarrow> (let xs = map snd (producer_to_last_implied_irb (cf_after e)) in
     2 * length xs < 3 * length (filter (\<lambda>b. dpos_irreversible_blocknum (cf_after e) \<le> b) xs))"

lemma fold_put_wf: "tbl_wf m0 \<Longrightarrow> tbl_wf (fold (\<lambda>pro m. tbl_put (pa_producer_name pro) (f pro) m) pros m0)"
  by (induction pros arbitrary: m0) simp_all

lemma fold_put_values:
  "snd ` set (fold (\<lambda>pro m. tbl_put (pa_producer_name pro) (f pro) m) pros m0) \<subseteq> snd ` set m0 \<union> f ` set pros"
proof (induction pros arbitrary: m0)
  case (Cons a pros)
  have "snd ` set (fold (\<lambda>pro m. tbl_put (pa_producer_name pro) (f pro) m) (a # pros) m0)
      \<subseteq> snd ` set (tbl_put (pa_producer_name a) (f a) m0) \<union> f ` set pros"
    using Cons.IH by simp
  then show ?case
    using set_tbl_put [of "pa_producer_name a" "f a" m0] by (simp only: list.set image_insert) blast
qed simp

lemma promote_last_implied_irb_values:
  assumes "\<forall>x\<in>set (map snd t). x \<le> m" "lib \<le> m"
  shows "tbl_wf (promote_last_implied_irb t pros q m lib)" "\<forall>x\<in>set (map snd (promote_last_implied_irb t pros q m lib)). x \<le> m"
proof -
  let ?f = "\<lambda>pro. if pa_producer_name pro = q then m
    else (case tbl_find (pa_producer_name pro) t of Some existing \<Rightarrow> existing | None \<Rightarrow> lib)"
  note v = fold_put_wf [of "[]" ?f pros, folded promote_last_implied_irb_def]
    fold_put_values [of ?f pros "[]", folded promote_last_implied_irb_def]
  show "tbl_wf (promote_last_implied_irb t pros q m lib)"
    using v(1) by simp
  have "?f pro \<le> m" for pro
    using assms by (fastforce simp: tbl_find_def split: option.splits dest: map_of_SomeD)
  then show "\<forall>x\<in>set (map snd (promote_last_implied_irb t pros q m lib)). x \<le> m"
    using v(2) by fastforce
qed

lemma implied_le:
  assumes "\<forall>x\<in>set (map snd (producer_to_last_implied_irb s)). x \<le> dpos_proposed_irreversible_blocknum s"
  shows "calc_dpos_last_irreversible s q \<le> dpos_proposed_irreversible_blocknum s"
proof (cases "implied_blocknums s q = []")
  case False
  then have "calc_dpos_last_irreversible s q \<in> set (sort (implied_blocknums s q))"
    unfolding calc_dpos_quantile quantile_def by (simp del: set_sort) (intro nth_mem, cases "implied_blocknums s q"; force)
  then show ?thesis
    using assms by (auto simp: implied_blocknums_def)
qed (simp add: calc_dpos_quantile quantile_def)

lemma irreversible_step:
  assumes "irreversible_supported s" "bhs_next_header env s h sigs pfs validator skip = Inr s'"
    "dpos_proposed_irreversible_blocknum s \<le> dpos_proposed_irreversible_blocknum s'"
  defines "e \<equiv> \<lparr>cf_before = s, cf_header = h, cf_after = s'\<rparr>"
  shows "dpos_irreversible_blocknum s \<le> dpos_irreversible_blocknum s'"
    and "promotes e \<longrightarrow> keeps_up e \<Longrightarrow> irreversible_supported s'"
proof -
  obtain p m where p: "bhs_next env s (hdr_timestamp h) (hdr_confirmed h) = Inr p" "same_common s' p"
    by (rule bhs_next_header_Inr [OF assms(2)]) (rule that)
  note n = bhs_next_Inr [OF p(1)]
  let ?t = "producer_to_last_implied_irb s" and ?m = "dpos_proposed_irreversible_blocknum s"
  have sup: "tbl_wf ?t" "\<forall>x\<in>set (map snd ?t). x \<le> ?m" "dpos_irreversible_blocknum s \<le> quantile (map snd ?t)"
    using assms(1) by (auto simp: irreversible_supported_def)
  have lib: "dpos_irreversible_blocknum s' = quantile (implied_blocknums s (producer p))" "dpos_irreversible_blocknum s' \<le> ?m"
    using n(7) p(2) implied_le [OF sup(2)] by (simp_all add: same_common_def calc_dpos_quantile)
  show "dpos_irreversible_blocknum s \<le> dpos_irreversible_blocknum s'"
    using sup(3) quantile_mono [OF implied_ge [OF sup(2)]] unfolding lib by (rule le_trans)
  have t': "producer_to_last_implied_irb s' = producer_to_last_implied_irb p"
    "dpos_irreversible_blocknum s' = dpos_irreversible_blocknum p"
    using p(2) by (simp_all add: same_common_def)
  show "irreversible_supported s'" if up: "promotes e \<longrightarrow> keeps_up e"
  proof (cases "was_pending_promoted p")
    case True
    then have "promotes e" and t: "producer_to_last_implied_irb s' = promote_last_implied_irb ?t
        (sched_producers (info_schedule (pending_schedule s))) (producer p) ?m (dpos_irreversible_blocknum s')"
      using n(8,11) t' by (simp_all add: promotes_def e_def)
    then have "keeps_up e"
      using up by blast
    then have "dpos_irreversible_blocknum s' \<le> quantile (map snd (producer_to_last_implied_irb s'))"
      by (subst quantile_ge_iff) (auto simp: keeps_up_def e_def Let_def)
    then show ?thesis
      using promote_last_implied_irb_values [OF sup(2) lib(2)] assms(3)
      unfolding irreversible_supported_def t by (meson le_trans)
  next
    case False
    then have t: "producer_to_last_implied_irb s' = tbl_put (producer p) ?m ?t"
      using n(11) t' by simp
    have "dpos_irreversible_blocknum s' \<le> quantile (map snd (producer_to_last_implied_irb s'))"
      using implied_supported [OF sup(1,2) refl refl] by (simp only: t lib)
    moreover have "\<forall>x\<in>set (map snd (producer_to_last_implied_irb s')). x \<le> dpos_proposed_irreversible_blocknum s'"
      using set_tbl_put [of "producer p" ?m ?t] sup(2) assms(3) unfolding t by fastforce
    ultimately show ?thesis
      using sup(1) by (simp add: irreversible_supported_def t)
  qed
qed

lemma header_chain_proposed_mono:
  assumes "header_chain env pfs validator s hist" "bhs_next_header env s h sigs pfs validator skip = Inr s'"
    "ranges_ok (\<lparr>cf_before = s, cf_header = h, cf_after = s'\<rparr> # hist)"
  shows "dpos_proposed_irreversible_blocknum s \<le> dpos_proposed_irreversible_blocknum s'"
proof -
  let ?e = "\<lparr>cf_before = s, cf_header = h, cf_after = s'\<rparr>"
  obtain p m where p: "bhs_next env s (hdr_timestamp h) (hdr_confirmed h) = Inr p" "same_common s' p"
    by (rule bhs_next_header_Inr [OF assms(2)]) (rule that)
  have "ranges_ok hist"
    using assms(3) by (simp add: ranges_ok_def)
  then have counts: "counts_ok s hist"
    using header_chain_inv [OF assms(1)] by blast
  then have "block_num s < 2 ^ 32"
    by (simp add: counts_ok_def)
  note bd = ranges_ok_Cons [OF assms(3) this p]
  show ?thesis
    using counts_ok_step(2) [OF counts p bd(2,4,5), of ?e] by auto
qed

lemma header_chain_irreversible:
  "header_chain env pfs validator s hist \<Longrightarrow> ranges_ok hist \<Longrightarrow> \<forall>e\<in>set hist. promotes e \<longrightarrow> keeps_up e \<Longrightarrow>
     irreversible_supported s \<and> sorted (rev (map (\<lambda>e. dpos_irreversible_blocknum (cf_after e)) hist))
     \<and> (\<forall>e\<in>set hist. dpos_irreversible_blocknum (cf_after e) \<le> dpos_irreversible_blocknum s)"
proof (induction rule: header_chain.induct)
  case (genesis t chain_id ps)
  then show ?case
    by (simp add: irreversible_supported_def genesis_header_state_def Let_def quantile_def)
next
  case (block s hist h sigs skip s')
  have IH: "irreversible_supported s" "sorted (rev (map (\<lambda>e. dpos_irreversible_blocknum (cf_after e)) hist))"
    "\<forall>e\<in>set hist. dpos_irreversible_blocknum (cf_after e) \<le> dpos_irreversible_blocknum s"
    using block.IH block.prems by (auto simp: ranges_ok_def)
  note step = irreversible_step [OF IH(1) block.hyps(2) header_chain_proposed_mono [OF block.hyps block.prems(1)]]
  have "\<forall>e\<in>set hist. dpos_irreversible_blocknum (cf_after e) \<le> dpos_irreversible_blocknum s'"
    using IH(3) step(1) le_trans by blast
  then show ?case
    using IH(2) step(2) block.prems(2) by (simp add: sorted_append)
qed

text \<open>
  C7. From the genesis on the irreversible block numbers along a chain never go back, schedule
  changes included, under these conditions: the confirmed ranges of its blocks do not reach below
  its first block, its schedules have at most the maximal size, and at every block before the
  newest one that promotes a schedule, more than two thirds of the new producers stand for the
  irreversible block. The last condition is needed: a producer kept from the schedule
  before stands for a lower block when it has not produced for a while, and when these are a third
  of the new schedule, the number goes back.
\<close>

theorem irreversible_monotone:
  assumes "header_chain env pfs validator s hist" "ranges_ok hist" "\<forall>e\<in>set (tl hist). promotes e \<longrightarrow> keeps_up e"
  shows "sorted (rev (map (\<lambda>e. dpos_irreversible_blocknum (cf_after e)) hist))"
  using assms(1)
proof cases
  case genesis
  then show ?thesis
    by simp
next
  case (block s0 hist0 h sigs skip)
  then have "ranges_ok hist0" "\<forall>e\<in>set hist0. promotes e \<longrightarrow> keeps_up e"
    using assms(2,3) by (simp_all add: ranges_ok_def)
  note inv = header_chain_irreversible [OF block(2) this]
  have "dpos_irreversible_blocknum s0 \<le> dpos_irreversible_blocknum s"
    using inv assms(2) block header_chain_proposed_mono [OF block(2,3)] by (intro irreversible_step(1) [OF _ block(3)]) auto
  then have "\<forall>e\<in>set hist0. dpos_irreversible_blocknum (cf_after e) \<le> dpos_irreversible_blocknum s"
    using inv le_trans by blast
  then show ?thesis
    using inv block(1) by (simp add: sorted_append)
qed

text \<open>
  Without it the number does go back: the next block computes a lower one as soon as at most two
  thirds of the producers stand for the irreversible block of the state.
\<close>

lemma irreversible_goes_back:
  assumes "producer_to_last_implied_irb s \<noteq> []"
    "3 * length (filter (\<lambda>b. dpos_irreversible_blocknum s \<le> b) (implied_blocknums s (producer p))) \<le> 2 * length (implied_blocknums s (producer p))"
    "bhs_next env s when c = Inr p"
  shows "dpos_irreversible_blocknum p < dpos_irreversible_blocknum s"
proof -
  have "implied_blocknums s (producer p) \<noteq> []"
    using assms(1) by (simp add: implied_blocknums_def)
  then show ?thesis
    using quantile_ge_iff [of "implied_blocknums s (producer p)" "dpos_irreversible_blocknum s"] assms(2) bhs_next_Inr(7) [OF assms(3)]
    by (simp add: calc_dpos_quantile not_less flip: not_le)
qed

section \<open>Ranges that reach below the first block\<close>


section \<open>A concrete chain\<close>

text \<open>One producer, who makes the block after the genesis; one confirmation is all it takes.\<close>

definition sample_producer :: legacy_producer_key where
  "sample_producer = \<lparr>pk_producer_name = 1, pk_block_signing_key = 7\<rparr>"

definition sample_genesis :: block_header_state where
  "sample_genesis = genesis_header_state sample_env 5 (toy_digest 9) [sample_producer]"

definition sample_header :: signed_block_header where
  "sample_header = \<lparr>hdr_timestamp = 6, hdr_producer = 1, hdr_confirmed = 0, hdr_previous = bhs_id sample_genesis,
     hdr_transaction_mroot = toy_digest 0, hdr_action_mroot = toy_digest 0, hdr_schedule_version = 0, hdr_new_producers = None,
     hdr_extensions = [], hdr_producer_signature = 7\<rparr>"

lemma byte_swap_0: "byte_swap 0 = 0"
  by (simp add: byte_swap_def)

lemma sample_genesis_simps:
  "block_num sample_genesis = 1" "dpos_proposed_irreversible_blocknum sample_genesis = 0"
  "active_schedule sample_genesis = \<lparr>sched_version = 0, sched_producers = [producer_authority_of_legacy sample_producer]\<rparr>"
  "producer_to_last_produced sample_genesis = []" "producer_to_last_implied_irb sample_genesis = []"
  "confirm_count sample_genesis = []" "blockroot_merkle sample_genesis = incremental_merkle_init"
  "pending_schedule sample_genesis = \<lparr>schedule_lib_num = 0, schedule_hash = toy_digest 0,
     info_schedule = \<lparr>sched_version = 0, sched_producers = [producer_authority_of_legacy sample_producer]\<rparr>\<rparr>"
  "activated_protocol_features sample_genesis = {}" "hdr_timestamp (header sample_genesis) = 5"
  by (simp_all add: sample_genesis_def genesis_header_state_def genesis_header_def Let_def schedule_of_legacy_def
      header_block_num_def num_from_id_def sample_env_def byte_swap_0 toy_digest_def)

lemmas sample_step_simps = sample_genesis_simps next_when_def get_scheduled_producer_def
  producer_repetitions_def producer_authority_of_legacy_def sample_producer_def check_double_confirm_def
  add32_def grow_confirm_count_def maximum_tracked_dpos_confirmations_def confirm_blocks_def dec8_def sub32_def
  calc_dpos_last_irreversible_def validate_and_extract_header_extensions_def
  ext_count_def check_legacy_schedule_def check_extension_schedule_def apply_activations_def activation_extension_id_def
  Let_def

text \<open>The block after the genesis, and the state it leads to.\<close>

lemma sample_step:
  obtains s' where "bhs_next_header sample_env sample_genesis sample_header [] (\<lambda>_. None) (\<lambda>_ _ _. Inr ()) False = Inr s'"
    "dpos_proposed_irreversible_blocknum s' = 2" "block_num s' = 2" "confirm_count s' = []"
    "active_schedule s' = \<lparr>sched_version = 0, sched_producers = [producer_authority_of_legacy sample_producer]\<rparr>"
    "producer_to_last_produced s' = [(1, 2)]" "producer_to_last_implied_irb s' = [(1, 0)]" "dpos_irreversible_blocknum s' = 0"
    "sched_producers (info_schedule (pending_schedule s')) = []" "hdr_timestamp (header s') = 6" "activated_protocol_features s' = {}"
proof -
  obtain m r where m: "append_node (hash_pair sample_env) incremental_merkle_init (bhs_id sample_genesis) = Inr m"
    "get_root (null_digest sample_env) m = Inr r"
    using imerkle.root_append [OF imerkle.commits_init, of "hash_pair sample_env" "bhs_id sample_genesis" "null_digest sample_env"]
    by auto
  have rec: "recover_key sample_env sig d = Inr sig" for sig d
    by (simp add: sample_env_def)
  have "\<exists>s'. bhs_next_header sample_env sample_genesis sample_header [] (\<lambda>_. None) (\<lambda>_ _ _. Inr ()) False = Inr s'
    \<and> dpos_proposed_irreversible_blocknum s' = 2 \<and> block_num s' = 2 \<and> confirm_count s' = []
    \<and> active_schedule s' = \<lparr>sched_version = 0, sched_producers = [producer_authority_of_legacy sample_producer]\<rparr>
    \<and> producer_to_last_produced s' = [(1, 2)] \<and> producer_to_last_implied_irb s' = [(1, 0)] \<and> dpos_irreversible_blocknum s' = 0
    \<and> sched_producers (info_schedule (pending_schedule s')) = [] \<and> hdr_timestamp (header s') = 6 \<and> activated_protocol_features s' = {}"
    by (simp add: bhs_next_header_def bhs_next_def sample_header_def m finish_next_def finish_next_common_def
        sample_step_simps verify_signee_def sig_digest_def rec keys_satisfy_and_relevant_v0_def satisfy_step_def u32_max_def
        promote_last_produced_def promote_last_implied_irb_def next_pending_schedule_def empty_schedule_def)
  then show thesis
    using that by blast
qed

lemma sample_genesis_chain: "header_chain sample_env (\<lambda>_. None) (\<lambda>_ _ _. Inr ()) sample_genesis []"
  unfolding sample_genesis_def by (rule header_chain.genesis)

lemma sample_chain:
  assumes "bhs_next_header sample_env sample_genesis sample_header [] (\<lambda>_. None) (\<lambda>_ _ _. Inr ()) False = Inr s'"
  shows "header_chain sample_env (\<lambda>_. None) (\<lambda>_ _ _. Inr ()) s' [\<lparr>cf_before = sample_genesis, cf_header = sample_header, cf_after = s'\<rparr>]"
  using header_chain.block [OF sample_genesis_chain assms] .

text \<open>The next block proposes a schedule in which the producer has a new key, and the one after it promotes this schedule.\<close>

definition sample_new_producers :: legacy_producer_schedule where
  "sample_new_producers = \<lparr>lps_version = 1, lps_producers = [\<lparr>pk_producer_name = 1, pk_block_signing_key = 8\<rparr>]\<rparr>"

definition sample_proposing_header :: "block_header_state \<Rightarrow> signed_block_header" where
  "sample_proposing_header s =
     sample_header\<lparr>hdr_timestamp := 7, hdr_previous := bhs_id s, hdr_new_producers := Some sample_new_producers\<rparr>"

definition sample_promoting_header :: "block_header_state \<Rightarrow> signed_block_header" where
  "sample_promoting_header s = sample_header\<lparr>hdr_timestamp := 8, hdr_previous := bhs_id s\<rparr>"

lemma sample_append:
  assumes "header_chain sample_env pfs validator s hist" "length hist < 10"
  obtains m where "append_node (hash_pair sample_env) (blockroot_merkle s) (bhs_id s) = Inr m"
  using header_chain_merkle [OF assms(1)] assms(2) imerkle.commits_app [of "hash_pair sample_env" "blockroot_merkle s"
      "rev (map cf_parent hist)" "bhs_id s"]
  by auto

lemma sample_promotion:
  obtains s2 s3 s4 where "bhs_next_header sample_env sample_genesis sample_header [] (\<lambda>_. None) (\<lambda>_ _ _. Inr ()) False = Inr s2"
    "bhs_next_header sample_env s2 (sample_proposing_header s2) [] (\<lambda>_. None) (\<lambda>_ _ _. Inr ()) True = Inr s3"
    "bhs_next_header sample_env s3 (sample_promoting_header s3) [] (\<lambda>_. None) (\<lambda>_ _ _. Inr ()) True = Inr s4"
    "header_chain sample_env (\<lambda>_. None) (\<lambda>_ _ _. Inr ()) s3
       [\<lparr>cf_before = s2, cf_header = sample_proposing_header s2, cf_after = s3\<rparr>,
        \<lparr>cf_before = sample_genesis, cf_header = sample_header, cf_after = s2\<rparr>]"
    "block_num s2 = 2" "block_num s3 = 3" "block_num s4 = 4"
    "dpos_irreversible_blocknum s2 = 0" "dpos_irreversible_blocknum s3 = 2" "dpos_irreversible_blocknum s4 = 3"
    "sched_producers (info_schedule (pending_schedule s2)) = []" "producer_to_last_implied_irb s2 = [(1, 0)]"
    "length (sched_producers (active_schedule s2)) = 1" "length (sched_producers (active_schedule s3)) = 1"
    "active_schedule s3 \<noteq> active_schedule s4" "active_schedule s4 = schedule_of_legacy sample_new_producers"
    "dpos_proposed_irreversible_blocknum s3 = 3"
proof -
  obtain s2 where s2: "bhs_next_header sample_env sample_genesis sample_header [] (\<lambda>_. None) (\<lambda>_ _ _. Inr ()) False = Inr s2"
    "dpos_proposed_irreversible_blocknum s2 = 2" "block_num s2 = 2" "confirm_count s2 = []"
    "active_schedule s2 = \<lparr>sched_version = 0, sched_producers = [producer_authority_of_legacy sample_producer]\<rparr>"
    "producer_to_last_produced s2 = [(1, 2)]" "producer_to_last_implied_irb s2 = [(1, 0)]" "dpos_irreversible_blocknum s2 = 0"
    "sched_producers (info_schedule (pending_schedule s2)) = []" "hdr_timestamp (header s2) = 6" "activated_protocol_features s2 = {}"
    by (rule sample_step)
  note step = bhs_next_header_def bhs_next_def sample_header_def finish_next_def finish_next_common_def sample_step_simps tbl_find_def
    sample_proposing_header_def sample_promoting_header_def sample_new_producers_def next_pending_schedule_def schedule_of_legacy_def
    promote_last_produced_def promote_last_implied_irb_def is_builtin_activated_def
  note c2 = sample_chain [OF s2(1)]
  obtain m2 where m2: "append_node (hash_pair sample_env) (blockroot_merkle s2) (bhs_id s2) = Inr m2"
    by (rule sample_append [OF c2]) simp_all
  have "\<exists>s3. bhs_next_header sample_env s2 (sample_proposing_header s2) [] (\<lambda>_. None) (\<lambda>_ _ _. Inr ()) True = Inr s3
      \<and> dpos_proposed_irreversible_blocknum s3 = 3 \<and> block_num s3 = 3 \<and> confirm_count s3 = []
      \<and> active_schedule s3 = \<lparr>sched_version = 0, sched_producers = [producer_authority_of_legacy sample_producer]\<rparr>
      \<and> producer_to_last_produced s3 = [(1, 3)] \<and> producer_to_last_implied_irb s3 = [(1, 2)] \<and> dpos_irreversible_blocknum s3 = 2
      \<and> info_schedule (pending_schedule s3) = schedule_of_legacy sample_new_producers \<and> schedule_lib_num (pending_schedule s3) = 3
      \<and> hdr_timestamp (header s3) = 7 \<and> activated_protocol_features s3 = {}"
    by (simp add: step s2(2-11) m2)
  then obtain s3 where s3: "bhs_next_header sample_env s2 (sample_proposing_header s2) [] (\<lambda>_. None) (\<lambda>_ _ _. Inr ()) True = Inr s3"
    "dpos_proposed_irreversible_blocknum s3 = 3" "block_num s3 = 3" "confirm_count s3 = []"
    "active_schedule s3 = \<lparr>sched_version = 0, sched_producers = [producer_authority_of_legacy sample_producer]\<rparr>"
    "producer_to_last_produced s3 = [(1, 3)]" "producer_to_last_implied_irb s3 = [(1, 2)]" "dpos_irreversible_blocknum s3 = 2"
    "info_schedule (pending_schedule s3) = schedule_of_legacy sample_new_producers" "schedule_lib_num (pending_schedule s3) = 3"
    "hdr_timestamp (header s3) = 7" "activated_protocol_features s3 = {}"
    by (elim exE conjE) (rule that)
  note c3 = header_chain.block [OF c2 s3(1)]
  obtain m3 where m3: "append_node (hash_pair sample_env) (blockroot_merkle s3) (bhs_id s3) = Inr m3"
    by (rule sample_append [OF c3]) simp_all
  have "\<exists>s4. bhs_next_header sample_env s3 (sample_promoting_header s3) [] (\<lambda>_. None) (\<lambda>_ _ _. Inr ()) True = Inr s4
      \<and> block_num s4 = 4 \<and> active_schedule s4 = schedule_of_legacy sample_new_producers \<and> dpos_irreversible_blocknum s4 = 3"
    by (simp add: step s3(2-12) m3)
  then obtain s4 where s4: "bhs_next_header sample_env s3 (sample_promoting_header s3) [] (\<lambda>_. None) (\<lambda>_ _ _. Inr ()) True = Inr s4"
    "block_num s4 = 4" "active_schedule s4 = schedule_of_legacy sample_new_producers" "dpos_irreversible_blocknum s4 = 3"
    by blast
  have "active_schedule s3 \<noteq> active_schedule s4"
    by (simp add: s3 s4 schedule_of_legacy_def sample_new_producers_def)
  then show thesis
    by (intro that [OF s2(1) s3(1) s4(1) c3]) (simp_all add: s2 s3 s4)
qed

theorem accepted_header_witness:
  "\<exists>s'. bhs_next_header sample_env sample_genesis sample_header [] (\<lambda>_. None) (\<lambda>_ _ _. Inr ()) False = Inr s'
     \<and> block_num s' = block_num sample_genesis + 1 \<and> hdr_previous sample_header = bhs_id sample_genesis"
proof -
  obtain s' where s': "bhs_next_header sample_env sample_genesis sample_header [] (\<lambda>_. None) (\<lambda>_ _ _. Inr ()) False = Inr s'"
    by (rule sample_step)
  show ?thesis
    using accepted_header [OF s'] s' by (simp add: sample_genesis_simps u32_max_def)
qed

theorem schedule_promotion_witness:
  "\<exists>s h s' hist. header_chain sample_env (\<lambda>_. None) (\<lambda>_ _ _. Inr ()) s hist
     \<and> bhs_next_header sample_env s h [] (\<lambda>_. None) (\<lambda>_ _ _. Inr ()) True = Inr s' \<and> active_schedule s' \<noteq> active_schedule s
     \<and> (\<exists>e\<in>set hist. proposes sample_env (cf_header e) (active_schedule s') \<and> cf_num e \<le> dpos_irreversible_blocknum s')"
proof -
  obtain s2 s3 s4 where s: "bhs_next_header sample_env s3 (sample_promoting_header s3) [] (\<lambda>_. None) (\<lambda>_ _ _. Inr ()) True = Inr s4"
    "header_chain sample_env (\<lambda>_. None) (\<lambda>_ _ _. Inr ()) s3
       [\<lparr>cf_before = s2, cf_header = sample_proposing_header s2, cf_after = s3\<rparr>,
        \<lparr>cf_before = sample_genesis, cf_header = sample_header, cf_after = s2\<rparr>]" "active_schedule s3 \<noteq> active_schedule s4"
    by (rule sample_promotion) (rule that)
  show ?thesis
    by (rule exI, rule exI, rule exI, rule exI, rule conjI, rule s(2), rule conjI, rule s(1))
      (use schedule_promotion [OF s(2,1)] s(3) in \<open>metis (no_types, lifting)\<close>)
qed

theorem verify_signee_iff_witness:
  "verify_signee sample_env (sample_genesis\<lparr>header := sample_header,
     valid_block_signing_authority := bsa_v0 \<lparr>bsa_threshold = 1, bsa_keys = [\<lparr>kw_key = 7, kw_weight = 1\<rparr>]\<rparr>\<rparr>) = Inr ()"
proof -
  let ?s = "sample_genesis\<lparr>header := sample_header,
     valid_block_signing_authority := bsa_v0 \<lparr>bsa_threshold = 1, bsa_keys = [\<lparr>kw_key = 7, kw_weight = 1\<rparr>]\<rparr>\<rparr>"
  have sigs: "additional_signatures ?s = []" "hdr_producer_signature (header ?s) = 7"
    by (simp_all add: sample_genesis_def genesis_header_state_def Let_def sample_header_def)
  obtain d where d: "sig_digest sample_env ?s = Inr d"
    by (simp add: sig_digest_def sample_genesis_simps get_root_def incremental_merkle_init_def)
  have "recover_key sample_env 7 d = Inr 7"
    by (simp add: sample_env_def)
  then show ?thesis
    using verify_signee_iff [of ?s "\<lparr>bsa_threshold = 1, bsa_keys = [\<lparr>kw_key = 7, kw_weight = 1\<rparr>]\<rparr>" sample_env] d sigs
    by (auto simp: u32_max_def intro!: exI [of _ "[7]"])
qed

definition sample_pending_state :: pending_block_header_state where
  "sample_pending_state =
     \<lparr>block_num = 9, dpos_proposed_irreversible_blocknum = 8, dpos_irreversible_blocknum = 8,
      active_schedule = \<lparr>sched_version = 0, sched_producers = [producer_authority_of_legacy sample_producer]\<rparr>,
      blockroot_merkle = incremental_merkle_init, producer_to_last_produced = [(1, 9)],
      producer_to_last_implied_irb = [(1, 8)], valid_block_signing_authority = pa_authority (producer_authority_of_legacy sample_producer),
      confirm_count = [], prev_activated_protocol_features = {toy_digest 3},
      prev_pending_schedule = \<lparr>schedule_lib_num = 0, schedule_hash = toy_digest 0, info_schedule = empty_schedule\<rparr>,
      was_pending_promoted = False, previous = toy_digest 1, producer = 1, timestamp = 20, active_schedule_version = 0,
      confirmed = 0\<rparr>"

theorem produced_header_accepted_witness:
  "\<exists>h s. make_block_header sample_env sample_pending_state (toy_digest 0) (toy_digest 0)
       (Some \<lparr>sched_version = 1, sched_producers = []\<rparr>) [toy_digest 7] (\<lambda>_. Some (toy_digest 3)) = Inr h
     \<and> finish_next_common sample_env sample_pending_state h (\<lambda>_. Some (toy_digest 3)) (\<lambda>_ _ _. Inr ()) = Inr s
     \<and> activated_protocol_features s = {toy_digest 3, toy_digest 7} \<and> schedule_lib_num (pending_schedule s) = 9"
proof -
  obtain h where h: "make_block_header sample_env sample_pending_state (toy_digest 0) (toy_digest 0)
       (Some \<lparr>sched_version = 1, sched_producers = []\<rparr>) [toy_digest 7] (\<lambda>_. Some (toy_digest 3)) = Inr h"
    by (simp add: make_block_header_def is_builtin_activated_def sample_pending_state_def Let_def)
  have env: "unpack_activation sample_env b = Inr [toy_digest 7]"
    "unpack_schedule sample_env b = Inr \<lparr>sched_version = 1, sched_producers = []\<rparr>" for b
    by (simp_all add: sample_env_def)
  have "toy_digest 7 \<noteq> toy_digest 3"
    by (simp add: toy_digest_def)
  then show ?thesis
    using produced_header_accepted [OF h, of "\<lambda>_ _ _. Inr ()"] h
    by (auto simp: env may_propose_def sample_pending_state_def empty_schedule_def add32_def insert_commute)
qed

theorem proposed_irreversible_confirmed_witness:
  "\<exists>s hist. header_chain sample_env (\<lambda>_. None) (\<lambda>_ _ _. Inr ()) s hist \<and> ranges_ok hist \<and> length hist = 2
     \<and> (\<exists>e\<in>set hist. cf_num e = 3 \<and> cf_active e * 2 div 3 + 1 \<le> card (insert (cf_producer e) (cf_producer ` later_confirming hist e)))"
proof -
  obtain s2 s3 where s: "header_chain sample_env (\<lambda>_. None) (\<lambda>_ _ _. Inr ()) s3
       [\<lparr>cf_before = s2, cf_header = sample_proposing_header s2, cf_after = s3\<rparr>,
        \<lparr>cf_before = sample_genesis, cf_header = sample_header, cf_after = s2\<rparr>]" (is "header_chain _ _ _ _ ?hist")
    "block_num s2 = 2" "block_num s3 = 3" "length (sched_producers (active_schedule s2)) = 1" "dpos_proposed_irreversible_blocknum s3 = 3"
    by (rule sample_promotion) (rule that)
  have "ranges_ok ?hist"
    by (simp add: ranges_ok_def s sample_header_def sample_proposing_header_def sample_genesis_simps max_producers_def)
  then show ?thesis
    using proposed_irreversible_confirmed [OF s(1)] s by (intro exI [of _ s3] exI [of _ ?hist]) auto
qed


theorem dpos_irreversible_two_thirds_witness:
  "calc_dpos_last_irreversible (sample_genesis\<lparr>producer_to_last_implied_irb := [(1, 0), (2, 10), (3, 11), (4, 10)]\<rparr>) 5 = 10
   \<and> 2 * 4 < 3 * length (filter (\<lambda>b. 10 \<le> b)
       (implied_blocknums (sample_genesis\<lparr>producer_to_last_implied_irb := [(1, 0), (2, 10), (3, 11), (4, 10)]\<rparr>) 5))"
proof -
  let ?s = "sample_genesis\<lparr>producer_to_last_implied_irb := [(1, 0), (2, 10), (3, 11), (4, 10)]\<rparr>"
  have "calc_dpos_last_irreversible ?s 5 = 10" "length (implied_blocknums ?s 5) = 4"
    by (simp_all add: calc_dpos_last_irreversible_def implied_blocknums_def)
  then show ?thesis
    using dpos_irreversible_two_thirds [of ?s 5] by simp
qed

theorem irreversible_monotone_witness:
  "\<exists>s hist. header_chain sample_env (\<lambda>_. None) (\<lambda>_ _ _. Inr ()) s hist
     \<and> map (\<lambda>e. dpos_irreversible_blocknum (cf_after e)) hist = [3, 2, 0]
     \<and> sorted (rev (map (\<lambda>e. dpos_irreversible_blocknum (cf_after e)) hist))"
proof -
  obtain s2 s3 s4 where s: "bhs_next_header sample_env s3 (sample_promoting_header s3) [] (\<lambda>_. None) (\<lambda>_ _ _. Inr ()) True = Inr s4"
    "header_chain sample_env (\<lambda>_. None) (\<lambda>_ _ _. Inr ()) s3
       [\<lparr>cf_before = s2, cf_header = sample_proposing_header s2, cf_after = s3\<rparr>,
        \<lparr>cf_before = sample_genesis, cf_header = sample_header, cf_after = s2\<rparr>]"
    "block_num s2 = 2" "block_num s3 = 3" "block_num s4 = 4"
    "dpos_irreversible_blocknum s2 = 0" "dpos_irreversible_blocknum s3 = 2" "dpos_irreversible_blocknum s4 = 3"
    "sched_producers (info_schedule (pending_schedule s2)) = []" "producer_to_last_implied_irb s2 = [(1, 0)]"
    "length (sched_producers (active_schedule s2)) = 1" "length (sched_producers (active_schedule s3)) = 1"
    by (rule sample_promotion) (rule that)
  let ?hist = "[\<lparr>cf_before = s3, cf_header = sample_promoting_header s3, cf_after = s4\<rparr>,
    \<lparr>cf_before = s2, cf_header = sample_proposing_header s2, cf_after = s3\<rparr>,
    \<lparr>cf_before = sample_genesis, cf_header = sample_header, cf_after = s2\<rparr>]"
  have chain: "header_chain sample_env (\<lambda>_. None) (\<lambda>_ _ _. Inr ()) s4 ?hist"
    by (rule header_chain.block [OF s(2,1)])
  have "ranges_ok ?hist"
    by (simp add: ranges_ok_def s sample_header_def sample_proposing_header_def sample_promoting_header_def
        sample_genesis_simps max_producers_def)
  moreover have "\<forall>e\<in>set (tl ?hist). promotes e \<longrightarrow> keeps_up e"
    by (simp add: promotes_def keeps_up_def s)
  ultimately have "sorted (rev (map (\<lambda>e. dpos_irreversible_blocknum (cf_after e)) ?hist))"
    by (rule irreversible_monotone [OF chain])
  then show ?thesis
    using chain s(6-8) by (intro exI [of _ s4] exI [of _ ?hist]) simp
qed


end
