(* ===== verification/Blocks.thy ===== *)
theory Blocks
  imports Transactions Header_Validation
begin

text \<open>
  Blocks and block states (\<^verbatim>\<open>block.hpp\<close>, \<^verbatim>\<open>block.cpp\<close>, \<^verbatim>\<open>block_state.hpp\<close>, \<^verbatim>\<open>block_state.cpp\<close>):
  receipts, the extension that carries the additional block signatures, and the two ways a block
  state comes to be, from a received block and from a pending one that is signed. The theory shows
  that a block made the second way is accepted the first way. Serialisation is a parameter, the
  fields of \<open>block_env\<close>.
\<close>

section \<open>Receipts\<close>

datatype status_enum = executed | soft_fail | hard_fail | delayed | expired

record transaction_receipt_header =
  rcpt_status :: status_enum
  rcpt_cpu_usage_us :: nat
  rcpt_net_usage_words :: nat

datatype receipt_trx = trx_by_id digest | trx_by_packed packed_transaction

record transaction_receipt = transaction_receipt_header +
  rcpt_trx :: receipt_trx

record block_env =
  pack_status :: "status_enum \<Rightarrow> bytes"
  pack_u32 :: "nat \<Rightarrow> bytes"
  pack_unsigned_int :: "nat \<Rightarrow> bytes"
  pack_additional_signatures :: "signature_type list \<Rightarrow> bytes"
  unpack_additional_signatures :: "bytes \<Rightarrow> signature_type list result"

definition receipt_header_equal :: "'a transaction_receipt_header_scheme \<Rightarrow> 'b transaction_receipt_header_scheme \<Rightarrow> bool" where
  "receipt_header_equal lhs rhs \<longleftrightarrow>
     rcpt_status lhs = rcpt_status rhs \<and> rcpt_cpu_usage_us lhs = rcpt_cpu_usage_us rhs \<and>
     rcpt_net_usage_words lhs = rcpt_net_usage_words rhs"

definition receipt_of_id :: "digest \<Rightarrow> transaction_receipt" where
  "receipt_of_id tid = \<lparr>rcpt_status = executed, rcpt_cpu_usage_us = 0, rcpt_net_usage_words = 0, rcpt_trx = trx_by_id tid\<rparr>"

definition receipt_of_packed :: "packed_transaction \<Rightarrow> transaction_receipt" where
  "receipt_of_packed ptrx =
     \<lparr>rcpt_status = executed, rcpt_cpu_usage_us = 0, rcpt_net_usage_words = 0, rcpt_trx = trx_by_packed ptrx\<rparr>"

definition receipt_digest :: "tx_env \<Rightarrow> block_env \<Rightarrow> transaction_receipt \<Rightarrow> digest" where
  "receipt_digest env benv r =
     sha256 env (pack_status benv (rcpt_status r) @ pack_u32 benv (rcpt_cpu_usage_us r) @
       pack_unsigned_int benv (rcpt_net_usage_words r) @
       (case rcpt_trx r of
          trx_by_id i \<Rightarrow> pack_digest env i
        | trx_by_packed p \<Rightarrow> pack_digest env (packed_digest env p)))"

section \<open>Blocks and their extensions\<close>

record signed_block = signed_block_header +
  blk_transactions :: "transaction_receipt list"
  block_extensions :: "(nat \<times> bytes) list"

definition additional_sigs_eid :: nat where
  "additional_sigs_eid = 2"

text \<open>The check run when the extension is unpacked: at least one signature, none repeated.\<close>

fun unique_signatures :: "signature_type set \<Rightarrow> signature_type list \<Rightarrow> unit result" where
  "unique_signatures unique_sigs [] = Inr ()"
| "unique_signatures unique_sigs (s # ss) =
     bind_r (eos_assert (s \<notin> unique_sigs) ill_formed_additional_block_signatures_extension) (\<lambda>_.
       unique_signatures (insert s unique_sigs) ss)"

definition additional_signatures_reflector_init :: "signature_type list \<Rightarrow> unit result" where
  "additional_signatures_reflector_init signatures =
     bind_r (eos_assert (length signatures > 0) ill_formed_additional_block_signatures_extension) (\<lambda>_.
       unique_signatures {} signatures)"

text \<open>The exception for a repeated identifier is the one for header extensions, as in the source.\<close>

fun extract_block_extensions ::
    "block_env \<Rightarrow> bool \<Rightarrow> nat \<Rightarrow> (nat \<times> bytes) list \<Rightarrow> (nat \<times> signature_type list) list result" where
  "extract_block_extensions benv first id_type_lower_bound [] = Inr []"
| "extract_block_extensions benv first id_type_lower_bound ((i, data) # es) =
     bind_r (eos_assert (i \<ge> id_type_lower_bound) invalid_block_extension) (\<lambda>_.
     bind_r (if i = additional_sigs_eid
             then bind_r (unpack_additional_signatures benv data) (\<lambda>sigs.
                  bind_r (additional_signatures_reflector_init sigs) (\<lambda>_. Inr sigs))
             else Inl invalid_block_extension) (\<lambda>sigs.
     bind_r (eos_assert (first \<or> i > id_type_lower_bound) invalid_block_header_extension) (\<lambda>_.
     bind_r (extract_block_extensions benv False i es) (\<lambda>rest. Inr ((i, sigs) # rest)))))"

definition validate_and_extract_extensions :: "block_env \<Rightarrow> signed_block \<Rightarrow> (nat \<times> signature_type list) list result" where
  "validate_and_extract_extensions benv b = extract_block_extensions benv True 0 (block_extensions b)"

section \<open>Block states\<close>

record block_state = block_header_state +
  bs_block :: "signed_block option"
  validated :: bool
  pub_keys_recovered :: bool
  cached_trxs :: "transaction_metadata list"

definition is_valid :: "block_state \<Rightarrow> bool" where
  "is_valid b = validated b"

definition extract_trxs_metas :: "block_state \<Rightarrow> transaction_metadata list \<times> block_state" where
  "extract_trxs_metas b = (cached_trxs b, b\<lparr>pub_keys_recovered := False, cached_trxs := []\<rparr>)"

definition set_trxs_metas :: "transaction_metadata list \<Rightarrow> bool \<Rightarrow> block_state \<Rightarrow> block_state" where
  "set_trxs_metas trxs_metas keys_recovered b = b\<lparr>pub_keys_recovered := keys_recovered, cached_trxs := trxs_metas\<rparr>"

definition extract_additional_signatures :: "block_env \<Rightarrow> signed_block \<Rightarrow> signature_type list result" where
  "extract_additional_signatures benv b =
     bind_r (validate_and_extract_extensions benv b) (\<lambda>exts.
       if ext_count exts additional_sigs_eid > 0 then ext_lower_bound exts additional_sigs_eid else Inr [])"

definition inject_additional_signatures ::
    "fc_env \<Rightarrow> block_env \<Rightarrow> pending_block_header_state \<Rightarrow> signed_block \<Rightarrow> builtin_digests \<Rightarrow> feature_validator
       \<Rightarrow> (digest \<Rightarrow> signature_type list) \<Rightarrow> (signed_block \<times> block_header_state) result" where
  "inject_additional_signatures env benv cur b pfs validator signer =
     (let pfa = prev_activated_protocol_features cur in
      bind_r (finish_next_sign env cur (signed_block_header.truncate b) pfs validator signer) (\<lambda>(h, result).
        (let b = b\<lparr>hdr_producer_signature := hdr_producer_signature h\<rparr> in
         if additional_signatures result \<noteq> []
         then (let wtmsig_enabled = is_builtin_activated pfa pfs wtmsig_block_signatures in
               bind_r (eos_assert wtmsig_enabled block_validate_exception) (\<lambda>_.
                 Inr (b\<lparr>block_extensions := emplace_extension (block_extensions b) additional_sigs_eid
                         (pack_additional_signatures benv (additional_signatures result))\<rparr>, result)))
         else Inr (b, result))))"

definition make_block_state :: "block_header_state \<Rightarrow> signed_block option \<Rightarrow> bool \<Rightarrow> transaction_metadata list \<Rightarrow> block_state" where
  "make_block_state s b recovered trxs = block_header_state.extend s (block_state.fields b False recovered trxs)"

definition block_state_of_block ::
    "fc_env \<Rightarrow> block_env \<Rightarrow> block_header_state \<Rightarrow> signed_block \<Rightarrow> builtin_digests \<Rightarrow> feature_validator \<Rightarrow> bool
       \<Rightarrow> block_state result" where
  "block_state_of_block env benv prev b pfs validator skip_validate_signee =
     bind_r (extract_additional_signatures benv b) (\<lambda>sigs.
     bind_r (bhs_next_header env prev (signed_block_header.truncate b) sigs pfs validator skip_validate_signee) (\<lambda>s.
       Inr (make_block_state s (Some b) False [])))"

definition block_state_of_pending ::
    "fc_env \<Rightarrow> block_env \<Rightarrow> pending_block_header_state \<Rightarrow> signed_block \<Rightarrow> transaction_metadata list \<Rightarrow> builtin_digests
       \<Rightarrow> feature_validator \<Rightarrow> (digest \<Rightarrow> signature_type list) \<Rightarrow> block_state result" where
  "block_state_of_pending env benv cur b trx_metas pfs validator signer =
     bind_r (inject_additional_signatures env benv cur b pfs validator signer) (\<lambda>(b, s).
       Inr (make_block_state s (Some b) True trx_metas))"

section \<open>A produced block is accepted\<close>

text \<open>The signature of a header takes part in no check of the header, only in the state it leads to.\<close>

lemma header_id_signature [simp]: "header_id env (h\<lparr>hdr_producer_signature := x\<rparr>) = header_id env h" for h :: signed_block_header
  by (simp add: header_id_def header_digest_def header_block_num_def block_header.truncate_def)

lemma finish_next_common_signature:
  "finish_next_common env p (h\<lparr>hdr_producer_signature := x\<rparr>) pfs validator =
     bind_r (finish_next_common env p h pfs validator) (\<lambda>r. Inr (r\<lparr>header := h\<lparr>hdr_producer_signature := x\<rparr>\<rparr>))"
  by (simp add: finish_next_common_def bind_r_assoc validate_and_extract_header_extensions_def Let_def)

lemma finish_next_common_header:
  "finish_next_common env p h pfs validator = Inr r \<Longrightarrow>
     header r = h \<and> additional_signatures r = [] \<and> hdr_timestamp h = timestamp p \<and> hdr_confirmed h = confirmed p"
  by (auto simp: finish_next_common_def bind_r_Inr_iff Let_def)

lemma no_additional_signatures:
  "additional_signatures r = [] \<Longrightarrow> r\<lparr>header := h, additional_signatures := []\<rparr> = r\<lparr>header := h\<rparr>" for r :: block_header_state
  by (cases r) simp

lemma no_block_extensions:
  "block_extensions b = [] \<Longrightarrow> b\<lparr>hdr_producer_signature := x, block_extensions := []\<rparr> = b\<lparr>hdr_producer_signature := x\<rparr>" for b :: signed_block
  by (cases b) simp

lemma unique_signatures_ok: "distinct ss \<Longrightarrow> set ss \<inter> S = {} \<Longrightarrow> unique_signatures S ss = Inr ()"
  by (induction ss arbitrary: S) auto

text \<open>Signatures that verify are pairwise different, since they recover to different keys.\<close>

lemma verified_signatures_distinct:
  assumes "verify_signee env r = Inr ()"
  shows "distinct (additional_signatures r)"
proof -
  obtain d K K' where "collect_keys env d K (additional_signatures r) = Inr K'"
    using assms by (auto simp: verify_signee_def Let_def bind_r_Inr_iff)
  then obtain ks where ks: "list_all2 (\<lambda>sig k. recover_key env sig d = Inr k) (additional_signatures r) ks" "distinct ks"
    unfolding collect_keys_Inr by blast
  show ?thesis
    unfolding distinct_conv_nth
  proof (intro allI impI notI)
    fix i j
    assume ij: "i < length (additional_signatures r)" "j < length (additional_signatures r)" "i \<noteq> j"
      "additional_signatures r ! i = additional_signatures r ! j"
    then have "ks ! i = ks ! j"
      using list_all2_nthD [OF ks(1), of i] list_all2_nthD [OF ks(1), of j] by simp
    then show False
      using ij ks list_all2_lengthD [OF ks(1)] by (simp add: nth_eq_iff_index_eq)
  qed
qed

lemma sign_block_parts:
  assumes "sign_block env signer r = Inr r'"
  obtains x ss where "r' = r\<lparr>header := (header r)\<lparr>hdr_producer_signature := x\<rparr>, additional_signatures := ss\<rparr>"
    "verify_signee env r' = Inr ()" "distinct ss"
proof -
  obtain x ss where "r' = r\<lparr>header := (header r)\<lparr>hdr_producer_signature := x\<rparr>, additional_signatures := ss\<rparr>"
      "verify_signee env r' = Inr ()"
    using assms by (auto simp: sign_block_def Let_def bind_r_Inr_iff)
  then show thesis
    using that verified_signatures_distinct [of env r'] by auto
qed

text \<open>What the pending state, the signer and the extension leave in the signed block.\<close>

lemma block_state_of_pending_parts:
  assumes "block_state_of_pending env benv p b trx_metas pfs validator signer = Inr bs" "block_extensions b = []"
  obtains r x ss where "finish_next_common env p (signed_block_header.truncate b) pfs validator = Inr r"
    "bs = make_block_state (r\<lparr>header := (header r)\<lparr>hdr_producer_signature := x\<rparr>, additional_signatures := ss\<rparr>)
       (Some (b\<lparr>hdr_producer_signature := x,
         block_extensions := (if ss = [] then [] else [(additional_sigs_eid, pack_additional_signatures benv ss)])\<rparr>)) True trx_metas"
    "verify_signee env (r\<lparr>header := (header r)\<lparr>hdr_producer_signature := x\<rparr>, additional_signatures := ss\<rparr>) = Inr ()"
    "distinct ss" "ss \<noteq> [] \<longrightarrow> is_builtin_activated (prev_activated_protocol_features p) pfs wtmsig_block_signatures"
proof -
  from assms(1) obtain b' r' where inj: "inject_additional_signatures env benv p b pfs validator signer = Inr (b', r')"
    and bs: "bs = make_block_state r' (Some b') True trx_metas"
    by (auto simp: block_state_of_pending_def bind_r_Inr_iff)
  have inj': "bind_r (finish_next_sign env p (signed_block_header.truncate b) pfs validator signer) (\<lambda>(h, result).
      if additional_signatures result \<noteq> []
      then bind_r (eos_assert (is_builtin_activated (prev_activated_protocol_features p) pfs wtmsig_block_signatures) block_validate_exception) (\<lambda>_.
        Inr (b\<lparr>hdr_producer_signature := hdr_producer_signature h, block_extensions := emplace_extension (block_extensions b)
          additional_sigs_eid (pack_additional_signatures benv (additional_signatures result))\<rparr>, result))
      else Inr (b\<lparr>hdr_producer_signature := hdr_producer_signature h\<rparr>, result)) = Inr (b', r')"
    using inj by (simp add: inject_additional_signatures_def Let_def cong: if_cong)
  obtain h res where x: "finish_next_sign env p (signed_block_header.truncate b) pfs validator signer = Inr (h, res)"
    using inj' by (cases "finish_next_sign env p (signed_block_header.truncate b) pfs validator signer") auto
  have "res = r'"
    using inj' unfolding x by (simp add: bind_r_Inr_iff split: if_splits)
  with x have fin: "finish_next_sign env p (signed_block_header.truncate b) pfs validator signer = Inr (h, r')"
    by simp
  have b': "b' = (if additional_signatures r' \<noteq> []
        then b\<lparr>hdr_producer_signature := hdr_producer_signature h, block_extensions := emplace_extension (block_extensions b)
          additional_sigs_eid (pack_additional_signatures benv (additional_signatures r'))\<rparr>
        else b\<lparr>hdr_producer_signature := hdr_producer_signature h\<rparr>)"
    "additional_signatures r' \<noteq> [] \<longrightarrow> is_builtin_activated (prev_activated_protocol_features p) pfs wtmsig_block_signatures"
    using inj' unfolding fin by (simp_all add: bind_r_Inr_iff split: if_splits)
  from fin obtain r where r: "finish_next_common env p (signed_block_header.truncate b) pfs validator = Inr r"
    "sign_block env signer r = Inr r'" "hdr_producer_signature h = hdr_producer_signature (header r')"
    by (auto simp: finish_next_sign_def bind_r_Inr_iff Let_def)
  obtain x ss where "r' = r\<lparr>header := (header r)\<lparr>hdr_producer_signature := x\<rparr>, additional_signatures := ss\<rparr>"
    "verify_signee env r' = Inr ()" "distinct ss"
    by (rule sign_block_parts [OF r(2)])
  then show thesis
    using that [of r ss x] r b' assms(2) bs no_block_extensions [OF assms(2), of x] by (auto split: if_splits)
qed

text \<open>
  C35. A block that a producer makes is accepted by those who receive it: when a pending state has
  been finished and signed into a block state, its block, read against the state the pending one
  was made from, passes every check, the signatures and the extension that carries the additional
  ones included, and leads to the same block state up to the cached transactions. Unpacking the
  packed additional signatures is assumed to give them back.
\<close>

theorem produced_block_accepted:
  assumes pending: "bhs_next env s (hdr_timestamp b) (hdr_confirmed b) = Inr p"
    and made: "block_state_of_pending env benv p b trx_metas pfs validator signer = Inr bs"
    and ext: "block_extensions b = []"
    and pack: "unpack_additional_signatures benv (pack_additional_signatures benv (additional_signatures bs))
       = Inr (additional_signatures bs)"
  shows "\<exists>b'. bs_block bs = Some b' \<and>
    block_state_of_block env benv s b' pfs validator False = Inr (bs\<lparr>pub_keys_recovered := False, cached_trxs := []\<rparr>)"
proof -
  obtain r x ss where r: "finish_next_common env p (signed_block_header.truncate b) pfs validator = Inr r"
    and bs: "bs = make_block_state (r\<lparr>header := (header r)\<lparr>hdr_producer_signature := x\<rparr>, additional_signatures := ss\<rparr>)
       (Some (b\<lparr>hdr_producer_signature := x,
         block_extensions := (if ss = [] then [] else [(additional_sigs_eid, pack_additional_signatures benv ss)])\<rparr>)) True trx_metas"
    and ver: "verify_signee env (r\<lparr>header := (header r)\<lparr>hdr_producer_signature := x\<rparr>, additional_signatures := ss\<rparr>) = Inr ()"
    and ss: "distinct ss" "ss \<noteq> [] \<longrightarrow> is_builtin_activated (prev_activated_protocol_features p) pfs wtmsig_block_signatures"
    by (rule block_state_of_pending_parts [OF made ext])
  let ?b = "b\<lparr>hdr_producer_signature := x,
         block_extensions := (if ss = [] then [] else [(additional_sigs_eid, pack_additional_signatures benv ss)])\<rparr>"
  have hd: "signed_block_header.truncate ?b = (signed_block_header.truncate b)\<lparr>hdr_producer_signature := x\<rparr>"
    by (simp add: signed_block_header.truncate_def)
  have bsf: "additional_signatures bs = ss" "bs_block bs = Some ?b"
    by (simp_all add: bs make_block_state_def block_header_state.defs block_state.defs)
  have sigs: "extract_additional_signatures benv ?b = Inr ss"
    using pack ss(1) unique_signatures_ok [of ss "{}"] unfolding bsf(1)
    by (simp add: extract_additional_signatures_def validate_and_extract_extensions_def additional_signatures_reflector_init_def
        ext_count_def ext_lower_bound_def additional_sigs_eid_def)
  have hr: "header r = signed_block_header.truncate b" "additional_signatures r = []"
    using finish_next_common_header [OF r] by auto
  have "bhs_next_header env s (signed_block_header.truncate ?b) ss pfs validator False
    = finish_next env p ((signed_block_header.truncate b)\<lparr>hdr_producer_signature := x\<rparr>) ss pfs validator False"
    using pending unfolding bhs_next_header_def hd by (simp add: signed_block_header.truncate_def)
  also have "\<dots> = Inr (r\<lparr>header := (header r)\<lparr>hdr_producer_signature := x\<rparr>, additional_signatures := ss\<rparr>)"
    using ver ss(2) hr no_additional_signatures [OF hr(2)]
    by (cases "ss = []") (simp_all add: finish_next_def finish_next_common_signature r)
  finally have "bhs_next_header env s (signed_block_header.truncate ?b) ss pfs validator False
    = Inr (r\<lparr>header := (header r)\<lparr>hdr_producer_signature := x\<rparr>, additional_signatures := ss\<rparr>)" .
  then show ?thesis
    using bsf(2) sigs by (simp add: block_state_of_block_def bs make_block_state_def block_header_state.defs block_state.defs)
qed

section \<open>A concrete block\<close>

text \<open>The block after the genesis of the sample chain, signed by its only producer.\<close>

definition sample_block :: signed_block where
  "sample_block = signed_block_header.extend (sample_header\<lparr>hdr_producer_signature := 0\<rparr>) (signed_block.fields [] [])"

definition sample_block_env :: block_env where
  "sample_block_env = \<lparr>pack_status = \<lambda>s. [], pack_u32 = \<lambda>n. [], pack_unsigned_int = \<lambda>n. [],
     pack_additional_signatures = \<lambda>s. [], unpack_additional_signatures = \<lambda>b. Inr []\<rparr>"

lemma sample_block_simps:
  "block_extensions sample_block = []" "hdr_timestamp sample_block = 6" "hdr_confirmed sample_block = 0"
  "signed_block_header.truncate sample_block = sample_header\<lparr>hdr_producer_signature := 0\<rparr>"
  by (simp_all add: sample_block_def sample_header_def signed_block_header.defs signed_block.defs)

lemma sample_produced:
  "\<exists>p bs. bhs_next sample_env sample_genesis 6 0 = Inr p \<and> additional_signatures bs = []
     \<and> block_state_of_pending sample_env sample_block_env p sample_block [] (\<lambda>_. None) (\<lambda>_ _ _. Inr ()) (\<lambda>_. [7]) = Inr bs"
proof -
  obtain m r where m: "append_node (hash_pair sample_env) incremental_merkle_init (bhs_id sample_genesis) = Inr m"
    "get_root (null_digest sample_env) m = Inr r"
    using imerkle.root_append [OF imerkle.commits_init, of "hash_pair sample_env" "bhs_id sample_genesis" "null_digest sample_env"]
    by auto
  have rec: "recover_key sample_env sig d = Inr sig" for sig d
    by (simp add: sample_env_def)
  show ?thesis
    by (simp add: block_state_of_pending_def inject_additional_signatures_def finish_next_sign_def sign_block_def sample_block_simps
        bhs_next_def sample_header_def m finish_next_common_def sample_step_simps verify_signee_def sig_digest_def rec
        keys_satisfy_and_relevant_v0_def satisfy_step_def u32_max_def promote_last_produced_def promote_last_implied_irb_def
        next_pending_schedule_def empty_schedule_def make_block_state_def block_header_state.defs block_state.defs)
qed

theorem produced_block_accepted_witness:
  "\<exists>p bs b'. block_state_of_pending sample_env sample_block_env p sample_block [] (\<lambda>_. None) (\<lambda>_ _ _. Inr ()) (\<lambda>_. [7]) = Inr bs
     \<and> bs_block bs = Some b'
     \<and> block_state_of_block sample_env sample_block_env sample_genesis b' (\<lambda>_. None) (\<lambda>_ _ _. Inr ()) False
         = Inr (bs\<lparr>pub_keys_recovered := False, cached_trxs := []\<rparr>)"
proof -
  obtain p bs where p: "bhs_next sample_env sample_genesis (hdr_timestamp sample_block) (hdr_confirmed sample_block) = Inr p"
    and bs: "block_state_of_pending sample_env sample_block_env p sample_block [] (\<lambda>_. None) (\<lambda>_ _ _. Inr ()) (\<lambda>_. [7]) = Inr bs"
    and none: "additional_signatures bs = []"
    using sample_produced unfolding sample_block_simps by blast
  have "unpack_additional_signatures sample_block_env (pack_additional_signatures sample_block_env (additional_signatures bs))
      = Inr (additional_signatures bs)"
    by (simp add: none sample_block_env_def)
  from produced_block_accepted [OF p bs sample_block_simps(1) this] show ?thesis
    using bs by blast
qed

end
