(* ===== verification/Fork_Database.thy ===== *)
theory Fork_Database
  imports Blocks
begin

text \<open>
  The fork database (\<^verbatim>\<open>fork_database.hpp\<close>, \<^verbatim>\<open>fork_database.cpp\<close>): the tree of block states above
  the last irreversible one, its best branch, the pruning of branches and the file it is kept in
  between runs. The multi-index container is modelled by its elements in the order of
  \<^verbatim>\<open>by_lib_block_num\<close>; the lookup by identifier searches them. Block states are shared objects in
  the source, so the flag that \<^verbatim>\<open>modify\<close> sets on an element is also set on the head when it is
  that element. The loops that follow links between blocks end only on well-formed databases;
  they are partial functions, \<open>None\<close> standing for a loop that does not end.
\<close>

section \<open>The container\<close>

definition sha256_less :: "digest \<Rightarrow> digest \<Rightarrow> bool" where
  "sha256_less lhs rhs \<longleftrightarrow>
     dg0 lhs < dg0 rhs \<or> (dg0 lhs = dg0 rhs \<and>
       (dg1 lhs < dg1 rhs \<or> (dg1 lhs = dg1 rhs \<and>
         (dg2 lhs < dg2 rhs \<or> (dg2 lhs = dg2 rhs \<and> dg3 lhs < dg3 rhs)))))"

definition by_lib_less :: "block_state \<Rightarrow> block_state \<Rightarrow> bool" where
  "by_lib_less a b \<longleftrightarrow>
     (is_valid a \<and> \<not> is_valid b) \<or> (is_valid a = is_valid b \<and>
       (dpos_irreversible_blocknum a > dpos_irreversible_blocknum b \<or>
        (dpos_irreversible_blocknum a = dpos_irreversible_blocknum b \<and>
          (block_num a > block_num b \<or> (block_num a = block_num b \<and> sha256_less (bhs_id a) (bhs_id b))))))"

definition first_preferred :: "block_state \<Rightarrow> block_state \<Rightarrow> bool" where
  "first_preferred lhs rhs \<longleftrightarrow>
     dpos_irreversible_blocknum lhs > dpos_irreversible_blocknum rhs \<or>
     (dpos_irreversible_blocknum lhs = dpos_irreversible_blocknum rhs \<and> block_num lhs > block_num rhs)"

definition prev :: "block_state \<Rightarrow> block_id_type" where
  "prev b = hdr_previous (header b)"

type_synonym fork_index = "block_state list"

fun index_place :: "block_state \<Rightarrow> fork_index \<Rightarrow> fork_index" where
  "index_place n [] = [n]"
| "index_place n (b # idx) = (if by_lib_less n b then n # b # idx else b # index_place n idx)"

definition index_find :: "block_id_type \<Rightarrow> fork_index \<Rightarrow> block_state option" where
  "index_find i idx = List.find (\<lambda>b. bhs_id b = i) idx"

definition index_erase :: "block_id_type \<Rightarrow> fork_index \<Rightarrow> fork_index" where
  "index_erase i idx = filter (\<lambda>b. bhs_id b \<noteq> i) idx"

definition index_modify :: "(block_state \<Rightarrow> block_state) \<Rightarrow> block_id_type \<Rightarrow> fork_index \<Rightarrow> fork_index" where
  "index_modify f i idx =
     (case index_find i idx of None \<Rightarrow> idx | Some b \<Rightarrow> index_place (f b) (index_erase i idx))"

record fork_database =
  fdb_index :: fork_index
  fdb_root :: "block_state option"
  fdb_head :: "block_state option"

definition fork_database_init :: fork_database where
  "fork_database_init = \<lparr>fdb_index = [], fdb_root = None, fdb_head = None\<rparr>"

definition deref :: "'a option \<Rightarrow> 'a result" where
  "deref p = of_option undefined_behaviour p"

section \<open>Lookups\<close>

definition get_block :: "fork_database \<Rightarrow> block_id_type \<Rightarrow> block_state option" where
  "get_block db i = index_find i (fdb_index db)"

definition get_block_header :: "fork_database \<Rightarrow> block_id_type \<Rightarrow> block_state option result" where
  "get_block_header db i =
     bind_r (deref (fdb_root db)) (\<lambda>root.
       if bhs_id root = i then Inr (Some root) else Inr (get_block db i))"

definition pending_head :: "fork_database \<Rightarrow> block_state option result" where
  "pending_head db =
     (case List.find (\<lambda>b. \<not> is_valid b) (fdb_index db) of
        Some b \<Rightarrow> bind_r (deref (fdb_head db)) (\<lambda>head. if first_preferred b head then Inr (Some b) else Inr (fdb_head db))
      | None \<Rightarrow> Inr (fdb_head db))"

partial_function (option) fetch_branch_loop ::
    "fork_database \<Rightarrow> nat \<Rightarrow> block_state option \<Rightarrow> block_state list \<Rightarrow> block_state list option" where
  "fetch_branch_loop db trim_after_block_num s result =
     (case s of
        None \<Rightarrow> Some result
      | Some b \<Rightarrow> fetch_branch_loop db trim_after_block_num (get_block db (prev b))
                   (if block_num b \<le> trim_after_block_num then result @ [b] else result))"

definition fetch_branch :: "fork_database \<Rightarrow> block_id_type \<Rightarrow> nat \<Rightarrow> block_state list option" where
  "fetch_branch db h trim_after_block_num = fetch_branch_loop db trim_after_block_num (get_block db h) []"

partial_function (option) search_loop ::
    "fork_database \<Rightarrow> nat \<Rightarrow> block_state option \<Rightarrow> block_state option option" where
  "search_loop db n s =
     (case s of
        None \<Rightarrow> Some None
      | Some b \<Rightarrow> if block_num b = n then Some (Some b) else search_loop db n (get_block db (prev b)))"

definition search_on_branch :: "fork_database \<Rightarrow> block_id_type \<Rightarrow> nat \<Rightarrow> block_state option option" where
  "search_on_branch db h n = search_loop db n (get_block db h)"

text \<open>\<^verbatim>\<open>(id == my->root->id) ? my->root : get_block(id)\<close>, and the check that a block was found.\<close>

definition root_or_block :: "fork_database \<Rightarrow> block_state \<Rightarrow> block_id_type \<Rightarrow> block_state option" where
  "root_or_block db root i = (if i = bhs_id root then Some root else get_block db i)"

text \<open>A loop that goes down from one block while it is above another.\<close>

partial_function (option) descend_loop ::
    "fork_database \<Rightarrow> block_state \<Rightarrow> nat \<Rightarrow> block_state \<Rightarrow> block_state list \<Rightarrow> (block_state \<times> block_state list) result option" where
  "descend_loop db root n b result =
     (if block_num b > n
      then (case root_or_block db root (prev b) of
              None \<Rightarrow> Some (Inl fork_db_block_not_found)
            | Some p \<Rightarrow> descend_loop db root n p (result @ [b]))
      else Some (Inr (b, result)))"

text \<open>The loop that goes down from both blocks until they have the same predecessor.\<close>

partial_function (option) common_loop ::
    "fork_database \<Rightarrow> block_state \<Rightarrow> block_state list \<Rightarrow> block_state \<Rightarrow> block_state list
       \<Rightarrow> ((block_state \<times> block_state list) \<times> (block_state \<times> block_state list)) result option" where
  "common_loop db b1 result1 b2 result2 =
     (if prev b1 \<noteq> prev b2
      then (case get_block db (prev b1) of
              None \<Rightarrow> Some (Inl fork_db_block_not_found)
            | Some p1 \<Rightarrow>
                (case get_block db (prev b2) of
                   None \<Rightarrow> Some (Inl fork_db_block_not_found)
                 | Some p2 \<Rightarrow> common_loop db p1 (result1 @ [b1]) p2 (result2 @ [b2])))
      else Some (Inr ((b1, result1), (b2, result2))))"

text \<open>Sequencing of a loop that may not end or may throw with the rest of the function.\<close>

definition then_r :: "'a result option \<Rightarrow> ('a \<Rightarrow> 'b result option) \<Rightarrow> 'b result option" where
  "then_r m f = (case m of None \<Rightarrow> None | Some (Inl e) \<Rightarrow> Some (Inl e) | Some (Inr x) \<Rightarrow> f x)"

definition fetch_branch_from ::
    "fork_database \<Rightarrow> block_id_type \<Rightarrow> block_id_type \<Rightarrow> (block_state list \<times> block_state list) result option" where
  "fetch_branch_from db first second =
     then_r (Some (deref (fdb_root db))) (\<lambda>root.
     then_r (Some (of_option fork_db_block_not_found (root_or_block db root first))) (\<lambda>first_branch.
     then_r (Some (of_option fork_db_block_not_found (root_or_block db root second))) (\<lambda>second_branch.
     then_r (descend_loop db root (block_num second_branch) first_branch []) (\<lambda>(first_branch, result1).
     then_r (descend_loop db root (block_num first_branch) second_branch []) (\<lambda>(second_branch, result2).
       if bhs_id first_branch = bhs_id second_branch then Some (Inr (result1, result2))
       else then_r (common_loop db first_branch result1 second_branch result2) (\<lambda>((b1, result1), (b2, result2)).
              Some (Inr (result1 @ [b1], result2 @ [b2]))))))))"

section \<open>Updates\<close>

definition fdb_reset :: "block_header_state \<Rightarrow> fork_database" where
  "fdb_reset root_bhs =
     (let root = (make_block_state root_bhs None False [])\<lparr>validated := True\<rparr>
      in \<lparr>fdb_index = [], fdb_root = Some root, fdb_head = Some root\<rparr>)"

definition rollback_head_to_root :: "fork_database \<Rightarrow> fork_database" where
  "rollback_head_to_root db =
     db\<lparr>fdb_index := fold (index_modify (\<lambda>b. b\<lparr>validated := False\<rparr>)) (map bhs_id (fdb_index db)) (fdb_index db),
        fdb_head := fdb_root db\<rparr>"

text \<open>
  The feature activations of a block that is read back are checked against its predecessor. The
  handler around the check rethrows chain exceptions, which are what the validator throws, as they
  are.
\<close>

definition validate_added :: "feature_validator \<Rightarrow> block_state \<Rightarrow> block_state \<Rightarrow> unit result" where
  "validate_added validator n prev_bh =
     (let exts = header_exts n in
      if ext_count exts activation_extension_id > 0
      then bind_r (ext_lower_bound exts activation_extension_id) (\<lambda>e.
             case e of
               protocol_feature_activation new_protocol_features \<Rightarrow>
                 validator (hdr_timestamp (header n)) (activated_protocol_features prev_bh) new_protocol_features
             | producer_schedule_change_extension s \<Rightarrow> Inl undefined_behaviour)
      else Inr ())"

definition fdb_add_impl :: "fork_database \<Rightarrow> block_state \<Rightarrow> bool \<Rightarrow> bool \<Rightarrow> feature_validator \<Rightarrow> fork_database result" where
  "fdb_add_impl db n ignore_duplicate validate validator =
     bind_r (eos_assert (fdb_root db \<noteq> None) fork_database_exception) (\<lambda>_.
     bind_r (get_block_header db (prev n)) (\<lambda>found.
     bind_r (of_option unlinkable_block_exception found) (\<lambda>prev_bh.
     bind_r (if validate then validate_added validator n prev_bh else Inr ()) (\<lambda>_.
       if get_block db (bhs_id n) \<noteq> None
       then (if ignore_duplicate then Inr db else Inl fork_database_exception)
       else (let index = index_place n (fdb_index db);
                 candidate = hd index
             in Inr (if is_valid candidate then db\<lparr>fdb_index := index, fdb_head := Some candidate\<rparr>
                     else db\<lparr>fdb_index := index\<rparr>))))))"

definition fdb_add :: "fork_database \<Rightarrow> block_state \<Rightarrow> bool \<Rightarrow> fork_database result" where
  "fdb_add db n ignore_duplicate = fdb_add_impl db n ignore_duplicate False (\<lambda>_ _ _. Inr ())"

text \<open>
  \<^verbatim>\<open>remove\<close>: the queue grows by the children of each entry; the order among the children of one
  block, that of insertion into the non-unique index, has no effect on what is removed.
\<close>

partial_function (option) remove_queue_loop ::
    "fork_index \<Rightarrow> block_id_type \<Rightarrow> nat \<Rightarrow> block_id_type list \<Rightarrow> block_id_type list result option" where
  "remove_queue_loop idx head_id i queue =
     (if i < length queue
      then (if queue ! i = head_id then Some (Inl fork_database_exception)
            else remove_queue_loop idx head_id (i + 1) (queue @ map bhs_id (filter (\<lambda>b. prev b = queue ! i) idx)))
      else Some (Inr queue))"

definition fdb_remove :: "fork_database \<Rightarrow> block_id_type \<Rightarrow> fork_database result option" where
  "fdb_remove db i =
     then_r (Some (deref (fdb_head db))) (\<lambda>head.
     then_r (remove_queue_loop (fdb_index db) (bhs_id head) 0 [i]) (\<lambda>remove_queue.
       Some (Inr (db\<lparr>fdb_index := fold index_erase remove_queue (fdb_index db)\<rparr>))))"

partial_function (option) ancestors_loop ::
    "fork_database \<Rightarrow> block_id_type \<Rightarrow> block_state option \<Rightarrow> block_id_type list \<Rightarrow> block_id_type list result option" where
  "ancestors_loop db root_id b blocks_to_remove =
     (case b of
        None \<Rightarrow> Some (Inr blocks_to_remove)
      | Some b \<Rightarrow>
          (let p = get_block db (prev b)
           in if p \<noteq> None \<or> prev b = root_id
              then ancestors_loop db root_id p (blocks_to_remove @ [prev b])
              else Some (Inl fork_database_exception)))"

text \<open>
  The calls of \<^verbatim>\<open>remove\<close> and \<^verbatim>\<open>advance_root\<close> with the database they leave, also when they throw: the
  new root is erased before the first removal, and nothing is undone.
\<close>

fun remove_all_call :: "fork_database \<Rightarrow> block_id_type list \<Rightarrow> (fork_database \<times> unit result) option" where
  "remove_all_call db [] = Some (db, Inr ())"
| "remove_all_call db (i # is) =
     (case fdb_remove db i of
        None \<Rightarrow> None
      | Some (Inl e) \<Rightarrow> Some (db, Inl e)
      | Some (Inr db') \<Rightarrow> remove_all_call db' is)"

definition advance_root_call :: "fork_database \<Rightarrow> block_id_type \<Rightarrow> (fork_database \<times> unit result) option" where
  "advance_root_call db i =
     (case bind_r (eos_assert (fdb_root db \<noteq> None) fork_database_exception) (\<lambda>_.
           bind_r (of_option fork_database_exception (get_block db i)) (\<lambda>new_root.
           bind_r (eos_assert (is_valid new_root) fork_database_exception) (\<lambda>_.
           bind_r (deref (fdb_root db)) (\<lambda>root. Inr (new_root, root))))) of
        Inl e \<Rightarrow> Some (db, Inl e)
      | Inr (new_root, root) \<Rightarrow>
          (case ancestors_loop db (bhs_id root) (Some new_root) [] of
             None \<Rightarrow> None
           | Some (Inl e) \<Rightarrow> Some (db, Inl e)
           | Some (Inr blocks_to_remove) \<Rightarrow>
               (case remove_all_call (db\<lparr>fdb_index := index_erase i (fdb_index db)\<rparr>) blocks_to_remove of
                  None \<Rightarrow> None
                | Some (db', Inl e) \<Rightarrow> Some (db', Inl e)
                | Some (db', Inr _) \<Rightarrow> Some (db'\<lparr>fdb_root := Some new_root\<rparr>, Inr ()))))"

definition advance_root :: "fork_database \<Rightarrow> block_id_type \<Rightarrow> fork_database result option" where
  "advance_root db i =
     map_option (\<lambda>(db', r). case r of Inl e \<Rightarrow> Inl e | Inr _ \<Rightarrow> Inr db') (advance_root_call db i)"

definition mark_valid :: "fork_database \<Rightarrow> block_state \<Rightarrow> fork_database result" where
  "mark_valid db h =
     (if validated h then Inr db
      else bind_r (eos_assert (index_find (bhs_id h) (fdb_index db) \<noteq> None) fork_database_exception) (\<lambda>_.
        (let index = index_modify (\<lambda>b. b\<lparr>validated := True\<rparr>) (bhs_id h) (fdb_index db);
             head = map_option (\<lambda>b. if bhs_id b = bhs_id h then b\<lparr>validated := True\<rparr> else b) (fdb_head db);
             candidate = hd index
         in bind_r (deref head) (\<lambda>hb.
              Inr (db\<lparr>fdb_index := index, fdb_head := (if first_preferred candidate hb then Some candidate else head)\<rparr>)))))"

section \<open>The file\<close>

text \<open>
  The file is the sequence of values written: the members of a block state that are reflected
  are all but the extracted extensions and the cached transactions.
\<close>

record fork_db_file =
  file_totem :: nat
  file_version :: nat
  file_root :: block_header_state
  file_blocks :: "block_state list"
  file_head :: "block_id_type option"

definition magic_number :: nat where
  "magic_number = 0x30510FDB"

definition min_supported_version :: nat where
  "min_supported_version = 1"

definition max_supported_version :: nat where
  "max_supported_version = 1"

definition stored_header :: "block_header_state \<Rightarrow> block_header_state" where
  "stored_header s = s\<lparr>header_exts := []\<rparr>"

definition stored_block :: "block_state \<Rightarrow> block_state" where
  "stored_block b = b\<lparr>header_exts := [], pub_keys_recovered := False, cached_trxs := []\<rparr>"

text \<open>The loop that writes the blocks: at each turn the less preferred of the two next ones.\<close>

fun close_merge :: "block_state list \<Rightarrow> block_state list \<Rightarrow> block_state list" where
  "close_merge (u # us) (v # vs) =
     (if first_preferred v u then u # close_merge us (v # vs) else v # close_merge (u # us) vs)"
| "close_merge us [] = us"
| "close_merge [] vs = vs"

definition fdb_close :: "fork_database \<Rightarrow> fork_db_file option \<times> fork_database" where
  "fdb_close db =
     (case fdb_root db of
        None \<Rightarrow> (None, db)
      | Some root \<Rightarrow>
          (let unvalidated = rev (dropWhile is_valid (fdb_index db));
               valid_ones = rev (takeWhile is_valid (fdb_index db))
           in (Some \<lparr>file_totem = magic_number, file_version = max_supported_version,
                     file_root = stored_header (block_header_state.truncate root),
                     file_blocks = map stored_block (close_merge unvalidated valid_ones),
                     file_head = map_option bhs_id (fdb_head db)\<rparr>,
               db\<lparr>fdb_index := []\<rparr>)))"

definition open_block :: "fc_env \<Rightarrow> feature_validator \<Rightarrow> block_state \<Rightarrow> fork_database \<Rightarrow> fork_database result" where
  "open_block env validator s db =
     bind_r (deref (bs_block s)) (\<lambda>b.
     bind_r (validate_and_extract_header_extensions env b) (\<lambda>exts.
       fdb_add_impl db (s\<lparr>header_exts := exts\<rparr>) False True validator))"

text \<open>Opening without a file leaves the database as it was; with one it is rebuilt and the file removed.\<close>

definition fdb_open :: "fc_env \<Rightarrow> feature_validator \<Rightarrow> fork_db_file option \<Rightarrow> fork_database \<Rightarrow> fork_database result" where
  "fdb_open env validator file db =
     (case file of
        None \<Rightarrow> Inr db
      | Some f \<Rightarrow>
          bind_r (eos_assert (file_totem f = magic_number) fork_database_exception) (\<lambda>_.
          bind_r (eos_assert (file_version f \<ge> min_supported_version \<and> file_version f \<le> max_supported_version)
                    fork_database_exception) (\<lambda>_.
          bind_r (fold_r (open_block env validator) (file_blocks f) (fdb_reset (file_root f))) (\<lambda>db.
          bind_r (of_option parse_error_exception (file_head f)) (\<lambda>head_id.
          bind_r (deref (fdb_root db)) (\<lambda>root.
          bind_r (if bhs_id root = head_id then Inr root
                  else of_option fork_database_exception (get_block db head_id)) (\<lambda>head.
            (let none_better = (case fdb_index db of [] \<Rightarrow> True | candidate # _ \<Rightarrow> \<not> is_valid candidate) in
             bind_r (if none_better then eos_assert (bhs_id head = bhs_id root) fork_database_exception
                     else eos_assert (\<not> first_preferred (hd (fdb_index db)) head) fork_database_exception) (\<lambda>_.
               Inr (db\<lparr>fdb_head := Some head\<rparr>))))))))))"

section \<open>The order of the container\<close>

text \<open>The composite key as a tuple in the lexicographic order.\<close>

definition lib_key :: "block_state \<Rightarrow> nat \<times> int \<times> int \<times> u64 \<times> u64 \<times> u64 \<times> u64" where
  "lib_key b = (if is_valid b then 0 else 1, - int (dpos_irreversible_blocknum b), - int (block_num b),
     dg0 (bhs_id b), dg1 (bhs_id b), dg2 (bhs_id b), dg3 (bhs_id b))"

lemma by_lib_less_key: "by_lib_less a b \<longleftrightarrow> lib_key a < lib_key b"
  by (simp add: by_lib_less_def lib_key_def sha256_less_def le_less) blast

lemma lib_key_id: "lib_key a = lib_key b \<Longrightarrow> bhs_id a = bhs_id b"
  by (simp add: lib_key_def)

definition index_sorted :: "fork_index \<Rightarrow> bool" where
  "index_sorted idx \<longleftrightarrow> sorted_wrt by_lib_less idx"

definition index_ids :: "fork_index \<Rightarrow> block_id_type set" where
  "index_ids idx = bhs_id ` set idx"

lemma set_index_place [simp]: "set (index_place n idx) = insert n (set idx)"
  by (induction idx) auto

lemma index_ids_simps [simp]:
  "index_ids [] = {}" "index_ids (b # idx) = insert (bhs_id b) (index_ids idx)"
  "index_ids (index_place n idx) = insert (bhs_id n) (index_ids idx)"
  "index_ids (index_erase i idx) = index_ids idx - {i}"
  by (auto simp: index_ids_def index_erase_def)

lemma index_place_not_Nil [simp]: "index_place n idx \<noteq> []"
  by (induction idx) auto

lemma index_sorted_place: "index_sorted idx \<Longrightarrow> bhs_id n \<notin> index_ids idx \<Longrightarrow> index_sorted (index_place n idx)"
proof (induction idx)
  case (Cons b idx)
  have "by_lib_less b n" if "\<not> by_lib_less n b"
    using that Cons.prems(2) lib_key_id [of n b] by (auto simp: by_lib_less_key not_less le_less)
  moreover have "by_lib_less n x" if "by_lib_less n b" "by_lib_less b x" for x
    using that by (auto simp: by_lib_less_key)
  ultimately show ?case
    using Cons by (auto simp: index_sorted_def)
qed (simp add: index_sorted_def)

lemma index_sorted_erase: "index_sorted idx \<Longrightarrow> index_sorted (index_erase i idx)"
  by (simp add: index_sorted_def index_erase_def sorted_wrt_filter)

lemma index_sorted_filter: "index_sorted idx \<Longrightarrow> index_sorted (filter P idx)"
  by (simp add: index_sorted_def sorted_wrt_filter)

lemma index_find_Some_iff:
  "distinct (map bhs_id idx) \<Longrightarrow> index_find i idx = Some b \<longleftrightarrow> b \<in> set idx \<and> bhs_id b = i"
  unfolding index_find_def by (induction idx) (auto simp: image_iff)

lemma index_find_None_iff: "index_find i idx = None \<longleftrightarrow> i \<notin> index_ids idx"
  by (auto simp: index_find_def index_ids_def find_None_iff)

lemma index_findD: "index_find i idx = Some b \<Longrightarrow> b \<in> set idx \<and> bhs_id b = i"
  unfolding index_find_def by (auto simp: find_Some_iff)

lemma distinct_index_place: "distinct (map bhs_id (index_place n idx)) \<longleftrightarrow> bhs_id n \<notin> index_ids idx \<and> distinct (map bhs_id idx)"
  by (induction idx) (auto simp: index_ids_def image_iff)

lemma distinct_index_erase: "distinct (map bhs_id idx) \<Longrightarrow> distinct (map bhs_id (index_erase i idx))"
  by (simp add: index_erase_def distinct_map_filter)

text \<open>The first element is valid as soon as one is, and no valid one is preferred to it.\<close>

lemma index_sorted_hd:
  assumes "index_sorted idx" "b \<in> set idx" "is_valid b"
  shows "is_valid (hd idx) \<and> \<not> first_preferred b (hd idx)"
proof (cases idx)
  case (Cons c rest)
  have "b = c \<or> by_lib_less c b"
    using assms by (auto simp: Cons index_sorted_def)
  then show ?thesis
    using assms(3) by (auto simp: Cons by_lib_less_def first_preferred_def)
qed (use assms in simp)

section \<open>Well-formed databases\<close>

text \<open>
  Blocks are linked: every block has its predecessor, with the number before its own, among the
  blocks or as the root. The head is a valid block that no valid block is preferred to.
\<close>

definition links :: "block_state \<Rightarrow> block_state \<Rightarrow> bool" where
  "links b p \<longleftrightarrow> prev b = bhs_id p \<and> block_num b = block_num p + 1"

definition fdb_wf :: "fork_database \<Rightarrow> bool" where
  "fdb_wf db \<longleftrightarrow>
     (\<exists>r h. fdb_root db = Some r \<and> fdb_head db = Some h \<and> is_valid r
        \<and> index_sorted (fdb_index db) \<and> distinct (map bhs_id (fdb_index db)) \<and> bhs_id r \<notin> index_ids (fdb_index db)
        \<and> (\<forall>b\<in>set (fdb_index db). \<exists>p\<in>insert r (set (fdb_index db)). links b p)
        \<and> h \<in> insert r (set (fdb_index db)) \<and> is_valid h \<and> (\<forall>b\<in>set (fdb_index db). is_valid b \<longrightarrow> \<not> first_preferred b h))"

text \<open>What the loops need of the container, also while blocks are being taken out of it.\<close>

definition forest :: "fork_index \<Rightarrow> bool" where
  "forest idx \<longleftrightarrow> distinct (map bhs_id idx) \<and> (\<forall>b\<in>set idx. \<forall>p\<in>set idx. prev b = bhs_id p \<longrightarrow> block_num b = block_num p + 1)"

lemma index_id_unique: "distinct (map bhs_id idx) \<Longrightarrow> b \<in> set idx \<Longrightarrow> c \<in> set idx \<Longrightarrow> bhs_id b = bhs_id c \<Longrightarrow> b = c"
  for idx :: fork_index
  unfolding distinct_map inj_on_def by blast

lemma forest_id: "forest idx \<Longrightarrow> b \<in> set idx \<Longrightarrow> c \<in> set idx \<Longrightarrow> bhs_id b = bhs_id c \<Longrightarrow> b = c"
  unfolding forest_def using index_id_unique by blast

lemma forest_filter: "forest idx \<Longrightarrow> forest (filter P idx)"
  by (auto simp: forest_def distinct_map_filter)

lemma forest_erase: "forest idx \<Longrightarrow> forest (index_erase i idx)"
  by (simp add: index_erase_def forest_filter)

lemma fdb_wfE:
  assumes "fdb_wf db"
  obtains r h where "fdb_root db = Some r" "fdb_head db = Some h" "is_valid r"
    "index_sorted (fdb_index db)" "distinct (map bhs_id (fdb_index db))" "bhs_id r \<notin> index_ids (fdb_index db)"
    "\<And>b. b \<in> set (fdb_index db) \<Longrightarrow> \<exists>p\<in>insert r (set (fdb_index db)). links b p"
    "h \<in> insert r (set (fdb_index db))" "is_valid h" "\<And>b. b \<in> set (fdb_index db) \<Longrightarrow> is_valid b \<Longrightarrow> \<not> first_preferred b h"
  using assms unfolding fdb_wf_def by blast

section \<open>Removal of branches\<close>

text \<open>A block and the blocks built on it.\<close>

inductive descends :: "fork_index \<Rightarrow> block_id_type \<Rightarrow> block_id_type \<Rightarrow> bool" for idx i where
  self: "descends idx i i"
| child: "descends idx i (prev b) \<Longrightarrow> b \<in> set idx \<Longrightarrow> descends idx i (bhs_id b)"

lemma descends_num:
  assumes "forest idx" "descends idx i j" "c \<in> set idx" "bhs_id c = i"
  shows "\<exists>b\<in>set idx. bhs_id b = j \<and> block_num c \<le> block_num b"
  using assms(2)
proof induction
  case self
  then show ?case
    using assms(3,4) by blast
next
  case (child b)
  then obtain p where "p \<in> set idx" "bhs_id p = prev b" "block_num c \<le> block_num p"
    by blast
  then have "block_num b = block_num p + 1"
    using assms(1) child(2) unfolding forest_def by metis
  then show ?case
    using child(2) \<open>block_num c \<le> block_num p\<close> by (intro bexI [of _ b]) auto
qed

text \<open>The state of the queue: the entries before \<open>n\<close> have had their children appended.\<close>

definition queue_inv :: "fork_index \<Rightarrow> block_id_type \<Rightarrow> block_id_type \<Rightarrow> nat \<Rightarrow> block_id_type list \<Rightarrow> bool" where
  "queue_inv idx i head_id n q \<longleftrightarrow>
     distinct q \<and> n \<le> length q \<and> q \<noteq> [] \<and> q ! 0 = i \<and> (\<forall>j\<in>set q. descends idx i j) \<and>
     (\<forall>j\<in>set (tl q). \<exists>b\<in>set idx. bhs_id b = j \<and> prev b \<in> set (take n q)) \<and>
     (\<forall>b\<in>set idx. prev b \<in> set (take n q) \<longrightarrow> bhs_id b \<in> set q) \<and> head_id \<notin> set (take n q)"

lemma queue_inv_init: "queue_inv idx i head_id 0 [i]"
  by (auto simp: queue_inv_def intro: descends.self)

lemma queue_children_new:
  assumes f: "forest idx" and inv: "queue_inv idx i head_id n q" and n: "n < length q" and c: "c \<in> set idx" "prev c = q ! n"
  shows "bhs_id c \<notin> set q"
proof
  assume "bhs_id c \<in> set q"
  then have "bhs_id c = i \<or> bhs_id c \<in> set (tl q)"
    using inv by (cases q) (auto simp: queue_inv_def)
  then show False
  proof
    assume i: "bhs_id c = i"
    have "descends idx i (q ! n)"
      using inv n by (simp add: queue_inv_def)
    then obtain p where "p \<in> set idx" "bhs_id p = q ! n" "block_num c \<le> block_num p"
      using descends_num [OF f _ c(1) i] by blast
    then show False
      using f c unfolding forest_def by fastforce
  next
    assume "bhs_id c \<in> set (tl q)"
    then obtain b where b: "b \<in> set idx" "bhs_id b = bhs_id c" "prev b \<in> set (take n q)"
      using inv unfolding queue_inv_def by blast
    then have "q ! n \<in> set (take n q)"
      using forest_id [OF f b(1) c(1) b(2)] c(2) by simp
    moreover have "distinct q"
      using inv by (simp add: queue_inv_def)
    ultimately show False
      using n by (auto simp: in_set_conv_nth nth_eq_iff_index_eq)
  qed
qed

lemma queue_inv_step:
  assumes f: "forest idx" and inv: "queue_inv idx i head_id n q" and n: "n < length q" "q ! n \<noteq> head_id"
  shows "queue_inv idx i head_id (n + 1) (q @ map bhs_id (filter (\<lambda>b. prev b = q ! n) idx))"
proof -
  let ?cs = "filter (\<lambda>b. prev b = q ! n) idx"
  have take: "take (n + 1) (q @ map bhs_id ?cs) = take n q @ [q ! n]"
    using n(1) by (simp add: take_Suc_conv_app_nth)
  have tl: "tl (q @ map bhs_id ?cs) = tl q @ map bhs_id ?cs"
    using inv by (simp add: queue_inv_def)
  have "distinct (map bhs_id ?cs)"
    using f by (simp add: forest_def distinct_map_filter)
  moreover have "set q \<inter> bhs_id ` set ?cs = {}"
    using queue_children_new [OF f inv n(1)] by auto
  ultimately have "distinct (q @ map bhs_id ?cs)"
    using inv by (simp add: queue_inv_def)
  moreover have "descends idx i (q ! n)"
    using inv n(1) by (simp add: queue_inv_def)
  ultimately show ?thesis
    using inv n unfolding queue_inv_def take tl by (auto simp: nth_append intro: descends.child)
qed

lemma queue_inv_length: "queue_inv idx i head_id n q \<Longrightarrow> length q \<le> length idx + 1"
proof -
  assume inv: "queue_inv idx i head_id n q"
  then have "set (tl q) \<subseteq> bhs_id ` set idx" "distinct (tl q)"
    by (auto simp: queue_inv_def distinct_tl)
  then have "length (tl q) \<le> card (bhs_id ` set idx)"
    by (metis card_mono distinct_card finite_imageI finite_set)
  also have "\<dots> \<le> length idx"
    by (metis card_image_le card_length finite_set le_trans)
  finally show ?thesis
    by simp
qed

text \<open>The queue ends with the descendants, or at the head when that is one of them.\<close>

lemma remove_queue_loop_result:
  assumes f: "forest idx" and inv: "queue_inv idx i head_id n q"
  shows "\<exists>q'. remove_queue_loop idx head_id n q =
      Some (if descends idx i head_id then Inl fork_database_exception else Inr q') \<and> (\<not> descends idx i head_id \<longrightarrow> set q' = {j. descends idx i j})"
  using inv
proof (induction "length idx + 1 - n" arbitrary: n q rule: less_induct)
  case less
  show ?case
  proof (cases "n < length q")
    case False
    then have all: "take n q = q"
      by simp
    have sub: "j \<in> set q" if "descends idx i j" for j
      using that
    proof induction
      case self
      then show ?case
        using less.prems by (cases q) (auto simp: queue_inv_def)
    next
      case (child b)
      then show ?case
        using less.prems unfolding queue_inv_def all by blast
    qed
    have "\<not> descends idx i head_id"
      using sub less.prems unfolding queue_inv_def all by blast
    moreover have "set q = {j. descends idx i j}"
      using sub less.prems unfolding queue_inv_def by blast
    ultimately show ?thesis
      using False by (subst remove_queue_loop.simps) auto
  next
    case True
    show ?thesis
    proof (cases "q ! n = head_id")
      case h: True
      have "descends idx i head_id"
        using less.prems True h unfolding queue_inv_def by (metis nth_mem)
      then show ?thesis
        using True h by (subst remove_queue_loop.simps) auto
    next
      case h: False
      let ?q = "q @ map bhs_id (filter (\<lambda>b. prev b = q ! n) idx)"
      have "queue_inv idx i head_id (n + 1) ?q"
        by (rule queue_inv_step [OF f less.prems True h])
      moreover have "length idx + 1 - (n + 1) < length idx + 1 - n"
        using True queue_inv_length [OF less.prems] by linarith
      ultimately show ?thesis
        using less.hyps [of "n + 1" ?q] True h by (subst remove_queue_loop.simps) simp
    qed
  qed
qed

lemma fold_index_erase: "fold index_erase q idx = filter (\<lambda>b. bhs_id b \<notin> set q) idx"
  by (induction q arbitrary: idx) (auto simp: index_erase_def intro: filter_cong)

lemma then_r_simps [simp]:
  "then_r None f = None" "then_r (Some (Inl e)) f = Some (Inl e)" "then_r (Some (Inr x)) f = f x"
  by (simp_all add: then_r_def)

lemma fdb_remove_forest:
  assumes "forest (fdb_index db)" "fdb_head db = Some h"
  shows "fdb_remove db i = Some (if descends (fdb_index db) i (bhs_id h) then Inl fork_database_exception
     else Inr (db\<lparr>fdb_index := filter (\<lambda>b. \<not> descends (fdb_index db) i (bhs_id b)) (fdb_index db)\<rparr>))"
proof -
  obtain q where q: "remove_queue_loop (fdb_index db) (bhs_id h) 0 [i] =
      Some (if descends (fdb_index db) i (bhs_id h) then Inl fork_database_exception else Inr q)"
      "\<not> descends (fdb_index db) i (bhs_id h) \<longrightarrow> set q = {j. descends (fdb_index db) i j}"
    using remove_queue_loop_result [OF assms(1) queue_inv_init] by blast
  show ?thesis
    using q by (simp add: fdb_remove_def deref_def assms(2) fold_index_erase)
qed

section \<open>Branches\<close>

text \<open>The blocks met on the way from an identifier down to, and without, another.\<close>

fun chain_to :: "fork_index \<Rightarrow> block_id_type \<Rightarrow> block_state list \<Rightarrow> block_id_type \<Rightarrow> bool" where
  "chain_to idx i [] a \<longleftrightarrow> i = a"
| "chain_to idx i (b # bs) a \<longleftrightarrow> b \<in> set idx \<and> bhs_id b = i \<and> chain_to idx (prev b) bs a"

lemma chain_to_append: "chain_to idx i (bs @ cs) a \<longleftrightarrow> (\<exists>m. chain_to idx i bs m \<and> chain_to idx m cs a)"
  by (induction bs arbitrary: i) auto

lemma chain_to_det:
  "distinct (map bhs_id idx) \<Longrightarrow> chain_to idx i bs a \<Longrightarrow> chain_to idx i cs c \<Longrightarrow> length bs = length cs \<Longrightarrow> bs = cs"
proof (induction bs arbitrary: i cs)
  case (Cons b bs)
  then obtain d ds where cs: "cs = d # ds" "d \<in> set idx" "bhs_id d = i" "chain_to idx (prev d) ds c"
    by (cases cs) auto
  moreover have "d = b"
    using index_id_unique [OF Cons.prems(1), of d b] Cons.prems(2) cs by auto
  ultimately show ?case
    using Cons by auto
qed simp

text \<open>A well-formed database seen through its root.\<close>

definition rooted :: "fork_index \<Rightarrow> block_state \<Rightarrow> bool" where
  "rooted idx r \<longleftrightarrow> distinct (map bhs_id idx) \<and> bhs_id r \<notin> index_ids idx \<and> (\<forall>b\<in>set idx. \<exists>p\<in>insert r (set idx). links b p)"

lemma wf_rooted: "fdb_wf db \<Longrightarrow> fdb_root db = Some r \<Longrightarrow> rooted (fdb_index db) r"
  unfolding fdb_wf_def rooted_def by auto

lemma rooted_id: "rooted idx r \<Longrightarrow> b \<in> insert r (set idx) \<Longrightarrow> c \<in> insert r (set idx) \<Longrightarrow> bhs_id b = bhs_id c \<Longrightarrow> b = c"
proof -
  assume a: "rooted idx r" "b \<in> insert r (set idx)" "c \<in> insert r (set idx)" "bhs_id b = bhs_id c"
  have "x \<in> set idx \<Longrightarrow> bhs_id x \<noteq> bhs_id r" for x
    using a(1) unfolding rooted_def index_ids_def by (metis imageI)
  then show "b = c"
    using a index_id_unique [of idx b c] unfolding rooted_def by (metis insertE)
qed

lemma rooted_parent:
  assumes "rooted idx r" "b \<in> set idx"
  obtains p where "p \<in> insert r (set idx)" "bhs_id p = prev b" "block_num b = block_num p + 1"
  using assms unfolding rooted_def links_def by metis

lemma rooted_num: "rooted idx r \<Longrightarrow> b \<in> set idx \<Longrightarrow> block_num r < block_num b"
proof (induction "block_num b" arbitrary: b rule: less_induct)
  case less
  obtain p where "p \<in> insert r (set idx)" "block_num b = block_num p + 1"
    by (rule rooted_parent [OF less.prems]) (rule that)
  then show ?case
    using less by (cases "p = r") force+
qed

lemma root_or_block_iff:
  assumes "rooted (fdb_index db) r"
  shows "root_or_block db r i = Some b \<longleftrightarrow> b \<in> insert r (set (fdb_index db)) \<and> bhs_id b = i"
proof -
  have "index_find i (fdb_index db) = Some b \<longleftrightarrow> b \<in> set (fdb_index db) \<and> bhs_id b = i"
    using assms by (intro index_find_Some_iff) (simp add: rooted_def)
  moreover have "b \<in> set (fdb_index db) \<Longrightarrow> bhs_id b \<noteq> bhs_id r"
    using assms unfolding rooted_def index_ids_def by (metis imageI)
  ultimately show ?thesis
    by (auto simp: root_or_block_def get_block_def)
qed

lemma chain_num:
  assumes "rooted idx r" "chain_to idx (bhs_id b) bs (bhs_id a)" "a \<in> insert r (set idx)" "b \<in> insert r (set idx)"
  shows "block_num b = block_num a + length bs"
  using assms(2,4)
proof (induction bs arbitrary: b)
  case Nil
  then show ?case
    using rooted_id [OF assms(1), of b a] assms(3) by simp
next
  case (Cons c bs)
  then have "c = b" "b \<in> set idx"
    using rooted_id [OF assms(1), of c b] by auto
  then obtain p where p: "p \<in> insert r (set idx)" "bhs_id p = prev b" "block_num b = block_num p + 1"
    using rooted_parent [OF assms(1)] by metis
  then show ?case
    using Cons.IH [of p] Cons.prems \<open>c = b\<close> by simp
qed

lemma chain_to_root:
  assumes "rooted idx r" "b \<in> insert r (set idx)"
  shows "\<exists>bs. chain_to idx (bhs_id b) bs (bhs_id r)"
  using assms(2)
proof (induction "block_num b" arbitrary: b rule: less_induct)
  case less
  show ?case
  proof (cases "b = r")
    case True
    then show ?thesis
      by (intro exI [of _ "[]"]) simp
  next
    case False
    then have b: "b \<in> set idx"
      using less.prems by simp
    obtain p where p: "p \<in> insert r (set idx)" "bhs_id p = prev b" "block_num b = block_num p + 1"
      by (rule rooted_parent [OF assms(1) b])
    then obtain bs where "chain_to idx (bhs_id p) bs (bhs_id r)"
      using less.hyps [of p] by auto
    then show ?thesis
      using b p(2) by (intro exI [of _ "b # bs"]) simp
  qed
qed

text \<open>Branches that end at the same block without a common child of it have no common block.\<close>

lemma chains_disjoint:
  assumes r: "rooted idx r" and a: "a \<in> insert r (set idx)"
    and c: "chain_to idx i bs (bhs_id a)" "chain_to idx j cs (bhs_id a)" and ne: "bs \<noteq> [] \<Longrightarrow> cs \<noteq> [] \<Longrightarrow> last bs \<noteq> last cs"
  shows "set bs \<inter> set cs = {}"
proof (rule ccontr)
  assume "set bs \<inter> set cs \<noteq> {}"
  then obtain x where x: "x \<in> set bs" "x \<in> set cs"
    by auto
  obtain us vs where bs: "bs = us @ x # vs"
    using split_list [OF x(1)] by blast
  obtain us' vs' where cs: "cs = us' @ x # vs'"
    using split_list [OF x(2)] by blast
  have xv: "chain_to idx (bhs_id x) (x # vs) (bhs_id a)" "chain_to idx (bhs_id x) (x # vs') (bhs_id a)" "x \<in> set idx"
    using c unfolding bs cs chain_to_append by auto
  then have "length (x # vs) = length (x # vs')"
    using chain_num [OF r xv(1) a] chain_num [OF r xv(2) a] by simp
  then have "x # vs = x # vs'"
    using chain_to_det xv(1,2) r unfolding rooted_def by blast
  then show False
    using ne by (auto simp: bs cs)
qed

section \<open>The loops end\<close>

lemma get_block_in: "distinct (map bhs_id (fdb_index db)) \<Longrightarrow> b \<in> set (fdb_index db) \<Longrightarrow> get_block db (bhs_id b) = Some b"
  by (simp add: get_block_def index_find_Some_iff)

lemma fetch_branch_loop_chain:
  assumes "distinct (map bhs_id (fdb_index db))" "get_block db a = None"
  shows "chain_to (fdb_index db) i bs a \<Longrightarrow>
    fetch_branch_loop db n (get_block db i) res = Some (res @ filter (\<lambda>b. block_num b \<le> n) bs)"
proof (induction bs arbitrary: i res)
  case Nil
  then show ?case
    using assms(2) by (subst fetch_branch_loop.simps) simp
next
  case (Cons b bs)
  then have "get_block db i = Some b"
    using get_block_in [OF assms(1)] by auto
  then show ?case
    using Cons by (subst fetch_branch_loop.simps) simp
qed

lemma search_loop_chain:
  assumes "distinct (map bhs_id (fdb_index db))" "get_block db a = None"
  shows "chain_to (fdb_index db) i bs a \<Longrightarrow> search_loop db n (get_block db i) = Some (List.find (\<lambda>b. block_num b = n) bs)"
proof (induction bs arbitrary: i)
  case Nil
  then show ?case
    using assms(2) by (subst search_loop.simps) simp
next
  case (Cons b bs)
  then have "get_block db i = Some b"
    using get_block_in [OF assms(1)] by auto
  then show ?case
    using Cons by (subst search_loop.simps) simp
qed

lemma descend_loop_chain:
  assumes r: "rooted (fdb_index db) r" and n: "block_num r \<le> n"
  shows "b \<in> insert r (set (fdb_index db)) \<Longrightarrow>
    \<exists>b' bs. descend_loop db r n b res = Some (Inr (b', res @ bs)) \<and> chain_to (fdb_index db) (bhs_id b) bs (bhs_id b')
      \<and> b' \<in> insert r (set (fdb_index db)) \<and> block_num b' = min (block_num b) n"
proof (induction "block_num b" arbitrary: b res rule: less_induct)
  case less
  show ?case
  proof (cases "block_num b > n")
    case False
    then show ?thesis
      using less.prems by (intro exI [of _ b] exI [of _ "[]"]) (subst descend_loop.simps, auto)
  next
    case True
    then have b: "b \<in> set (fdb_index db)"
      using less.prems n by auto
    obtain p where p: "p \<in> insert r (set (fdb_index db))" "bhs_id p = prev b" "block_num b = block_num p + 1"
      by (rule rooted_parent [OF r b])
    then have f: "root_or_block db r (prev b) = Some p"
      using root_or_block_iff [OF r] by blast
    obtain b' bs where ih: "descend_loop db r n p (res @ [b]) = Some (Inr (b', (res @ [b]) @ bs))"
      "chain_to (fdb_index db) (bhs_id p) bs (bhs_id b')" "b' \<in> insert r (set (fdb_index db))" "block_num b' = min (block_num p) n"
      using less.hyps [of p "res @ [b]"] p by auto
    have "descend_loop db r n b res = Some (Inr (b', res @ b # bs))"
      using True f ih(1) by (subst descend_loop.simps) simp
    moreover have "chain_to (fdb_index db) (bhs_id b) (b # bs) (bhs_id b')"
      using b p(2) ih(2) by simp
    moreover have "block_num b' = min (block_num b) n"
      using ih(4) p(3) True by simp
    ultimately show ?thesis
      using ih(3) by blast
  qed
qed

lemma common_loop_chain:
  assumes r: "rooted (fdb_index db) r"
  shows "b1 \<in> set (fdb_index db) \<Longrightarrow> b2 \<in> set (fdb_index db) \<Longrightarrow> block_num b1 = block_num b2 \<Longrightarrow> b1 \<noteq> b2 \<Longrightarrow>
    \<exists>c1 c2 bs1 bs2 a. common_loop db b1 res1 b2 res2 = Some (Inr ((c1, res1 @ bs1), (c2, res2 @ bs2)))
      \<and> chain_to (fdb_index db) (bhs_id b1) (bs1 @ [c1]) (bhs_id a) \<and> chain_to (fdb_index db) (bhs_id b2) (bs2 @ [c2]) (bhs_id a)
      \<and> a \<in> insert r (set (fdb_index db)) \<and> c1 \<noteq> c2"
proof (induction "block_num b1" arbitrary: b1 b2 res1 res2 rule: less_induct)
  case less
  obtain p1 where p1: "p1 \<in> insert r (set (fdb_index db))" "bhs_id p1 = prev b1" "block_num b1 = block_num p1 + 1"
    by (rule rooted_parent [OF r less.prems(1)])
  obtain p2 where p2: "p2 \<in> insert r (set (fdb_index db))" "bhs_id p2 = prev b2" "block_num b2 = block_num p2 + 1"
    by (rule rooted_parent [OF r less.prems(2)])
  show ?case
  proof (cases "prev b1 = prev b2")
    case True
    then show ?thesis
      using less.prems p1
      by (intro exI [of _ b1] exI [of _ b2] exI [of _ "[]"] exI [of _ p1]) (subst common_loop.simps, simp)
  next
    case False
    have ne: "p1 \<noteq> p2"
      using False p1(2) p2(2) by auto
    have in12: "p1 \<in> set (fdb_index db)" "p2 \<in> set (fdb_index db)"
      using p1 p2 ne less.prems(3) rooted_num [OF r, of p1] rooted_num [OF r, of p2] by auto
    have d: "distinct (map bhs_id (fdb_index db))"
      using r by (simp add: rooted_def)
    have g: "get_block db (prev b1) = Some p1" "get_block db (prev b2) = Some p2"
      using get_block_in [OF d in12(1)] get_block_in [OF d in12(2)] p1(2) p2(2) by simp_all
    obtain c1 c2 bs1 bs2 a where ih: "common_loop db p1 (res1 @ [b1]) p2 (res2 @ [b2]) = Some (Inr ((c1, (res1 @ [b1]) @ bs1), (c2, (res2 @ [b2]) @ bs2)))"
      "chain_to (fdb_index db) (bhs_id p1) (bs1 @ [c1]) (bhs_id a)" "chain_to (fdb_index db) (bhs_id p2) (bs2 @ [c2]) (bhs_id a)"
      "a \<in> insert r (set (fdb_index db))" "c1 \<noteq> c2"
      using less.hyps [of p1 p2 "res1 @ [b1]" "res2 @ [b2]"] in12 ne p1(3) p2(3) less.prems(3) by auto
    have "common_loop db b1 res1 b2 res2 = Some (Inr ((c1, res1 @ b1 # bs1), (c2, res2 @ b2 # bs2)))"
      using False g ih(1) by (subst common_loop.simps) simp
    moreover have "chain_to (fdb_index db) (bhs_id b1) ((b1 # bs1) @ [c1]) (bhs_id a)" "chain_to (fdb_index db) (bhs_id b2) ((b2 # bs2) @ [c2]) (bhs_id a)"
      using less.prems ih(2,3) p1(2) p2(2) by simp_all
    ultimately show ?thesis
      using ih(4,5) by blast
  qed
qed

text \<open>
  C20. On a well-formed fork database the walks along a branch end and return what they should:
  the branch of a block is the unique chain of blocks from it down to, and without, the root,
  numbered one by one; \<^verbatim>\<open>fetch_branch\<close> returns those of them up to the number asked for, in
  descending order, and \<^verbatim>\<open>search_on_branch\<close> the one with the number asked for.
\<close>

theorem fetch_branch_correct:
  assumes wf: "fdb_wf db" and root: "fdb_root db = Some r" and b: "get_block db h = Some b"
  shows "\<exists>bs. chain_to (fdb_index db) h bs (bhs_id r) \<and> hd bs = b \<and> block_num b = block_num r + length bs
     \<and> (\<forall>n. fetch_branch db h n = Some (filter (\<lambda>x. block_num x \<le> n) bs)
           \<and> search_on_branch db h n = Some (List.find (\<lambda>x. block_num x = n) bs))"
proof -
  note r = wf_rooted [OF wf root]
  have bi: "b \<in> set (fdb_index db)" "bhs_id b = h"
    using b index_findD unfolding get_block_def by auto
  obtain bs where bs: "chain_to (fdb_index db) h bs (bhs_id r)"
    using chain_to_root [OF r, of b] bi by auto
  have d: "distinct (map bhs_id (fdb_index db))" and nr: "h \<noteq> bhs_id r"
    using r bi unfolding rooted_def index_ids_def by (blast, metis imageI)
  have "hd bs = b"
  proof (cases bs)
    case Nil
    then show ?thesis
      using bs nr by simp
  next
    case (Cons c cs)
    then show ?thesis
      using bs bi index_id_unique [OF d, of c b] by simp
  qed
  moreover have "get_block db (bhs_id r) = None"
    using r by (simp add: get_block_def index_find_None_iff rooted_def)
  moreover have "block_num b = block_num r + length bs"
    using chain_num [OF r, of b bs r] bs bi by simp
  ultimately show ?thesis
    using bs fetch_branch_loop_chain [OF d _ bs, of _ "[]"] search_loop_chain [OF d _ bs]
    by (intro exI [of _ bs]) (simp add: fetch_branch_def search_on_branch_def)
qed

text \<open>
  C18. Given two blocks of a well-formed fork database, \<^verbatim>\<open>fetch_branch_from\<close> returns the two
  branches that lead from them to their last common ancestor: both are chains of blocks down to
  one block of the database, and no block is on both.
\<close>

theorem fetch_branch_from_correct:
  assumes wf: "fdb_wf db" and root: "fdb_root db = Some r"
    and b1: "root_or_block db r first = Some b1" and b2: "root_or_block db r second = Some b2"
  shows "\<exists>br1 br2 a. fetch_branch_from db first second = Some (Inr (br1, br2))
     \<and> a \<in> insert r (set (fdb_index db)) \<and> chain_to (fdb_index db) first br1 (bhs_id a) \<and> chain_to (fdb_index db) second br2 (bhs_id a)
     \<and> set br1 \<inter> set br2 = {}"
proof -
  note r = wf_rooted [OF wf root]
  have bi: "b1 \<in> insert r (set (fdb_index db))" "bhs_id b1 = first" "b2 \<in> insert r (set (fdb_index db))" "bhs_id b2 = second"
    using b1 b2 root_or_block_iff [OF r] by blast+
  have ge: "block_num r \<le> block_num b" if "b \<in> insert r (set (fdb_index db))" for b
    using that rooted_num [OF r, of b] by auto
  obtain d1 ds1 where d1: "descend_loop db r (block_num b2) b1 [] = Some (Inr (d1, ds1))" "chain_to (fdb_index db) first ds1 (bhs_id d1)"
    "d1 \<in> insert r (set (fdb_index db))" "block_num d1 = min (block_num b1) (block_num b2)"
    using descend_loop_chain [OF r ge [OF bi(3)] bi(1), of "[]"] bi(2) by auto
  obtain d2 ds2 where d2: "descend_loop db r (block_num d1) b2 [] = Some (Inr (d2, ds2))" "chain_to (fdb_index db) second ds2 (bhs_id d2)"
    "d2 \<in> insert r (set (fdb_index db))" "block_num d2 = min (block_num b2) (block_num d1)"
    using descend_loop_chain [OF r ge [OF d1(3)] bi(3), of "[]"] bi(4) by auto
  have len: "block_num b1 = block_num d1 + length ds1" "block_num b2 = block_num d2 + length ds2" "block_num d1 = block_num d2"
    by (rule chain_num [OF r d1(2) [folded bi(2)] d1(3) bi(1)], rule chain_num [OF r d2(2) [folded bi(4)] d2(3) bi(3)])
      (use d1(4) d2(4) in simp)
  have start: "fetch_branch_from db first second =
      (if bhs_id d1 = bhs_id d2 then Some (Inr (ds1, ds2))
       else then_r (common_loop db d1 ds1 d2 ds2) (\<lambda>((b1, result1), (b2, result2)). Some (Inr (result1 @ [b1], result2 @ [b2]))))"
    using root b1 b2 d1(1) d2(1) by (simp add: fetch_branch_from_def deref_def)
  show ?thesis
  proof (cases "bhs_id d1 = bhs_id d2")
    case True
    have "length ds1 = 0 \<or> length ds2 = 0"
      using len d1(4) by linarith
    then have "set ds1 \<inter> set ds2 = {}"
      by auto
    then show ?thesis
      using start True d1(2,3) d2(2) by (intro exI [of _ ds1] exI [of _ ds2] exI [of _ d1]) simp
  next
    case False
    have "d1 \<noteq> r" "d2 \<noteq> r"
      using False len(3) d1(3) d2(3) rooted_num [OF r, of d1] rooted_num [OF r, of d2] by auto
    then have "d1 \<in> set (fdb_index db)" "d2 \<in> set (fdb_index db)" "d1 \<noteq> d2"
      using d1(3) d2(3) False by auto
    then obtain c1 c2 bs1 bs2 a where c: "common_loop db d1 ds1 d2 ds2 = Some (Inr ((c1, ds1 @ bs1), (c2, ds2 @ bs2)))"
      "chain_to (fdb_index db) (bhs_id d1) (bs1 @ [c1]) (bhs_id a)" "chain_to (fdb_index db) (bhs_id d2) (bs2 @ [c2]) (bhs_id a)"
      "a \<in> insert r (set (fdb_index db))" "c1 \<noteq> c2"
      using common_loop_chain [OF r _ _ len(3), of ds1 ds2] by blast
    have ch: "chain_to (fdb_index db) first (ds1 @ bs1 @ [c1]) (bhs_id a)" "chain_to (fdb_index db) second (ds2 @ bs2 @ [c2]) (bhs_id a)"
      using d1(2) d2(2) c(2,3) unfolding chain_to_append by blast+
    have "set (ds1 @ bs1 @ [c1]) \<inter> set (ds2 @ bs2 @ [c2]) = {}"
      by (rule chains_disjoint [OF r c(4) ch]) (use c(5) in simp)
    then show ?thesis
      using start False c ch by (intro exI [of _ "ds1 @ bs1 @ [c1]"] exI [of _ "ds2 @ bs2 @ [c2]"] exI [of _ a]) simp
  qed
qed

section \<open>Advancing the root\<close>

lemma descends_mono: "descends idx i j \<Longrightarrow> set idx \<subseteq> set idx' \<Longrightarrow> descends idx' i j"
  by (induction rule: descends.induct) (auto intro: descends.intros)

text \<open>Taking out the descendants of one block leaves the other relations as they were.\<close>

lemma descends_filter:
  assumes "\<not> descends idx a j"
  shows "descends (filter (\<lambda>b. \<not> descends idx a (bhs_id b)) idx) i j \<longleftrightarrow> descends idx i j"
proof
  assume "descends (filter (\<lambda>b. \<not> descends idx a (bhs_id b)) idx) i j"
  then show "descends idx i j"
    by (rule descends_mono) auto
next
  assume "descends idx i j"
  then show "descends (filter (\<lambda>b. \<not> descends idx a (bhs_id b)) idx) i j"
    using assms
  proof induction
    case (child b)
    then have "\<not> descends idx a (prev b)"
      by (auto intro: descends.child)
    then have "descends (filter (\<lambda>b. \<not> descends idx a (bhs_id b)) idx) i (prev b)"
      by (rule child.IH)
    moreover have "b \<in> set (filter (\<lambda>b. \<not> descends idx a (bhs_id b)) idx)"
      using child.hyps(2) child.prems by simp
    ultimately show ?case
      by (rule descends.child)
  qed (rule descends.self)
qed

text \<open>The removals in a row; when one throws, what is not below any of the blocks is still there.\<close>

lemma remove_all_call_forest:
  assumes "forest (fdb_index db)" "fdb_head db = Some h"
  shows "\<exists>db'. remove_all_call db as =
      Some (db', if \<exists>a\<in>set as. descends (fdb_index db) a (bhs_id h) then Inl fork_database_exception else Inr ())
    \<and> fdb_root db' = fdb_root db \<and> fdb_head db' = Some h
    \<and> (\<forall>b\<in>set (fdb_index db). (\<forall>a\<in>set as. \<not> descends (fdb_index db) a (bhs_id b)) \<longrightarrow> b \<in> set (fdb_index db'))
    \<and> set (fdb_index db') \<subseteq> set (fdb_index db)
    \<and> ((\<exists>a\<in>set as. descends (fdb_index db) a (bhs_id h)) \<or>
       db' = db\<lparr>fdb_index := filter (\<lambda>b. \<forall>a\<in>set as. \<not> descends (fdb_index db) a (bhs_id b)) (fdb_index db)\<rparr>)"
  using assms
proof (induction as arbitrary: db)
  case (Cons a as)
  let ?idx = "fdb_index db"
  let ?db = "db\<lparr>fdb_index := filter (\<lambda>b. \<not> descends ?idx a (bhs_id b)) ?idx\<rparr>"
  show ?case
  proof (cases "descends ?idx a (bhs_id h)")
    case True
    then show ?thesis
      using fdb_remove_forest [OF Cons.prems] Cons.prems(2) by simp
  next
    case False
    have call: "remove_all_call db (a # as) = remove_all_call ?db as"
      using fdb_remove_forest [OF Cons.prems] False by simp
    have "forest (fdb_index ?db)" "fdb_head ?db = Some h"
      using Cons.prems forest_filter by simp_all
    from Cons.IH [OF this] obtain db' where db': "remove_all_call ?db as =
        Some (db', if \<exists>a\<in>set as. descends (fdb_index ?db) a (bhs_id h) then Inl fork_database_exception else Inr ())"
      "fdb_root db' = fdb_root ?db" "fdb_head db' = Some h"
      "\<forall>b\<in>set (fdb_index ?db). (\<forall>a\<in>set as. \<not> descends (fdb_index ?db) a (bhs_id b)) \<longrightarrow> b \<in> set (fdb_index db')"
      "set (fdb_index db') \<subseteq> set (fdb_index ?db)"
      "(\<exists>a\<in>set as. descends (fdb_index ?db) a (bhs_id h)) \<or>
       db' = ?db\<lparr>fdb_index := filter (\<lambda>b. \<forall>a\<in>set as. \<not> descends (fdb_index ?db) a (bhs_id b)) (fdb_index ?db)\<rparr>"
      by blast
    have idx: "(\<not> descends ?idx a j \<and> (\<forall>c\<in>set as. \<not> descends (fdb_index ?db) c j)) = (\<forall>c\<in>set (a # as). \<not> descends ?idx c j)" for j
      using descends_filter [of ?idx a j] by auto
    have head: "(\<exists>c\<in>set as. descends (fdb_index ?db) c (bhs_id h)) = (\<exists>c\<in>set (a # as). descends ?idx c (bhs_id h))"
      using idx [of "bhs_id h"] False by blast
    have keep: "b \<in> set (fdb_index db')" if "b \<in> set ?idx" "\<forall>c\<in>set (a # as). \<not> descends ?idx c (bhs_id b)" for b
    proof -
      have "b \<in> set (fdb_index ?db)" "\<forall>c\<in>set as. \<not> descends (fdb_index ?db) c (bhs_id b)"
        using that idx [of "bhs_id b"] by simp_all
      then show ?thesis
        using db'(4) by blast
    qed
    have all: "filter (\<lambda>b. \<forall>c\<in>set as. \<not> descends (fdb_index ?db) c (bhs_id b)) (fdb_index ?db)
        = filter (\<lambda>b. \<forall>c\<in>set (a # as). \<not> descends ?idx c (bhs_id b)) ?idx"
      using idx by (simp add: conj_commute)
    have "(\<exists>c\<in>set (a # as). descends ?idx c (bhs_id h)) \<or>
        db' = db\<lparr>fdb_index := filter (\<lambda>b. \<forall>c\<in>set (a # as). \<not> descends ?idx c (bhs_id b)) ?idx\<rparr>"
      using db'(6) unfolding head all by simp
    moreover have "remove_all_call db (a # as) =
        Some (db', if \<exists>c\<in>set (a # as). descends ?idx c (bhs_id h) then Inl fork_database_exception else Inr ())"
      using call db'(1) unfolding head by simp
    moreover have "set (fdb_index db') \<subseteq> set ?idx"
      using db'(5) by auto
    ultimately show ?thesis
      using db'(2,3) keep by (intro exI [of _ db']) simp
  qed
qed simp

lemma ancestors_loop_chain:
  assumes "distinct (map bhs_id (fdb_index db))" "get_block db rid = None"
  shows "chain_to (fdb_index db) i bs rid \<Longrightarrow> ancestors_loop db rid (get_block db i) res = Some (Inr (res @ map prev bs))"
proof (induction bs arbitrary: i res)
  case Nil
  then show ?case
    using assms(2) by (subst ancestors_loop.simps) simp
next
  case (Cons b bs)
  then have "get_block db i = Some b"
    using get_block_in [OF assms(1)] by auto
  moreover have "get_block db (prev b) \<noteq> None \<or> prev b = rid"
    using get_block_in [OF assms(1), of "hd bs"] Cons.prems by (cases bs) auto
  ultimately show ?case
    using Cons by (subst ancestors_loop.simps) simp
qed

lemma chain_descends: "chain_to idx i bs a \<Longrightarrow> descends idx a i"
  by (induction bs arbitrary: i) (auto intro: descends.intros)

lemma chain_erase: "chain_to idx i bs a \<Longrightarrow> c \<notin> bhs_id ` set bs \<Longrightarrow> chain_to (index_erase c idx) i bs a"
  by (induction bs arbitrary: i) (auto simp: index_erase_def)

text \<open>Below the new root nothing is reached from its ancestors once it is taken out, and all the rest is.\<close>

lemma erased_not_descends:
  assumes f: "forest idx" and nb: "nb \<in> set idx" and num: "\<And>b. b \<in> set idx \<Longrightarrow> bhs_id b = a \<Longrightarrow> block_num b < block_num nb"
    and a: "a \<noteq> bhs_id nb"
  shows "descends idx (bhs_id nb) j \<Longrightarrow> \<not> descends (index_erase (bhs_id nb) idx) a j"
proof (induction rule: descends.induct)
  case self
  show ?case
  proof
    assume "descends (index_erase (bhs_id nb) idx) a (bhs_id nb)"
    then show False
      by cases (use a in \<open>auto simp: index_erase_def\<close>)
  qed
next
  case (child b)
  show ?case
  proof
    assume "descends (index_erase (bhs_id nb) idx) a (bhs_id b)"
    then show False
    proof cases
      case self
      obtain p where p: "p \<in> set idx" "bhs_id p = prev b" "block_num nb \<le> block_num p"
        using descends_num [OF f child(1) nb] by auto
      then have "block_num b = block_num p + 1"
        using f child(2) unfolding forest_def by metis
      then show False
        using num [OF child(2)] self p(3) by simp
    next
      case (child c)
      then have "c = b"
        using forest_id [OF f, of c b] \<open>b \<in> set idx\<close> by (auto simp: index_erase_def)
      then show False
        using child \<open>\<not> descends (index_erase (bhs_id nb) idx) a (prev b)\<close> by simp
    qed
  qed
qed

lemma rooted_forest: "rooted idx r \<Longrightarrow> forest idx"
proof -
  assume r: "rooted idx r"
  have "block_num b = block_num p + 1" if bp: "b \<in> set idx" "p \<in> set idx" "prev b = bhs_id p" for b p
  proof -
    obtain q where q: "q \<in> insert r (set idx)" "bhs_id q = prev b" "block_num b = block_num q + 1"
      by (rule rooted_parent [OF r bp(1)])
    then have "q = p"
      using bp q(2) by (intro rooted_id [OF r q(1)]) simp_all
    then show ?thesis
      using q(3) by simp
  qed
  then show ?thesis
    using r by (simp add: rooted_def forest_def)
qed

lemma chain_member:
  assumes "chain_to idx i bs a" "c \<in> set bs"
  shows "c \<in> set idx" "descends idx (bhs_id c) i"
proof -
  obtain us vs where "bs = us @ c # vs"
    using split_list [OF assms(2)] by blast
  then have m: "c \<in> set idx" "chain_to idx i us (bhs_id c)"
    using assms(1) by (auto simp: chain_to_append)
  then show "c \<in> set idx" "descends idx (bhs_id c) i"
    using chain_descends by auto
qed

lemma chain_last: "chain_to idx i bs a \<Longrightarrow> bs \<noteq> [] \<Longrightarrow> prev (last bs) = a"
  by (induction bs arbitrary: i) auto

lemma ancestors_below:
  assumes r: "rooted idx r" and nb: "nb \<in> set idx" and bs: "chain_to idx (bhs_id nb) bs (bhs_id r)"
    and c: "c \<in> set bs" and b: "b \<in> set idx" "bhs_id b = prev c"
  shows "block_num b < block_num nb"
proof -
  note f = rooted_forest [OF r]
  obtain n where "n \<in> set idx" "bhs_id n = bhs_id nb" "block_num c \<le> block_num n"
    using descends_num [OF f chain_member(2) [OF bs c] chain_member(1) [OF bs c] refl] by blast
  moreover have "block_num c = block_num b + 1"
    using f chain_member(1) [OF bs c] b unfolding forest_def by metis
  ultimately show ?thesis
    using forest_id [OF f, of n nb] nb by simp
qed

lemma removed_iff:
  assumes r: "rooted idx r" and nb: "nb \<in> set idx" and bs: "chain_to idx (bhs_id nb) bs (bhs_id r)" and x: "x \<in> insert r (set idx)"
  shows "(\<exists>a\<in>set (map prev bs). descends (index_erase (bhs_id nb) idx) a (bhs_id x)) \<longleftrightarrow> \<not> descends idx (bhs_id nb) (bhs_id x)"
proof
  assume "\<exists>a\<in>set (map prev bs). descends (index_erase (bhs_id nb) idx) a (bhs_id x)"
  then obtain c where c: "c \<in> set bs" "descends (index_erase (bhs_id nb) idx) (prev c) (bhs_id x)"
    by auto
  have "prev c \<noteq> bhs_id nb"
    using ancestors_below [OF r nb bs c(1) nb] by auto
  then show "\<not> descends idx (bhs_id nb) (bhs_id x)"
    using erased_not_descends [OF rooted_forest [OF r] nb, of "prev c"] ancestors_below [OF r nb bs c(1)] c(2) by blast
next
  assume nd: "\<not> descends idx (bhs_id nb) (bhs_id x)"
  obtain cs where cs: "chain_to idx (bhs_id x) cs (bhs_id r)"
    using chain_to_root [OF r x] by blast
  have "bhs_id nb \<notin> bhs_id ` set cs"
    using chain_member(2) [OF cs] nd by auto
  then have "descends (index_erase (bhs_id nb) idx) (bhs_id r) (bhs_id x)"
    using chain_descends [OF chain_erase [OF cs]] by blast
  moreover have "bs \<noteq> []"
    using bs rooted_id [OF r, of nb r] nb rooted_num [OF r nb] by auto
  then have "bhs_id r \<in> set (map prev bs)"
    using chain_last [OF bs] last_in_set [of bs] by (metis image_eqI set_map)
  ultimately show "\<exists>a\<in>set (map prev bs). descends (index_erase (bhs_id nb) idx) a (bhs_id x)"
    by blast
qed

lemma advance_root_call_result:
  assumes wf: "fdb_wf db" and nb: "get_block db i = Some nb" "is_valid nb" and head: "fdb_head db = Some h"
  shows "if descends (fdb_index db) i (bhs_id h)
    then advance_root_call db i = Some (db\<lparr>fdb_index := filter (\<lambda>b. bhs_id b \<noteq> i \<and> descends (fdb_index db) i (bhs_id b)) (fdb_index db),
           fdb_root := Some nb\<rparr>, Inr ())
    else \<exists>db'. advance_root_call db i = Some (db', Inl fork_database_exception) \<and> fdb_root db' = fdb_root db \<and> fdb_head db' = Some h
           \<and> i \<notin> index_ids (fdb_index db') \<and> set (fdb_index db') \<subseteq> set (fdb_index db)
           \<and> (\<forall>b\<in>set (fdb_index db). bhs_id b \<noteq> i \<and> descends (fdb_index db) i (bhs_id b) \<longrightarrow> b \<in> set (fdb_index db'))"
proof -
  obtain r where root: "fdb_root db = Some r" and hin: "h \<in> insert r (set (fdb_index db))"
    using wf head unfolding fdb_wf_def by auto
  note r = wf_rooted [OF wf root]
  let ?idx = "fdb_index db" and ?db = "db\<lparr>fdb_index := index_erase i (fdb_index db)\<rparr>"
  have nbi: "nb \<in> set ?idx" "bhs_id nb = i"
    using nb(1) index_findD unfolding get_block_def by auto
  obtain bs where bs: "chain_to ?idx i bs (bhs_id r)"
    using chain_to_root [OF r, of nb] nbi by auto
  have "distinct (map bhs_id ?idx)" "get_block db (bhs_id r) = None"
    using r by (simp_all add: get_block_def index_find_None_iff rooted_def)
  then have anc: "ancestors_loop db (bhs_id r) (Some nb) [] = Some (Inr (map prev bs))"
    using ancestors_loop_chain [of db "bhs_id r" i bs "[]"] bs nb(1) by simp
  note rem = removed_iff [OF r nbi(1), unfolded nbi(2), OF bs]
  have "forest (fdb_index ?db)" "fdb_head ?db = Some h"
    using head forest_erase [OF rooted_forest [OF r]] by simp_all
  from remove_all_call_forest [OF this, of "map prev bs"] obtain db' where db':
    "remove_all_call ?db (map prev bs) = Some (db', if \<exists>a\<in>set (map prev bs). descends (index_erase i ?idx) a (bhs_id h)
        then Inl fork_database_exception else Inr ())"
    "fdb_root db' = fdb_root db" "fdb_head db' = Some h" "set (fdb_index db') \<subseteq> set (index_erase i ?idx)"
    "\<forall>b\<in>set (index_erase i ?idx). (\<forall>a\<in>set (map prev bs). \<not> descends (index_erase i ?idx) a (bhs_id b)) \<longrightarrow> b \<in> set (fdb_index db')"
    "(\<exists>a\<in>set (map prev bs). descends (index_erase i ?idx) a (bhs_id h)) \<or>
     db' = ?db\<lparr>fdb_index := filter (\<lambda>b. \<forall>a\<in>set (map prev bs). \<not> descends (index_erase i ?idx) a (bhs_id b)) (index_erase i ?idx)\<rparr>"
    by auto
  have kept: "filter (\<lambda>b. \<forall>a\<in>set (map prev bs). \<not> descends (index_erase i ?idx) a (bhs_id b)) (index_erase i ?idx)
      = filter (\<lambda>b. bhs_id b \<noteq> i \<and> descends ?idx i (bhs_id b)) ?idx"
    unfolding index_erase_def filter_filter
    by (rule filter_cong [OF refl]) (use rem in \<open>auto simp: index_erase_def\<close>)
  show ?thesis
  proof (cases "descends ?idx i (bhs_id h)")
    case True
    then have "db' = ?db\<lparr>fdb_index := filter (\<lambda>b. bhs_id b \<noteq> i \<and> descends ?idx i (bhs_id b)) ?idx\<rparr>"
      "remove_all_call ?db (map prev bs) = Some (db', Inr ())"
      using db'(1,6) rem [OF hin] unfolding kept by auto
    then show ?thesis
      using True nb root anc by (simp add: advance_root_call_def deref_def)
  next
    case False
    then have "remove_all_call ?db (map prev bs) = Some (db', Inl fork_database_exception)"
      using db'(1) rem [OF hin] by simp
    then have "advance_root_call db i = Some (db', Inl fork_database_exception)"
      using nb root anc by (simp add: advance_root_call_def deref_def)
    moreover have "b \<in> set (fdb_index db')" if b: "b \<in> set ?idx" "bhs_id b \<noteq> i" "descends ?idx i (bhs_id b)" for b
    proof -
      have "b \<in> set (index_erase i ?idx)" "\<forall>a\<in>set (map prev bs). \<not> descends (index_erase i ?idx) a (bhs_id b)"
        using b rem [of b] by (auto simp: index_erase_def)
      then show ?thesis
        using db'(5) by blast
    qed
    moreover have "i \<notin> index_ids (fdb_index db')" "set (fdb_index db') \<subseteq> set ?idx"
      using db'(4) by (auto simp: index_erase_def index_ids_def)
    ultimately show ?thesis
      using False db'(2,3) by auto
  qed
qed

lemma advance_root_result:
  assumes wf: "fdb_wf db" and nb: "get_block db i = Some nb" "is_valid nb" and head: "fdb_head db = Some h"
  shows "advance_root db i = Some (if descends (fdb_index db) i (bhs_id h)
     then Inr (db\<lparr>fdb_index := filter (\<lambda>b. bhs_id b \<noteq> i \<and> descends (fdb_index db) i (bhs_id b)) (fdb_index db), fdb_root := Some nb\<rparr>)
     else Inl fork_database_exception)"
  using advance_root_call_result [OF assms] by (auto simp: advance_root_def split: if_splits)

text \<open>
  C19. Advancing the root of a well-formed fork database to a validated block never loops. It makes
  that block the root and keeps exactly the blocks built on it; when the head is not one of them
  it throws.
\<close>

theorem advance_root_correct:
  assumes wf: "fdb_wf db" and nb: "get_block db i = Some nb" "is_valid nb" and head: "fdb_head db = Some h"
  shows "advance_root db i = Some (if descends (fdb_index db) i (bhs_id h)
     then Inr (db\<lparr>fdb_index := filter (\<lambda>b. bhs_id b \<noteq> i \<and> descends (fdb_index db) i (bhs_id b)) (fdb_index db), fdb_root := Some nb\<rparr>)
     else Inl fork_database_exception)"
  using assms by (rule advance_root_result)

text \<open>
  C29. When the head is not built on the block the root is to advance to, the exception comes too
  late: the block is gone from the container, the root is still the old one, and every block built
  on the erased one is left behind without a predecessor, so that the database is no longer
  well-formed.
\<close>

theorem advance_root_throw_orphans:
  assumes wf: "fdb_wf db" and nb: "get_block db i = Some nb" "is_valid nb" and head: "fdb_head db = Some h"
    and off: "\<not> descends (fdb_index db) i (bhs_id h)" and child: "c \<in> set (fdb_index db)" "prev c = i"
  shows "\<exists>db'. advance_root_call db i = Some (db', Inl fork_database_exception) \<and> get_block db' i = None
    \<and> fdb_root db' = fdb_root db \<and> c \<in> set (fdb_index db') \<and> \<not> fdb_wf db'"
proof -
  obtain db' where db': "advance_root_call db i = Some (db', Inl fork_database_exception)" "fdb_root db' = fdb_root db"
    "i \<notin> index_ids (fdb_index db')"
    "\<forall>b\<in>set (fdb_index db). bhs_id b \<noteq> i \<and> descends (fdb_index db) i (bhs_id b) \<longrightarrow> b \<in> set (fdb_index db')"
    using advance_root_call_result [OF wf nb head] off by auto
  obtain r where root: "fdb_root db = Some r"
    using wf unfolding fdb_wf_def by blast
  note r = wf_rooted [OF wf root]
  have nbi: "nb \<in> set (fdb_index db)" "bhs_id nb = i"
    using nb(1) index_findD unfolding get_block_def by auto
  have "block_num c = block_num nb + 1"
    using rooted_forest [OF r] child nbi unfolding forest_def by metis
  then have "bhs_id c \<noteq> i"
    using rooted_id [OF r, of c nb] child(1) nbi by auto
  moreover have "descends (fdb_index db) i (bhs_id c)"
    using descends.child [OF _ child(1)] descends.self child(2) by metis
  ultimately have c: "c \<in> set (fdb_index db')"
    using db'(4) child(1) by blast
  have "bhs_id r \<noteq> i"
    using r nbi unfolding rooted_def index_ids_def by (metis imageI)
  then have "\<not> links c p" if "p \<in> insert r (set (fdb_index db'))" for p
    using that db'(3) child(2) unfolding links_def index_ids_def by auto
  then have "\<not> fdb_wf db'"
    using c db'(2) root unfolding fdb_wf_def by auto
  then show ?thesis
    using db' c by (auto simp: get_block_def index_find_None_iff)
qed

section \<open>Every operation keeps the database well-formed\<close>

lemma fdb_wfI:
  assumes "fdb_root db = Some r" "fdb_head db = Some h" "is_valid r" "index_sorted (fdb_index db)" "rooted (fdb_index db) r"
    and "h \<in> insert r (set (fdb_index db))" "is_valid h" "\<And>b. b \<in> set (fdb_index db) \<Longrightarrow> is_valid b \<Longrightarrow> \<not> first_preferred b h"
  shows "fdb_wf db"
  unfolding fdb_wf_def using assms unfolding rooted_def by (intro exI [of _ r] exI [of _ h]) blast

lemma fdb_wfD:
  assumes "fdb_wf db" "fdb_root db = Some r" "fdb_head db = Some h"
  shows "is_valid r" "index_sorted (fdb_index db)" "rooted (fdb_index db) r" "h \<in> insert r (set (fdb_index db))" "is_valid h"
    "b \<in> set (fdb_index db) \<Longrightarrow> is_valid b \<Longrightarrow> \<not> first_preferred b h"
  using assms unfolding fdb_wf_def rooted_def by auto

lemma fdb_wf_ex: "fdb_wf db \<Longrightarrow> \<exists>r h. fdb_root db = Some r \<and> fdb_head db = Some h"
  unfolding fdb_wf_def by blast

lemma preferred_trans: "\<not> first_preferred a b \<Longrightarrow> \<not> first_preferred b c \<Longrightarrow> \<not> first_preferred a c"
  by (auto simp: first_preferred_def)

lemma fdb_reset_wf: "fdb_wf (fdb_reset s)"
  by (rule fdb_wfI [where r = "(make_block_state s None False [])\<lparr>validated := True\<rparr>" and h = "(make_block_state s None False [])\<lparr>validated := True\<rparr>"])
    (simp_all add: fdb_reset_def Let_def is_valid_def index_sorted_def rooted_def)

lemma rooted_place:
  assumes "rooted idx r" "bhs_id n \<notin> index_ids idx" "bhs_id n \<noteq> bhs_id r" "p \<in> insert r (set idx)" "links n p"
  shows "rooted (index_place n idx) r"
  using assms unfolding rooted_def by (auto simp: distinct_index_place)

lemma get_block_None: "get_block db i = None \<longleftrightarrow> i \<notin> index_ids (fdb_index db)"
  by (simp add: get_block_def index_find_None_iff)

lemma fdb_add_wf:
  assumes wf: "fdb_wf db" and add: "fdb_add_impl db n dup val vd = Inr db'"
    and p: "get_block_header db (prev n) = Inr (Some p)" "links n p" and root: "fdb_root db = Some r" "bhs_id n \<noteq> bhs_id r"
  shows "fdb_wf db'"
proof -
  obtain h where head: "fdb_head db = Some h"
    using fdb_wf_ex [OF wf] by blast
  note w = fdb_wfD [OF wf root(1) head]
  have pin: "p \<in> insert r (set (fdb_index db))"
    using p(1) root(1) index_findD by (auto simp: get_block_header_def deref_def get_block_def split: if_splits)
  show ?thesis
  proof (cases "get_block db (bhs_id n) = None")
    case False
    then show ?thesis
      using add wf by (auto simp: fdb_add_impl_def bind_r_Inr_iff split: if_splits)
  next
    case True
    let ?idx = "index_place n (fdb_index db)"
    have db': "db' = (if is_valid (hd ?idx) then db\<lparr>fdb_index := ?idx, fdb_head := Some (hd ?idx)\<rparr> else db\<lparr>fdb_index := ?idx\<rparr>)"
      using add True by (auto simp: fdb_add_impl_def bind_r_Inr_iff Let_def)
    have new: "bhs_id n \<notin> index_ids (fdb_index db)"
      using True by (simp add: get_block_None)
    have sorted: "index_sorted ?idx" and rt: "rooted ?idx r"
      using index_sorted_place [OF w(2) new] rooted_place [OF w(3) new root(2) pin p(2)] by simp_all
    show ?thesis
    proof (cases "is_valid (hd ?idx)")
      case True
      have "hd ?idx \<in> set ?idx"
        by (rule hd_in_set) simp
      then show ?thesis
        using db' True root sorted rt w(1) index_sorted_hd [OF sorted]
        by (intro fdb_wfI [of _ r "hd ?idx"]) auto
    next
      case False
      then have "\<not> is_valid b" if "b \<in> set ?idx" for b
        using index_sorted_hd [OF sorted that] by blast
      then show ?thesis
        using db' False root head sorted rt w(1,4,5) by (intro fdb_wfI [of _ r h]) auto
    qed
  qed
qed

lemma rooted_filter:
  assumes "rooted idx r"
    and "\<And>b p. b \<in> set idx \<Longrightarrow> P b \<Longrightarrow> p \<in> insert r (set idx) \<Longrightarrow> prev b = bhs_id p \<Longrightarrow> p = r' \<or> (p \<in> set idx \<and> P p)"
    and "\<And>b. b \<in> set idx \<Longrightarrow> P b \<Longrightarrow> bhs_id b \<noteq> bhs_id r'"
  shows "rooted (filter P idx) r'"
proof -
  have "\<exists>q\<in>insert r' (set (filter P idx)). links b q" if b: "b \<in> set idx" "P b" for b
  proof -
    obtain p where p: "p \<in> insert r (set idx)" "bhs_id p = prev b" "block_num b = block_num p + 1"
      by (rule rooted_parent [OF assms(1) b(1)])
    then have "p \<in> insert r' (set (filter P idx))"
      using assms(2) [OF b p(1)] by auto
    then show ?thesis
      using p by (auto simp: links_def)
  qed
  moreover have "bhs_id r' \<notin> index_ids (filter P idx)"
  proof
    assume "bhs_id r' \<in> index_ids (filter P idx)"
    then obtain b where "b \<in> set (filter P idx)" "bhs_id r' = bhs_id b"
      unfolding index_ids_def by (rule imageE)
    then show False
      using assms(3) [of b] by auto
  qed
  ultimately show ?thesis
    using assms(1) unfolding rooted_def by (simp add: distinct_map_filter)
qed

lemma fdb_remove_wf:
  assumes wf: "fdb_wf db" and rem: "fdb_remove db i = Some (Inr db')" and root: "fdb_root db = Some r"
  shows "fdb_wf db'"
proof -
  obtain h where head: "fdb_head db = Some h"
    using fdb_wf_ex [OF wf] by blast
  note w = fdb_wfD [OF wf root head]
  let ?P = "\<lambda>b. \<not> descends (fdb_index db) i (bhs_id b)"
  have nd: "?P h" and db': "db' = db\<lparr>fdb_index := filter ?P (fdb_index db)\<rparr>"
    using rem fdb_remove_forest [OF rooted_forest [OF w(3)] head] by (auto split: if_splits)
  have "rooted (filter ?P (fdb_index db)) r"
  proof (rule rooted_filter [OF w(3)])
    show "p = r \<or> (p \<in> set (fdb_index db) \<and> ?P p)"
      if "b \<in> set (fdb_index db)" "?P b" "p \<in> insert r (set (fdb_index db))" "prev b = bhs_id p" for b p
      using that descends.child [of "fdb_index db" i b] by auto
    show "bhs_id b \<noteq> bhs_id r" if "b \<in> set (fdb_index db)" for b
      using that w(3) unfolding rooted_def index_ids_def by (metis imageI)
  qed
  then show ?thesis
    using db' root head w nd index_sorted_filter [OF w(2)] by (intro fdb_wfI [of _ r h]) auto
qed

lemma descends_in: "descends idx i j \<Longrightarrow> j = i \<or> j \<in> index_ids idx"
  by (induction rule: descends.induct) (auto simp: index_ids_def)

lemma descends_parent:
  assumes "forest idx" "descends idx i (bhs_id b)" "bhs_id b \<noteq> i" "b \<in> set idx"
  shows "descends idx i (prev b)"
  using assms(2)
proof cases
  case (child c)
  then have "c = b"
    using forest_id [OF assms(1), of c b] assms(4) by simp
  then show ?thesis
    using child by simp
qed (use assms(3) in simp)

lemma advance_root_wf:
  assumes wf: "fdb_wf db" and adv: "advance_root db i = Some (Inr db')"
  shows "fdb_wf db'"
proof -
  obtain r h where root: "fdb_root db = Some r" and head: "fdb_head db = Some h"
    using fdb_wf_ex [OF wf] by blast
  note w = fdb_wfD [OF wf root head]
  obtain nb where nb: "get_block db i = Some nb" "is_valid nb"
    using adv by (auto simp: advance_root_def advance_root_call_def eos_assert_def of_option_def split: option.splits sum.splits if_splits)
  let ?P = "\<lambda>b. bhs_id b \<noteq> i \<and> descends (fdb_index db) i (bhs_id b)"
  have hd: "descends (fdb_index db) i (bhs_id h)" and db': "db' = db\<lparr>fdb_index := filter ?P (fdb_index db), fdb_root := Some nb\<rparr>"
    using adv advance_root_result [OF wf nb head] by (auto split: if_splits)
  have nbi: "nb \<in> set (fdb_index db)" "bhs_id nb = i"
    using nb(1) index_findD unfolding get_block_def by auto
  have member: "x = nb \<or> (x \<in> set (fdb_index db) \<and> ?P x)"
    if "descends (fdb_index db) i (bhs_id x)" "x \<in> insert r (set (fdb_index db))" for x
  proof (cases "bhs_id x = i")
    case True
    then show ?thesis
      using rooted_id [OF w(3) that(2), of nb] nbi by simp
  next
    case False
    then have "bhs_id x \<in> index_ids (fdb_index db)"
      using descends_in [OF that(1)] by blast
    then have "x \<noteq> r"
      using w(3) by (auto simp: rooted_def)
    then show ?thesis
      using that False by simp
  qed
  have "rooted (filter ?P (fdb_index db)) nb"
  proof (rule rooted_filter [OF w(3)])
    fix b p
    assume b: "b \<in> set (fdb_index db)" "?P b" and p: "p \<in> insert r (set (fdb_index db))" "prev b = bhs_id p"
    have "descends (fdb_index db) i (prev b)"
      using descends_parent [OF rooted_forest [OF w(3)] _ _ b(1)] b(2) by blast
    then show "p = nb \<or> (p \<in> set (fdb_index db) \<and> ?P p)"
      using member [OF _ p(1)] p(2) by simp
  qed (use nbi in simp)
  then show ?thesis
    using db' nb(2) head w(5,6) member [OF hd w(4)] index_sorted_filter [OF w(2)] by (intro fdb_wfI [of _ nb h]) auto
qed

text \<open>Changing the flag of a block moves it in the container and touches no link.\<close>

lemma set_flag_links [simp]:
  "bhs_id (b\<lparr>validated := v\<rparr>) = bhs_id b" "prev (b\<lparr>validated := v\<rparr>) = prev b" "block_num (b\<lparr>validated := v\<rparr>) = block_num b"
  "is_valid (b\<lparr>validated := v\<rparr>) = v" "links (b\<lparr>validated := v\<rparr>) p = links b p" "links p (b\<lparr>validated := v\<rparr>) = links p b"
  by (simp_all add: prev_def is_valid_def links_def)

lemma index_modify_set:
  assumes "distinct (map bhs_id idx)" "\<And>b. bhs_id (f b) = bhs_id b"
  shows "set (index_modify f i idx) = (\<lambda>b. if bhs_id b = i then f b else b) ` set idx"
    and "index_ids (index_modify f i idx) = index_ids idx" "distinct (map bhs_id (index_modify f i idx))"
    and "index_sorted idx \<Longrightarrow> index_sorted (index_modify f i idx)"
proof -
  have all: "set (index_modify f i idx) = (\<lambda>b. if bhs_id b = i then f b else b) ` set idx
    \<and> distinct (map bhs_id (index_modify f i idx)) \<and> (index_sorted idx \<longrightarrow> index_sorted (index_modify f i idx))"
  proof (cases "index_find i idx")
    case None
    then have "bhs_id b \<noteq> i" if "b \<in> set idx" for b
      using that by (auto simp: index_find_None_iff index_ids_def)
    then show ?thesis
      using None assms(1) by (auto simp: index_modify_def)
  next
    case (Some b)
    then have b: "b \<in> set idx" "bhs_id b = i"
      using index_findD by auto
    then have un: "x = b" if "x \<in> set idx" "bhs_id x = i" for x
      using that index_id_unique [OF assms(1), of x b] by simp
    have "(\<lambda>b. if bhs_id b = i then f b else b) ` set idx = insert (f b) {x \<in> set idx. bhs_id x \<noteq> i}"
      using b by (auto dest: un)
    then have "set (index_modify f i idx) = (\<lambda>b. if bhs_id b = i then f b else b) ` set idx"
      by (simp add: index_modify_def Some index_erase_def)
    moreover have "bhs_id (f b) \<notin> index_ids (index_erase i idx)"
      using b assms(2) by simp
    ultimately show ?thesis
      using assms distinct_index_erase index_sorted_place index_sorted_erase
      by (simp add: index_modify_def Some distinct_index_place)
  qed
  then show set: "set (index_modify f i idx) = (\<lambda>b. if bhs_id b = i then f b else b) ` set idx"
    and "distinct (map bhs_id (index_modify f i idx))" "index_sorted idx \<Longrightarrow> index_sorted (index_modify f i idx)"
    by blast+
  show "index_ids (index_modify f i idx) = index_ids idx"
    unfolding index_ids_def set image_image by (rule image_cong) (simp_all add: assms(2))
qed

lemma rooted_flags:
  assumes "rooted idx r" "set idx' = (\<lambda>b. if Q b then b\<lparr>validated := v\<rparr> else b) ` set idx" "distinct (map bhs_id idx')" "index_ids idx' = index_ids idx"
  shows "rooted idx' r"
proof -
  have "\<exists>p\<in>insert r (set idx'). links b p" if b: "b \<in> set idx'" for b
  proof -
    obtain c where c: "c \<in> set idx" "b = (if Q c then c\<lparr>validated := v\<rparr> else c)"
      using b unfolding assms(2) by blast
    obtain p where p: "p \<in> insert r (set idx)" "links c p"
      using assms(1) c(1) unfolding rooted_def by blast
    let ?p = "if p \<in> set idx then (if Q p then p\<lparr>validated := v\<rparr> else p) else p"
    have "?p \<in> insert r (set idx')" "links b ?p"
      using p c(2) unfolding assms(2) by auto
    then show ?thesis
      by blast
  qed
  then show ?thesis
    using assms(1,3,4) by (simp add: rooted_def)
qed

lemma mark_valid_wf:
  assumes wf: "fdb_wf db" and h: "get_block db i = Some b" and mark: "mark_valid db b = Inr db'"
  shows "fdb_wf db'"
proof (cases "validated b")
  case True
  then show ?thesis
    using wf mark by (simp add: mark_valid_def)
next
  case False
  obtain r h where root: "fdb_root db = Some r" and head: "fdb_head db = Some h"
    using fdb_wf_ex [OF wf] by blast
  note w = fdb_wfD [OF wf root head]
  have d: "distinct (map bhs_id (fdb_index db))"
    using w(3) by (simp add: rooted_def)
  have b: "b \<in> set (fdb_index db)" "bhs_id b = i"
    using assms(2) index_findD unfolding get_block_def by auto
  let ?f = "\<lambda>b. b\<lparr>validated := True\<rparr>" and ?idx = "index_modify (\<lambda>b. b\<lparr>validated := True\<rparr>) i (fdb_index db)"
  note m = index_modify_set [where f = ?f and i = i, OF d set_flag_links(1)]
  have "h \<noteq> b"
    using False w(5) by (auto simp: is_valid_def)
  then have hi: "bhs_id h \<noteq> i"
    using rooted_id [OF w(3,4), of b] b by auto
  have rt: "rooted ?idx r" and sorted: "index_sorted ?idx"
    using rooted_flags [OF w(3) m(1,3,2)] m(4) [OF w(2)] by simp_all
  have "?f b \<in> set ?idx"
    unfolding m(1) using b by (intro image_eqI [of _ _ b]) simp_all
  then have cand: "is_valid (hd ?idx)" "hd ?idx \<in> set ?idx"
    using index_sorted_hd [OF sorted, of "?f b"] by (auto intro: hd_in_set)
  have db': "db' = db\<lparr>fdb_index := ?idx, fdb_head := (if first_preferred (hd ?idx) h then Some (hd ?idx) else Some h)\<rparr>"
    using mark False b hi head by (auto simp: mark_valid_def Let_def deref_def bind_r_Inr_iff)
  have hin: "h \<in> insert r (set ?idx)"
    using w(4) hi unfolding m(1) by auto
  show ?thesis
  proof (cases "first_preferred (hd ?idx) h")
    case True
    then show ?thesis
      using db' root w(1) rt sorted cand index_sorted_hd [OF sorted] by (intro fdb_wfI [of _ r "hd ?idx"]) simp_all
  next
    case False
    then have "\<not> first_preferred b h" if "b \<in> set ?idx" "is_valid b" for b
      using preferred_trans index_sorted_hd [OF sorted that] by blast
    then show ?thesis
      using db' False root w(1,5) rt sorted hin by (intro fdb_wfI [of _ r h]) simp_all
  qed
qed

lemma fold_unvalidate:
  assumes "distinct (map bhs_id idx)" "index_sorted idx" "idx' = fold (index_modify (\<lambda>b. b\<lparr>validated := False\<rparr>)) is idx"
  shows "set idx' = (\<lambda>b. if bhs_id b \<in> set is then b\<lparr>validated := False\<rparr> else b) ` set idx \<and> index_ids idx' = index_ids idx
    \<and> distinct (map bhs_id idx') \<and> index_sorted idx'"
  using assms
proof (induction "is" arbitrary: idx)
  case (Cons i "is")
  let ?f = "\<lambda>b :: block_state. b\<lparr>validated := False\<rparr>" and ?idx = "index_modify (\<lambda>b. b\<lparr>validated := False\<rparr>) i idx"
  note m = index_modify_set [where f = ?f and i = i, OF Cons.prems(1) set_flag_links(1)]
  have ih: "set idx' = (\<lambda>b. if bhs_id b \<in> set is then ?f b else b) ` set ?idx" "index_ids idx' = index_ids ?idx"
    "distinct (map bhs_id idx')" "index_sorted idx'"
    using Cons.IH [OF m(3) m(4) [OF Cons.prems(2)]] Cons.prems(3) by simp_all
  have "set idx' = (\<lambda>b. if bhs_id b \<in> set (i # is) then ?f b else b) ` set idx"
    unfolding ih(1) m(1) image_image by (rule image_cong) simp_all
  then show ?case
    using ih m(2) by simp
qed simp

lemma rollback_wf:
  assumes wf: "fdb_wf db"
  shows "fdb_wf (rollback_head_to_root db)"
proof -
  obtain r h where root: "fdb_root db = Some r" and head: "fdb_head db = Some h"
    using fdb_wf_ex [OF wf] by blast
  note w = fdb_wfD [OF wf root head]
  let ?idx = "fold (index_modify (\<lambda>b. b\<lparr>validated := False\<rparr>)) (map bhs_id (fdb_index db)) (fdb_index db)"
  have d: "distinct (map bhs_id (fdb_index db))"
    using w(3) by (simp add: rooted_def)
  have m: "set ?idx = (\<lambda>b. if bhs_id b \<in> set (map bhs_id (fdb_index db)) then b\<lparr>validated := False\<rparr> else b) ` set (fdb_index db)"
    "index_ids ?idx = index_ids (fdb_index db)" "distinct (map bhs_id ?idx)" "index_sorted ?idx"
    using fold_unvalidate [OF d w(2) refl, of "map bhs_id (fdb_index db)"] by blast+
  have "\<not> is_valid b" if "b \<in> set ?idx" for b
    using that unfolding m(1) by auto
  moreover have "rooted ?idx r"
    by (rule rooted_flags [OF w(3) m(1,3,2)])
  ultimately show ?thesis
    using root w(1) m(4) by (intro fdb_wfI [of _ r r]) (simp_all add: rollback_head_to_root_def)
qed

text \<open>
  The operations as steps. A block that is added was made on top of a block of the database, as
  the block states the controller adds are: its number follows that of its predecessor, and its
  identifier is not that of the root. Blocks are marked as valid through the shared object. Adding,
  removing and marking throw before they change anything. The root advances to a block the head is
  built on; to a block that is missing or not validated the call throws and changes nothing.
\<close>

definition advances_below_head :: "fork_database \<Rightarrow> block_id_type \<Rightarrow> bool" where
  "advances_below_head db i \<longleftrightarrow>
     (\<forall>nb h. get_block db i = Some nb \<longrightarrow> is_valid nb \<longrightarrow> fdb_head db = Some h \<longrightarrow> descends (fdb_index db) i (bhs_id h))"

inductive fdb_step :: "fork_database \<Rightarrow> fork_database \<Rightarrow> bool" where
  add_block: "fdb_add db n ignore_duplicate = Inr db' \<Longrightarrow> get_block_header db (prev n) = Inr (Some p) \<Longrightarrow> links n p \<Longrightarrow>
    fdb_root db = Some r \<Longrightarrow> bhs_id n \<noteq> bhs_id r \<Longrightarrow> fdb_step db db'"
| remove_branch: "fdb_remove db i = Some (Inr db') \<Longrightarrow> fdb_step db db'"
| advance: "advance_root_call db i = Some (db', r) \<Longrightarrow> advances_below_head db i \<Longrightarrow> fdb_step db db'"
| mark: "get_block db i = Some b \<Longrightarrow> mark_valid db b = Inr db' \<Longrightarrow> fdb_step db db'"
| add_throws: "fdb_add db n ignore_duplicate = Inl e \<Longrightarrow> fdb_step db db"
| remove_throws: "fdb_remove db i = Some (Inl e) \<Longrightarrow> fdb_step db db"
| mark_throws: "mark_valid db b = Inl e \<Longrightarrow> fdb_step db db"
| rollback: "fdb_step db (rollback_head_to_root db)"

inductive fdb_reachable :: "fork_database \<Rightarrow> bool" where
  init: "fdb_reachable (fdb_reset s)"
| step: "fdb_reachable db \<Longrightarrow> fdb_step db db' \<Longrightarrow> fdb_reachable db'"

lemma fdb_step_wf: "fdb_step db db' \<Longrightarrow> fdb_wf db \<Longrightarrow> fdb_wf db'"
proof (induction rule: fdb_step.induct)
  case (add_block db n dup db' p r)
  then show ?case
    using fdb_add_wf [of db n dup False _ db' p r] unfolding fdb_add_def by blast
next
  case (remove_branch db i db')
  then show ?case
    using fdb_remove_wf fdb_wf_ex by metis
next
  case (advance db i db' r)
  show ?case
  proof (cases "\<exists>nb. get_block db i = Some nb \<and> is_valid nb")
    case True
    then obtain nb h where nb: "get_block db i = Some nb" "is_valid nb" "fdb_head db = Some h"
      using fdb_wf_ex [OF advance(3)] by blast
    then have "advance_root db i = Some (Inr db')"
      using advance_root_call_result [OF advance(3) nb] advance(1,2)
      by (auto simp: advances_below_head_def advance_root_def)
    then show ?thesis
      by (rule advance_root_wf [OF advance(3)])
  next
    case False
    then have "db' = db"
      using advance(1) by (auto simp: advance_root_call_def of_option_def eos_assert_def split: option.splits if_splits)
    then show ?thesis
      using advance(3) by simp
  qed
qed (use mark_valid_wf rollback_wf in blast)+

lemma reachable_wf: "fdb_reachable db \<Longrightarrow> fdb_wf db"
  by (induction rule: fdb_reachable.induct) (auto intro: fdb_reset_wf fdb_step_wf)

lemma first_invalid_best:
  "index_sorted idx \<Longrightarrow> List.find (\<lambda>b. \<not> is_valid b) idx = Some c \<Longrightarrow> b \<in> set idx \<Longrightarrow> \<not> is_valid b \<Longrightarrow> \<not> first_preferred b c"
proof (induction idx)
  case (Cons x xs)
  show ?case
  proof (cases "is_valid x")
    case True
    then have "index_sorted xs" "List.find (\<lambda>b. \<not> is_valid b) xs = Some c" "b \<in> set xs"
      using Cons.prems by (auto simp: index_sorted_def)
    then show ?thesis
      using Cons.prems(4) by (rule Cons.IH)
  next
    case False
    then have c: "c = x" and "b = x \<or> by_lib_less x b"
      using Cons.prems by (auto simp: index_sorted_def)
    then show ?thesis
      using False Cons.prems(4) unfolding c by_lib_less_def first_preferred_def by auto
  qed
qed simp

text \<open>
  C17. In every state the fork database reaches from a reset by calls that return or throw, the
  blocks form a tree above the root with consecutive numbers and unique identifiers, the container
  is ordered, the head is a validated block of the tree, or its root, that no validated block is
  preferred to, and the pending head is a block that no block at all is preferred to. One call is
  excluded: advancing the root to a validated block that the head is not built on, which throws
  and leaves blocks without a predecessor.
\<close>

theorem fork_database_invariant:
  assumes "fdb_reachable db"
  shows "fdb_wf db \<and> (\<exists>r h. fdb_root db = Some r \<and> pending_head db = Inr (Some h) \<and> h \<in> insert r (set (fdb_index db))
     \<and> (\<forall>b\<in>set (fdb_index db). \<not> first_preferred b h))"
proof -
  note wf = reachable_wf [OF assms]
  obtain r h where root: "fdb_root db = Some r" and head: "fdb_head db = Some h"
    using fdb_wf_ex [OF wf] by blast
  note w = fdb_wfD [OF wf root head]
  have "\<exists>p. pending_head db = Inr (Some p) \<and> p \<in> insert r (set (fdb_index db)) \<and> (\<forall>b\<in>set (fdb_index db). \<not> first_preferred b p)"
  proof (cases "List.find (\<lambda>b. \<not> is_valid b) (fdb_index db)")
    case None
    then have "is_valid b" if "b \<in> set (fdb_index db)" for b
      using that by (simp add: find_None_iff)
    then show ?thesis
      using None head w(4,6) by (simp add: pending_head_def)
  next
    case (Some c)
    have cin: "c \<in> set (fdb_index db)" "\<not> is_valid c"
      using Some by (auto simp: find_Some_iff)
    have unval: "\<not> first_preferred b c" if "b \<in> set (fdb_index db)" "\<not> is_valid b" for b
      by (rule first_invalid_best [OF w(2) Some that])
    show ?thesis
    proof (cases "first_preferred c h")
      case True
      then have "\<not> first_preferred h c"
        by (auto simp: first_preferred_def)
      then have "\<not> first_preferred b c" if "b \<in> set (fdb_index db)" for b
        using unval [OF that] w(6) [OF that] preferred_trans [of b h c] by blast
      then show ?thesis
        using Some True head cin by (simp add: pending_head_def deref_def)
    next
      case False
      then have "\<not> first_preferred b h" if "b \<in> set (fdb_index db)" for b
        using unval [OF that] w(6) [OF that] preferred_trans [of b c h] by blast
      then show ?thesis
        using Some False head w(4) by (simp add: pending_head_def deref_def)
    qed
  qed
  then show ?thesis
    using wf root by blast
qed

text \<open>
  Removing a block from a well-formed fork database never loops: it removes exactly the block
  and everything built on it, or throws when the head is among them.
\<close>

theorem fdb_remove_correct:
  assumes "fdb_wf db" "fdb_head db = Some h"
  shows "fdb_remove db i = Some (if descends (fdb_index db) i (bhs_id h) then Inl fork_database_exception
     else Inr (db\<lparr>fdb_index := filter (\<lambda>b. \<not> descends (fdb_index db) i (bhs_id b)) (fdb_index db)\<rparr>))"
proof -
  obtain r where "fdb_root db = Some r"
    using fdb_wf_ex [OF assms(1)] by blast
  then show ?thesis
    using fdb_remove_forest [OF rooted_forest [OF wf_rooted [OF assms(1)]] assms(2)] by blast
qed

section \<open>The file gives the database back\<close>

text \<open>A block state as it is read back: all but the transactions cached for its application.\<close>

definition restored :: "block_state \<Rightarrow> block_state" where
  "restored b = b\<lparr>pub_keys_recovered := False, cached_trxs := []\<rparr>"

definition restored_root :: "block_state \<Rightarrow> block_state" where
  "restored_root r = (make_block_state (stored_header (block_header_state.truncate r)) None False [])\<lparr>validated := True\<rparr>"

lemma restored_simps [simp]:
  "bhs_id (restored b) = bhs_id b" "prev (restored b) = prev b" "is_valid (restored b) = is_valid b"
  "header_exts (restored b) = header_exts b" "header (restored b) = header b" "activated_protocol_features (restored b) = activated_protocol_features b"
  "by_lib_less (restored b) (restored c) = by_lib_less b c" "first_preferred (restored b) (restored c) = first_preferred b c"
  "bhs_id (restored_root r) = bhs_id r" "activated_protocol_features (restored_root r) = activated_protocol_features r" "is_valid (restored_root r)"
  "first_preferred b (restored_root r) = first_preferred b r" "first_preferred (restored b) c = first_preferred b c"
  "first_preferred b (restored c) = first_preferred b c"
  by (simp_all add: restored_def prev_def is_valid_def by_lib_less_def first_preferred_def restored_root_def make_block_state_def
      stored_header_def block_header_state.defs block_state.defs)

lemma mset_close_merge: "mset (close_merge us vs) = mset us + mset vs"
  by (induction us vs rule: close_merge.induct) auto

lemma preferred_asym: "first_preferred a b \<Longrightarrow> \<not> first_preferred b a"
  by (auto simp: first_preferred_def)

lemma sorted_close_merge:
  "sorted_wrt (\<lambda>a b. \<not> first_preferred a b) us \<Longrightarrow> sorted_wrt (\<lambda>a b. \<not> first_preferred a b) vs \<Longrightarrow>
     sorted_wrt (\<lambda>a b. \<not> first_preferred a b) (close_merge us vs)"
proof (induction us vs rule: close_merge.induct)
  case (1 u us v vs)
  have set: "set (close_merge xs ys) = set xs \<union> set ys" for xs ys
    by (metis mset_close_merge set_mset_mset set_mset_union)
  show ?case
  proof (cases "first_preferred v u")
    case True
    have "\<not> first_preferred u x" if "x \<in> set us \<union> set (v # vs)" for x
      using that 1(3,4) preferred_asym [OF True] preferred_trans [of u v x] by auto
    then show ?thesis
      using 1(1) [OF True] 1(3,4) True by (simp add: set)
  next
    case False
    have "\<not> first_preferred v x" if "x \<in> set (u # us) \<union> set vs" for x
      using that 1(3,4) False preferred_trans [of v u x] by auto
    then show ?thesis
      using 1(2) [OF False] 1(3,4) False by (simp add: set)
  qed
qed auto

text \<open>The blocks in the order in which they are written.\<close>

definition written_blocks :: "fork_index \<Rightarrow> block_state list" where
  "written_blocks idx = close_merge (rev (dropWhile is_valid idx)) (rev (takeWhile is_valid idx))"

lemma mset_written: "mset (written_blocks idx) = mset idx"
proof -
  have "mset (takeWhile is_valid idx) + mset (dropWhile is_valid idx) = mset idx"
    by (metis mset_append takeWhile_dropWhile_id)
  then show ?thesis
    by (simp add: written_blocks_def mset_close_merge add.commute)
qed

lemma sorted_written:
  assumes "index_sorted idx"
  shows "sorted_wrt (\<lambda>a b. \<not> first_preferred a b) (written_blocks idx)"
proof -
  have "idx = takeWhile is_valid idx @ dropWhile is_valid idx"
    by simp
  then have s: "sorted_wrt by_lib_less (takeWhile is_valid idx)" "sorted_wrt by_lib_less (dropWhile is_valid idx)"
    using assms unfolding index_sorted_def by (metis sorted_wrt_append)+
  have inv: "\<not> is_valid b" if "b \<in> set (dropWhile is_valid idx)" for b
  proof (cases "dropWhile is_valid idx")
    case (Cons c cs)
    then have "\<not> is_valid c" "b = c \<or> by_lib_less c b"
      using s(2) that hd_dropWhile [of is_valid idx] by auto
    then show ?thesis
      by (auto simp: by_lib_less_def)
  next
    case Nil
    then show ?thesis
      using that unfolding Nil by simp
  qed
  have "sorted_wrt (\<lambda>a b. \<not> first_preferred b a) (dropWhile is_valid idx)"
    by (rule sorted_wrt_mono_rel [OF _ s(2)]) (use inv in \<open>auto simp: by_lib_less_def first_preferred_def\<close>)
  moreover have "sorted_wrt (\<lambda>a b. \<not> first_preferred b a) (takeWhile is_valid idx)"
    by (rule sorted_wrt_mono_rel [OF _ s(1)]) (auto dest!: set_takeWhileD simp: by_lib_less_def first_preferred_def)
  ultimately show ?thesis
    unfolding written_blocks_def by (intro sorted_close_merge) (simp_all add: sorted_wrt_rev)
qed

text \<open>A block is written after its predecessor when irreversible numbers do not decrease along links.\<close>

definition lib_grows :: "fork_database \<Rightarrow> block_state \<Rightarrow> bool" where
  "lib_grows db r \<longleftrightarrow> (\<forall>b\<in>set (fdb_index db). \<forall>p\<in>insert r (set (fdb_index db)). links b p \<longrightarrow>
     dpos_irreversible_blocknum p \<le> dpos_irreversible_blocknum b)"

lemma written_after_parent:
  assumes "index_sorted idx" "written_blocks idx = xs @ b # ys" "p \<in> set idx" "links b p"
    and "dpos_irreversible_blocknum p \<le> dpos_irreversible_blocknum b"
  shows "p \<in> set xs"
proof (rule ccontr)
  assume "p \<notin> set xs"
  moreover have "p \<in> set (written_blocks idx)"
    using assms(3) mset_written [of idx] by (metis set_mset_mset)
  ultimately have "p \<in> set (b # ys)"
    using assms(2) by auto
  moreover have "sorted_wrt (\<lambda>a b. \<not> first_preferred a b) (b # ys)"
    using sorted_written [OF assms(1)] unfolding assms(2) by (simp add: sorted_wrt_append)
  ultimately have "p = b \<or> \<not> first_preferred b p"
    by auto
  moreover have "first_preferred b p" "p \<noteq> b"
    using assms(4,5) by (auto simp: links_def first_preferred_def)
  ultimately show False
    by blast
qed

lemma index_sorted_unique:
  assumes "index_sorted xs" "index_sorted ys" "set xs = set ys" "distinct (map bhs_id xs)"
  shows "xs = ys"
proof -
  have srt: "sorted_wrt (<) (map lib_key zs)" if "index_sorted zs" for zs
    unfolding sorted_wrt_map using that [unfolded index_sorted_def] by (rule sorted_wrt_mono_rel [rotated]) (simp add: by_lib_less_key)
  have "map lib_key xs = map lib_key ys"
    using srt [OF assms(1)] srt [OF assms(2)] assms(3) by (intro strict_sorted_equal) simp_all
  moreover have "inj_on lib_key (set xs \<union> set ys)"
    using index_id_unique [OF assms(4)] lib_key_id assms(3) by (intro inj_onI) blast
  ultimately show ?thesis
    by (rule map_inj_on)
qed

lemma restored_index:
  "index_sorted (map restored idx) \<longleftrightarrow> index_sorted idx" "index_ids (map restored idx) = index_ids idx"
  "distinct (map bhs_id (map restored idx)) \<longleftrightarrow> distinct (map bhs_id idx)"
  by (simp_all add: index_sorted_def sorted_wrt_map index_ids_def image_image comp_def)

text \<open>What has been rebuilt after some of the blocks have been read.\<close>

definition rebuilt :: "fork_database \<Rightarrow> block_state \<Rightarrow> block_state list \<Rightarrow> bool" where
  "rebuilt db r bs \<longleftrightarrow> fdb_root db = Some (restored_root r) \<and> index_sorted (fdb_index db) \<and> distinct (map bhs_id (fdb_index db))
     \<and> set (fdb_index db) = restored ` set bs"

definition readable :: "fc_env \<Rightarrow> feature_validator \<Rightarrow> fork_database \<Rightarrow> block_state \<Rightarrow> bool" where
  "readable env validator db r \<longleftrightarrow> (\<forall>b\<in>set (fdb_index db).
     (\<exists>blk. bs_block b = Some blk \<and> validate_and_extract_header_extensions env blk = Inr (header_exts b)) \<and>
     (\<forall>p\<in>insert r (set (fdb_index db)). links b p \<longrightarrow> validate_added validator b p = Inr ()))"

lemma open_block_step:
  assumes re: "rebuilt d r xs" and rd: "readable env validator db r" and sub: "set xs \<subseteq> set (fdb_index db)"
    and b: "b \<in> set (fdb_index db)" "bhs_id b \<notin> bhs_id ` set xs" and p: "p \<in> insert r (set xs)" "links b p"
    and nr: "\<And>x. x \<in> set xs \<Longrightarrow> bhs_id x \<noteq> bhs_id r"
  shows "\<exists>d'. open_block env validator (stored_block b) d = Inr d' \<and> rebuilt d' r (xs @ [b])"
proof -
  obtain blk where blk: "bs_block b = Some blk" "validate_and_extract_header_extensions env blk = Inr (header_exts b)"
    using rd b(1) unfolding readable_def by blast
  have sb: "bs_block (stored_block b) = bs_block b" "(stored_block b)\<lparr>header_exts := header_exts b\<rparr> = restored b"
      "bhs_id (stored_block b) = bhs_id b"
    by (simp_all add: stored_block_def restored_def)
  have ids: "index_ids (fdb_index d) = bhs_id ` set xs"
    using re by (simp add: rebuilt_def index_ids_def image_image)
  have dd: "distinct (map bhs_id (fdb_index d))" and rt: "fdb_root d = Some (restored_root r)" and st: "index_sorted (fdb_index d)"
    and set: "set (fdb_index d) = restored ` set xs"
    using re by (simp_all add: rebuilt_def)
  let ?p = "if p = r then restored_root r else restored p"
  have found: "get_block_header d (prev b) = Inr (Some ?p)"
  proof (cases "p = r")
    case True
    then show ?thesis
      using p(2) rt by (simp add: get_block_header_def deref_def links_def)
  next
    case False
    then have px: "p \<in> set xs"
      using p(1) by simp
    then have "get_block d (bhs_id (restored p)) = Some (restored p)"
      using get_block_in [OF dd, of "restored p"] set by simp
    then show ?thesis
      using p(2) rt False nr [OF px] by (simp add: get_block_header_def deref_def links_def)
  qed
  have "validate_added validator (restored b) ?p = validate_added validator b p"
    by (cases "p = r") (simp_all only: if_True if_False refl validate_added_def restored_simps)
  also have "\<dots> = Inr ()"
    using rd b(1) p sub unfolding readable_def by blast
  finally have val: "validate_added validator (restored b) ?p = Inr ()" .
  have new: "bhs_id (restored b) \<notin> index_ids (fdb_index d)"
    using b(2) ids by simp
  then have none: "get_block d (bhs_id b) = None"
    by (simp add: get_block_None)
  let ?idx = "index_place (restored b) (fdb_index d)"
  let ?d = "if is_valid (hd ?idx) then d\<lparr>fdb_index := ?idx, fdb_head := Some (hd ?idx)\<rparr> else d\<lparr>fdb_index := ?idx\<rparr>"
  have "open_block env validator (stored_block b) d = Inr ?d"
    using blk rt found val none by (simp add: open_block_def deref_def sb fdb_add_impl_def Let_def)
  moreover have "rebuilt ?d r (xs @ [b])"
    using index_sorted_place [OF st new] new dd rt set by (simp add: rebuilt_def distinct_index_place)
  ultimately show ?thesis
    by blast
qed

lemma open_blocks:
  assumes rd: "readable env validator db r" and rt: "rooted (fdb_index db) r" and st: "index_sorted (fdb_index db)" and lib: "lib_grows db r"
  shows "written_blocks (fdb_index db) = xs @ ys \<Longrightarrow> rebuilt d r xs \<Longrightarrow>
    \<exists>d'. fold_r (open_block env validator) (map stored_block ys) d = Inr d' \<and> rebuilt d' r (xs @ ys)"
proof (induction ys arbitrary: xs d)
  case (Cons b ys)
  have all: "set (xs @ b # ys) = set (fdb_index db)" "distinct (map bhs_id (xs @ b # ys))"
  proof -
    have m: "mset (xs @ b # ys) = mset (fdb_index db)"
      using mset_written [of "fdb_index db"] Cons.prems(1) by simp
    then show "set (xs @ b # ys) = set (fdb_index db)"
      by (rule mset_eq_setD)
    have "mset (map bhs_id (xs @ b # ys)) = mset (map bhs_id (fdb_index db))"
      using m by (simp only: mset_map)
    then show "distinct (map bhs_id (xs @ b # ys))"
      using rt mset_eq_imp_distinct_iff unfolding rooted_def by blast
  qed
  have bin: "b \<in> set (fdb_index db)" and sub: "set xs \<subseteq> set (fdb_index db)"
    unfolding all(1) [symmetric] by auto
  obtain p where p: "p \<in> insert r (set (fdb_index db))" "links b p"
    using rt bin unfolding rooted_def by blast
  have "p \<in> insert r (set xs)"
  proof (cases "p = r")
    case False
    then have pin: "p \<in> set (fdb_index db)"
      using p(1) by simp
    have "dpos_irreversible_blocknum p \<le> dpos_irreversible_blocknum b"
      using lib bin p unfolding lib_grows_def by blast
    then show ?thesis
      using written_after_parent [OF st Cons.prems(1) pin p(2)] by simp
  qed simp
  moreover have "bhs_id b \<notin> bhs_id ` set xs"
    using all(2) by auto
  moreover have "bhs_id x \<noteq> bhs_id r" if "x \<in> set xs" for x
    using that sub rt unfolding rooted_def index_ids_def by (metis imageI subsetD)
  ultimately obtain d' where d': "open_block env validator (stored_block b) d = Inr d'" "rebuilt d' r (xs @ [b])"
    using open_block_step [OF Cons.prems(2) rd sub bin] p(2) by blast
  then show ?case
    using Cons.IH [of "xs @ [b]" d'] Cons.prems(1) by simp
qed simp

text \<open>
  C21. Closing a well-formed fork database and opening the file again gives the same database: the
  same root, the same blocks with their flags in the same order, and the same head, without the
  transactions cached for applying a block. This needs that irreversible numbers do not decrease
  along a branch, that the extensions of every block can be extracted again, and that the
  validator accepts the feature activations it accepted when the blocks were made.
\<close>

theorem fork_database_file_roundtrip:
  assumes wf: "fdb_wf db" and root: "fdb_root db = Some r" and head: "fdb_head db = Some h"
    and lib: "lib_grows db r" and rd: "readable env validator db r"
  shows "\<exists>file. fdb_close db = (Some file, db\<lparr>fdb_index := []\<rparr>) \<and>
    fdb_open env validator (Some file) fork_database_init =
      Inr \<lparr>fdb_index = map restored (fdb_index db), fdb_root = Some (restored_root r),
           fdb_head = Some (if bhs_id h = bhs_id r then restored_root r else restored h)\<rparr>"
proof -
  note w = fdb_wfD [OF wf root head]
  let ?idx = "fdb_index db"
  let ?file = "\<lparr>file_totem = magic_number, file_version = max_supported_version,
      file_root = stored_header (block_header_state.truncate r), file_blocks = map stored_block (written_blocks ?idx), file_head = Some (bhs_id h)\<rparr>"
  have close: "fdb_close db = (Some ?file, db\<lparr>fdb_index := []\<rparr>)"
    using root head by (simp add: fdb_close_def written_blocks_def)
  have "rebuilt (fdb_reset (stored_header (block_header_state.truncate r))) r []"
    by (simp add: rebuilt_def fdb_reset_def restored_root_def Let_def index_sorted_def)
  then obtain d where d: "fold_r (open_block env validator) (map stored_block (written_blocks ?idx)) (fdb_reset (stored_header (block_header_state.truncate r))) = Inr d"
      "rebuilt d r (written_blocks ?idx)"
    using open_blocks [OF rd w(3,2) lib, of "[]"] by auto
  have dd: "distinct (map bhs_id ?idx)"
    using w(3) by (simp add: rooted_def)
  have "set (written_blocks ?idx) = set ?idx"
    using mset_written by (rule mset_eq_setD)
  then have idx: "fdb_index d = map restored ?idx"
    using d(2) w(2) dd by (intro index_sorted_unique) (simp_all add: rebuilt_def restored_index)
  have rt: "fdb_root d = Some (restored_root r)"
    using d(2) by (simp add: rebuilt_def)
  let ?h = "if bhs_id h = bhs_id r then restored_root r else restored h"
  have found: "(if bhs_id (restored_root r) = bhs_id h then Inr (restored_root r) else of_option fork_database_exception (get_block d (bhs_id h))) = Inr ?h"
  proof (cases "bhs_id h = bhs_id r")
    case False
    then have "h \<in> set ?idx"
      using w(4) by auto
    then have "get_block d (bhs_id (restored h)) = Some (restored h)"
      using get_block_in [of d "restored h"] idx dd by (simp add: restored_index comp_def)
    then show ?thesis
      using False by simp
  qed simp
  have check: "(if (case fdb_index d of [] \<Rightarrow> True | candidate # _ \<Rightarrow> \<not> is_valid candidate)
      then eos_assert (bhs_id ?h = bhs_id (restored_root r)) fork_database_exception
      else eos_assert (\<not> first_preferred (hd (fdb_index d)) ?h) fork_database_exception) = Inr ()"
  proof (cases "\<exists>b\<in>set ?idx. is_valid b")
    case True
    then obtain c cs where c: "?idx = c # cs" "is_valid c"
      using index_sorted_hd [OF w(2)] by (cases ?idx) auto
    have "\<not> first_preferred c ?h"
      using w(6) [of c] c rooted_id [OF w(3,4), of r] by (cases "bhs_id h = bhs_id r") simp_all
    then show ?thesis
      using c idx by simp
  next
    case False
    then have "h = r"
      using w(4,5) by auto
    then show ?thesis
      using False idx by (cases ?idx) auto
  qed
  have "fdb_open env validator (Some ?file) fork_database_init = Inr (d\<lparr>fdb_head := Some ?h\<rparr>)"
    using d(1) rt found check by (simp add: fdb_open_def deref_def min_supported_version_def max_supported_version_def)
  moreover have "d\<lparr>fdb_head := Some ?h\<rparr> = \<lparr>fdb_index = map restored ?idx, fdb_root = Some (restored_root r), fdb_head = Some ?h\<rparr>"
    using idx rt by (cases d) simp
  ultimately show ?thesis
    using close by auto
qed

section \<open>A concrete fork\<close>

text \<open>The genesis as the root and two blocks built on it, the first of them validated.\<close>

definition sample_root :: block_state where
  "sample_root = (make_block_state sample_genesis None False [])\<lparr>validated := True\<rparr>"

definition sample_child :: "u64 \<Rightarrow> bool \<Rightarrow> block_state" where
  "sample_child k v = (make_block_state (sample_genesis\<lparr>block_num := 2, bhs_id := (bhs_id sample_genesis)\<lparr>dg3 := dg3 (bhs_id sample_genesis) + k\<rparr>,
     header := (header sample_genesis)\<lparr>hdr_previous := bhs_id sample_genesis\<rparr>\<rparr>) (Some sample_block) False [])\<lparr>validated := v\<rparr>"

definition sample_fork :: fork_database where
  "sample_fork = \<lparr>fdb_index = [sample_child 1 True, sample_child 2 False], fdb_root = Some sample_root, fdb_head = Some (sample_child 1 True)\<rparr>"

lemma sample_child_simps [simp]:
  "bhs_id sample_root = bhs_id sample_genesis" "is_valid sample_root" "block_num sample_root = 1"
  "bhs_id (sample_child k v) = (bhs_id sample_genesis)\<lparr>dg3 := dg3 (bhs_id sample_genesis) + k\<rparr>" "prev (sample_child k v) = bhs_id sample_genesis"
  "block_num (sample_child k v) = 2" "is_valid (sample_child k v) = v" "bs_block (sample_child k v) = Some sample_block" "header_exts (sample_child k v) = []"
  "dpos_irreversible_blocknum (sample_child k v) = 0" "dpos_irreversible_blocknum sample_root = 0" "validated (sample_child k v) = v"
  by (simp_all add: sample_root_def sample_child_def make_block_state_def block_header_state.defs block_state.defs is_valid_def prev_def
      sample_genesis_def genesis_header_state_def genesis_header_def Let_def header_block_num_def num_from_id_def sample_env_def byte_swap_0 toy_digest_def)

lemma sample_ids: "d\<lparr>dg3 := dg3 d + k\<rparr> = d\<lparr>dg3 := dg3 d + l\<rparr> \<longleftrightarrow> k = l" "d\<lparr>dg3 := dg3 d + k\<rparr> = d \<longleftrightarrow> k = 0" "d = d\<lparr>dg3 := dg3 d + k\<rparr> \<longleftrightarrow> k = 0"
  for d :: digest
  by (cases d, simp)+

lemma sample_fork_wf: "fdb_wf sample_fork"
  by (rule fdb_wfI [of _ sample_root "sample_child 1 True"])
    (auto simp: sample_fork_def index_sorted_def rooted_def sample_ids by_lib_less_def links_def first_preferred_def)

lemma sample_fork_simps: "fdb_root sample_fork = Some sample_root" "fdb_head sample_fork = Some (sample_child 1 True)"
  "fdb_index sample_fork = [sample_child 1 True, sample_child 2 False]"
  "get_block sample_fork (bhs_id (sample_child 1 True)) = Some (sample_child 1 True)"
  "get_block sample_fork (bhs_id (sample_child 2 False)) = Some (sample_child 2 False)"
  by (simp_all add: sample_fork_def get_block_def index_find_def sample_ids)

theorem fetch_branch_correct_witness:
  "\<exists>bs. fetch_branch sample_fork (bhs_id (sample_child 2 False)) 5 = Some bs \<and> length bs = 1"
proof -
  obtain bs where bs: "chain_to (fdb_index sample_fork) (bhs_id (sample_child 2 False)) bs (bhs_id sample_root)"
    "block_num (sample_child 2 False) = block_num sample_root + length bs"
    "fetch_branch sample_fork (bhs_id (sample_child 2 False)) 5 = Some (filter (\<lambda>x. block_num x \<le> 5) bs)"
    using fetch_branch_correct [OF sample_fork_wf sample_fork_simps(1,5)] by blast
  have "set bs \<subseteq> set (fdb_index sample_fork)"
    using chain_member(1) [OF bs(1)] by blast
  then have "filter (\<lambda>x. block_num x \<le> 5) bs = bs"
    by (intro filter_True) (auto simp: sample_fork_simps)
  then show ?thesis
    using bs by simp
qed

theorem fetch_branch_from_correct_witness:
  "\<exists>br1 br2. fetch_branch_from sample_fork (bhs_id (sample_child 1 True)) (bhs_id (sample_child 2 False)) = Some (Inr (br1, br2)) \<and> set br1 \<inter> set br2 = {}"
proof -
  have "root_or_block sample_fork sample_root (bhs_id (sample_child 1 True)) = Some (sample_child 1 True)"
    "root_or_block sample_fork sample_root (bhs_id (sample_child 2 False)) = Some (sample_child 2 False)"
    using sample_fork_simps(4,5) by (simp_all add: root_or_block_def sample_ids)
  from fetch_branch_from_correct [OF sample_fork_wf sample_fork_simps(1) this] show ?thesis
    by blast
qed

theorem advance_root_correct_witness:
  "\<exists>db. advance_root sample_fork (bhs_id (sample_child 1 True)) = Some (Inr db) \<and> fdb_root db = Some (sample_child 1 True)"
  using advance_root_correct [OF sample_fork_wf sample_fork_simps(4) _ sample_fork_simps(2)] by (simp add: descends.self)

text \<open>The first child is the head; a second, validated one has a child of its own.\<close>

definition sample_grandchild :: block_state where
  "sample_grandchild = (sample_child 3 False)\<lparr>block_num := 3,
     header := (header (sample_child 3 False))\<lparr>hdr_previous := bhs_id (sample_child 2 True)\<rparr>\<rparr>"

definition sample_orphan_fork :: fork_database where
  "sample_orphan_fork = \<lparr>fdb_index = [sample_child 1 True, sample_child 2 True, sample_grandchild],
     fdb_root = Some sample_root, fdb_head = Some (sample_child 1 True)\<rparr>"

lemma sample_grandchild_simps [simp]:
  "bhs_id sample_grandchild = (bhs_id sample_genesis)\<lparr>dg3 := dg3 (bhs_id sample_genesis) + 3\<rparr>"
  "prev sample_grandchild = (bhs_id sample_genesis)\<lparr>dg3 := dg3 (bhs_id sample_genesis) + 2\<rparr>"
  "block_num sample_grandchild = 3" "is_valid sample_grandchild = False" "dpos_irreversible_blocknum sample_grandchild = 0"
  by (simp_all add: sample_grandchild_def prev_def is_valid_def)

lemma sample_genesis_word: "dg3 (bhs_id sample_genesis) + 1 < dg3 (bhs_id sample_genesis) + 2"
  by (simp add: sample_genesis_def genesis_header_state_def Let_def header_id_def header_digest_def genesis_header_def
      sample_env_def toy_digest_def)

theorem advance_root_throw_orphans_witness:
  "\<exists>db'. advance_root_call sample_orphan_fork (bhs_id (sample_child 2 True)) = Some (db', Inl fork_database_exception)
     \<and> sample_grandchild \<in> set (fdb_index db') \<and> \<not> fdb_wf db'"
proof -
  have wf: "fdb_wf sample_orphan_fork"
    by (rule fdb_wfI [of _ sample_root "sample_child 1 True"])
      (auto simp: sample_orphan_fork_def index_sorted_def rooted_def sample_ids by_lib_less_def links_def first_preferred_def
        sha256_less_def sample_genesis_word)
  have nb: "get_block sample_orphan_fork (bhs_id (sample_child 2 True)) = Some (sample_child 2 True)" "is_valid (sample_child 2 True)"
    by (simp_all add: sample_orphan_fork_def get_block_def index_find_def sample_ids)
  have "\<not> descends (fdb_index sample_orphan_fork) (bhs_id (sample_child 2 True)) (bhs_id (sample_child 1 True))"
  proof
    assume "descends (fdb_index sample_orphan_fork) (bhs_id (sample_child 2 True)) (bhs_id (sample_child 1 True))"
    then show False
    proof cases
      case (child b)
      then have "descends (fdb_index sample_orphan_fork) (bhs_id (sample_child 2 True)) (bhs_id sample_genesis)"
        by (auto simp: sample_orphan_fork_def sample_ids)
      then show False
        by cases (auto simp: sample_orphan_fork_def sample_ids)
    qed (simp add: sample_ids)
  qed
  from advance_root_throw_orphans [OF wf nb _ this, of sample_grandchild] show ?thesis
    by (auto simp: sample_orphan_fork_def)
qed

theorem fdb_remove_correct_witness:
  "fdb_remove sample_fork (bhs_id (sample_child 1 True)) = Some (Inl fork_database_exception)"
  using fdb_remove_correct [OF sample_fork_wf sample_fork_simps(2), of "bhs_id (sample_child 1 True)"] by (simp add: descends.self)

theorem fork_database_invariant_witness:
  "\<exists>db. fdb_add (fdb_reset sample_genesis) (sample_child 1 False) False = Inr db \<and> fdb_wf db \<and> fdb_index db = [sample_child 1 False]"
proof -
  have root: "fdb_root (fdb_reset sample_genesis) = Some sample_root" "get_block_header (fdb_reset sample_genesis) (prev (sample_child 1 False)) = Inr (Some sample_root)"
    by (simp_all add: fdb_reset_def sample_root_def Let_def get_block_header_def deref_def del: sample_child_simps(1))
      (simp add: make_block_state_def block_header_state.defs block_state.defs)
  have add: "fdb_add (fdb_reset sample_genesis) (sample_child 1 False) False = Inr ((fdb_reset sample_genesis)\<lparr>fdb_index := [sample_child 1 False]\<rparr>)"
    using root by (simp add: fdb_add_def fdb_add_impl_def Let_def get_block_def index_find_def) (simp add: fdb_reset_def Let_def)
  have "links (sample_child 1 False) sample_root" "bhs_id (sample_child 1 False) \<noteq> bhs_id sample_root"
    by (simp_all add: links_def sample_ids)
  then have "fdb_step (fdb_reset sample_genesis) ((fdb_reset sample_genesis)\<lparr>fdb_index := [sample_child 1 False]\<rparr>)"
    using fdb_step.add_block [OF add root(2) _ root(1)] by blast
  from fork_database_invariant [OF fdb_reachable.step [OF fdb_reachable.init this]] show ?thesis
    using add by simp
qed

theorem fork_database_file_roundtrip_witness:
  "\<exists>file db. fdb_close sample_fork = (Some file, sample_fork\<lparr>fdb_index := []\<rparr>)
     \<and> fdb_open sample_env (\<lambda>_ _ _. Inr ()) (Some file) fork_database_init = Inr db \<and> map bhs_id (fdb_index db) = map bhs_id (fdb_index sample_fork)"
proof -
  have "lib_grows sample_fork sample_root"
    by (simp add: lib_grows_def sample_fork_simps)
  moreover have "validate_and_extract_header_extensions sample_env sample_block = Inr []"
    by (simp add: validate_and_extract_header_extensions_def sample_block_def sample_header_def signed_block_header.defs signed_block.defs)
  then have "readable sample_env (\<lambda>_ _ _. Inr ()) sample_fork sample_root"
    by (simp add: readable_def sample_fork_simps validate_added_def ext_count_def)
  ultimately show ?thesis
    using fork_database_file_roundtrip [OF sample_fork_wf sample_fork_simps(1,2)] by fastforce
qed

end
