(* ===== verification/Protocol_Features.thy ===== *)
theory Protocol_Features
  imports Block_Header
begin

text \<open>
  Protocol features (\<^verbatim>\<open>protocol_feature_manager.hpp\<close>, \<^verbatim>\<open>protocol_feature_manager.cpp\<close>): the table of builtin
  features, the set of recognised features and the manager that records which are active since
  which block. The manager keeps the active builtin features in a list threaded through a vector
  by indices, so that a switch to another fork can drop the latest activations.

  The set of recognised features is the list of them in the order of their addition; the order of
  their digests, in which the code iterates, has no effect on any operation. An iterator into the
  set is the digest of the element it stands at, \<open>None\<close> for the end iterator. Hashing, and the
  reading of digests written in hexadecimal, belong to \<^verbatim>\<open>fc\<close> and are the fields of \<open>feature_env\<close>.
\<close>

datatype protocol_feature_t = builtin

record protocol_feature_subjective_restrictions =
  sr_earliest_allowed_activation_time :: time_point
  sr_preactivation_required :: bool
  sr_enabled :: bool

record builtin_protocol_feature_spec =
  spec_codename :: string
  spec_description_digest :: digest
  spec_builtin_dependencies :: "builtin_protocol_feature_t list"
  spec_subjective_restrictions :: protocol_feature_subjective_restrictions

record feature_env =
  digest_of_hex :: "string \<Rightarrow> digest"
  hash_feature :: "protocol_feature_t \<Rightarrow> digest \<Rightarrow> digest set \<Rightarrow> builtin_protocol_feature_t \<Rightarrow> digest"

section \<open>Builtin features\<close>

text \<open>The restrictions of a specification that gives none, and those of the first feature.\<close>

definition default_restrictions :: protocol_feature_subjective_restrictions where
  "default_restrictions = \<lparr>sr_earliest_allowed_activation_time = 0, sr_preactivation_required = True, sr_enabled = True\<rparr>"

definition ready_restrictions :: protocol_feature_subjective_restrictions where
  "ready_restrictions = \<lparr>sr_earliest_allowed_activation_time = 0, sr_preactivation_required = False, sr_enabled = True\<rparr>"

definition builtin_protocol_feature_codenames ::
    "feature_env \<Rightarrow> (builtin_protocol_feature_t \<times> builtin_protocol_feature_spec) list" where
  "builtin_protocol_feature_codenames env =
     (let spec = (\<lambda>codename hex deps.
        \<lparr>spec_codename = codename, spec_description_digest = digest_of_hex env hex,
         spec_builtin_dependencies = deps, spec_subjective_restrictions = default_restrictions\<rparr>)
      in
     [(preactivate_feature,
       (spec ''PREACTIVATE_FEATURE'' ''64fe7df32e9b86be2b296b3f81dfd527f84e82b98e363bc97e40bc7a83733310'' [])
         \<lparr>spec_subjective_restrictions := ready_restrictions\<rparr>),
      (only_link_to_existing_permission,
       spec ''ONLY_LINK_TO_EXISTING_PERMISSION'' ''f3c3d91c4603cde2397268bfed4e662465293aab10cd9416db0d442b8cec2949'' []),
      (replace_deferred,
       spec ''REPLACE_DEFERRED'' ''9908b3f8413c8474ab2a6be149d3f4f6d0421d37886033f27d4759c47a26d944'' []),
      (no_duplicate_deferred_id,
       spec ''NO_DUPLICATE_DEFERRED_ID'' ''45967387ee92da70171efd9fefd1ca8061b5efe6f124d269cd2468b47f1575a0'' [replace_deferred]),
      (fix_linkauth_restriction,
       spec ''FIX_LINKAUTH_RESTRICTION'' ''a98241c83511dc86c857221b9372b4aa7cea3aaebc567a48604e1d3db3557050'' []),
      (disallow_empty_producer_schedule,
       spec ''DISALLOW_EMPTY_PRODUCER_SCHEDULE'' ''2853617cec3eabd41881eb48882e6fc5e81a0db917d375057864b3befbe29acd'' []),
      (restrict_action_to_self,
       spec ''RESTRICT_ACTION_TO_SELF'' ''e71b6712188391994c78d8c722c1d42c477cf091e5601b5cf1befd05721a57f3'' []),
      (only_bill_first_authorizer,
       spec ''ONLY_BILL_FIRST_AUTHORIZER'' ''2f1f13e291c79da5a2bbad259ed7c1f2d34f697ea460b14b565ac33b063b73e2'' []),
      (forward_setcode,
       spec ''FORWARD_SETCODE'' ''898082c59f921d0042e581f00a59d5ceb8be6f1d9c7a45b6f07c0e26eaee0222'' []),
      (get_sender,
       spec ''GET_SENDER'' ''1eab748b95a2e6f4d7cb42065bdee5566af8efddf01a55a0a8d831b823f8828a'' []),
      (ram_restrictions,
       spec ''RAM_RESTRICTIONS'' ''1812fdb5096fd854a4958eb9d53b43219d114de0e858ce00255bd46569ad2c68'' []),
      (webauthn_key,
       spec ''WEBAUTHN_KEY'' ''927fdf78c51e77a899f2db938249fb1f8bb38f4e43d9c1f75b190492080cbc34'' []),
      (wtmsig_block_signatures,
       spec ''WTMSIG_BLOCK_SIGNATURES'' ''ab76031cad7a457f4fd5f5fca97a3f03b8a635278e0416f77dcc91eb99a48e10'' [])])"

text \<open>The underlying value of an enumerator.\<close>

fun feature_index :: "builtin_protocol_feature_t \<Rightarrow> nat" where
  "feature_index preactivate_feature = 0"
| "feature_index only_link_to_existing_permission = 1"
| "feature_index replace_deferred = 2"
| "feature_index no_duplicate_deferred_id = 3"
| "feature_index fix_linkauth_restriction = 4"
| "feature_index disallow_empty_producer_schedule = 5"
| "feature_index restrict_action_to_self = 6"
| "feature_index only_bill_first_authorizer = 7"
| "feature_index forward_setcode = 8"
| "feature_index get_sender = 9"
| "feature_index ram_restrictions = 10"
| "feature_index webauthn_key = 11"
| "feature_index wtmsig_block_signatures = 12"

definition find_spec :: "feature_env \<Rightarrow> builtin_protocol_feature_t \<Rightarrow> builtin_protocol_feature_spec option" where
  "find_spec env codename = map_of (builtin_protocol_feature_codenames env) codename"

definition builtin_protocol_feature_codename :: "feature_env \<Rightarrow> builtin_protocol_feature_t \<Rightarrow> string result" where
  "builtin_protocol_feature_codename env codename =
     bind_r (of_option protocol_feature_validation_exception (find_spec env codename)) (\<lambda>spec. Inr (spec_codename spec))"

record protocol_feature_base =
  pfb_protocol_feature_type :: string
  pfb_description_digest :: digest
  pfb_dependencies :: "digest set"
  pfb_subjective_restrictions :: protocol_feature_subjective_restrictions
  pfb_type :: protocol_feature_t

record builtin_protocol_feature = protocol_feature_base +
  bpf_builtin_feature_codename :: string
  bpf_codename :: builtin_protocol_feature_t

definition feature_type_string :: string where
  "feature_type_string = ''builtin''"

text \<open>The constructor, with that of the base class.\<close>

definition make_builtin_protocol_feature ::
    "feature_env \<Rightarrow> builtin_protocol_feature_t \<Rightarrow> digest \<Rightarrow> digest set \<Rightarrow> protocol_feature_subjective_restrictions
       \<Rightarrow> builtin_protocol_feature result" where
  "make_builtin_protocol_feature env codename description_digest dependencies restrictions =
     bind_r (of_option protocol_feature_validation_exception (find_spec env codename)) (\<lambda>spec.
       Inr \<lparr>pfb_protocol_feature_type = feature_type_string, pfb_description_digest = description_digest,
            pfb_dependencies = dependencies, pfb_subjective_restrictions = restrictions, pfb_type = builtin,
            bpf_builtin_feature_codename = spec_codename spec, bpf_codename = codename\<rparr>)"

definition base_reflector_init :: "'a protocol_feature_base_scheme \<Rightarrow> 'a protocol_feature_base_scheme result" where
  "base_reflector_init f =
     (if pfb_protocol_feature_type f = feature_type_string then Inr (f\<lparr>pfb_type := builtin\<rparr>)
      else Inl protocol_feature_validation_exception)"

text \<open>After unpacking: the enumerator whose codename was read. Codenames are distinct, so the order of
  the hash map the code iterates over does not matter.\<close>

definition builtin_reflector_init :: "feature_env \<Rightarrow> builtin_protocol_feature \<Rightarrow> builtin_protocol_feature result" where
  "builtin_reflector_init env f =
     bind_r (base_reflector_init f) (\<lambda>f.
       (case List.find (\<lambda>p. spec_codename (snd p) = bpf_builtin_feature_codename f) (builtin_protocol_feature_codenames env) of
          Some p \<Rightarrow> Inr (f\<lparr>bpf_codename := fst p\<rparr>)
        | None \<Rightarrow> Inl protocol_feature_validation_exception))"

definition feature_digest_of :: "feature_env \<Rightarrow> builtin_protocol_feature \<Rightarrow> digest" where
  "feature_digest_of env f = hash_feature env (pfb_type f) (pfb_description_digest f) (pfb_dependencies f) (bpf_codename f)"

section \<open>The set of recognised features\<close>

record protocol_feature =
  pf_feature_digest :: digest
  pf_description_digest :: digest
  pf_dependencies :: "digest set"
  pf_earliest_allowed_activation_time :: time_point
  pf_preactivation_required :: bool
  pf_enabled :: bool
  pf_builtin_feature :: "builtin_protocol_feature_t option"

record protocol_feature_set =
  recognized_protocol_features :: "protocol_feature list"
  recognized_builtin_protocol_features :: "digest option list"

definition protocol_feature_set_init :: protocol_feature_set where
  "protocol_feature_set_init = \<lparr>recognized_protocol_features = [], recognized_builtin_protocol_features = []\<rparr>"

definition find_feature :: "protocol_feature_set \<Rightarrow> digest \<Rightarrow> protocol_feature option" where
  "find_feature pfs d = List.find (\<lambda>f. pf_feature_digest f = d) (recognized_protocol_features pfs)"

datatype recognized_t = unrecognized | disabled | too_early | ready

definition is_recognized :: "protocol_feature_set \<Rightarrow> digest \<Rightarrow> time_point \<Rightarrow> recognized_t" where
  "is_recognized pfs feature_digest now =
     (case find_feature pfs feature_digest of
        None \<Rightarrow> unrecognized
      | Some f \<Rightarrow> if \<not> pf_enabled f then disabled
                  else if pf_earliest_allowed_activation_time f > now then too_early
                  else ready)"

definition get_builtin_digest :: "protocol_feature_set \<Rightarrow> builtin_protocol_feature_t \<Rightarrow> digest option" where
  "get_builtin_digest pfs feature_codename =
     (let indx = feature_index feature_codename in
      if indx \<ge> length (recognized_builtin_protocol_features pfs) then None
      else (case recognized_builtin_protocol_features pfs ! indx of
              None \<Rightarrow> None
            | Some d \<Rightarrow> map_option pf_feature_digest (find_feature pfs d)))"

definition get_protocol_feature :: "protocol_feature_set \<Rightarrow> digest \<Rightarrow> protocol_feature result" where
  "get_protocol_feature pfs feature_digest = of_option protocol_feature_exception (find_feature pfs feature_digest)"

definition validate_dependencies :: "protocol_feature_set \<Rightarrow> digest \<Rightarrow> (digest \<Rightarrow> bool) \<Rightarrow> bool" where
  "validate_dependencies pfs feature_digest validator =
     (case find_feature pfs feature_digest of
        None \<Rightarrow> False
      | Some f \<Rightarrow> \<forall>d\<in>pf_dependencies f. validator d)"

definition make_default_builtin_protocol_feature ::
    "feature_env \<Rightarrow> builtin_protocol_feature_t \<Rightarrow> (builtin_protocol_feature_t \<Rightarrow> digest) \<Rightarrow> builtin_protocol_feature result" where
  "make_default_builtin_protocol_feature env codename handle_dependency =
     bind_r (of_option protocol_feature_validation_exception (find_spec env codename)) (\<lambda>spec.
       make_builtin_protocol_feature env codename (spec_description_digest spec)
         (handle_dependency ` set (spec_builtin_dependencies spec)) (spec_subjective_restrictions spec))"

text \<open>The expected builtin dependencies that some listed dependency is.\<close>

definition satisfied_builtin_dependencies ::
    "protocol_feature_set \<Rightarrow> digest set \<Rightarrow> builtin_protocol_feature_t list \<Rightarrow> builtin_protocol_feature_t list" where
  "satisfied_builtin_dependencies pfs dependencies expected =
     filter (\<lambda>b. \<exists>d\<in>dependencies. (case find_feature pfs d of
                                              None \<Rightarrow> False
                                            | Some f \<Rightarrow> pf_builtin_feature f = Some b)) expected"

text \<open>Growing the vector of builtin features by end iterators up to an index, then writing there.\<close>

definition set_builtin :: "nat \<Rightarrow> digest \<Rightarrow> digest option list \<Rightarrow> digest option list" where
  "set_builtin indx d v = (v @ replicate (indx + 1 - length v) None)[indx := Some d]"

definition add_feature ::
    "feature_env \<Rightarrow> builtin_protocol_feature \<Rightarrow> protocol_feature_set \<Rightarrow> protocol_feature_set result" where
  "add_feature env f pfs =
     bind_r (of_option protocol_feature_validation_exception (find_spec env (bpf_codename f))) (\<lambda>spec.
     (let indx = feature_index (bpf_codename f);
          builtins = recognized_builtin_protocol_features pfs;
          feature_digest = feature_digest_of env f;
          expected = spec_builtin_dependencies spec
      in
     bind_r (eos_assert (indx < length builtins \<longrightarrow> builtins ! indx = None) protocol_feature_exception) (\<lambda>_.
     bind_r (eos_assert (\<forall>d\<in>pfb_dependencies f. find_feature pfs d \<noteq> None) protocol_feature_exception) (\<lambda>_.
     bind_r (eos_assert (length expected \<le> length (satisfied_builtin_dependencies pfs (pfb_dependencies f) expected))
               protocol_feature_validation_exception) (\<lambda>_.
     bind_r (eos_assert (find_feature pfs feature_digest = None) protocol_feature_exception) (\<lambda>_.
       Inr \<lparr>recognized_protocol_features = recognized_protocol_features pfs @
              [\<lparr>pf_feature_digest = feature_digest, pf_description_digest = pfb_description_digest f,
                pf_dependencies = pfb_dependencies f,
                pf_earliest_allowed_activation_time = sr_earliest_allowed_activation_time (pfb_subjective_restrictions f),
                pf_preactivation_required = sr_preactivation_required (pfb_subjective_restrictions f),
                pf_enabled = sr_enabled (pfb_subjective_restrictions f),
                pf_builtin_feature = Some (bpf_codename f)\<rparr>],
            recognized_builtin_protocol_features = set_builtin indx feature_digest builtins\<rparr>))))))"

section \<open>The manager\<close>

definition no_previous :: nat where
  "no_previous = u64_max"

definition not_active :: nat where
  "not_active = u32_max"

record protocol_feature_entry =
  pfe_feature :: digest
  pfe_activation_block_num :: nat

record builtin_protocol_feature_entry =
  bpfe_previous :: nat
  bpfe_activation_block_num :: nat

record protocol_feature_manager =
  pfm_protocol_feature_set :: protocol_feature_set
  activated_protocol_features_list :: "protocol_feature_entry list"
  builtin_protocol_features :: "builtin_protocol_feature_entry list"
  head_of_builtin_activation_list :: nat
  pfm_initialized :: bool

definition inactive_entry :: builtin_protocol_feature_entry where
  "inactive_entry = \<lparr>bpfe_previous = no_previous, bpfe_activation_block_num = not_active\<rparr>"

definition make_protocol_feature_manager :: "protocol_feature_set \<Rightarrow> protocol_feature_manager" where
  "make_protocol_feature_manager pfs =
     \<lparr>pfm_protocol_feature_set = pfs, activated_protocol_features_list = [],
      builtin_protocol_features = replicate (length (recognized_builtin_protocol_features pfs)) inactive_entry,
      head_of_builtin_activation_list = no_previous, pfm_initialized = False\<rparr>"

definition activate_feature :: "digest \<Rightarrow> nat \<Rightarrow> protocol_feature_manager \<Rightarrow> protocol_feature_manager result" where
  "activate_feature feature_digest current_block_num m =
     bind_r (eos_assert (pfm_initialized m) protocol_feature_exception) (\<lambda>_.
     bind_r (of_option protocol_feature_exception (find_feature (pfm_protocol_feature_set m) feature_digest)) (\<lambda>f.
     bind_r (eos_assert (activated_protocol_features_list m \<noteq> [] \<longrightarrow>
                           pfe_activation_block_num (last (activated_protocol_features_list m)) \<le> current_block_num)
               protocol_feature_exception) (\<lambda>_.
     bind_r (of_option protocol_feature_exception (pf_builtin_feature f)) (\<lambda>b.
     (let indx = feature_index b; entries = builtin_protocol_features m in
     bind_r (eos_assert (indx < length entries) protocol_feature_exception) (\<lambda>_.
     bind_r (eos_assert (bpfe_activation_block_num (entries ! indx) = not_active) protocol_feature_exception) (\<lambda>_.
       Inr (m\<lparr>activated_protocol_features_list := activated_protocol_features_list m @
                 [\<lparr>pfe_feature = pf_feature_digest f, pfe_activation_block_num = current_block_num\<rparr>],
              builtin_protocol_features := entries[indx :=
                 \<lparr>bpfe_previous = head_of_builtin_activation_list m, bpfe_activation_block_num = current_block_num\<rparr>],
              head_of_builtin_activation_list := indx\<rparr>))))))))"

text \<open>\<^verbatim>\<open>init\<close>, with the activations recorded in the protocol state.\<close>

definition pfm_init :: "(digest \<times> nat) list \<Rightarrow> protocol_feature_manager \<Rightarrow> protocol_feature_manager result" where
  "pfm_init activated m =
     bind_r (eos_assert (\<not> pfm_initialized m) protocol_feature_exception) (\<lambda>_.
       fold_r (\<lambda>(d, n) m. activate_feature d n m) activated (m\<lparr>pfm_initialized := True\<rparr>))"

definition is_builtin_activated :: "protocol_feature_manager \<Rightarrow> builtin_protocol_feature_t \<Rightarrow> nat \<Rightarrow> bool" where
  "is_builtin_activated m feature_codename current_block_num =
     (let indx = feature_index feature_codename in
      if indx \<ge> length (builtin_protocol_features m) then False
      else bpfe_activation_block_num (builtin_protocol_features m ! indx) \<le> current_block_num)"

text \<open>
  The two loops of \<^verbatim>\<open>popped_blocks_to\<close>. The first follows the links of the vector and ends only if
  they do; it reads out of bounds where a link leaves the vector.
\<close>

partial_function (option) pop_builtins_loop ::
    "nat \<Rightarrow> builtin_protocol_feature_entry list \<Rightarrow> nat \<Rightarrow> (builtin_protocol_feature_entry list \<times> nat) result option" where
  "pop_builtins_loop block_num entries head =
     (if head = no_previous then Some (Inr (entries, head))
      else if head \<ge> length entries then Some (Inl undefined_behaviour)
      else if bpfe_activation_block_num (entries ! head) \<le> block_num then Some (Inr (entries, head))
      else pop_builtins_loop block_num (entries[head := inactive_entry]) (bpfe_previous (entries ! head)))"

function pop_activated_loop :: "nat \<Rightarrow> protocol_feature_entry list \<Rightarrow> protocol_feature_entry list" where
  "pop_activated_loop block_num es =
     (if es \<noteq> [] \<and> block_num < pfe_activation_block_num (last es) then pop_activated_loop block_num (butlast es) else es)"
  by auto
termination by (relation "measure (\<lambda>(_, es). length es)") auto

declare pop_activated_loop.simps [simp del]

definition popped_blocks_to :: "nat \<Rightarrow> protocol_feature_manager \<Rightarrow> protocol_feature_manager result option" where
  "popped_blocks_to block_num m =
     (if \<not> pfm_initialized m then Some (Inl protocol_feature_exception)
      else map_option (\<lambda>r. bind_r r (\<lambda>(entries, head).
             Inr (m\<lparr>builtin_protocol_features := entries, head_of_builtin_activation_list := head,
                    activated_protocol_features_list := pop_activated_loop block_num (activated_protocol_features_list m)\<rparr>)))
             (pop_builtins_loop block_num (builtin_protocol_features m) (head_of_builtin_activation_list m)))"

section \<open>Iteration over the activations\<close>

text \<open>An iterator is the index it holds, or none for a default-constructed one.\<close>

definition end_index :: nat where
  "end_index = u64_max"

definition pfm_cend :: "nat option" where
  "pfm_cend = Some end_index"

definition pfm_cbegin :: "protocol_feature_manager \<Rightarrow> nat option" where
  "pfm_cbegin m = (if length (activated_protocol_features_list m) = 0 then pfm_cend else Some 0)"

definition pfm_get_pointer :: "protocol_feature_manager \<Rightarrow> nat option \<Rightarrow> protocol_feature result" where
  "pfm_get_pointer m itr =
     (case itr of
        None \<Rightarrow> Inl undefined_behaviour
      | Some i \<Rightarrow> if i < length (activated_protocol_features_list m)
                  then of_option undefined_behaviour
                         (find_feature (pfm_protocol_feature_set m) (pfe_feature (activated_protocol_features_list m ! i)))
                  else Inl undefined_behaviour)"

definition itr_activation_ordinal :: "nat option \<Rightarrow> nat result" where
  "itr_activation_ordinal itr =
     bind_r (of_option protocol_feature_iterator_exception itr) (\<lambda>i.
     bind_r (eos_assert (i \<noteq> end_index) protocol_feature_iterator_exception) (\<lambda>_. Inr (i mod 2 ^ 32)))"

definition itr_activation_block_num :: "protocol_feature_manager \<Rightarrow> nat option \<Rightarrow> nat result" where
  "itr_activation_block_num m itr =
     bind_r (of_option protocol_feature_iterator_exception itr) (\<lambda>i.
     bind_r (eos_assert (i \<noteq> end_index) protocol_feature_iterator_exception) (\<lambda>_.
       if i < length (activated_protocol_features_list m)
       then Inr (pfe_activation_block_num (activated_protocol_features_list m ! i)) else Inl undefined_behaviour))"

definition itr_increment :: "protocol_feature_manager \<Rightarrow> nat option \<Rightarrow> nat option result" where
  "itr_increment m itr =
     bind_r (of_option protocol_feature_iterator_exception itr) (\<lambda>i.
     bind_r (eos_assert (i \<noteq> end_index) protocol_feature_iterator_exception) (\<lambda>_.
       Inr (Some (if i + 1 \<ge> length (activated_protocol_features_list m) then end_index else i + 1))))"

definition itr_decrement :: "protocol_feature_manager \<Rightarrow> nat option \<Rightarrow> nat option result" where
  "itr_decrement m itr =
     bind_r (of_option protocol_feature_iterator_exception itr) (\<lambda>i.
       if i = end_index
       then bind_r (eos_assert (length (activated_protocol_features_list m) > 0) protocol_feature_iterator_exception) (\<lambda>_.
              Inr (Some (length (activated_protocol_features_list m) - 1)))
       else bind_r (eos_assert (i > 0) protocol_feature_iterator_exception) (\<lambda>_. Inr (Some (i - 1))))"

definition at_activation_ordinal :: "protocol_feature_manager \<Rightarrow> nat \<Rightarrow> nat option" where
  "at_activation_ordinal m activation_ordinal =
     (if activation_ordinal \<ge> length (activated_protocol_features_list m) then pfm_cend else Some activation_ordinal)"

text \<open>The binary search of the standard library: the first element that does not satisfy \<open>p\<close>.\<close>

function partition_search :: "('a \<Rightarrow> bool) \<Rightarrow> 'a list \<Rightarrow> nat \<Rightarrow> nat \<Rightarrow> nat" where
  "partition_search p xs first len =
     (if len = 0 then first
      else (let half = len div 2; middle = first + half in
            if p (xs ! middle) then partition_search p xs (middle + 1) (len - half - 1)
            else partition_search p xs first half))"
  by auto
termination by (relation "measure (\<lambda>(p, xs, first, len). len)") auto

declare partition_search.simps [simp del]

definition pfm_lower_bound :: "protocol_feature_manager \<Rightarrow> nat \<Rightarrow> nat option" where
  "pfm_lower_bound m block_num =
     (let es = activated_protocol_features_list m;
          i = partition_search (\<lambda>e. pfe_activation_block_num e < block_num) es 0 (length es)
      in if i = length es then pfm_cend else Some i)"

definition pfm_upper_bound :: "protocol_feature_manager \<Rightarrow> nat \<Rightarrow> nat option" where
  "pfm_upper_bound m block_num =
     (let es = activated_protocol_features_list m;
          i = partition_search (\<lambda>e. \<not> block_num < pfe_activation_block_num e) es 0 (length es)
      in if i = length es then pfm_cend else Some i)"

section \<open>Feature sets\<close>

text \<open>
  Well-formed sets: no digest twice, every feature a builtin one registered under its own index,
  every dependency of a feature added before the feature, and the builtin dependencies of its
  specification among them.
\<close>

definition pfs_wf :: "protocol_feature_set \<Rightarrow> bool" where
  "pfs_wf pfs \<longleftrightarrow>
     distinct (map pf_feature_digest (recognized_protocol_features pfs)) \<and>
     (\<forall>b d. feature_index b < length (recognized_builtin_protocol_features pfs) \<and>
              recognized_builtin_protocol_features pfs ! feature_index b = Some d \<longleftrightarrow>
            (\<exists>f\<in>set (recognized_protocol_features pfs). pf_feature_digest f = d \<and> pf_builtin_feature f = Some b)) \<and>
     (\<forall>f\<in>set (recognized_protocol_features pfs). pf_builtin_feature f \<noteq> None)"

definition pfs_ordered :: "feature_env \<Rightarrow> protocol_feature_set \<Rightarrow> bool" where
  "pfs_ordered env pfs \<longleftrightarrow>
     (\<forall>pre f post. recognized_protocol_features pfs = pre @ f # post \<longrightarrow>
        pf_dependencies f \<subseteq> pf_feature_digest ` set pre \<and>
        (\<forall>b spec e. pf_builtin_feature f = Some b \<longrightarrow> find_spec env b = Some spec \<longrightarrow> e \<in> set (spec_builtin_dependencies spec) \<longrightarrow>
           (\<exists>g\<in>set pre. pf_builtin_feature g = Some e \<and> pf_feature_digest g \<in> pf_dependencies f)))"

lemma feature_index_inj [simp]: "feature_index a = feature_index b \<longleftrightarrow> a = b"
  by (cases a; cases b) simp_all

lemma feature_index_bound: "feature_index b < 13"
  by (cases b) simp_all

lemma find_feature_Some:
  "find_feature pfs d = Some f \<Longrightarrow> f \<in> set (recognized_protocol_features pfs) \<and> pf_feature_digest f = d"
  by (auto simp: find_feature_def find_Some_iff)

lemma find_feature_None:
  "find_feature pfs d = None \<longleftrightarrow> d \<notin> pf_feature_digest ` set (recognized_protocol_features pfs)"
  by (auto simp: find_feature_def find_None_iff)

lemma find_feature_member:
  assumes "pfs_wf pfs" "f \<in> set (recognized_protocol_features pfs)"
  shows "find_feature pfs (pf_feature_digest f) = Some f"
proof -
  obtain g where g: "find_feature pfs (pf_feature_digest f) = Some g"
    using assms(2) find_feature_None [of pfs "pf_feature_digest f"] by auto
  then have "g \<in> set (recognized_protocol_features pfs)" "pf_feature_digest g = pf_feature_digest f"
    using find_feature_Some by auto
  then have "g = f"
    using assms by (auto simp: pfs_wf_def distinct_map dest: inj_onD)
  with g show ?thesis
    by simp
qed

lemma length_filter_all: "length xs \<le> length (filter p xs) \<longleftrightarrow> (\<forall>x\<in>set xs. p x)"
proof -
  have "length (filter p xs) \<le> length xs"
    by simp
  then show ?thesis
    by (auto simp: filter_id_conv length_filter_less dest: length_filter_less simp flip: not_less)
qed

lemma nth_set_builtin:
  "i < length (set_builtin indx d v) \<and> set_builtin indx d v ! i = Some x \<longleftrightarrow>
     (if i = indx then x = d else i < length v \<and> v ! i = Some x)"
  by (auto simp: set_builtin_def nth_list_update nth_append)

inductive feature_set_built :: "feature_env \<Rightarrow> protocol_feature_set \<Rightarrow> bool" for env where
  built_init: "feature_set_built env protocol_feature_set_init"
| built_add: "feature_set_built env pfs \<Longrightarrow> add_feature env f pfs = Inr pfs' \<Longrightarrow> feature_set_built env pfs'"

lemma add_feature_Inr:
  assumes "add_feature env f pfs = Inr pfs'"
  obtains g spec where "find_spec env (bpf_codename f) = Some spec"
    "pf_feature_digest g = feature_digest_of env f" "pf_builtin_feature g = Some (bpf_codename f)"
    "pf_dependencies g = pfb_dependencies f"
    "recognized_protocol_features pfs' = recognized_protocol_features pfs @ [g]"
    "recognized_builtin_protocol_features pfs' =
       set_builtin (feature_index (bpf_codename f)) (feature_digest_of env f) (recognized_builtin_protocol_features pfs)"
    "feature_index (bpf_codename f) < length (recognized_builtin_protocol_features pfs) \<Longrightarrow>
       recognized_builtin_protocol_features pfs ! feature_index (bpf_codename f) = None"
    "feature_digest_of env f \<notin> pf_feature_digest ` set (recognized_protocol_features pfs)"
    "pfb_dependencies f \<subseteq> pf_feature_digest ` set (recognized_protocol_features pfs)"
    "\<And>e. e \<in> set (spec_builtin_dependencies spec) \<Longrightarrow>
       \<exists>d\<in>pfb_dependencies f. \<exists>h. find_feature pfs d = Some h \<and> pf_builtin_feature h = Some e"
proof -
  let ?g = "\<lparr>pf_feature_digest = feature_digest_of env f, pf_description_digest = pfb_description_digest f,
                pf_dependencies = pfb_dependencies f,
                pf_earliest_allowed_activation_time = sr_earliest_allowed_activation_time (pfb_subjective_restrictions f),
                pf_preactivation_required = sr_preactivation_required (pfb_subjective_restrictions f),
                pf_enabled = sr_enabled (pfb_subjective_restrictions f),
                pf_builtin_feature = Some (bpf_codename f)\<rparr>"
  obtain spec where spec: "find_spec env (bpf_codename f) = Some spec"
    using assms by (auto simp: add_feature_def bind_r_Inr_iff)
  have *: "\<forall>d\<in>pfb_dependencies f. find_feature pfs d \<noteq> None" "find_feature pfs (feature_digest_of env f) = None"
    "length (spec_builtin_dependencies spec) \<le>
       length (satisfied_builtin_dependencies pfs (pfb_dependencies f) (spec_builtin_dependencies spec))"
    using assms by (auto simp: add_feature_def spec bind_r_Inr_iff Let_def)
  show ?thesis
  proof (rule that [of spec ?g])
    show "\<exists>d\<in>pfb_dependencies f. \<exists>h. find_feature pfs d = Some h \<and> pf_builtin_feature h = Some e"
      if "e \<in> set (spec_builtin_dependencies spec)" for e
      using *(3) that by (fastforce simp: satisfied_builtin_dependencies_def length_filter_all split: option.splits)
  qed (use assms * in \<open>auto simp: add_feature_def spec bind_r_Inr_iff Let_def find_feature_None\<close>)
qed

lemma pfs_wf_add:
  assumes wf: "pfs_wf pfs" and add: "add_feature env f pfs = Inr pfs'"
  shows "pfs_wf pfs'"
proof -
  from add obtain g where g: "pf_feature_digest g = feature_digest_of env f" "pf_builtin_feature g = Some (bpf_codename f)"
    and r: "recognized_protocol_features pfs' = recognized_protocol_features pfs @ [g]"
      "recognized_builtin_protocol_features pfs' =
         set_builtin (feature_index (bpf_codename f)) (feature_digest_of env f) (recognized_builtin_protocol_features pfs)"
    and free: "feature_index (bpf_codename f) < length (recognized_builtin_protocol_features pfs) \<Longrightarrow>
       recognized_builtin_protocol_features pfs ! feature_index (bpf_codename f) = None"
    and new: "feature_digest_of env f \<notin> pf_feature_digest ` set (recognized_protocol_features pfs)"
    by (rule add_feature_Inr) (rule that; blast)
  have idx: "(\<exists>h\<in>set (recognized_protocol_features pfs). pf_feature_digest h = d \<and> pf_builtin_feature h = Some b) \<longleftrightarrow>
       feature_index b < length (recognized_builtin_protocol_features pfs) \<and>
       recognized_builtin_protocol_features pfs ! feature_index b = Some d" for b d
    using wf unfolding pfs_wf_def by blast
  have none: "\<not> (\<exists>h\<in>set (recognized_protocol_features pfs). pf_feature_digest h = d \<and> pf_builtin_feature h = Some (bpf_codename f))" for d
    unfolding idx using free by auto
  have "(\<exists>h\<in>set (recognized_protocol_features pfs'). pf_feature_digest h = d \<and> pf_builtin_feature h = Some b) \<longleftrightarrow>
       feature_index b < length (recognized_builtin_protocol_features pfs') \<and>
       recognized_builtin_protocol_features pfs' ! feature_index b = Some d" for b d
  proof (cases "b = bpf_codename f")
    case True
    then show ?thesis
      unfolding r nth_set_builtin using none g by auto
  next
    case False
    then show ?thesis
      unfolding r nth_set_builtin idx [symmetric] using g by auto
  qed
  then have "\<forall>b d. feature_index b < length (recognized_builtin_protocol_features pfs') \<and>
       recognized_builtin_protocol_features pfs' ! feature_index b = Some d \<longleftrightarrow>
       (\<exists>h\<in>set (recognized_protocol_features pfs'). pf_feature_digest h = d \<and> pf_builtin_feature h = Some b)"
    by blast
  moreover have "distinct (map pf_feature_digest (recognized_protocol_features pfs'))"
    "\<forall>f\<in>set (recognized_protocol_features pfs'). pf_builtin_feature f \<noteq> None"
    using wf g new unfolding pfs_wf_def r by auto
  ultimately show ?thesis
    unfolding pfs_wf_def by blast
qed

lemma pfs_ordered_add:
  assumes ord: "pfs_ordered env pfs" and add: "add_feature env f pfs = Inr pfs'"
  shows "pfs_ordered env pfs'"
proof -
  from add obtain g spec where spec: "find_spec env (bpf_codename f) = Some spec"
    and g: "pf_builtin_feature g = Some (bpf_codename f)" "pf_dependencies g = pfb_dependencies f"
    and r: "recognized_protocol_features pfs' = recognized_protocol_features pfs @ [g]"
    and deps: "pfb_dependencies f \<subseteq> pf_feature_digest ` set (recognized_protocol_features pfs)"
    and expected: "\<And>e. e \<in> set (spec_builtin_dependencies spec) \<Longrightarrow>
       \<exists>d\<in>pfb_dependencies f. \<exists>h. find_feature pfs d = Some h \<and> pf_builtin_feature h = Some e"
    by (rule add_feature_Inr) (rule that; blast)
  show ?thesis
    unfolding pfs_ordered_def
  proof (intro allI impI)
    fix pre h post assume split: "recognized_protocol_features pfs' = pre @ h # post"
    show "pf_dependencies h \<subseteq> pf_feature_digest ` set pre \<and>
        (\<forall>b spec e. pf_builtin_feature h = Some b \<longrightarrow> find_spec env b = Some spec \<longrightarrow> e \<in> set (spec_builtin_dependencies spec) \<longrightarrow>
           (\<exists>g\<in>set pre. pf_builtin_feature g = Some e \<and> pf_feature_digest g \<in> pf_dependencies h))"
    proof (cases post rule: rev_cases)
      case Nil
      then have "pre = recognized_protocol_features pfs" "h = g"
        using split r by auto
      then show ?thesis
        using deps g spec expected by (fastforce dest: find_feature_Some)
    next
      case (snoc post' x)
      then have "recognized_protocol_features pfs = pre @ h # post'"
        using split r by auto
      then show ?thesis
        using ord unfolding pfs_ordered_def by blast
    qed
  qed
qed

lemma feature_set_built_wf: "feature_set_built env pfs \<Longrightarrow> pfs_wf pfs \<and> pfs_ordered env pfs"
proof (induction rule: feature_set_built.induct)
  case built_init
  show ?case
    by (simp add: pfs_wf_def pfs_ordered_def protocol_feature_set_init_def)
next
  case (built_add pfs f pfs')
  then show ?case
    using pfs_wf_add pfs_ordered_add by blast
qed

text \<open>
  C33. In every set of features made by \<^verbatim>\<open>add_feature\<close> the dependencies of a feature were added before it,
  so following dependencies ends, the builtin features its specification depends on are among
  them, and \<^verbatim>\<open>get_builtin_digest\<close> finds exactly the digests of the features added for a codename.
\<close>

theorem feature_set_dependencies:
  assumes "feature_set_built env pfs" "recognized_protocol_features pfs = pre @ f # post"
  shows "pf_dependencies f \<subseteq> pf_feature_digest ` set pre \<and>
         (\<exists>b. pf_builtin_feature f = Some b \<and> get_builtin_digest pfs b = Some (pf_feature_digest f) \<and>
              (\<forall>spec. find_spec env b = Some spec \<longrightarrow>
                 (\<forall>e\<in>set (spec_builtin_dependencies spec). \<exists>d\<in>pf_dependencies f. get_builtin_digest pfs e = Some d)))"
proof -
  have wf: "pfs_wf pfs" and ord: "pfs_ordered env pfs"
    using feature_set_built_wf assms(1) by auto
  have digest: "get_builtin_digest pfs b = Some (pf_feature_digest g)"
    if "g \<in> set (recognized_protocol_features pfs)" "pf_builtin_feature g = Some b" for g b
  proof -
    have "feature_index b < length (recognized_builtin_protocol_features pfs) \<and>
          recognized_builtin_protocol_features pfs ! feature_index b = Some (pf_feature_digest g)"
      using wf that unfolding pfs_wf_def by blast
    then show ?thesis
      using find_feature_member [OF wf that(1)] by (simp add: get_builtin_digest_def)
  qed
  have f: "f \<in> set (recognized_protocol_features pfs)"
    using assms(2) by simp
  then obtain b where b: "pf_builtin_feature f = Some b"
    using wf by (auto simp: pfs_wf_def)
  have "\<exists>d\<in>pf_dependencies f. get_builtin_digest pfs e = Some d"
    if e: "find_spec env b = Some spec" "e \<in> set (spec_builtin_dependencies spec)" for spec e
  proof -
    obtain g where "g \<in> set pre" "pf_builtin_feature g = Some e" "pf_feature_digest g \<in> pf_dependencies f"
      using ord assms(2) b e unfolding pfs_ordered_def by blast
    moreover have "g \<in> set (recognized_protocol_features pfs)"
      using \<open>g \<in> set pre\<close> assms(2) by simp
    ultimately show ?thesis
      using digest by blast
  qed
  then show ?thesis
    using ord assms(2) digest [OF f b] b unfolding pfs_ordered_def by blast
qed

section \<open>The list threaded through the vector\<close>

text \<open>
  The vector and the head that a sequence of activations, pairs of an index and a block number,
  leaves behind.
\<close>

definition link_one :: "nat \<times> nat \<Rightarrow> builtin_protocol_feature_entry list \<times> nat \<Rightarrow> builtin_protocol_feature_entry list \<times> nat" where
  "link_one a st = ((fst st)[fst a := \<lparr>bpfe_previous = snd st, bpfe_activation_block_num = snd a\<rparr>], fst a)"

definition link_all :: "nat \<Rightarrow> (nat \<times> nat) list \<Rightarrow> builtin_protocol_feature_entry list \<times> nat" where
  "link_all n acts = fold link_one acts (replicate n inactive_entry, no_previous)"

lemma link_all_Nil: "link_all n [] = (replicate n inactive_entry, no_previous)"
  by (simp add: link_all_def)

lemma link_all_snoc: "link_all n (acts @ [a]) = link_one a (link_all n acts)"
  by (simp add: link_all_def)

lemma length_link_all [simp]: "length (fst (link_all n acts)) = n"
  by (induction acts rule: rev_induct) (simp_all add: link_all_Nil link_all_snoc link_one_def)

lemma link_all_nth:
  assumes "distinct (map fst acts)" "i < n"
  shows "i \<notin> fst ` set acts \<Longrightarrow> fst (link_all n acts) ! i = inactive_entry"
    and "(i, k) \<in> set acts \<Longrightarrow> bpfe_activation_block_num (fst (link_all n acts) ! i) = k"
proof -
  show "fst (link_all n acts) ! i = inactive_entry" if "i \<notin> fst ` set acts"
    using that assms(2) by (induction acts rule: rev_induct) (auto simp: link_all_Nil link_all_snoc link_one_def)
  show "bpfe_activation_block_num (fst (link_all n acts) ! i) = k" if "(i, k) \<in> set acts"
    using that assms
  proof (induction acts rule: rev_induct)
    case (snoc a acts)
    show ?case
    proof (cases "(i, k) = a")
      case True
      then show ?thesis
        using snoc.prems(3) by (auto simp: link_all_snoc link_one_def)
    next
      case False
      then have "(i, k) \<in> set acts" "fst a \<noteq> i"
        using snoc.prems(1,2) by (auto simp: image_iff)
      then show ?thesis
        using snoc by (simp add: link_all_snoc link_one_def)
    qed
  qed simp
qed

lemma takeWhile_snoc: "\<not> p x \<Longrightarrow> takeWhile p (xs @ [x]) = takeWhile p xs"
  by (induction xs) auto

text \<open>Popping the activations above a block number undoes them one by one.\<close>

lemma pop_builtins_loop_link:
  assumes "distinct (map fst acts)" "sorted (map snd acts)" "\<forall>a\<in>set acts. fst a < n" "n \<le> no_previous"
  shows "pop_builtins_loop k (fst (link_all n acts)) (snd (link_all n acts)) =
           Some (Inr (link_all n (takeWhile (\<lambda>a. snd a \<le> k) acts)))"
  using assms
proof (induction acts rule: rev_induct)
  case Nil
  then show ?case
    by (simp add: link_all_Nil pop_builtins_loop.simps)
next
  case (snoc a acts)
  have a: "fst a < n" "fst a \<noteq> no_previous" "fst a \<notin> fst ` set acts"
    using snoc.prems by auto
  have step: "fst (link_all n (acts @ [a])) ! fst a = \<lparr>bpfe_previous = snd (link_all n acts), bpfe_activation_block_num = snd a\<rparr>"
      "snd (link_all n (acts @ [a])) = fst a"
    using a by (simp_all add: link_all_snoc link_one_def)
  show ?case
  proof (cases "snd a \<le> k")
    case True
    have "\<forall>b\<in>set acts. snd b \<le> k"
      using snoc.prems(2) True by (force simp: sorted_append)
    then have "takeWhile (\<lambda>a. snd a \<le> k) (acts @ [a]) = acts @ [a]"
      using True by (simp add: takeWhile_eq_all_conv)
    then show ?thesis
      using a step True by (simp add: pop_builtins_loop.simps prod_eq_iff)
  next
    case False
    have undo: "(fst (link_all n (acts @ [a])))[fst a := inactive_entry] = fst (link_all n acts)"
      using a link_all_nth(1) [of acts "fst a" n] snoc.prems(1)
      by (simp add: link_all_snoc link_one_def list_update_same_conv)
    have "takeWhile (\<lambda>a. snd a \<le> k) (acts @ [a]) = takeWhile (\<lambda>a. snd a \<le> k) acts"
      using False by (simp add: takeWhile_snoc)
    moreover have "pop_builtins_loop k (fst (link_all n acts)) (snd (link_all n acts)) =
        Some (Inr (link_all n (takeWhile (\<lambda>a. snd a \<le> k) acts)))"
      using snoc by (simp add: sorted_append)
    ultimately show ?thesis
      using a step False undo by (subst pop_builtins_loop.simps) simp
  qed
qed

lemma pop_activated_loop_takeWhile:
  "sorted (map pfe_activation_block_num es) \<Longrightarrow>
     pop_activated_loop k es = takeWhile (\<lambda>e. pfe_activation_block_num e \<le> k) es"
proof (induction es rule: rev_induct)
  case (snoc e es)
  show ?case
  proof (cases "pfe_activation_block_num e \<le> k")
    case True
    have "\<forall>x\<in>set es. pfe_activation_block_num x \<le> k"
      using snoc.prems True by (force simp: sorted_append)
    then show ?thesis
      using True by (simp add: pop_activated_loop.simps takeWhile_eq_all_conv)
  next
    case False
    then have "pop_activated_loop k (es @ [e]) = pop_activated_loop k es"
      by (simp add: pop_activated_loop.simps [of k "es @ [e]"])
    then show ?thesis
      using False snoc by (simp add: sorted_append takeWhile_snoc)
  qed
qed (simp add: pop_activated_loop.simps)

section \<open>The manager as a log of activations\<close>

text \<open>
  The specification: a log of digests with the block of their activation, in ascending order of
  the blocks. An activation appends to it, popping to a block drops what came after the block.
\<close>

type_synonym activation_log = "(digest \<times> nat) list"

definition log_activate :: "protocol_feature_set \<Rightarrow> digest \<Rightarrow> nat \<Rightarrow> activation_log \<Rightarrow> activation_log result" where
  "log_activate pfs d n log =
     (if d \<notin> pf_feature_digest ` set (recognized_protocol_features pfs) \<or> (\<exists>e\<in>set log. snd e > n) \<or> d \<in> fst ` set log
      then Inl protocol_feature_exception else Inr (log @ [(d, n)]))"

definition log_pop :: "nat \<Rightarrow> activation_log \<Rightarrow> activation_log" where
  "log_pop n log = filter (\<lambda>e. snd e \<le> n) log"

definition log_of :: "protocol_feature_manager \<Rightarrow> activation_log" where
  "log_of m = map (\<lambda>e. (pfe_feature e, pfe_activation_block_num e)) (activated_protocol_features_list m)"

text \<open>The index of the builtin feature with a digest.\<close>

definition digest_index :: "protocol_feature_set \<Rightarrow> digest \<Rightarrow> nat" where
  "digest_index pfs d =
     (case find_feature pfs d of
        Some f \<Rightarrow> (case pf_builtin_feature f of Some b \<Rightarrow> feature_index b | None \<Rightarrow> 0)
      | None \<Rightarrow> 0)"

definition pfm_inv :: "protocol_feature_set \<Rightarrow> protocol_feature_manager \<Rightarrow> bool" where
  "pfm_inv pfs m \<longleftrightarrow>
     pfm_protocol_feature_set m = pfs \<and> pfm_initialized m \<and>
     (builtin_protocol_features m, head_of_builtin_activation_list m) =
        link_all (length (recognized_builtin_protocol_features pfs)) (map (\<lambda>e. (digest_index pfs (fst e), snd e)) (log_of m)) \<and>
     distinct (map fst (log_of m)) \<and> sorted (map snd (log_of m)) \<and>
     (\<forall>e\<in>set (log_of m). fst e \<in> pf_feature_digest ` set (recognized_protocol_features pfs) \<and> snd e < not_active)"

lemma digest_index_of:
  assumes "pfs_wf pfs" "d \<in> pf_feature_digest ` set (recognized_protocol_features pfs)"
  obtains f b where "find_feature pfs d = Some f" "pf_builtin_feature f = Some b" "digest_index pfs d = feature_index b"
    "f \<in> set (recognized_protocol_features pfs)" "pf_feature_digest f = d"
    "digest_index pfs d < length (recognized_builtin_protocol_features pfs)"
    "recognized_builtin_protocol_features pfs ! digest_index pfs d = Some d"
proof -
  obtain f where f: "f \<in> set (recognized_protocol_features pfs)" "pf_feature_digest f = d"
    using assms(2) by auto
  then obtain b where b: "pf_builtin_feature f = Some b"
    using assms(1) by (auto simp: pfs_wf_def)
  have "feature_index b < length (recognized_builtin_protocol_features pfs) \<and>
        recognized_builtin_protocol_features pfs ! feature_index b = Some d"
    using assms(1) f b unfolding pfs_wf_def by blast
  then show ?thesis
    using that [of f b] find_feature_member [OF assms(1) f(1)] f b by (simp add: digest_index_def)
qed

lemma digest_index_registered:
  assumes "pfs_wf pfs" "d \<in> pf_feature_digest ` set (recognized_protocol_features pfs)"
  shows "digest_index pfs d < length (recognized_builtin_protocol_features pfs)"
    "recognized_builtin_protocol_features pfs ! digest_index pfs d = Some d"
proof -
  show "digest_index pfs d < length (recognized_builtin_protocol_features pfs)"
    using assms by (rule digest_index_of)
  show "recognized_builtin_protocol_features pfs ! digest_index pfs d = Some d"
    using assms by (rule digest_index_of)
qed

lemma digest_index_inj:
  assumes "pfs_wf pfs"
  shows "inj_on (digest_index pfs) (pf_feature_digest ` set (recognized_protocol_features pfs))"
proof (rule inj_onI)
  fix d e assume d: "d \<in> pf_feature_digest ` set (recognized_protocol_features pfs)"
    and e: "e \<in> pf_feature_digest ` set (recognized_protocol_features pfs)"
    and eq: "digest_index pfs d = digest_index pfs e"
  from eq show "d = e"
    using digest_index_registered(2) [OF assms d] digest_index_registered(2) [OF assms e] by (metis option.inject)
qed

text \<open>The vector of builtin features never grows past the number of codenames.\<close>

lemma builtin_count:
  "feature_set_built env pfs \<Longrightarrow> length (recognized_builtin_protocol_features pfs) \<le> 13"
proof (induction rule: feature_set_built.induct)
  case (built_add pfs f pfs')
  then show ?case
    using feature_index_bound [of "bpf_codename f"]
    by (auto elim!: add_feature_Inr simp: set_builtin_def)
qed (simp add: protocol_feature_set_init_def)

lemma pfm_inv_links:
  assumes "feature_set_built env pfs" "pfm_inv pfs m"
  defines "acts \<equiv> map (\<lambda>e. (digest_index pfs (fst e), snd e)) (log_of m)"
    and "n \<equiv> length (recognized_builtin_protocol_features pfs)"
  shows "builtin_protocol_features m = fst (link_all n acts)" "head_of_builtin_activation_list m = snd (link_all n acts)"
    "distinct (map fst acts)" "sorted (map snd acts)" "\<forall>a\<in>set acts. fst a < n" "n \<le> no_previous"
proof -
  have wf: "pfs_wf pfs"
    using feature_set_built_wf assms(1) by blast
  show "builtin_protocol_features m = fst (link_all n acts)" "head_of_builtin_activation_list m = snd (link_all n acts)"
    using assms(2) unfolding pfm_inv_def acts_def n_def by (simp_all add: prod_eq_iff)
  show "sorted (map snd acts)"
    using assms(2) by (simp add: pfm_inv_def acts_def comp_def)
  have known: "set (map fst (log_of m)) \<subseteq> pf_feature_digest ` set (recognized_protocol_features pfs)"
    using assms(2) by (auto simp: pfm_inv_def)
  have "map fst acts = map (digest_index pfs) (map fst (log_of m))"
    by (simp add: acts_def)
  moreover have "distinct (map (digest_index pfs) (map fst (log_of m)))"
    using assms(2) inj_on_subset [OF digest_index_inj [OF wf] known] unfolding pfm_inv_def distinct_map by blast
  ultimately show "distinct (map fst acts)"
    by simp
  show "\<forall>a\<in>set acts. fst a < n"
    using known digest_index_registered(1) [OF wf] by (auto simp: acts_def n_def)
  show "n \<le> no_previous"
    using builtin_count [OF assms(1)] by (simp add: n_def no_previous_def u64_max_def)
qed

lemma sorted_last_le:
  fixes xs :: "nat list"
  assumes "sorted xs"
  shows "(xs \<noteq> [] \<longrightarrow> last xs \<le> n) \<longleftrightarrow> (\<forall>x\<in>set xs. x \<le> n)"
  using assms by (induction xs rule: rev_induct) (auto simp: sorted_append)

lemma takeWhile_sorted:
  fixes xs :: "(digest \<times> nat) list"
  assumes "sorted (map snd xs)"
  shows "takeWhile (\<lambda>e. snd e \<le> n) xs = filter (\<lambda>e. snd e \<le> n) xs"
  using assms
proof (induction xs)
  case (Cons e xs)
  have "filter (\<lambda>e. snd e \<le> n) xs = []" if "\<not> snd e \<le> n"
    using Cons.prems that by (fastforce simp: filter_empty_conv)
  with Cons show ?case
    by auto
qed simp

lemma activation_flag:
  assumes built: "feature_set_built env pfs" and inv: "pfm_inv pfs m"
    and d: "d \<in> pf_feature_digest ` set (recognized_protocol_features pfs)"
  shows "digest_index pfs d < length (builtin_protocol_features m)"
    "d \<notin> fst ` set (log_of m) \<Longrightarrow> builtin_protocol_features m ! digest_index pfs d = inactive_entry"
    "(d, k) \<in> set (log_of m) \<Longrightarrow> bpfe_activation_block_num (builtin_protocol_features m ! digest_index pfs d) = k"
proof -
  have wf: "pfs_wf pfs"
    using feature_set_built_wf built by blast
  note links = pfm_inv_links [OF built inv]
  have lt: "digest_index pfs d < length (recognized_builtin_protocol_features pfs)"
    using digest_index_registered(1) [OF wf d] .
  then show "digest_index pfs d < length (builtin_protocol_features m)"
    by (simp add: links(1))
  show "builtin_protocol_features m ! digest_index pfs d = inactive_entry" if "d \<notin> fst ` set (log_of m)"
  proof -
    have sub: "fst ` set (log_of m) \<subseteq> pf_feature_digest ` set (recognized_protocol_features pfs)"
      using inv by (simp add: pfm_inv_def image_subset_iff)
    have "digest_index pfs d \<notin> digest_index pfs ` fst ` set (log_of m)"
      using that by (simp only: inj_on_image_mem_iff [OF digest_index_inj [OF wf] d sub] not_False_eq_True)
    then have "digest_index pfs d \<notin> fst ` set (map (\<lambda>e. (digest_index pfs (fst e), snd e)) (log_of m))"
      by (simp add: image_image)
    from link_all_nth(1) [OF links(3) lt this] show ?thesis
      by (simp only: links(1))
  qed
  show "bpfe_activation_block_num (builtin_protocol_features m ! digest_index pfs d) = k" if "(d, k) \<in> set (log_of m)"
  proof -
    have "(digest_index pfs d, k) \<in> set (map (\<lambda>e. (digest_index pfs (fst e), snd e)) (log_of m))"
      using imageI [OF that, of "\<lambda>e. (digest_index pfs (fst e), snd e)"] by simp
    from link_all_nth(2) [OF links(3) lt this] show ?thesis
      by (simp only: links(1))
  qed
qed

lemma activate_feature_log:
  assumes built: "feature_set_built env pfs" and inv: "pfm_inv pfs m" and n: "n < not_active"
  shows "case activate_feature d n m of
           Inl e \<Rightarrow> log_activate pfs d n (log_of m) = Inl e
         | Inr m' \<Rightarrow> log_activate pfs d n (log_of m) = Inr (log_of m') \<and> pfm_inv pfs m'"
proof (cases "d \<in> pf_feature_digest ` set (recognized_protocol_features pfs)")
  case False
  then have "find_feature (pfm_protocol_feature_set m) d = None"
    using inv by (simp add: find_feature_None pfm_inv_def)
  then show ?thesis
    using False inv by (simp add: activate_feature_def log_activate_def pfm_inv_def)
next
  case True
  have wf: "pfs_wf pfs"
    using feature_set_built_wf built by blast
  from wf True obtain f b where f: "find_feature pfs d = Some f" "pf_builtin_feature f = Some b"
      "digest_index pfs d = feature_index b" "pf_feature_digest f = d"
    by (rule digest_index_of) (rule that)
  have m: "pfm_protocol_feature_set m = pfs" "pfm_initialized m"
    using inv by (auto simp: pfm_inv_def)
  have last: "(activated_protocol_features_list m \<noteq> [] \<longrightarrow> pfe_activation_block_num (last (activated_protocol_features_list m)) \<le> n) \<longleftrightarrow>
      (\<forall>e\<in>set (log_of m). snd e \<le> n)"
    using sorted_last_le [of "map snd (log_of m)" n] inv by (simp add: pfm_inv_def log_of_def last_map comp_def)
  note flag = activation_flag [OF built inv True]
  have fresh: "bpfe_activation_block_num (builtin_protocol_features m ! feature_index b) = not_active \<longleftrightarrow> d \<notin> fst ` set (log_of m)"
  proof (cases "d \<in> fst ` set (log_of m)")
    case known: True
    then obtain k where k: "(d, k) \<in> set (log_of m)"
      by (rule imageE) (metis prod.collapse that)
    then have "k < not_active"
      using inv unfolding pfm_inv_def by (metis snd_conv)
    then show ?thesis
      using flag(3) [OF k] f(3) known by simp
  next
    case False
    then show ?thesis
      using flag(2) f(3) by (simp add: inactive_entry_def)
  qed
  define m' where "m' = m\<lparr>activated_protocol_features_list := activated_protocol_features_list m @
                 [\<lparr>pfe_feature = d, pfe_activation_block_num = n\<rparr>],
              builtin_protocol_features := (builtin_protocol_features m)[feature_index b :=
                 \<lparr>bpfe_previous = head_of_builtin_activation_list m, bpfe_activation_block_num = n\<rparr>],
              head_of_builtin_activation_list := feature_index b\<rparr>"
  have log': "log_of m' = log_of m @ [(d, n)]"
    by (simp add: m'_def log_of_def)
  have r: "activate_feature d n m = (if (\<forall>e\<in>set (log_of m). snd e \<le> n) \<and> d \<notin> fst ` set (log_of m) then Inr m'
                                     else Inl protocol_feature_exception)"
    using f m flag(1) unfolding activate_feature_def last by (simp add: fresh m'_def eos_assert_def Let_def)
  have "pfm_inv pfs m'" if ok: "\<forall>e\<in>set (log_of m). snd e \<le> n" "d \<notin> fst ` set (log_of m)"
  proof -
    have "(builtin_protocol_features m', head_of_builtin_activation_list m') =
        link_one (feature_index b, n) (builtin_protocol_features m, head_of_builtin_activation_list m)"
      by (simp add: m'_def link_one_def)
    then show ?thesis
      using inv ok n True f(3) m unfolding pfm_inv_def log'
      by (simp add: link_all_snoc sorted_append) (simp add: m'_def)
  qed
  moreover have "(\<exists>e\<in>set (log_of m). snd e > n) \<longleftrightarrow> \<not> (\<forall>e\<in>set (log_of m). snd e \<le> n)"
    by (meson not_le)
  then have "log_activate pfs d n (log_of m) = (if (\<forall>e\<in>set (log_of m). snd e \<le> n) \<and> d \<notin> fst ` set (log_of m)
      then Inr (log_of m') else Inl protocol_feature_exception)"
    using True unfolding log_activate_def log' by simp
  ultimately show ?thesis
    unfolding r by simp
qed

lemma popped_blocks_to_log:
  assumes built: "feature_set_built env pfs" and inv: "pfm_inv pfs m"
  shows "\<exists>m'. popped_blocks_to n m = Some (Inr m') \<and> log_of m' = log_pop n (log_of m) \<and> pfm_inv pfs m'"
proof -
  let ?es = "activated_protocol_features_list m"
  let ?acts = "map (\<lambda>e. (digest_index pfs (fst e), snd e)) (log_of m)"
  let ?N = "length (recognized_builtin_protocol_features pfs)"
  note links = pfm_inv_links [OF built inv]
  have sorted: "sorted (map pfe_activation_block_num ?es)" "sorted (map snd (log_of m))"
    using inv by (auto simp: pfm_inv_def log_of_def comp_def)
  define m' where "m' = m\<lparr>builtin_protocol_features := fst (link_all ?N (takeWhile (\<lambda>a. snd a \<le> n) ?acts)),
      head_of_builtin_activation_list := snd (link_all ?N (takeWhile (\<lambda>a. snd a \<le> n) ?acts)),
      activated_protocol_features_list := takeWhile (\<lambda>e. pfe_activation_block_num e \<le> n) ?es\<rparr>"
  have "popped_blocks_to n m = Some (Inr m')"
    using pop_builtins_loop_link [OF links(3-6), of n] pop_activated_loop_takeWhile [OF sorted(1), of n] inv
    by (simp add: popped_blocks_to_def links(1,2) m'_def pfm_inv_def case_prod_beta)
  moreover have tw: "log_of m' = takeWhile (\<lambda>e. snd e \<le> n) (log_of m)"
    by (simp add: m'_def log_of_def takeWhile_map comp_def)
  then have "log_of m' = log_pop n (log_of m)"
    by (simp add: log_pop_def takeWhile_sorted [OF sorted(2)])
  moreover have "pfm_inv pfs m'"
  proof -
    have acts': "map (\<lambda>e. (digest_index pfs (fst e), snd e)) (log_of m') = takeWhile (\<lambda>a. snd a \<le> n) ?acts"
      by (simp add: tw takeWhile_map comp_def)
    have "(builtin_protocol_features m', head_of_builtin_activation_list m') =
        link_all ?N (map (\<lambda>e. (digest_index pfs (fst e), snd e)) (log_of m'))"
      unfolding acts' by (simp add: m'_def)
    moreover have "distinct (map fst (log_of m'))" "sorted (map snd (log_of m'))" "set (log_of m') \<subseteq> set (log_of m)"
      using inv unfolding tw pfm_inv_def
      by (auto simp: distinct_map_filter takeWhile_sorted [OF sorted(2)] sorted_filter)
    moreover have "pfm_protocol_feature_set m' = pfm_protocol_feature_set m" "pfm_initialized m' = pfm_initialized m"
      by (simp_all add: m'_def)
    ultimately show ?thesis
      using inv unfolding pfm_inv_def by auto
  qed
  ultimately show ?thesis
    by blast
qed

lemma is_builtin_activated_log:
  assumes built: "feature_set_built env pfs" and inv: "pfm_inv pfs m" and n: "n < not_active"
  shows "is_builtin_activated m b n \<longleftrightarrow>
           (\<exists>d k. get_builtin_digest pfs b = Some d \<and> (d, k) \<in> set (log_of m) \<and> k \<le> n)"
proof -
  have wf: "pfs_wf pfs"
    using feature_set_built_wf built by blast
  have len: "length (builtin_protocol_features m) = length (recognized_builtin_protocol_features pfs)"
    using pfm_inv_links(1) [OF built inv] by simp
  show ?thesis
  proof (cases "get_builtin_digest pfs b")
    case None
    have "\<not> is_builtin_activated m b n" if lt: "feature_index b < length (recognized_builtin_protocol_features pfs)"
    proof -
      have none: "recognized_builtin_protocol_features pfs ! feature_index b \<noteq> Some d" for d
      proof
        assume "recognized_builtin_protocol_features pfs ! feature_index b = Some d"
        moreover from this lt obtain f where "f \<in> set (recognized_protocol_features pfs)" "pf_feature_digest f = d"
          using wf unfolding pfs_wf_def by blast
        ultimately show False
          using None lt find_feature_member [OF wf] by (auto simp: get_builtin_digest_def)
      qed
      have "feature_index b \<notin> fst ` set (map (\<lambda>e. (digest_index pfs (fst e), snd e)) (log_of m))"
      proof
        assume "feature_index b \<in> fst ` set (map (\<lambda>e. (digest_index pfs (fst e), snd e)) (log_of m))"
        then obtain e where e: "e \<in> set (log_of m)" "digest_index pfs (fst e) = feature_index b"
          by auto
        have "fst e \<in> pf_feature_digest ` set (recognized_protocol_features pfs)"
          using inv e(1) unfolding pfm_inv_def by blast
        from digest_index_registered(2) [OF wf this] none e(2) show False
          by simp
      qed
      then have "builtin_protocol_features m ! feature_index b = inactive_entry"
        unfolding pfm_inv_links(1) [OF built inv] using lt by (intro link_all_nth(1) pfm_inv_links(3) [OF built inv])
      then show ?thesis
        using n by (simp add: is_builtin_activated_def inactive_entry_def)
    qed
    then show ?thesis
      using None len by (auto simp: is_builtin_activated_def)
  next
    case (Some d)
    have lt: "feature_index b < length (recognized_builtin_protocol_features pfs)"
      using Some by (auto simp: get_builtin_digest_def Let_def split: if_splits)
    from Some lt obtain d' g where d': "recognized_builtin_protocol_features pfs ! feature_index b = Some d'"
        "find_feature pfs d' = Some g" "pf_feature_digest g = d"
      by (auto simp: get_builtin_digest_def split: option.splits)
    have eq: "d' = d" and mem: "d \<in> pf_feature_digest ` set (recognized_protocol_features pfs)"
      using find_feature_Some [OF d'(2)] d'(3) by auto
    have "\<exists>f\<in>set (recognized_protocol_features pfs). pf_feature_digest f = d \<and> pf_builtin_feature f = Some b"
      using wf lt d'(1) unfolding eq pfs_wf_def by blast
    then have idx: "digest_index pfs d = feature_index b"
      using find_feature_member [OF wf] by (auto simp: digest_index_def)
    note flag = activation_flag [OF built inv mem, unfolded idx]
    show ?thesis
    proof (cases "d \<in> fst ` set (log_of m)")
      case True
      then obtain k where k: "(d, k) \<in> set (log_of m)"
        by (rule imageE) (metis prod.collapse that)
      have "k' = k" if "(d, k') \<in> set (log_of m)" for k'
        using flag(3) [OF k] flag(3) [OF that] by simp
      then have "(\<exists>d k. get_builtin_digest pfs b = Some d \<and> (d, k) \<in> set (log_of m) \<and> k \<le> n) \<longleftrightarrow> k \<le> n"
        using Some k by (metis option.inject)
      then show ?thesis
        using flag(1) flag(3) [OF k] by (simp add: is_builtin_activated_def)
    next
      case False
      then have "(d, k) \<notin> set (log_of m)" for k
        by (metis fst_conv imageI)
      then show ?thesis
        using Some flag(1) flag(2) [OF False] n by (simp add: is_builtin_activated_def inactive_entry_def)
    qed
  qed
qed

section \<open>Sequences of operations\<close>

text \<open>
  A call that throws leaves the manager as it was, since every check comes before the first change.
\<close>

datatype pfm_op = op_activate digest nat | op_pop nat

fun run_ops :: "pfm_op list \<Rightarrow> protocol_feature_manager \<Rightarrow> protocol_feature_manager option" where
  "run_ops [] m = Some m"
| "run_ops (op_activate d n # ops) m = (case activate_feature d n m of Inl _ \<Rightarrow> run_ops ops m | Inr m' \<Rightarrow> run_ops ops m')"
| "run_ops (op_pop n # ops) m =
     (case popped_blocks_to n m of None \<Rightarrow> None | Some (Inl _) \<Rightarrow> run_ops ops m | Some (Inr m') \<Rightarrow> run_ops ops m')"

fun log_ops :: "protocol_feature_set \<Rightarrow> pfm_op list \<Rightarrow> activation_log \<Rightarrow> activation_log" where
  "log_ops pfs [] log = log"
| "log_ops pfs (op_activate d n # ops) log =
     (case log_activate pfs d n log of Inl _ \<Rightarrow> log_ops pfs ops log | Inr log' \<Rightarrow> log_ops pfs ops log')"
| "log_ops pfs (op_pop n # ops) log = log_ops pfs ops (log_pop n log)"

definition op_block :: "pfm_op \<Rightarrow> nat" where
  "op_block op = (case op of op_activate d n \<Rightarrow> n | op_pop n \<Rightarrow> 0)"

lemma pfm_inv_start: "pfm_inv pfs ((make_protocol_feature_manager pfs)\<lparr>pfm_initialized := True\<rparr>)"
  by (simp add: pfm_inv_def make_protocol_feature_manager_def log_of_def link_all_Nil)

lemma pfm_init_log:
  assumes built: "feature_set_built env pfs" and blocks: "\<forall>a\<in>set acts. snd a < not_active"
    and init: "pfm_init acts (make_protocol_feature_manager pfs) = Inr m"
  shows "pfm_inv pfs m \<and> log_of m = acts"
proof -
  have "pfm_inv pfs m \<and> log_of m = log_of m0 @ acts"
    if "fold_r (\<lambda>(d, n) m. activate_feature d n m) acts m0 = Inr m" "pfm_inv pfs m0" for m0
    using that blocks
  proof (induction acts arbitrary: m0)
    case (Cons a acts)
    obtain d n where a: "a = (d, n)"
      by (cases a)
    from Cons.prems(1) obtain m1 where m1: "activate_feature d n m0 = Inr m1"
        "fold_r (\<lambda>(d, n) m. activate_feature d n m) acts m1 = Inr m"
      by (auto simp: a bind_r_Inr_iff)
    have "log_activate pfs d n (log_of m0) = Inr (log_of m1)" "pfm_inv pfs m1"
      using activate_feature_log [OF built Cons.prems(2), of n d] m1(1) Cons.prems(3) by (auto simp: a)
    then show ?case
      using Cons.IH [OF m1(2)] Cons.prems(3) by (auto simp: log_activate_def a split: if_splits)
  qed simp
  from this [OF _ pfm_inv_start] init show ?thesis
    by (auto simp: pfm_init_def bind_r_Inr_iff make_protocol_feature_manager_def log_of_def)
qed

lemma run_ops_log:
  assumes built: "feature_set_built env pfs"
  shows "pfm_inv pfs m \<Longrightarrow> \<forall>op\<in>set ops. op_block op < not_active \<Longrightarrow>
           \<exists>m'. run_ops ops m = Some m' \<and> pfm_inv pfs m' \<and> log_of m' = log_ops pfs ops (log_of m)"
proof (induction ops m rule: run_ops.induct)
  case (2 d n ops m)
  have n: "n < not_active" and rest: "\<forall>op\<in>set ops. op_block op < not_active"
    using 2(4) by (auto simp: op_block_def)
  show ?case
  proof (cases "activate_feature d n m")
    case (Inl e)
    then show ?thesis
      using activate_feature_log [OF built 2(3) n, of d] 2(1) [OF Inl 2(3) rest] by simp
  next
    case (Inr m')
    then have "log_activate pfs d n (log_of m) = Inr (log_of m')" "pfm_inv pfs m'"
      using activate_feature_log [OF built 2(3) n, of d] by auto
    then show ?thesis
      using 2(2) [OF Inr] Inr rest by simp
  qed
next
  case (3 n ops m)
  obtain m' where m': "popped_blocks_to n m = Some (Inr m')" "log_of m' = log_pop n (log_of m)" "pfm_inv pfs m'"
    using popped_blocks_to_log [OF built 3(3)] by blast
  then show ?case
    using 3(2) [OF m'(1) refl m'(3)] 3(4) by simp
qed simp

text \<open>
  C32. Started on any recorded activations, the manager behaves under every sequence of activations
  and of returns to an earlier block as a log of digests and block numbers: an activation appends
  or throws as the log says, a return to block \<open>n\<close> always ends and drops exactly the activations
  after \<open>n\<close>, whatever the order of the features, and a feature counts as active at block \<open>k\<close>
  exactly when the log has it at or before \<open>k\<close>. Block numbers stay below the value the code reserves.
\<close>

theorem protocol_feature_manager_is_log:
  assumes "feature_set_built env pfs" "\<forall>a\<in>set acts. snd a < not_active" "\<forall>op\<in>set ops. op_block op < not_active"
    "pfm_init acts (make_protocol_feature_manager pfs) = Inr m"
  shows "\<exists>m'. run_ops ops m = Some m' \<and> log_of m' = log_ops pfs ops acts \<and>
           (\<forall>b k. k < not_active \<longrightarrow>
              (is_builtin_activated m' b k \<longleftrightarrow>
                 (\<exists>d n. get_builtin_digest pfs b = Some d \<and> (d, n) \<in> set (log_ops pfs ops acts) \<and> n \<le> k)))"
  using pfm_init_log [OF assms(1,2,4)] run_ops_log [OF assms(1) _ assms(3), of m] is_builtin_activated_log [OF assms(1)]
  by metis

section \<open>Bounds on the activation list\<close>

lemma partition_search_correct:
  assumes "\<forall>j. first + len \<le> j \<and> j < length xs \<longrightarrow> \<not> p (xs ! j)" "\<forall>j<first. p (xs ! j)"
    "\<forall>i j. i < j \<and> j < length xs \<and> p (xs ! j) \<longrightarrow> p (xs ! i)" "first + len \<le> length xs"
  shows "let r = partition_search p xs first len in
           r \<le> length xs \<and> (\<forall>j<r. p (xs ! j)) \<and> (\<forall>j. r \<le> j \<and> j < length xs \<longrightarrow> \<not> p (xs ! j))"
  using assms
proof (induction p xs first len rule: partition_search.induct)
  case (1 p xs first len)
  show ?case
  proof (cases "len = 0")
    case True
    then show ?thesis
      using 1(3-6) by (simp add: partition_search.simps)
  next
    case False
    let ?half = "len div 2"
    have mid: "first + ?half < first + len"
      using False by simp
    show ?thesis
    proof (cases "p (xs ! (first + ?half))")
      case True
      have eq: "partition_search p xs first len = partition_search p xs (first + ?half + 1) (len - ?half - 1)"
        using False True by (subst partition_search.simps) (simp add: Let_def)
      have "\<forall>j<first + ?half + 1. p (xs ! j)"
        using True 1(5,6) mid by (metis Suc_eq_plus1 less_Suc_eq less_le_trans)
      then show ?thesis
        unfolding eq using 1(1) [OF False refl refl True] 1(3,5,6) mid by simp
    next
      case no: False
      have eq: "partition_search p xs first len = partition_search p xs first ?half"
        using False no by (subst partition_search.simps) (simp add: Let_def)
      have "\<forall>j. first + ?half \<le> j \<and> j < length xs \<longrightarrow> \<not> p (xs ! j)"
        using no 1(5) by (metis le_neq_implies_less)
      then show ?thesis
        unfolding eq using 1(2) [OF False refl refl no] 1(4,5,6) by simp
    qed
  qed
qed

lemma partition_search_filter:
  assumes "\<forall>i j. i < j \<and> j < length xs \<and> p (xs ! j) \<longrightarrow> p (xs ! i)"
  shows "partition_search p xs 0 (length xs) = length (filter p xs)"
proof -
  let ?r = "partition_search p xs 0 (length xs)"
  have "let r = ?r in r \<le> length xs \<and> (\<forall>j<r. p (xs ! j)) \<and> (\<forall>j. r \<le> j \<and> j < length xs \<longrightarrow> \<not> p (xs ! j))"
    by (rule partition_search_correct [OF _ _ assms]) auto
  then have r: "?r \<le> length xs" "\<forall>j<?r. p (xs ! j)" "\<forall>j. ?r \<le> j \<and> j < length xs \<longrightarrow> \<not> p (xs ! j)"
    unfolding Let_def by blast+
  have "filter p xs = filter p (take ?r xs) @ filter p (drop ?r xs)"
    unfolding filter_append [symmetric] append_take_drop_id ..
  moreover have "filter p (take ?r xs) = take ?r xs"
    using r(2) by (auto simp: filter_id_conv in_set_conv_nth)
  moreover have "filter p (drop ?r xs) = []"
    using r(1,3) by (auto simp: filter_empty_conv in_set_conv_nth)
  ultimately show ?thesis
    using r(1) by simp
qed

text \<open>
  On a list in ascending order of blocks the binary searches return the number of activations
  before a block and up to it, or the end iterator; so the activations between the two iterators
  are those of the block.
\<close>

theorem activation_bounds:
  assumes "sorted (map pfe_activation_block_num (activated_protocol_features_list m))"
  shows "pfm_lower_bound m k =
           (let i = length (filter (\<lambda>e. pfe_activation_block_num e < k) (activated_protocol_features_list m))
            in if i = length (activated_protocol_features_list m) then pfm_cend else Some i) \<and>
         pfm_upper_bound m k =
           (let i = length (filter (\<lambda>e. pfe_activation_block_num e \<le> k) (activated_protocol_features_list m))
            in if i = length (activated_protocol_features_list m) then pfm_cend else Some i)"
proof -
  let ?es = "activated_protocol_features_list m"
  have le: "pfe_activation_block_num (?es ! i) \<le> pfe_activation_block_num (?es ! j)" if "i < j" "j < length ?es" for i j
    using sorted_nth_mono [OF assms, of i j] that by simp
  have "partition_search (\<lambda>e. pfe_activation_block_num e < k) ?es 0 (length ?es) = length (filter (\<lambda>e. pfe_activation_block_num e < k) ?es)"
    "partition_search (\<lambda>e. \<not> k < pfe_activation_block_num e) ?es 0 (length ?es) = length (filter (\<lambda>e. \<not> k < pfe_activation_block_num e) ?es)"
    using le by (intro partition_search_filter; metis le_less_trans not_le)+
  then show ?thesis
    by (simp add: pfm_lower_bound_def pfm_upper_bound_def not_less Let_def)
qed

section \<open>Sample\<close>

definition sample_feature_env :: feature_env where
  "sample_feature_env =
     \<lparr>digest_of_hex = (\<lambda>_. \<lparr>dg0 = 0, dg1 = 0, dg2 = 0, dg3 = 0\<rparr>),
      hash_feature = (\<lambda>_ _ _ b. \<lparr>dg0 = of_nat (feature_index b), dg1 = 1, dg2 = 0, dg3 = 0\<rparr>)\<rparr>"

definition sample_digest :: "builtin_protocol_feature_t \<Rightarrow> digest" where
  "sample_digest b = \<lparr>dg0 = of_nat (feature_index b), dg1 = 1, dg2 = 0, dg3 = 0\<rparr>"

definition sample_feature :: "builtin_protocol_feature_t \<Rightarrow> digest set \<Rightarrow> protocol_feature" where
  "sample_feature b deps = \<lparr>pf_feature_digest = sample_digest b, pf_description_digest = \<lparr>dg0 = 0, dg1 = 0, dg2 = 0, dg3 = 0\<rparr>,
     pf_dependencies = deps, pf_earliest_allowed_activation_time = 0, pf_preactivation_required = True, pf_enabled = True,
     pf_builtin_feature = Some b\<rparr>"

definition sample_feature_set :: protocol_feature_set where
  "sample_feature_set = \<lparr>recognized_protocol_features =
      [sample_feature replace_deferred {}, sample_feature no_duplicate_deferred_id {sample_digest replace_deferred}],
    recognized_builtin_protocol_features =
      [None, None, Some (sample_digest replace_deferred), Some (sample_digest no_duplicate_deferred_id)]\<rparr>"

lemmas sample_feature_simps =
  sample_feature_env_def sample_digest_def sample_feature_def sample_feature_set_def find_spec_def
  builtin_protocol_feature_codenames_def default_restrictions_def find_feature_def

lemma sample_feature_set_built: "feature_set_built sample_feature_env sample_feature_set"
proof -
  define rd where "rd = \<lparr>pfb_protocol_feature_type = feature_type_string,
    pfb_description_digest = \<lparr>dg0 = 0, dg1 = 0, dg2 = 0, dg3 = 0\<rparr>, pfb_dependencies = {},
    pfb_subjective_restrictions = default_restrictions, pfb_type = builtin,
    bpf_builtin_feature_codename = ''REPLACE_DEFERRED'', bpf_codename = replace_deferred\<rparr>"
  define nd where "nd = \<lparr>pfb_protocol_feature_type = feature_type_string,
    pfb_description_digest = \<lparr>dg0 = 0, dg1 = 0, dg2 = 0, dg3 = 0\<rparr>, pfb_dependencies = {sample_digest replace_deferred},
    pfb_subjective_restrictions = default_restrictions, pfb_type = builtin,
    bpf_builtin_feature_codename = ''NO_DUPLICATE_DEFERRED_ID'', bpf_codename = no_duplicate_deferred_id\<rparr>"
  define s1 where "s1 = \<lparr>recognized_protocol_features = [sample_feature replace_deferred {}],
    recognized_builtin_protocol_features = [None, None, Some (sample_digest replace_deferred)]\<rparr>"
  have "add_feature sample_feature_env rd protocol_feature_set_init = Inr s1"
    by (simp add: add_feature_def rd_def s1_def sample_feature_simps protocol_feature_set_init_def feature_digest_of_def
        satisfied_builtin_dependencies_def set_builtin_def numeral_2_eq_2 Let_def)
  moreover have "add_feature sample_feature_env nd s1 = Inr sample_feature_set"
    by (simp add: add_feature_def nd_def s1_def sample_feature_simps feature_digest_of_def
        satisfied_builtin_dependencies_def set_builtin_def numeral_3_eq_3 Let_def)
  ultimately show ?thesis
    using built_init built_add by blast
qed

theorem feature_set_dependencies_witness:
  "pf_dependencies (sample_feature no_duplicate_deferred_id {sample_digest replace_deferred})
     \<subseteq> pf_feature_digest ` set [sample_feature replace_deferred {}]"
  using feature_set_dependencies [OF sample_feature_set_built, of "[sample_feature replace_deferred {}]"
      "sample_feature no_duplicate_deferred_id {sample_digest replace_deferred}" "[]"]
  by (simp add: sample_feature_set_def)

theorem protocol_feature_manager_is_log_witness:
  "\<exists>m m'. pfm_init [(sample_digest replace_deferred, 5)] (make_protocol_feature_manager sample_feature_set) = Inr m \<and>
     run_ops [op_activate (sample_digest no_duplicate_deferred_id) 7, op_pop 6] m = Some m' \<and>
     log_of m' = [(sample_digest replace_deferred, 5)]"
proof -
  have blocks: "\<forall>a\<in>set [(sample_digest replace_deferred, 5::nat)]. snd a < not_active"
    "\<forall>op\<in>set [op_activate (sample_digest no_duplicate_deferred_id) 7, op_pop 6]. op_block op < not_active"
    by (simp_all add: not_active_def u32_max_def op_block_def)
  obtain m where m: "pfm_init [(sample_digest replace_deferred, 5)] (make_protocol_feature_manager sample_feature_set) = Inr m"
    by (simp add: pfm_init_def make_protocol_feature_manager_def activate_feature_def sample_feature_simps inactive_entry_def Let_def)
  have "log_ops sample_feature_set [op_activate (sample_digest no_duplicate_deferred_id) 7, op_pop 6] [(sample_digest replace_deferred, 5)]
      = [(sample_digest replace_deferred, 5)]"
    by (simp add: log_activate_def log_pop_def sample_feature_simps)
  with protocol_feature_manager_is_log [OF sample_feature_set_built blocks m] m show ?thesis
    by auto
qed

theorem activation_bounds_witness:
  "pfm_lower_bound ((make_protocol_feature_manager sample_feature_set)\<lparr>activated_protocol_features_list :=
     [\<lparr>pfe_feature = sample_digest replace_deferred, pfe_activation_block_num = 3\<rparr>,
      \<lparr>pfe_feature = sample_digest no_duplicate_deferred_id, pfe_activation_block_num = 8\<rparr>]\<rparr>) 4 = Some 1"
  by (subst activation_bounds [THEN conjunct1]) simp_all

end
