(* ===== verification/Whitelisted_Intrinsics.thy ===== *)
theory Whitelisted_Intrinsics
  imports Chain_Prelude
begin

text \<open>
  The whitelist of host functions a contract may import (\<^verbatim>\<open>whitelisted_intrinsics.cpp\<close>): a multimap
  from the hash of a name to the name. The hash, \<^verbatim>\<open>std::hash\<close>, is implementation-defined and an
  argument of every definition; names whose hashes collide sit next to each other. The container is
  the list of its entries in the order of iteration.
\<close>

type_synonym str_hash = "string \<Rightarrow> nat"
type_synonym whitelisted_intrinsics_type = "(nat \<times> string) list"

text \<open>The suffix of the multimap an iterator stands for; the empty suffix is the end iterator.\<close>

definition wi_lower_bound :: "nat \<Rightarrow> whitelisted_intrinsics_type \<Rightarrow> whitelisted_intrinsics_type" where
  "wi_lower_bound h m = dropWhile (\<lambda>p. fst p < h) m"

fun find_intrinsic_helper :: "nat \<Rightarrow> string \<Rightarrow> whitelisted_intrinsics_type \<Rightarrow> bool \<times> whitelisted_intrinsics_type" where
  "find_intrinsic_helper h nm [] = (False, [])"
| "find_intrinsic_helper h nm (p # itr) =
     (if fst p = h then (if snd p = nm then (True, p # itr) else find_intrinsic_helper h nm itr)
      else (False, p # itr))"

definition find_intrinsic :: "whitelisted_intrinsics_type \<Rightarrow> nat \<Rightarrow> string \<Rightarrow> whitelisted_intrinsics_type" where
  "find_intrinsic m h nm =
     (case find_intrinsic_helper h nm (wi_lower_bound h m) of (found, itr) \<Rightarrow> if \<not> found then [] else itr)"

definition is_intrinsic_whitelisted :: "str_hash \<Rightarrow> whitelisted_intrinsics_type \<Rightarrow> string \<Rightarrow> bool" where
  "is_intrinsic_whitelisted hash m nm = fst (find_intrinsic_helper (hash nm) nm (wi_lower_bound (hash nm) m))"

text \<open>\<^verbatim>\<open>emplace\<close> on a multimap: after the entries with an equal key.\<close>

fun wi_emplace :: "nat \<Rightarrow> string \<Rightarrow> whitelisted_intrinsics_type \<Rightarrow> whitelisted_intrinsics_type" where
  "wi_emplace h nm [] = [(h, nm)]"
| "wi_emplace h nm (p # m) = (if h < fst p then (h, nm) # p # m else p # wi_emplace h nm m)"

definition add_intrinsic_to_whitelist ::
    "str_hash \<Rightarrow> string \<Rightarrow> whitelisted_intrinsics_type \<Rightarrow> whitelisted_intrinsics_type result" where
  "add_intrinsic_to_whitelist hash nm m =
     bind_r (eos_assert (find_intrinsic m (hash nm) nm = []) database_exception) (\<lambda>_.
       Inr (wi_emplace (hash nm) nm m))"

text \<open>\<^verbatim>\<open>erase\<close> of the entry an iterator, the suffix \<open>itr\<close>, stands at.\<close>

definition wi_erase :: "whitelisted_intrinsics_type \<Rightarrow> whitelisted_intrinsics_type \<Rightarrow> whitelisted_intrinsics_type" where
  "wi_erase itr m = take (length m - length itr) m @ tl itr"

definition remove_intrinsic_from_whitelist ::
    "str_hash \<Rightarrow> string \<Rightarrow> whitelisted_intrinsics_type \<Rightarrow> whitelisted_intrinsics_type result" where
  "remove_intrinsic_from_whitelist hash nm m =
     bind_r (eos_assert (find_intrinsic m (hash nm) nm \<noteq> []) database_exception) (\<lambda>_.
       Inr (wi_erase (find_intrinsic m (hash nm) nm) m))"

text \<open>The argument is the sequence of elements of a \<^verbatim>\<open>std::set\<close>.\<close>

definition reset_intrinsic_whitelist :: "str_hash \<Rightarrow> string list \<Rightarrow> whitelisted_intrinsics_type" where
  "reset_intrinsic_whitelist hash s = fold (\<lambda>nm m. wi_emplace (hash nm) nm m) s []"

definition convert_intrinsic_whitelist_to_set :: "whitelisted_intrinsics_type \<Rightarrow> string set" where
  "convert_intrinsic_whitelist_to_set m = snd ` set m"

section \<open>The whitelist as a set of names\<close>

text \<open>Entries are in the order of their hashes, each with the hash of its name, and no name twice.\<close>

definition whitelist_wf :: "str_hash \<Rightarrow> whitelisted_intrinsics_type \<Rightarrow> bool" where
  "whitelist_wf hash m \<longleftrightarrow> sorted (map fst m) \<and> (\<forall>p\<in>set m. fst p = hash (snd p)) \<and> distinct (map snd m)"

lemma set_wi_emplace [simp]: "set (wi_emplace h nm m) = insert (h, nm) (set m)"
  by (induction h nm m rule: wi_emplace.induct) auto

lemma sorted_wi_emplace: "sorted (map fst m) \<Longrightarrow> sorted (map fst (wi_emplace h nm m))"
  by (induction h nm m rule: wi_emplace.induct) auto

lemma distinct_wi_emplace:
  "distinct (map snd m) \<Longrightarrow> nm \<notin> snd ` set m \<Longrightarrow> distinct (map snd (wi_emplace h nm m))"
  by (induction h nm m rule: wi_emplace.induct) auto

lemma whitelist_wf_emplace:
  "whitelist_wf hash m \<Longrightarrow> nm \<notin> convert_intrinsic_whitelist_to_set m \<Longrightarrow> whitelist_wf hash (wi_emplace (hash nm) nm m)"
  by (simp add: whitelist_wf_def convert_intrinsic_whitelist_to_set_def sorted_wi_emplace distinct_wi_emplace)

text \<open>The search from the lower bound finds a name exactly when the multimap has it under that hash.\<close>

lemma find_intrinsic_helper_found:
  assumes "sorted (map fst m)" "\<forall>p\<in>set m. h \<le> fst p"
  shows "case find_intrinsic_helper h nm m of (found, itr) \<Rightarrow>
           (found \<longleftrightarrow> (h, nm) \<in> set m) \<and> (found \<longrightarrow> (\<exists>pre. m = pre @ itr \<and> itr \<noteq> [] \<and> hd itr = (h, nm) \<and> (h, nm) \<notin> set pre))"
  using assms
proof (induction h nm m rule: find_intrinsic_helper.induct)
  case (2 h nm p itr)
  show ?case
  proof (cases "fst p = h \<and> snd p \<noteq> nm")
    case True
    then obtain found itr' where r: "find_intrinsic_helper h nm itr = (found, itr')"
      by (cases "find_intrinsic_helper h nm itr") auto
    have IH: "found \<longleftrightarrow> (h, nm) \<in> set itr"
        "found \<Longrightarrow> \<exists>pre. itr = pre @ itr' \<and> itr' \<noteq> [] \<and> hd itr' = (h, nm) \<and> (h, nm) \<notin> set pre"
      using 2 True r by auto
    have np: "(h, nm) \<noteq> p"
      using True by (cases p) auto
    have "\<exists>pre. p # itr = pre @ itr' \<and> itr' \<noteq> [] \<and> hd itr' = (h, nm) \<and> (h, nm) \<notin> set pre" if f: found
    proof -
      obtain pre where "itr = pre @ itr'" "itr' \<noteq> []" "hd itr' = (h, nm)" "(h, nm) \<notin> set pre"
        using IH(2) [OF f] by blast
      then show ?thesis
        using np by (intro exI [of _ "p # pre"]) simp
    qed
    then show ?thesis
      using True r IH(1) np by auto
  next
    case False
    then show ?thesis
      using 2(2,3) by (auto simp: prod_eq_iff)
  qed
qed simp

lemma lower_bound_facts:
  assumes "sorted (map fst m)"
  shows "sorted (map fst (wi_lower_bound h m))" "\<forall>p\<in>set (wi_lower_bound h m). h \<le> fst p"
    "(h, nm) \<in> set (wi_lower_bound h m) \<longleftrightarrow> (h, nm) \<in> set m"
    "m = takeWhile (\<lambda>p. fst p < h) m @ wi_lower_bound h m"
proof -
  show s: "sorted (map fst (wi_lower_bound h m))" and ge: "\<forall>p\<in>set (wi_lower_bound h m). h \<le> fst p"
    using assms by (induction m) (auto simp: wi_lower_bound_def)
  show eq: "m = takeWhile (\<lambda>p. fst p < h) m @ wi_lower_bound h m"
    by (simp add: wi_lower_bound_def)
  show "(h, nm) \<in> set (wi_lower_bound h m) \<longleftrightarrow> (h, nm) \<in> set m"
    by (induction m) (auto simp: wi_lower_bound_def)
qed

lemma find_intrinsic_spec:
  assumes "sorted (map fst m)"
  shows "find_intrinsic m h nm = [] \<longleftrightarrow> (h, nm) \<notin> set m"
    and "find_intrinsic m h nm \<noteq> [] \<Longrightarrow>
           \<exists>pre post. m = pre @ (h, nm) # post \<and> find_intrinsic m h nm = (h, nm) # post"
proof -
  obtain found itr where r: "find_intrinsic_helper h nm (wi_lower_bound h m) = (found, itr)"
    by (cases "find_intrinsic_helper h nm (wi_lower_bound h m)") auto
  note lb = lower_bound_facts [OF assms, where h = h]
  have f: "found \<longleftrightarrow> (h, nm) \<in> set m"
    and i: "found \<Longrightarrow> \<exists>pre. wi_lower_bound h m = pre @ itr \<and> itr \<noteq> [] \<and> hd itr = (h, nm)"
    using find_intrinsic_helper_found [OF lb(1,2), of nm] r lb(3) [of nm] by auto
  show "find_intrinsic m h nm = [] \<longleftrightarrow> (h, nm) \<notin> set m"
    using r f i by (auto simp: find_intrinsic_def)
  assume "find_intrinsic m h nm \<noteq> []"
  then have found
    using r by (auto simp: find_intrinsic_def split: if_splits)
  with i obtain pre where pre: "wi_lower_bound h m = pre @ itr" "itr \<noteq> []" "hd itr = (h, nm)"
    by blast
  then have itr: "itr = (h, nm) # tl itr"
    by (cases itr) auto
  have "find_intrinsic m h nm = itr"
    using r \<open>found\<close> by (simp add: find_intrinsic_def)
  moreover have "m = (takeWhile (\<lambda>p. fst p < h) m @ pre) @ itr"
    using lb(4) pre(1) by simp
  ultimately show "\<exists>pre post. m = pre @ (h, nm) # post \<and> find_intrinsic m h nm = (h, nm) # post"
    using itr by metis
qed

lemma whitelist_member:
  "whitelist_wf hash m \<Longrightarrow> (hash nm, nm) \<in> set m \<longleftrightarrow> nm \<in> convert_intrinsic_whitelist_to_set m"
  by (force simp: whitelist_wf_def convert_intrinsic_whitelist_to_set_def)

lemma is_intrinsic_whitelisted_iff:
  assumes "whitelist_wf hash m"
  shows "is_intrinsic_whitelisted hash m nm \<longleftrightarrow> nm \<in> convert_intrinsic_whitelist_to_set m"
proof -
  have s: "sorted (map fst m)"
    using assms by (simp add: whitelist_wf_def)
  note lb = lower_bound_facts [OF s, where h = "hash nm"]
  have "fst (find_intrinsic_helper (hash nm) nm (wi_lower_bound (hash nm) m)) \<longleftrightarrow> (hash nm, nm) \<in> set m"
    using find_intrinsic_helper_found [OF lb(1,2), of nm] lb(3) [of nm] by (auto split: prod.splits)
  then show ?thesis
    using whitelist_member [OF assms] by (simp add: is_intrinsic_whitelisted_def)
qed

lemma remove_intrinsic_wf:
  assumes wf: "whitelist_wf hash m" and "nm \<in> convert_intrinsic_whitelist_to_set m"
  shows "\<exists>m'. remove_intrinsic_from_whitelist hash nm m = Inr m' \<and> whitelist_wf hash m' \<and>
           convert_intrinsic_whitelist_to_set m' = convert_intrinsic_whitelist_to_set m - {nm}"
proof -
  have s: "sorted (map fst m)" and "(hash nm, nm) \<in> set m"
    using assms whitelist_member by (auto simp: whitelist_wf_def)
  then have ne: "find_intrinsic m (hash nm) nm \<noteq> []"
    by (simp add: find_intrinsic_spec(1))
  then obtain pre post where m: "m = pre @ (hash nm, nm) # post" "find_intrinsic m (hash nm) nm = (hash nm, nm) # post"
    using find_intrinsic_spec(2) [OF s] by metis
  have "wi_erase ((hash nm, nm) # post) m = pre @ post"
    by (simp add: m(1) wi_erase_def)
  moreover have "sorted (map fst (pre @ post))"
    using s by (simp add: m(1) sorted_append)
  then have "whitelist_wf hash (pre @ post)"
    using wf by (simp add: whitelist_wf_def m(1))
  moreover have "convert_intrinsic_whitelist_to_set (pre @ post) = convert_intrinsic_whitelist_to_set m - {nm}"
    using wf by (auto simp: whitelist_wf_def m(1) convert_intrinsic_whitelist_to_set_def)
  ultimately show ?thesis
    using ne m(2) by (simp add: remove_intrinsic_from_whitelist_def)
qed

lemma add_intrinsic_wf:
  assumes wf: "whitelist_wf hash m"
  shows "add_intrinsic_to_whitelist hash nm m =
           (if nm \<in> convert_intrinsic_whitelist_to_set m then Inl database_exception else Inr (wi_emplace (hash nm) nm m))"
  using whitelist_member [OF wf] wf
  by (auto simp: add_intrinsic_to_whitelist_def find_intrinsic_spec(1) whitelist_wf_def eos_assert_def)

lemma convert_emplace [simp]:
  "convert_intrinsic_whitelist_to_set (wi_emplace h nm m) = insert nm (convert_intrinsic_whitelist_to_set m)"
  by (simp add: convert_intrinsic_whitelist_to_set_def)

lemma reset_intrinsic_wf:
  assumes "distinct s"
  shows "whitelist_wf hash (reset_intrinsic_whitelist hash s) \<and>
         convert_intrinsic_whitelist_to_set (reset_intrinsic_whitelist hash s) = set s"
proof -
  have "whitelist_wf hash (fold (\<lambda>nm m. wi_emplace (hash nm) nm m) s m) \<and>
        convert_intrinsic_whitelist_to_set (fold (\<lambda>nm m. wi_emplace (hash nm) nm m) s m) =
          convert_intrinsic_whitelist_to_set m \<union> set s"
    if "whitelist_wf hash m" "distinct s" "set s \<inter> convert_intrinsic_whitelist_to_set m = {}" for m s
    using that by (induction s arbitrary: m) (auto simp: whitelist_wf_emplace)
  from this [of "[]" s] assms show ?thesis
    by (simp add: reset_intrinsic_whitelist_def whitelist_wf_def convert_intrinsic_whitelist_to_set_def)
qed

section \<open>Contract\<close>

text \<open>What the users of the whitelist rely on: the operations of a finite set of names.\<close>

locale name_set =
  fixes wf :: "'s \<Rightarrow> bool"
    and names :: "'s \<Rightarrow> string set"
    and has_name :: "'s \<Rightarrow> string \<Rightarrow> bool"
    and add_name :: "string \<Rightarrow> 's \<Rightarrow> 's result"
    and del_name :: "string \<Rightarrow> 's \<Rightarrow> 's result"
  assumes has_name: "wf m \<Longrightarrow> has_name m nm \<longleftrightarrow> nm \<in> names m"
    and add_fresh: "wf m \<Longrightarrow> nm \<notin> names m \<Longrightarrow> \<exists>m'. add_name nm m = Inr m' \<and> wf m' \<and> names m' = insert nm (names m)"
    and add_known: "wf m \<Longrightarrow> nm \<in> names m \<Longrightarrow> add_name nm m = Inl database_exception"
    and del_known: "wf m \<Longrightarrow> nm \<in> names m \<Longrightarrow> \<exists>m'. del_name nm m = Inr m' \<and> wf m' \<and> names m' = names m - {nm}"
    and del_unknown: "wf m \<Longrightarrow> nm \<notin> names m \<Longrightarrow> del_name nm m = Inl database_exception"
begin

lemma add_result:
  "wf m \<Longrightarrow> add_name nm m = Inr m' \<Longrightarrow> nm \<notin> names m \<and> wf m' \<and> names m' = insert nm (names m)"
  using add_fresh [of m nm] add_known [of m nm] by (cases "nm \<in> names m") auto

lemma add_then_has: "wf m \<Longrightarrow> add_name nm m = Inr m' \<Longrightarrow> has_name m' x \<longleftrightarrow> x = nm \<or> has_name m x"
  using add_result [of m nm m'] has_name [of m x] has_name [of m' x] by auto

lemma add_then_del:
  "wf m \<Longrightarrow> add_name nm m = Inr m' \<Longrightarrow> \<exists>m''. del_name nm m' = Inr m'' \<and> wf m'' \<and> names m'' = names m"
  using add_result [of m nm m'] del_known [of m' nm] by auto

end

interpretation whitelist: name_set "whitelist_wf hash" convert_intrinsic_whitelist_to_set
  "is_intrinsic_whitelisted hash" "add_intrinsic_to_whitelist hash" "remove_intrinsic_from_whitelist hash" for hash
proof unfold_locales
  fix m nm assume wf: "whitelist_wf hash m"
  show "is_intrinsic_whitelisted hash m nm \<longleftrightarrow> nm \<in> convert_intrinsic_whitelist_to_set m"
    by (rule is_intrinsic_whitelisted_iff [OF wf])
  show "\<exists>m'. add_intrinsic_to_whitelist hash nm m = Inr m' \<and> whitelist_wf hash m' \<and>
          convert_intrinsic_whitelist_to_set m' = insert nm (convert_intrinsic_whitelist_to_set m)"
    if "nm \<notin> convert_intrinsic_whitelist_to_set m"
    using that wf by (simp add: add_intrinsic_wf whitelist_wf_emplace)
  show "add_intrinsic_to_whitelist hash nm m = Inl database_exception" if "nm \<in> convert_intrinsic_whitelist_to_set m"
    using that wf by (simp add: add_intrinsic_wf)
  show "\<exists>m'. remove_intrinsic_from_whitelist hash nm m = Inr m' \<and> whitelist_wf hash m' \<and>
          convert_intrinsic_whitelist_to_set m' = convert_intrinsic_whitelist_to_set m - {nm}"
    if "nm \<in> convert_intrinsic_whitelist_to_set m"
    using that by (rule remove_intrinsic_wf [OF wf])
  show "remove_intrinsic_from_whitelist hash nm m = Inl database_exception"
    if "nm \<notin> convert_intrinsic_whitelist_to_set m"
    using that wf whitelist_member [OF wf]
    by (simp add: remove_intrinsic_from_whitelist_def find_intrinsic_spec(1) whitelist_wf_def)
qed

text \<open>
  Sequences of changes. A change that throws leaves the whitelist as it was; on the side of the set
  of names it is one that adds a known name or removes an unknown one.
\<close>

datatype whitelist_change = whitelist_add string | whitelist_remove string

fun change_whitelist :: "str_hash \<Rightarrow> whitelist_change \<Rightarrow> whitelisted_intrinsics_type \<Rightarrow> whitelisted_intrinsics_type result" where
  "change_whitelist hash (whitelist_add nm) m = add_intrinsic_to_whitelist hash nm m"
| "change_whitelist hash (whitelist_remove nm) m = remove_intrinsic_from_whitelist hash nm m"

definition run_changes :: "str_hash \<Rightarrow> whitelist_change list \<Rightarrow> whitelisted_intrinsics_type \<Rightarrow> whitelisted_intrinsics_type" where
  "run_changes hash cs m = fold (\<lambda>c m. case change_whitelist hash c m of Inl e \<Rightarrow> m | Inr m' \<Rightarrow> m') cs m"

fun change_names :: "whitelist_change \<Rightarrow> string set \<Rightarrow> string set" where
  "change_names (whitelist_add nm) S = insert nm S"
| "change_names (whitelist_remove nm) S = S - {nm}"

fun change_allowed :: "whitelist_change \<Rightarrow> string set \<Rightarrow> bool" where
  "change_allowed (whitelist_add nm) S \<longleftrightarrow> nm \<notin> S"
| "change_allowed (whitelist_remove nm) S \<longleftrightarrow> nm \<in> S"

lemma change_not_allowed: "\<not> change_allowed c S \<Longrightarrow> change_names c S = S"
  by (cases c) auto

lemma change_whitelist_spec:
  assumes "whitelist_wf hash m"
  shows "if change_allowed c (convert_intrinsic_whitelist_to_set m)
    then \<exists>m'. change_whitelist hash c m = Inr m' \<and> whitelist_wf hash m'
           \<and> convert_intrinsic_whitelist_to_set m' = change_names c (convert_intrinsic_whitelist_to_set m)
    else change_whitelist hash c m = Inl database_exception"
  using whitelist.add_fresh [OF assms] whitelist.add_known [OF assms] whitelist.del_known [OF assms]
    whitelist.del_unknown [OF assms]
  by (cases c) simp_all

lemma run_changes_spec:
  "whitelist_wf hash m \<Longrightarrow> whitelist_wf hash (run_changes hash cs m)
     \<and> convert_intrinsic_whitelist_to_set (run_changes hash cs m) = fold change_names cs (convert_intrinsic_whitelist_to_set m)"
proof (induction cs arbitrary: m)
  case (Cons c cs)
  show ?case
  proof (cases "change_allowed c (convert_intrinsic_whitelist_to_set m)")
    case True
    then obtain m' where "change_whitelist hash c m = Inr m'" "whitelist_wf hash m'"
      "convert_intrinsic_whitelist_to_set m' = change_names c (convert_intrinsic_whitelist_to_set m)"
      using change_whitelist_spec [OF Cons.prems, of c] by auto
    then show ?thesis
      using Cons.IH [of m'] by (simp add: run_changes_def)
  next
    case False
    then have "change_whitelist hash c m = Inl database_exception"
      using change_whitelist_spec [OF Cons.prems, of c] by simp
    then show ?thesis
      using Cons by (simp add: run_changes_def change_not_allowed [OF False])
  qed
qed (simp add: run_changes_def)

text \<open>
  C34. Whatever the hash function, and however often it collides, the whitelist built from a set of
  names and changed by any sequence of additions and removals is the set of names changed the same
  way: a name is whitelisted exactly when it is in that set, the conversion to a set gives that set,
  a further addition or removal of any name throws exactly when the name is known or unknown
  respectively, and otherwise adds or removes that name and no other.
\<close>

theorem whitelist_is_a_set:
  assumes "distinct s"
  shows "let m = run_changes hash cs (reset_intrinsic_whitelist hash s); S = fold change_names cs (set s) in
    (\<forall>x. is_intrinsic_whitelisted hash m x \<longleftrightarrow> x \<in> S) \<and> convert_intrinsic_whitelist_to_set m = S
    \<and> (if nm \<in> S
       then add_intrinsic_to_whitelist hash nm m = Inl database_exception
         \<and> (\<exists>m'. remove_intrinsic_from_whitelist hash nm m = Inr m'
              \<and> (\<forall>x. is_intrinsic_whitelisted hash m' x \<longleftrightarrow> x \<in> S \<and> x \<noteq> nm))
       else remove_intrinsic_from_whitelist hash nm m = Inl database_exception
         \<and> (\<exists>m'. add_intrinsic_to_whitelist hash nm m = Inr m'
              \<and> (\<forall>x. is_intrinsic_whitelisted hash m' x \<longleftrightarrow> x \<in> S \<or> x = nm)))"
proof -
  define m where "m = run_changes hash cs (reset_intrinsic_whitelist hash s)"
  define S where "S = fold change_names cs (set s)"
  have wf: "whitelist_wf hash m" and names: "convert_intrinsic_whitelist_to_set m = S"
    using run_changes_spec [of hash _ cs] reset_intrinsic_wf [OF assms(1)] unfolding m_def S_def by simp_all
  have "\<exists>m'. remove_intrinsic_from_whitelist hash nm m = Inr m' \<and> (\<forall>x. is_intrinsic_whitelisted hash m' x \<longleftrightarrow> x \<in> S \<and> x \<noteq> nm)"
    if "nm \<in> S"
    using whitelist.del_known [OF wf, of nm] that whitelist.has_name [of hash] names by auto
  moreover have "\<exists>m'. add_intrinsic_to_whitelist hash nm m = Inr m' \<and> (\<forall>x. is_intrinsic_whitelisted hash m' x \<longleftrightarrow> x \<in> S \<or> x = nm)"
    if "nm \<notin> S"
    using whitelist.add_fresh [OF wf, of nm] that whitelist.has_name [of hash] names by auto
  ultimately show ?thesis
    using whitelist.has_name [OF wf] whitelist.add_known [OF wf] whitelist.del_unknown [OF wf] names
    unfolding Let_def m_def [symmetric] S_def [symmetric] by simp
qed

theorem whitelist_is_a_set_witness:
  "let m = run_changes (\<lambda>_. 0) [whitelist_add ''get_sender'', whitelist_remove ''prints'']
             (reset_intrinsic_whitelist (\<lambda>_. 0) [''prints'', ''abort'']) in
     is_intrinsic_whitelisted (\<lambda>_. 0) m ''abort'' \<and> is_intrinsic_whitelisted (\<lambda>_. 0) m ''get_sender''
     \<and> \<not> is_intrinsic_whitelisted (\<lambda>_. 0) m ''prints''
     \<and> (\<exists>m'. remove_intrinsic_from_whitelist (\<lambda>_. 0) ''abort'' m = Inr m'
          \<and> is_intrinsic_whitelisted (\<lambda>_. 0) m' ''get_sender'' \<and> \<not> is_intrinsic_whitelisted (\<lambda>_. 0) m' ''abort'')"
  using whitelist_is_a_set [of "[''prints'', ''abort'']" "\<lambda>_. 0"
      "[whitelist_add ''get_sender'', whitelist_remove ''prints'']" "''abort''"]
  by (auto simp: Let_def)

end
