(* ===== verification/Resource_Limits.thy ===== *)
theory Resource_Limits
  imports Names Tables "HOL-Library.Product_Lexorder"
begin

text \<open>
  Rate limiting of CPU, network and RAM: \<^verbatim>\<open>resource_limits.cpp\<close> and
  \<^verbatim>\<open>resource_limits_private.hpp\<close>, with the on-chain parameters it reads
  (\<^verbatim>\<open>config_on_chain.cpp\<close>). The state is the record \<open>resource_db\<close>: the limit and usage rows of
  the accounts, the configuration and the block state.
\<close>

section \<open>Ratios, casts and the moving average\<close>

record ratio =
  numerator :: nat
  denominator :: nat

text \<open>\<^verbatim>\<open>value * r\<close>: guarded against overflow; a zero denominator would be undefined.\<close>

definition ratio_times :: "nat \<Rightarrow> ratio \<Rightarrow> nat result" where
  "ratio_times value r =
     bind_r (eos_assert (numerator r = 0 \<or> u64_max div numerator r \<ge> value) rate_limiting_state_inconsistent)
       (\<lambda>_. if denominator r = 0 then Inl undefined_behaviour
             else Inr (mul64 value (numerator r) div denominator r))"

definition integer_divide_ceil :: "nat \<Rightarrow> nat \<Rightarrow> nat" where
  "integer_divide_ceil num den = num div den + (if num mod den > 0 then 1 else 0)"

definition downgrade_cast_u64 :: "nat \<Rightarrow> nat result" where
  "downgrade_cast_u64 val = bind_r (eos_assert (val \<le> u64_max) rate_limiting_state_inconsistent) (\<lambda>_. Inr val)"

definition downgrade_cast_i64 :: "nat \<Rightarrow> nat result" where
  "downgrade_cast_i64 val = bind_r (eos_assert (val \<le> i64_max) rate_limiting_state_inconsistent) (\<lambda>_. Inr val)"

definition rate_limiting_precision :: nat where
  "rate_limiting_precision = 1000 * 1000"

record usage_accumulator =
  last_ordinal :: nat
  value_ex :: nat
  consumed :: nat

definition usage_accumulator_init :: usage_accumulator where
  "usage_accumulator_init = \<lparr>last_ordinal = 0, value_ex = 0, consumed = 0\<rparr>"

definition average :: "usage_accumulator \<Rightarrow> nat" where
  "average a = integer_divide_ceil (value_ex a) rate_limiting_precision"

definition max_raw_value :: nat where
  "max_raw_value = u64_max div rate_limiting_precision"

text \<open>Moving the accumulator to a new period: decay of the average, or reset after a whole window.\<close>

definition accumulator_advance :: "nat \<Rightarrow> nat \<Rightarrow> usage_accumulator \<Rightarrow> usage_accumulator result" where
  "accumulator_advance ordinal window_size a =
     (if last_ordinal a \<noteq> ordinal
      then bind_r (eos_assert (ordinal > last_ordinal a) resource_limit_exception) (\<lambda>_.
             bind_r (if last_ordinal a + window_size > ordinal
                     then ratio_times (value_ex a)
                            \<lparr>numerator = window_size - (ordinal - last_ordinal a), denominator = window_size\<rparr>
                     else Inr 0) (\<lambda>v.
               let a' = a\<lparr>value_ex := v, last_ordinal := ordinal\<rparr>
               in Inr (a'\<lparr>consumed := average a'\<rparr>)))
      else Inr a)"

definition accumulator_add :: "nat \<Rightarrow> nat \<Rightarrow> nat \<Rightarrow> usage_accumulator \<Rightarrow> usage_accumulator result" where
  "accumulator_add units ordinal window_size a =
     bind_r (eos_assert (units \<le> max_raw_value) rate_limiting_state_inconsistent) (\<lambda>_.
     bind_r (eos_assert (u64_max - consumed a \<ge> units) rate_limiting_state_inconsistent) (\<lambda>_.
     bind_r (if window_size = 0 then Inl undefined_behaviour
             else downgrade_cast_u64
                    (integer_divide_ceil (mul128 units rate_limiting_precision) window_size)) (\<lambda>contrib.
     bind_r (eos_assert (u64_max - value_ex a \<ge> contrib) rate_limiting_state_inconsistent) (\<lambda>_.
     bind_r (accumulator_advance ordinal window_size a) (\<lambda>a.
       Inr (a\<lparr>consumed := add64 (consumed a) units, value_ex := add64 (value_ex a) contrib\<rparr>))))))"

section \<open>Elastic limits\<close>

record elastic_limit_parameters =
  target :: nat
  max_usage :: nat
  periods :: nat
  max_multiplier :: nat
  contract_rate :: ratio
  expand_rate :: ratio

definition elastic_validate :: "elastic_limit_parameters \<Rightarrow> unit result" where
  "elastic_validate p =
     bind_r (eos_assert (periods p > 0) resource_limit_exception) (\<lambda>_.
     bind_r (eos_assert (denominator (contract_rate p) > 0) resource_limit_exception) (\<lambda>_.
       eos_assert (denominator (expand_rate p) > 0) resource_limit_exception))"

definition update_elastic_limit :: "nat \<Rightarrow> nat \<Rightarrow> elastic_limit_parameters \<Rightarrow> nat result" where
  "update_elastic_limit current_limit average_usage params =
     bind_r (if average_usage > target params then ratio_times current_limit (contract_rate params)
             else ratio_times current_limit (expand_rate params)) (\<lambda>v.
       Inr (min (max v (max_usage params)) (mul64 (max_usage params) (max_multiplier params))))"

section \<open>State\<close>

record resource_limits_object =
  net_weight :: int
  cpu_weight :: int
  ram_bytes :: int

record resource_usage_object =
  net_usage :: usage_accumulator
  cpu_usage :: usage_accumulator
  ram_usage :: nat

record resource_limits_config =
  cpu_limit_parameters :: elastic_limit_parameters
  net_limit_parameters :: elastic_limit_parameters
  account_cpu_usage_average_window :: nat
  account_net_usage_average_window :: nat

record resource_limits_state =
  average_block_net_usage :: usage_accumulator
  average_block_cpu_usage :: usage_accumulator
  pending_net_usage :: nat
  pending_cpu_usage :: nat
  total_net_weight :: nat
  total_cpu_weight :: nat
  total_ram_bytes :: nat
  virtual_net_limit :: nat
  virtual_cpu_limit :: nat

text \<open>
  Limit rows are keyed by \<^verbatim>\<open>(pending, owner)\<close>. \<open>chain_config\<close> holds the numeric on-chain
  parameters and \<open>vote4ram_staked\<close> the staked amounts of the \<^verbatim>\<open>vote4ramsum\<close> rows of the system
  contract, which the RAM limit reads.
\<close>

record resource_db =
  limits :: "(bool \<times> account_name, resource_limits_object) table"
  usages :: "(account_name, resource_usage_object) table"
  rl_config :: resource_limits_config
  rl_state :: resource_limits_state
  chain_config :: "(name, int) table"
  vote4ram_staked :: "account_name \<Rightarrow> int option"

definition eos_percent :: "nat \<Rightarrow> nat \<Rightarrow> nat" where
  "eos_percent value percentage = mul64 value percentage div 10000"

definition default_config :: resource_limits_config where
  "default_config =
     \<lparr>cpu_limit_parameters = \<lparr>target = eos_percent 1000000 1000, max_usage = 1000000, periods = 60000 div 3000,
        max_multiplier = 1000, contract_rate = \<lparr>numerator = 99, denominator = 100\<rparr>,
        expand_rate = \<lparr>numerator = 1000, denominator = 999\<rparr>\<rparr>,
      net_limit_parameters = \<lparr>target = eos_percent 1048576 1000, max_usage = 1048576, periods = 60000 div 3000,
        max_multiplier = 1000, contract_rate = \<lparr>numerator = 99, denominator = 100\<rparr>,
        expand_rate = \<lparr>numerator = 1000, denominator = 999\<rparr>\<rparr>,
      account_cpu_usage_average_window = 86400000 div 3000,
      account_net_usage_average_window = 86400000 div 3000\<rparr>"

definition default_limits_row :: resource_limits_object where
  "default_limits_row = \<lparr>net_weight = -1, cpu_weight = -1, ram_bytes = -1\<rparr>"

definition default_usage_row :: resource_usage_object where
  "default_usage_row = \<lparr>net_usage = usage_accumulator_init, cpu_usage = usage_accumulator_init, ram_usage = 0\<rparr>"

definition initialize_database ::
    "(name, int) table \<Rightarrow> (account_name \<Rightarrow> int option) \<Rightarrow> resource_db" where
  "initialize_database cfg votes =
     \<lparr>limits = [], usages = [], rl_config = default_config,
      rl_state = \<lparr>average_block_net_usage = usage_accumulator_init,
        average_block_cpu_usage = usage_accumulator_init, pending_net_usage = 0, pending_cpu_usage = 0,
        total_net_weight = 0, total_cpu_weight = 0, total_ram_bytes = 0,
        virtual_net_limit = max_usage (net_limit_parameters default_config),
        virtual_cpu_limit = max_usage (cpu_limit_parameters default_config)\<rparr>,
      chain_config = cfg, vote4ram_staked = votes\<rparr>"

section \<open>On-chain parameters and the RAM limit\<close>

definition get_num_config_on_chain :: "resource_db \<Rightarrow> name \<Rightarrow> int \<Rightarrow> int" where
  "get_num_config_on_chain db typ default_value =
     (case tbl_find typ (chain_config db) of None \<Rightarrow> default_value | Some num \<Rightarrow> num)"

definition set_num_config_on_chain :: "resource_db \<Rightarrow> name \<Rightarrow> int \<Rightarrow> resource_db" where
  "set_num_config_on_chain db typ num = db\<lparr>chain_config := tbl_put typ num (chain_config db)\<rparr>"

definition unlimited_ram_accounts :: "account_name list" where
  "unlimited_ram_accounts = map string_to_name
     [''eosio'', ''force.ram'', ''force.cpu'', ''force.net'', ''force.test'', ''eosio.token'',
      ''eosio.msig'', ''eosio.bios'']"

definition get_account_ram_limit :: "resource_db \<Rightarrow> account_name \<Rightarrow> int" where
  "get_account_ram_limit db nm =
     (let init_ram_size = get_num_config_on_chain db (string_to_name ''res.freeram'') (8 * 1024)
      in if nm \<in> set unlimited_ram_accounts then -1
         else (case vote4ram_staked db nm of
                 None \<Rightarrow> init_ram_size
               | Some staked \<Rightarrow>
                   let ram_rent = get_num_config_on_chain db (string_to_name ''res.ramrent'') 10240;
                       res = tdiv (wrap_i64 (staked * ram_rent)) 1000000
                   in wrap_i64 (res + init_ram_size)))"

section \<open>Accounts\<close>

definition initialize_account :: "account_name \<Rightarrow> resource_db \<Rightarrow> resource_db result" where
  "initialize_account account db =
     bind_r (tbl_create (False, account) default_limits_row (limits db)) (\<lambda>ls.
     bind_r (tbl_create account default_usage_row (usages db)) (\<lambda>us.
       Inr (db\<lparr>limits := ls, usages := us\<rparr>)))"

definition set_block_parameters ::
    "elastic_limit_parameters \<Rightarrow> elastic_limit_parameters \<Rightarrow> resource_db \<Rightarrow> resource_db result" where
  "set_block_parameters cpu_params net_params db =
     bind_r (elastic_validate cpu_params) (\<lambda>_.
     bind_r (elastic_validate net_params) (\<lambda>_.
       if cpu_limit_parameters (rl_config db) = cpu_params \<and> net_limit_parameters (rl_config db) = net_params
       then Inr db
       else Inr (db\<lparr>rl_config := (rl_config db)\<lparr>cpu_limit_parameters := cpu_params,
                                                  net_limit_parameters := net_params\<rparr>\<rparr>)))"

text \<open>The two \<^verbatim>\<open>add\<close> calls of the modifier lambda: network first, then CPU.\<close>

definition usage_add ::
    "nat \<Rightarrow> nat \<Rightarrow> nat \<Rightarrow> resource_limits_config \<Rightarrow> resource_usage_object \<Rightarrow> resource_usage_object result" where
  "usage_add net cpu time_slot config bu =
     bind_r (accumulator_add net time_slot (account_net_usage_average_window config) (net_usage bu)) (\<lambda>n.
     bind_r (accumulator_add cpu time_slot (account_cpu_usage_average_window config) (cpu_usage bu)) (\<lambda>c.
       Inr (bu\<lparr>net_usage := n, cpu_usage := c\<rparr>)))"

definition update_account_usage :: "account_name list \<Rightarrow> nat \<Rightarrow> resource_db \<Rightarrow> resource_db result" where
  "update_account_usage accounts time_slot db =
     fold_r (\<lambda>a db.
       bind_r (tbl_get a (usages db)) (\<lambda>usage.
       bind_r (usage_add 0 0 time_slot (rl_config db) usage) (\<lambda>usage.
         Inr (db\<lparr>usages := tbl_put a usage (usages db)\<rparr>)))) accounts db"

definition get_account_limits :: "resource_db \<Rightarrow> account_name \<Rightarrow> (int \<times> int \<times> int) result" where
  "get_account_limits db account =
     (case tbl_find (True, account) (limits db) of
        Some pending_buo \<Rightarrow> Inr (get_account_ram_limit db account, net_weight pending_buo, cpu_weight pending_buo)
      | None \<Rightarrow> bind_r (tbl_get (False, account) (limits db)) (\<lambda>buo.
                  Inr (get_account_ram_limit db account, net_weight buo, cpu_weight buo)))"

text \<open>\<^verbatim>\<open>max_user_use_in_window\<close>, computed in 128 bits.\<close>

definition max_user_use_in_window :: "nat \<Rightarrow> nat \<Rightarrow> int \<Rightarrow> nat \<Rightarrow> nat" where
  "max_user_use_in_window virtual_limit window_size weight all_user_weight =
     mul128 (mul128 virtual_limit window_size) (nat weight) div all_user_weight"

text \<open>One account of the loop of \<^verbatim>\<open>add_transaction_usage\<close>.\<close>

definition bill_account :: "nat \<Rightarrow> nat \<Rightarrow> nat \<Rightarrow> account_name \<Rightarrow> resource_db \<Rightarrow> resource_db result" where
  "bill_account cpu net time_slot a db =
     bind_r (tbl_get a (usages db)) (\<lambda>usage.
     bind_r (get_account_limits db a) (\<lambda>(unused, net_w, cpu_w).
     bind_r (usage_add net cpu time_slot (rl_config db) usage) (\<lambda>usage.
     bind_r (if cpu_w \<ge> 0 \<and> total_cpu_weight (rl_state db) > 0
             then let window_size = account_cpu_usage_average_window (rl_config db);
                      used = mul128 (value_ex (cpu_usage usage)) window_size div rate_limiting_precision
                  in eos_assert (used \<le> max_user_use_in_window (virtual_cpu_limit (rl_state db)) window_size
                                          cpu_w (total_cpu_weight (rl_state db))) tx_cpu_usage_exceeded
             else Inr ()) (\<lambda>_.
     bind_r (if net_w \<ge> 0 \<and> total_net_weight (rl_state db) > 0
             then let window_size = account_net_usage_average_window (rl_config db);
                      used = mul128 (value_ex (net_usage usage)) window_size div rate_limiting_precision
                  in eos_assert (used \<le> max_user_use_in_window (virtual_net_limit (rl_state db)) window_size
                                          net_w (total_net_weight (rl_state db))) tx_net_usage_exceeded
             else Inr ()) (\<lambda>_.
       Inr (db\<lparr>usages := tbl_put a usage (usages db)\<rparr>))))))"

definition add_transaction_usage ::
    "account_name list \<Rightarrow> nat \<Rightarrow> nat \<Rightarrow> nat \<Rightarrow> resource_db \<Rightarrow> resource_db result" where
  "add_transaction_usage accounts cpu net time_slot db =
     bind_r (fold_r (bill_account cpu net time_slot) accounts db) (\<lambda>db.
       let state = (rl_state db)\<lparr>pending_cpu_usage := add64 (pending_cpu_usage (rl_state db)) cpu,
                                 pending_net_usage := add64 (pending_net_usage (rl_state db)) net\<rparr>
       in bind_r (eos_assert (pending_cpu_usage state \<le> max_usage (cpu_limit_parameters (rl_config db)))
                    block_resource_exhausted) (\<lambda>_.
          bind_r (eos_assert (pending_net_usage state \<le> max_usage (net_limit_parameters (rl_config db)))
                    block_resource_exhausted) (\<lambda>_.
            Inr (db\<lparr>rl_state := state\<rparr>))))"

definition add_pending_ram_usage :: "account_name \<Rightarrow> int \<Rightarrow> resource_db \<Rightarrow> resource_db result" where
  "add_pending_ram_usage account ram_delta db =
     (if ram_delta = 0 then Inr db
      else bind_r (tbl_get account (usages db)) (\<lambda>usage.
           bind_r (eos_assert (ram_delta \<le> 0 \<or> u64_max - ram_usage usage \<ge> nat ram_delta) transaction_exception) (\<lambda>_.
           bind_r (eos_assert (ram_delta \<ge> 0 \<or> ram_usage usage \<ge> nat (- ram_delta)) transaction_exception) (\<lambda>_.
             Inr (db\<lparr>usages := tbl_put account
                       (usage\<lparr>ram_usage := nat ((int (ram_usage usage) + ram_delta) mod 2 ^ 64)\<rparr>) (usages db)\<rparr>)))))"

definition verify_account_ram_usage :: "account_name \<Rightarrow> resource_db \<Rightarrow> unit result" where
  "verify_account_ram_usage account db =
     bind_r (get_account_limits db account) (\<lambda>(ram, net_w, cpu_w).
     bind_r (tbl_get account (usages db)) (\<lambda>usage.
       if ram \<ge> 0 then eos_assert (ram_usage usage \<le> nat ram) ram_usage_exceeded else Inr ()))"

text \<open>The unsigned usage is returned as a signed integer.\<close>

definition get_account_ram_usage :: "resource_db \<Rightarrow> account_name \<Rightarrow> int result" where
  "get_account_ram_usage db nm = bind_r (tbl_get nm (usages db)) (\<lambda>usage. Inr (wrap_i64 (int (ram_usage usage))))"

text \<open>The flag returned tells whether the RAM limit was decreased.\<close>

definition set_account_limits ::
    "account_name \<Rightarrow> int \<Rightarrow> int \<Rightarrow> int \<Rightarrow> resource_db \<Rightarrow> (bool \<times> resource_db) result" where
  "set_account_limits account ram net_w cpu_w db =
     bind_r (case tbl_find (True, account) (limits db) of
               None \<Rightarrow> tbl_get (False, account) (limits db)
             | Some pending_limits \<Rightarrow> Inr pending_limits) (\<lambda>lim.
       let decreased_limit = (ram \<ge> 0 \<and> (ram_bytes lim < 0 \<or> ram < ram_bytes lim))
       in Inr (decreased_limit,
            db\<lparr>limits := tbl_put (True, account)
                 \<lparr>net_weight = net_w, cpu_weight = cpu_w, ram_bytes = ram\<rparr> (limits db)\<rparr>))"

section \<open>Block boundaries\<close>

text \<open>The lambda \<^verbatim>\<open>update_state_and_value\<close>: the new total.\<close>

definition update_total :: "nat \<Rightarrow> int \<Rightarrow> int \<Rightarrow> nat result" where
  "update_total tot value pending_value =
     bind_r (if value > 0
             then bind_r (eos_assert (tot \<ge> nat value) rate_limiting_state_inconsistent) (\<lambda>_. Inr (tot - nat value))
             else Inr tot) (\<lambda>tot.
       if pending_value > 0
       then bind_r (eos_assert (u64_max - tot \<ge> nat pending_value) rate_limiting_state_inconsistent) (\<lambda>_.
              Inr (tot + nat pending_value))
       else Inr tot)"

definition apply_pending ::
    "account_name \<Rightarrow> resource_limits_object \<Rightarrow> resource_db \<Rightarrow> resource_db result" where
  "apply_pending owner pend db =
     bind_r (tbl_get (False, owner) (limits db)) (\<lambda>rlo.
     bind_r (update_total (total_ram_bytes (rl_state db)) (ram_bytes rlo) (ram_bytes pend)) (\<lambda>ram.
     bind_r (update_total (total_cpu_weight (rl_state db)) (cpu_weight rlo) (cpu_weight pend)) (\<lambda>cpu.
     bind_r (update_total (total_net_weight (rl_state db)) (net_weight rlo) (net_weight pend)) (\<lambda>net.
       Inr (db\<lparr>rl_state := (rl_state db)\<lparr>total_ram_bytes := ram, total_cpu_weight := cpu, total_net_weight := net\<rparr>,
               limits := tbl_remove (True, owner) (tbl_put (False, owner) pend (limits db))\<rparr>)))))"

text \<open>The first row with \<^verbatim>\<open>pending\<close> set, in the order of the index.\<close>

definition first_pending :: "resource_db \<Rightarrow> (account_name \<times> resource_limits_object) option" where
  "first_pending db =
     (case List.find (\<lambda>r. fst (fst r)) (limits db) of
        None \<Rightarrow> None
      | Some r \<Rightarrow> Some (snd (fst r), snd r))"

definition pending_count :: "resource_db \<Rightarrow> nat" where
  "pending_count db = length (filter (\<lambda>r. fst (fst r)) (limits db))"

lemma filter_tbl_put_other:
  "\<not> P k \<Longrightarrow> tbl_find k t \<noteq> None \<Longrightarrow> filter (\<lambda>r. P (fst r)) (tbl_put k v t) = filter (\<lambda>r. P (fst r)) t"
  by (induction k v t rule: tbl_put.induct) (auto simp: tbl_find_Cons)

lemma filter_swap: "filter P (filter Q xs) = filter Q (filter P xs)"
  by (induction xs) auto

lemma find_SomeD: "List.find P xs = Some x \<Longrightarrow> x \<in> set xs \<and> P x"
  by (auto simp: find_Some_iff)

lemma first_pending_in: "first_pending db = Some (owner, pend) \<Longrightarrow> ((True, owner), pend) \<in> set (limits db)"
  by (cases "List.find (\<lambda>r. fst (fst r)) (limits db)")
    (auto simp: first_pending_def dest!: find_SomeD)

lemma pending_count_apply:
  assumes "first_pending db = Some (owner, pend)" "apply_pending owner pend db = Inr db'"
  shows "pending_count db' < pending_count db"
proof -
  have mem: "((True, owner), pend) \<in> set (limits db)"
    using assms(1) by (rule first_pending_in)
  have found: "tbl_find (False, owner) (limits db) \<noteq> None"
    and lim: "limits db' = tbl_remove (True, owner) (tbl_put (False, owner) pend (limits db))"
    using assms(2) by (auto simp: apply_pending_def bind_r_Inr_iff)
  have "filter (\<lambda>r. fst (fst r)) (limits db')
      = filter (\<lambda>r. fst r \<noteq> (True, owner)) (filter (\<lambda>r. fst (fst r)) (limits db))"
    using filter_tbl_put_other [of "\<lambda>k. fst k", OF _ found]
    by (simp only: lim tbl_remove_def filter_swap [of "\<lambda>r. fst (fst r)"] fst_conv not_False_eq_True)
  also have "length \<dots> < length (filter (\<lambda>r. fst (fst r)) (limits db))"
    using mem by (intro length_filter_less [of "((True, owner), pend)"]) auto
  finally show ?thesis
    by (simp add: pending_count_def)
qed

function process_account_limit_updates :: "resource_db \<Rightarrow> resource_db result" where
  "process_account_limit_updates db =
     (case first_pending db of
        None \<Rightarrow> Inr db
      | Some (owner, pend) \<Rightarrow>
          (case apply_pending owner pend db of
             Inl e \<Rightarrow> Inl e
           | Inr db' \<Rightarrow> process_account_limit_updates db'))"
  by pat_completeness auto
termination
  by (relation "measure pending_count") (auto dest: pending_count_apply)

declare process_account_limit_updates.simps [simp del]

definition process_block_usage :: "nat \<Rightarrow> resource_db \<Rightarrow> resource_db result" where
  "process_block_usage block_num db =
     (let config = rl_config db; state = rl_state db in
      bind_r (accumulator_add (pending_cpu_usage state) block_num (periods (cpu_limit_parameters config))
                (average_block_cpu_usage state)) (\<lambda>cpu_avg.
      bind_r (update_elastic_limit (virtual_cpu_limit state) (average cpu_avg) (cpu_limit_parameters config)) (\<lambda>vcpu.
      bind_r (accumulator_add (pending_net_usage state) block_num (periods (net_limit_parameters config))
                (average_block_net_usage state)) (\<lambda>net_avg.
      bind_r (update_elastic_limit (virtual_net_limit state) (average net_avg) (net_limit_parameters config)) (\<lambda>vnet.
        Inr (db\<lparr>rl_state := state\<lparr>average_block_cpu_usage := cpu_avg, virtual_cpu_limit := vcpu, pending_cpu_usage := 0,
                                   average_block_net_usage := net_avg, virtual_net_limit := vnet, pending_net_usage := 0\<rparr>\<rparr>))))))"

definition get_block_cpu_limit :: "resource_db \<Rightarrow> nat" where
  "get_block_cpu_limit db = sub64 (max_usage (cpu_limit_parameters (rl_config db))) (pending_cpu_usage (rl_state db))"

definition get_block_net_limit :: "resource_db \<Rightarrow> nat" where
  "get_block_net_limit db = sub64 (max_usage (net_limit_parameters (rl_config db))) (pending_net_usage (rl_state db))"

section \<open>Account limits reported to clients\<close>

record account_resource_limit =
  arl_used :: int
  arl_available :: int
  arl_max :: int

text \<open>The computation the CPU and network versions share after their respective lookups.\<close>

definition account_limit_ex ::
    "nat \<Rightarrow> nat \<Rightarrow> nat \<Rightarrow> nat \<Rightarrow> nat \<Rightarrow> nat \<Rightarrow> int \<Rightarrow> (account_resource_limit \<times> bool) result" where
  "account_limit_ex window_size maxu greylist_limit virtual_limit vex all_w weight =
     (let greylisted_virtual_limit = mul64 maxu greylist_limit;
          greylisted = greylisted_virtual_limit < virtual_limit;
          capacity = mul128 window_size (if greylisted then greylisted_virtual_limit else virtual_limit);
          max_user_use = mul128 capacity (nat weight) div all_w;
          used = integer_divide_ceil (mul128 vex window_size) rate_limiting_precision
      in bind_r (if max_user_use \<le> used then Inr 0 else downgrade_cast_i64 (max_user_use - used)) (\<lambda>available.
         bind_r (downgrade_cast_i64 used) (\<lambda>used'.
         bind_r (downgrade_cast_i64 max_user_use) (\<lambda>max'.
           Inr (\<lparr>arl_used = int used', arl_available = int available, arl_max = int max'\<rparr>, greylisted)))))"

definition get_account_cpu_limit_ex ::
    "resource_db \<Rightarrow> account_name \<Rightarrow> nat \<Rightarrow> (account_resource_limit \<times> bool) result" where
  "get_account_cpu_limit_ex db nm greylist_limit =
     bind_r (tbl_get nm (usages db)) (\<lambda>usage.
     bind_r (get_account_limits db nm) (\<lambda>(x, y, weight).
       if weight < 0 \<or> total_cpu_weight (rl_state db) = 0
       then Inr (\<lparr>arl_used = -1, arl_available = -1, arl_max = -1\<rparr>, False)
       else account_limit_ex (account_cpu_usage_average_window (rl_config db))
              (max_usage (cpu_limit_parameters (rl_config db))) greylist_limit
              (virtual_cpu_limit (rl_state db)) (value_ex (cpu_usage usage))
              (total_cpu_weight (rl_state db)) weight))"

definition get_account_net_limit_ex ::
    "resource_db \<Rightarrow> account_name \<Rightarrow> nat \<Rightarrow> (account_resource_limit \<times> bool) result" where
  "get_account_net_limit_ex db nm greylist_limit =
     bind_r (tbl_get nm (usages db)) (\<lambda>usage.
     bind_r (get_account_limits db nm) (\<lambda>(x, weight, y).
       if weight < 0 \<or> total_net_weight (rl_state db) = 0
       then Inr (\<lparr>arl_used = -1, arl_available = -1, arl_max = -1\<rparr>, False)
       else account_limit_ex (account_net_usage_average_window (rl_config db))
              (max_usage (net_limit_parameters (rl_config db))) greylist_limit
              (virtual_net_limit (rl_state db)) (value_ex (net_usage usage))
              (total_net_weight (rl_state db)) weight))"

definition get_account_cpu_limit :: "resource_db \<Rightarrow> account_name \<Rightarrow> nat \<Rightarrow> (int \<times> bool) result" where
  "get_account_cpu_limit db nm greylist_limit =
     bind_r (get_account_cpu_limit_ex db nm greylist_limit) (\<lambda>(arl, greylisted). Inr (arl_available arl, greylisted))"

definition get_account_net_limit :: "resource_db \<Rightarrow> account_name \<Rightarrow> nat \<Rightarrow> (int \<times> bool) result" where
  "get_account_net_limit db nm greylist_limit =
     bind_r (get_account_net_limit_ex db nm greylist_limit) (\<lambda>(arl, greylisted). Inr (arl_available arl, greylisted))"

end
