(* ===== verification/Resource_Accounting.thy ===== *)
theory Resource_Accounting
  imports Resource_Limits
begin

text \<open>
  Properties of the resource limits: the moving average stays below the usage that feeds it, the
  elastic limits stay in their band, the total weights always equal the sums over the accounts, and
  what a successful billing, RAM change or limit update guarantees.
\<close>

section \<open>Rounding and the moving average\<close>

lemma integer_divide_ceil_bounds:
  assumes "0 < den"
  shows "num \<le> integer_divide_ceil num den * den" "integer_divide_ceil num den * den < num + den"
proof -
  define q r where "q = num div den" and "r = num mod den"
  then have num: "num = q * den + r" and lt: "r < den"
    using assms by simp_all
  have "integer_divide_ceil num den * den = (q + (if r > 0 then 1 else 0)) * den"
    by (simp add: integer_divide_ceil_def q_def r_def)
  then have up: "integer_divide_ceil num den * den = q * den + (if r > 0 then den else 0)"
    by (simp add: add_mult_distrib)
  show "num \<le> integer_divide_ceil num den * den" "integer_divide_ceil num den * den < num + den"
    using lt num unfolding up by auto
qed

lemma integer_divide_ceil_le_iff: "0 < den \<Longrightarrow> integer_divide_ceil num den \<le> k \<longleftrightarrow> num \<le> k * den"
proof
  assume den: "0 < den" and "integer_divide_ceil num den \<le> k"
  then show "num \<le> k * den"
    using integer_divide_ceil_bounds(1) [OF den, of num] by (meson le_trans mult_le_mono1)
next
  assume den: "0 < den" and le: "num \<le> k * den"
  then have "integer_divide_ceil num den * den < (k + 1) * den"
    using integer_divide_ceil_bounds(2) [OF den, of num] by simp
  then show "integer_divide_ceil num den \<le> k"
    by (metis mult_less_cancel2 Suc_eq_plus1 less_Suc_eq_le)
qed

lemma ratio_times_Inr:
  assumes "ratio_times v r = Inr x" "v < 2 ^ 64"
  shows "x = v * numerator r div denominator r" "denominator r \<noteq> 0"
proof -
  have guard: "numerator r = 0 \<or> v \<le> u64_max div numerator r" and den: "denominator r \<noteq> 0"
    and x: "x = mul64 v (numerator r) div denominator r"
    using assms(1) by (auto simp: ratio_times_def bind_r_Inr_iff split: if_splits)
  have "v * numerator r < 2 ^ 64"
  proof (cases "numerator r = 0")
    case False
    with guard have "v * numerator r \<le> u64_max"
      by (metis div_times_less_eq_dividend le_trans mult_le_mono1)
    then show ?thesis
      by (simp add: u64_max_def)
  qed simp
  then show "x = v * numerator r div denominator r" "denominator r \<noteq> 0"
    using x den by (simp_all add: mul64_small)
qed

text \<open>What one successful \<^verbatim>\<open>add\<close> does to the accumulator, in exact arithmetic.\<close>

definition accumulator_wf :: "usage_accumulator \<Rightarrow> bool" where
  "accumulator_wf a \<longleftrightarrow> value_ex a < 2 ^ 64 \<and> consumed a < 2 ^ 64 \<and> last_ordinal a < 2 ^ 32"

definition decayed :: "nat \<Rightarrow> nat \<Rightarrow> usage_accumulator \<Rightarrow> nat" where
  "decayed ordinal w a =
     (if last_ordinal a = ordinal then value_ex a
      else if last_ordinal a + w > ordinal then value_ex a * (w - (ordinal - last_ordinal a)) div w
      else 0)"

lemma decayed_le: "decayed ordinal w a \<le> value_ex a"
proof -
  have "value_ex a * (w - d) div w \<le> value_ex a" for d
  proof (cases "w = 0")
    case False
    have "value_ex a * (w - d) \<le> value_ex a * w"
      by simp
    with False show ?thesis
      by (metis div_le_mono nonzero_mult_div_cancel_right)
  qed simp
  then show ?thesis
    by (simp add: decayed_def)
qed

lemma accumulator_advance_Inr:
  assumes "accumulator_advance ordinal w a = Inr a'" "value_ex a < 2 ^ 64"
  shows "value_ex a' = decayed ordinal w a" "last_ordinal a' = ordinal" "last_ordinal a \<le> ordinal"
    "consumed a' = (if last_ordinal a = ordinal then consumed a else average a')"
proof -
  have "value_ex a' = decayed ordinal w a \<and> last_ordinal a' = ordinal \<and> last_ordinal a \<le> ordinal
      \<and> consumed a' = (if last_ordinal a = ordinal then consumed a else average a')"
  proof (cases "last_ordinal a = ordinal")
    case True
    then show ?thesis
      using assms(1) by (simp add: accumulator_advance_def decayed_def)
  next
    case False
    then obtain v where gt: "ordinal > last_ordinal a"
      and v: "(if last_ordinal a + w > ordinal
               then ratio_times (value_ex a)
                      \<lparr>numerator = w - (ordinal - last_ordinal a), denominator = w\<rparr>
               else Inr 0) = Inr v"
      and a': "a' = a\<lparr>value_ex := v, last_ordinal := ordinal,
          consumed := average (a\<lparr>value_ex := v, last_ordinal := ordinal\<rparr>)\<rparr>"
      using assms(1) by (auto simp: accumulator_advance_def bind_r_Inr_iff Let_def)
    have "v = decayed ordinal w a"
      using v False by (auto simp: decayed_def split: if_splits dest!: ratio_times_Inr(1) [OF _ assms(2)])
    with False gt show ?thesis
      by (simp add: a' average_def)
  qed
  then show "value_ex a' = decayed ordinal w a" "last_ordinal a' = ordinal" "last_ordinal a \<le> ordinal"
    "consumed a' = (if last_ordinal a = ordinal then consumed a else average a')"
    by blast+
qed

lemma accumulator_add_Inr:
  assumes "accumulator_add units ordinal w a = Inr a'" "accumulator_wf a"
  shows "value_ex a' = decayed ordinal w a + integer_divide_ceil (units * rate_limiting_precision) w"
    and "last_ordinal a' = ordinal" "last_ordinal a \<le> ordinal" "0 < w"
    and "consumed a' = (if last_ordinal a = ordinal then consumed a
           else integer_divide_ceil (decayed ordinal w a) rate_limiting_precision) + units"
    and "value_ex a' < 2 ^ 64" "consumed a' < 2 ^ 64" "units \<le> max_raw_value"
proof -
  let ?c = "integer_divide_ceil (mul128 units rate_limiting_precision) w"
  obtain a1 where units: "units \<le> max_raw_value" and cons: "units \<le> u64_max - consumed a"
    and w: "w \<noteq> 0" and contrib: "?c \<le> u64_max - value_ex a"
    and adv: "accumulator_advance ordinal w a = Inr a1"
    and a': "a' = a1\<lparr>consumed := add64 (consumed a1) units, value_ex := add64 (value_ex a1) ?c\<rparr>"
    using assms(1) by (auto simp: accumulator_add_def bind_r_Inr_iff downgrade_cast_u64_def split: if_splits)
  have vex: "value_ex a < 2 ^ 64" and cwf: "consumed a < 2 ^ 64"
    using assms(2) by (simp_all add: accumulator_wf_def)
  note adv = accumulator_advance_Inr [OF adv vex]
  have exact: "mul128 units rate_limiting_precision = units * rate_limiting_precision"
    using units by (intro mul128_u64) (auto simp: max_raw_value_def u64_max_def rate_limiting_precision_def)
  have "value_ex a1 + ?c < 2 ^ 64"
    using adv(1) decayed_le [of ordinal w a] contrib vex by (simp add: u64_max_def)
  then show v: "value_ex a' = decayed ordinal w a + integer_divide_ceil (units * rate_limiting_precision) w"
    and "value_ex a' < 2 ^ 64"
    by (simp_all add: a' add64_small adv(1) exact)
  have avg: "average a1 \<le> 18446744073710"
    using decayed_le [of ordinal w a] vex adv(1)
    by (simp add: average_def integer_divide_ceil_le_iff rate_limiting_precision_def)
  have "units \<le> 18446744073709"
    using units by (simp add: max_raw_value_def u64_max_def rate_limiting_precision_def)
  with avg cons cwf adv(4) have "consumed a1 + units < 2 ^ 64"
    by (auto simp: u64_max_def)
  then show "consumed a' = (if last_ordinal a = ordinal then consumed a
           else integer_divide_ceil (decayed ordinal w a) rate_limiting_precision) + units"
    "consumed a' < 2 ^ 64"
    using adv by (auto simp: a' add64_small average_def)
  show "last_ordinal a' = ordinal" "last_ordinal a \<le> ordinal" "0 < w" "units \<le> max_raw_value"
    using adv w units by (simp_all add: a')
qed

lemma accumulator_add_wf:
  "accumulator_add units ordinal w a = Inr a' \<Longrightarrow> accumulator_wf a \<Longrightarrow> ordinal < 2 ^ 32 \<Longrightarrow> accumulator_wf a'"
  using accumulator_add_Inr [of units ordinal w a a'] by (simp add: accumulator_wf_def)

section \<open>A bound on the average\<close>

text \<open>One accumulator fed once per period, as the block averages are.\<close>

definition accumulator_run ::
    "nat \<Rightarrow> (nat \<times> nat) list \<Rightarrow> usage_accumulator \<Rightarrow> usage_accumulator result" where
  "accumulator_run w adds = fold_r (\<lambda>(ordinal, units). accumulator_add units ordinal w) adds"

lemma decayed_period:
  assumes "last_ordinal a < ordinal" "0 < w"
  shows "decayed ordinal w a * w \<le> value_ex a * (w - 1)"
proof (cases "last_ordinal a + w > ordinal")
  case True
  have "value_ex a * (w - (ordinal - last_ordinal a)) \<le> value_ex a * (w - 1)"
    using assms(1) by (intro mult_le_mono2) simp
  with True assms(1) show ?thesis
    by (simp add: decayed_def le_trans [OF div_times_less_eq_dividend])
qed (use assms(1) in \<open>simp add: decayed_def\<close>)

lemma accumulator_add_bound:
  assumes "accumulator_add units ordinal w a = Inr a'" "accumulator_wf a" "last_ordinal a < ordinal"
    "units \<le> U" "value_ex a \<le> U * rate_limiting_precision + w"
  shows "value_ex a' \<le> U * rate_limiting_precision + w"
proof -
  let ?P = rate_limiting_precision
  note add = accumulator_add_Inr [OF assms(1,2)]
  have "integer_divide_ceil (units * ?P) w * w < units * ?P + w"
    using add(4) by (rule integer_divide_ceil_bounds)
  moreover have "units * ?P \<le> U * ?P"
    using assms(4) by simp
  moreover have "decayed ordinal w a * w \<le> (U * ?P + w) * (w - 1)"
    using decayed_period [OF assms(3) add(4)] assms(5) by (meson le_trans mult_le_mono1)
  ultimately have "value_ex a' * w < (U * ?P + w) * (w - 1) + (U * ?P + w)"
    unfolding add(1) add_mult_distrib by linarith
  also have "\<dots> = (U * ?P + w) * w"
    using add(4) by (cases w) simp_all
  finally show ?thesis
    by simp
qed

lemma accumulator_run_bound:
  assumes "accumulator_run w adds a = Inr a'" "accumulator_wf a"
    and "sorted_wrt (<) (last_ordinal a # map fst adds)"
    and "\<forall>x\<in>set adds. fst x < 2 ^ 32 \<and> snd x \<le> U"
    and "value_ex a \<le> U * rate_limiting_precision + w"
  shows "value_ex a' \<le> U * rate_limiting_precision + w"
  using assms
proof (induction adds arbitrary: a)
  case (Cons x adds)
  obtain ordinal units where x: "x = (ordinal, units)"
    by (cases x)
  obtain a1 where add: "accumulator_add units ordinal w a = Inr a1"
    and rest: "accumulator_run w adds a1 = Inr a'"
    using Cons.prems(1) by (auto simp: accumulator_run_def x bind_r_Inr_iff)
  have lt: "last_ordinal a < ordinal" "units \<le> U" "ordinal < 2 ^ 32"
    using Cons.prems(3,4) by (auto simp: x)
  show ?case
  proof (rule Cons.IH [OF rest])
    show "accumulator_wf a1"
      using accumulator_add_wf [OF add Cons.prems(2) lt(3)] .
    show "value_ex a1 \<le> U * rate_limiting_precision + w"
      using accumulator_add_bound [OF add Cons.prems(2) lt(1,2) Cons.prems(5)] .
    show "sorted_wrt (<) (last_ordinal a1 # map fst adds)" "\<forall>x\<in>set adds. fst x < 2 ^ 32 \<and> snd x \<le> U"
      using Cons.prems(3,4) accumulator_add_Inr(2) [OF add Cons.prems(2)] by (auto simp: x)
  qed
qed (simp add: accumulator_run_def)

text \<open>
  The moving average never overshoots its input by more than one unit: if an accumulator
  starts empty and receives at most \<open>U\<close> units in each of a sequence of increasing periods, its
  average is at most \<open>U + 1\<close>, however long the sequence and whatever the gaps (for windows of up
  to a million periods).
\<close>

theorem accumulator_average_bound:
  assumes "accumulator_run w adds usage_accumulator_init = Inr a"
    and "sorted_wrt (<) (0 # map fst adds)"
    and "\<forall>x\<in>set adds. fst x < 2 ^ 32 \<and> snd x \<le> U"
    and "w \<le> rate_limiting_precision"
  shows "average a \<le> U + 1"
proof -
  have "value_ex a \<le> U * rate_limiting_precision + w"
    using assms(2,3) by (intro accumulator_run_bound [OF assms(1)])
      (auto simp: usage_accumulator_init_def accumulator_wf_def)
  also have "\<dots> \<le> (U + 1) * rate_limiting_precision"
    using assms(4) by simp
  finally show ?thesis
    by (simp add: average_def integer_divide_ceil_le_iff rate_limiting_precision_def)
qed

section \<open>Elastic limits\<close>

definition elastic_sane :: "elastic_limit_parameters \<Rightarrow> bool" where
  "elastic_sane p \<longleftrightarrow> 1 \<le> max_multiplier p \<and> max_usage p * max_multiplier p < 2 ^ 64
     \<and> numerator (contract_rate p) \<le> denominator (contract_rate p)
     \<and> denominator (expand_rate p) \<le> numerator (expand_rate p)"

lemma update_elastic_limit_bounds:
  assumes "update_elastic_limit cur avg p = Inr v" "elastic_sane p" "cur < 2 ^ 64"
  shows "max_usage p \<le> v" "v \<le> max_usage p * max_multiplier p"
    "avg > target p \<Longrightarrow> v \<le> max cur (max_usage p)"
    "avg \<le> target p \<Longrightarrow> min cur (max_usage p * max_multiplier p) \<le> v"
proof -
  let ?r = "if avg > target p then contract_rate p else expand_rate p"
  have cap: "mul64 (max_usage p) (max_multiplier p) = max_usage p * max_multiplier p"
    using assms(2) by (intro mul64_small) (simp add: elastic_sane_def)
  obtain x where x: "ratio_times cur ?r = Inr x"
    and v: "v = min (max x (max_usage p)) (max_usage p * max_multiplier p)"
    using assms(1) by (auto simp: update_elastic_limit_def bind_r_Inr_iff cap split: if_splits)
  have le: "max_usage p \<le> max_usage p * max_multiplier p"
    using assms(2) by (simp add: elastic_sane_def)
  have x_eq: "x = cur * numerator ?r div denominator ?r" and den: "0 < denominator ?r"
    using ratio_times_Inr [OF x assms(3)] by auto
  show "max_usage p \<le> v" "v \<le> max_usage p * max_multiplier p"
    using le by (simp_all add: v)
  show "v \<le> max cur (max_usage p)" if "avg > target p"
  proof -
    have "cur * numerator ?r \<le> cur * denominator ?r"
      using that assms(2) by (simp add: elastic_sane_def)
    then have "x \<le> cur"
      unfolding x_eq using den by (metis div_le_mono nonzero_mult_div_cancel_right not_gr_zero)
    then show ?thesis
      by (simp add: v)
  qed
  show "min cur (max_usage p * max_multiplier p) \<le> v" if "avg \<le> target p"
  proof -
    have "cur * denominator ?r \<le> cur * numerator ?r"
      using that assms(2) by (simp add: elastic_sane_def)
    then have "cur \<le> x"
      unfolding x_eq using den by (metis div_le_mono nonzero_mult_div_cancel_right not_gr_zero)
    then show ?thesis
      by (simp add: v)
  qed
qed

definition rl_state_wf :: "resource_limits_state \<Rightarrow> bool" where
  "rl_state_wf st \<longleftrightarrow> accumulator_wf (average_block_net_usage st) \<and> accumulator_wf (average_block_cpu_usage st)
     \<and> virtual_net_limit st < 2 ^ 64 \<and> virtual_cpu_limit st < 2 ^ 64
     \<and> total_net_weight st < 2 ^ 64 \<and> total_cpu_weight st < 2 ^ 64 \<and> total_ram_bytes st < 2 ^ 64"

text \<open>
  C4. Closing a block resets the pending usage and keeps the virtual limits elastic but bounded:
  each lies between the real maximum and the maximum times the multiplier; a congested resource
  (average above target) never gets a larger limit than before, other than the floor, and an idle
  one never a smaller limit, other than the cap.
\<close>

theorem process_block_usage_limits:
  assumes "process_block_usage block_num db = Inr db'"
    and "rl_state_wf (rl_state db)"
    and "elastic_sane (cpu_limit_parameters (rl_config db))"
    and "elastic_sane (net_limit_parameters (rl_config db))"
  defines "cpu \<equiv> cpu_limit_parameters (rl_config db)" and "net \<equiv> net_limit_parameters (rl_config db)"
    and "s \<equiv> rl_state db" and "s' \<equiv> rl_state db'"
  shows "pending_cpu_usage s' = 0 \<and> pending_net_usage s' = 0
    \<and> virtual_cpu_limit s' \<in> {max_usage cpu .. max_usage cpu * max_multiplier cpu}
    \<and> virtual_net_limit s' \<in> {max_usage net .. max_usage net * max_multiplier net}
    \<and> (if average (average_block_cpu_usage s') > target cpu
       then virtual_cpu_limit s' \<le> max (virtual_cpu_limit s) (max_usage cpu)
       else min (virtual_cpu_limit s) (max_usage cpu * max_multiplier cpu) \<le> virtual_cpu_limit s')
    \<and> (if average (average_block_net_usage s') > target net
       then virtual_net_limit s' \<le> max (virtual_net_limit s) (max_usage net)
       else min (virtual_net_limit s) (max_usage net * max_multiplier net) \<le> virtual_net_limit s')"
proof -
  obtain ca vc na vn where
    vc: "update_elastic_limit (virtual_cpu_limit s) (average ca) cpu = Inr vc" and
    vn: "update_elastic_limit (virtual_net_limit s) (average na) net = Inr vn" and
    db': "db' = db\<lparr>rl_state := s\<lparr>average_block_cpu_usage := ca, virtual_cpu_limit := vc, pending_cpu_usage := 0,
       average_block_net_usage := na, virtual_net_limit := vn, pending_net_usage := 0\<rparr>\<rparr>"
    using assms(1) by (auto simp: process_block_usage_def Let_def bind_r_Inr_iff cpu_def net_def s_def)
  have "virtual_cpu_limit s < 2 ^ 64" "virtual_net_limit s < 2 ^ 64"
    using assms(2) by (simp_all add: rl_state_wf_def s_def)
  note bounds = update_elastic_limit_bounds [OF vc assms(3) [folded cpu_def] this(1)]
    update_elastic_limit_bounds [OF vn assms(4) [folded net_def] this(2)]
  show ?thesis
    using bounds by (auto simp: s'_def db')
qed

section \<open>Total weights\<close>

text \<open>The sum of a weight over the rows selected by their key; negative weights count as none.\<close>

definition weight_sum ::
    "(bool \<times> account_name \<Rightarrow> bool) \<Rightarrow> (resource_limits_object \<Rightarrow> int)
      \<Rightarrow> (bool \<times> account_name, resource_limits_object) table \<Rightarrow> nat" where
  "weight_sum sel w = tbl_sum (\<lambda>k r. if sel k then nat (w r) else 0)"

abbreviation active_sum ::
    "(resource_limits_object \<Rightarrow> int) \<Rightarrow> (bool \<times> account_name, resource_limits_object) table \<Rightarrow> nat" where
  "active_sum \<equiv> weight_sum (\<lambda>k. \<not> fst k)"

abbreviation all_sum ::
    "(resource_limits_object \<Rightarrow> int) \<Rightarrow> (bool \<times> account_name, resource_limits_object) table \<Rightarrow> nat" where
  "all_sum \<equiv> weight_sum (\<lambda>k. True)"

definition resource_inv :: "resource_db \<Rightarrow> bool" where
  "resource_inv db \<longleftrightarrow> tbl_wf (limits db) \<and> tbl_wf (usages db)
     \<and> total_cpu_weight (rl_state db) = active_sum cpu_weight (limits db)
     \<and> total_net_weight (rl_state db) = active_sum net_weight (limits db)
     \<and> total_ram_bytes (rl_state db) = active_sum ram_bytes (limits db)
     \<and> (\<forall>a. (True, a) \<in> tbl_keys (limits db) \<longrightarrow> (False, a) \<in> tbl_keys (limits db))
     \<and> (\<forall>a. (False, a) \<in> tbl_keys (limits db) \<longleftrightarrow> a \<in> tbl_keys (usages db))"

lemma update_total_Inr:
  assumes "update_total t value pending = Inr t'"
  shows "t' = t - nat value + nat pending" "nat value \<le> t"
  using assms by (auto simp: update_total_def bind_r_Inr_iff split: if_splits)

lemma update_total_ok:
  "nat value \<le> t \<Longrightarrow> t - nat value + nat pending \<le> u64_max \<Longrightarrow>
     update_total t value pending = Inr (t - nat value + nat pending)"
  by (auto simp: update_total_def eos_assert_def)

lemma active_sum_put_pending:
  "tbl_wf t \<Longrightarrow> active_sum w (tbl_put (True, a) r t) = active_sum w t"
  using tbl_sum_put [of t "\<lambda>k r. if \<not> fst k then nat (w r) else 0" "(True, a)" r]
  by (auto simp: weight_sum_def split: option.splits)

lemma active_sum_apply:
  assumes "tbl_wf t" "tbl_find (False, a) t = Some r"
  shows "active_sum w (tbl_remove (True, a) (tbl_put (False, a) p t)) = active_sum w t - nat (w r) + nat (w p)"
    and "nat (w r) \<le> active_sum w t"
proof -
  show le: "nat (w r) \<le> active_sum w t"
    using tbl_sum_ge [OF assms(2), of "\<lambda>k r. if \<not> fst k then nat (w r) else 0"]
    by (simp add: weight_sum_def)
  have "active_sum w (tbl_remove (True, a) (tbl_put (False, a) p t)) = active_sum w (tbl_put (False, a) p t)"
    unfolding weight_sum_def by (rule tbl_sum_remove_zero) simp
  also have "\<dots> = active_sum w t + nat (w p) - nat (w r)"
    using tbl_sum_put_found [OF assms, of "\<lambda>k r. if \<not> fst k then nat (w r) else 0" p]
    by (simp add: weight_sum_def)
  finally show "active_sum w (tbl_remove (True, a) (tbl_put (False, a) p t)) = active_sum w t - nat (w r) + nat (w p)"
    using le by simp
qed

text \<open>All rows together: applying a pending row only drops the old one.\<close>

lemma all_sum_apply:
  assumes "tbl_wf t" "tbl_find (False, a) t = Some r" "tbl_find (True, a) t = Some p"
  shows "all_sum w (tbl_remove (True, a) (tbl_put (False, a) p t)) + nat (w r) = all_sum w t"
    and "active_sum w t + nat (w p) \<le> all_sum w t"
proof -
  let ?f = "\<lambda>(k :: bool \<times> account_name) r. nat (w r)"
  have "tbl_sum ?f (tbl_remove (True, a) (tbl_put (False, a) p t)) + nat (w p) = tbl_sum ?f (tbl_put (False, a) p t)"
    using assms by (intro tbl_sum_remove) auto
  moreover have "tbl_sum ?f (tbl_put (False, a) p t) + nat (w r) = tbl_sum ?f t + nat (w p)"
    using tbl_sum_put [of t ?f "(False, a)" p] assms by simp
  ultimately show "all_sum w (tbl_remove (True, a) (tbl_put (False, a) p t)) + nat (w r) = all_sum w t"
    by (simp add: weight_sum_def)
  have "all_sum w t = active_sum w t + weight_sum fst w t"
    unfolding weight_sum_def by (subst tbl_sum_add [symmetric]) (rule arg_cong [where f = "\<lambda>f. tbl_sum f t"], auto simp: fun_eq_iff)
  moreover have "nat (w p) \<le> weight_sum fst w t"
    using tbl_sum_ge [OF assms(3), of "\<lambda>k r. if fst k then nat (w r) else 0"] by (simp add: weight_sum_def)
  ultimately show "active_sum w t + nat (w p) \<le> all_sum w t"
    by simp
qed

lemma initialize_database_inv: "resource_inv (initialize_database cfg votes)"
  by (simp add: resource_inv_def initialize_database_def weight_sum_def)

lemma initialize_account_inv:
  assumes "initialize_account a db = Inr db'" "resource_inv db"
  shows "resource_inv db'"
proof -
  have new: "tbl_find (False, a) (limits db) = None" "tbl_find a (usages db) = None"
    and db': "db' = db\<lparr>limits := tbl_put (False, a) default_limits_row (limits db),
                        usages := tbl_put a default_usage_row (usages db)\<rparr>"
    using assms(1) by (auto simp: initialize_account_def bind_r_Inr_iff)
  have wf: "tbl_wf (limits db)"
    using assms(2) by (simp add: resource_inv_def)
  have "active_sum w (limits db') = active_sum w (limits db)" if "w default_limits_row = -1" for w
    using tbl_sum_put [OF wf, of "\<lambda>k r. if \<not> fst k then nat (w r) else 0" "(False, a)" default_limits_row]
      new(1) that by (simp add: weight_sum_def db')
  then show ?thesis
    using assms(2) by (auto simp: resource_inv_def db' default_limits_row_def)
qed

lemma set_account_limits_inv:
  assumes "set_account_limits a ram net cpu db = Inr (d, db')" "resource_inv db"
  shows "resource_inv db'"
proof -
  have "(False, a) \<in> tbl_keys (limits db)"
    using assms by (auto simp: set_account_limits_def resource_inv_def bind_r_Inr_iff
        simp flip: tbl_find_keys split: option.splits)
  moreover have "limits db' = tbl_put (True, a) \<lparr>net_weight = net, cpu_weight = cpu, ram_bytes = ram\<rparr> (limits db)"
    "usages db' = usages db" "rl_state db' = rl_state db"
    using assms(1) by (auto simp: set_account_limits_def bind_r_Inr_iff Let_def)
  ultimately show ?thesis
    using assms(2) by (auto simp: resource_inv_def active_sum_put_pending)
qed

lemma apply_pending_Inr:
  assumes "apply_pending a p db = Inr db'"
  shows "\<exists>r. tbl_find (False, a) (limits db) = Some r
    \<and> limits db' = tbl_remove (True, a) (tbl_put (False, a) p (limits db)) \<and> usages db' = usages db
    \<and> total_ram_bytes (rl_state db') = total_ram_bytes (rl_state db) - nat (ram_bytes r) + nat (ram_bytes p)
    \<and> total_cpu_weight (rl_state db') = total_cpu_weight (rl_state db) - nat (cpu_weight r) + nat (cpu_weight p)
    \<and> total_net_weight (rl_state db') = total_net_weight (rl_state db) - nat (net_weight r) + nat (net_weight p)"
  using assms by (auto simp: apply_pending_def bind_r_Inr_iff dest!: update_total_Inr(1))

lemma apply_pending_inv:
  assumes "apply_pending a p db = Inr db'" "resource_inv db"
  shows "resource_inv db'"
proof -
  obtain r where r: "tbl_find (False, a) (limits db) = Some r"
    using apply_pending_Inr [OF assms(1)] by blast
  then have "(False, a) \<in> tbl_keys (limits db)"
    using tbl_find_keys by force
  then show ?thesis
    using apply_pending_Inr [OF assms(1)] assms(2) r
    by (auto simp: resource_inv_def active_sum_apply(1))
qed

lemma process_account_limit_updates_step:
  "first_pending db = None \<Longrightarrow> process_account_limit_updates db = Inr db"
  "first_pending db = Some (a, p) \<Longrightarrow>
     process_account_limit_updates db = bind_r (apply_pending a p db) process_account_limit_updates"
  by (simp_all add: process_account_limit_updates.simps [of db] bind_r_def split: sum.splits)

lemma process_account_limit_updates_inv:
  "process_account_limit_updates db = Inr db' \<Longrightarrow> resource_inv db \<Longrightarrow> resource_inv db'"
proof (induction db rule: process_account_limit_updates.induct)
  case (1 db)
  show ?case
  proof (cases "first_pending db")
    case None
    with 1 show ?thesis
      by (simp add: process_account_limit_updates_step)
  next
    case (Some ap)
    obtain a p where ap: "ap = (a, p)"
      by (cases ap)
    obtain db1 where db1: "apply_pending a p db = Inr db1" "process_account_limit_updates db1 = Inr db'"
      using 1(2) Some by (auto simp: ap process_account_limit_updates_step bind_r_Inr_iff)
    then show ?thesis
      using 1(1) [OF Some ap [symmetric] db1] apply_pending_inv [OF db1(1) 1(3)] by simp
  qed
qed

section \<open>Operations that leave the limits alone\<close>

lemma usage_row_inv:
  "resource_inv db \<Longrightarrow> tbl_find a (usages db) \<noteq> None \<Longrightarrow> resource_inv (db\<lparr>usages := tbl_put a u (usages db)\<rparr>)"
  by (auto simp: resource_inv_def dest: tbl_find_Some_keys)

lemma totals_inv:
  assumes "resource_inv db" "limits db' = limits db" "usages db' = usages db"
    "total_cpu_weight (rl_state db') = total_cpu_weight (rl_state db)"
    "total_net_weight (rl_state db') = total_net_weight (rl_state db)"
    "total_ram_bytes (rl_state db') = total_ram_bytes (rl_state db)"
  shows "resource_inv db'"
  using assms by (auto simp: resource_inv_def)

lemma bill_account_Inr:
  assumes "bill_account cpu net slot a db = Inr db'"
  shows "\<exists>u u'. tbl_find a (usages db) = Some u \<and> usage_add net cpu slot (rl_config db) u = Inr u'
      \<and> db' = db\<lparr>usages := tbl_put a u' (usages db)\<rparr>"
  using assms by (auto simp: bill_account_def bind_r_Inr_iff)

lemma bill_accounts_inv:
  "fold_r (bill_account cpu net slot) accounts db = Inr db' \<Longrightarrow> resource_inv db \<Longrightarrow> resource_inv db'"
  by (rule fold_r_invariant [where I = resource_inv]) (auto dest!: bill_account_Inr intro: usage_row_inv)

lemma add_transaction_usage_inv:
  assumes "add_transaction_usage accounts cpu net slot db = Inr db'" "resource_inv db"
  shows "resource_inv db'"
proof -
  obtain db1 where db1: "fold_r (bill_account cpu net slot) accounts db = Inr db1"
    and db': "db' = db1\<lparr>rl_state := (rl_state db1)\<lparr>pending_cpu_usage := add64 (pending_cpu_usage (rl_state db1)) cpu,
        pending_net_usage := add64 (pending_net_usage (rl_state db1)) net\<rparr>\<rparr>"
    using assms(1) by (auto simp: add_transaction_usage_def bind_r_Inr_iff Let_def)
  show ?thesis
    using bill_accounts_inv [OF db1 assms(2)] by (rule totals_inv) (simp_all add: db')
qed

lemma update_account_usage_inv:
  "update_account_usage accounts slot db = Inr db' \<Longrightarrow> resource_inv db \<Longrightarrow> resource_inv db'"
  unfolding update_account_usage_def
  by (rule fold_r_invariant [where I = resource_inv]) (auto simp: bind_r_Inr_iff intro!: usage_row_inv)

lemma add_pending_ram_usage_inv:
  "add_pending_ram_usage a delta db = Inr db' \<Longrightarrow> resource_inv db \<Longrightarrow> resource_inv db'"
  by (auto simp: add_pending_ram_usage_def bind_r_Inr_iff intro: usage_row_inv split: if_splits)

lemma process_block_usage_inv:
  assumes "process_block_usage n db = Inr db'" "resource_inv db"
  shows "resource_inv db'"
  using assms(2) by (rule totals_inv) (use assms(1) in \<open>auto simp: process_block_usage_def Let_def bind_r_Inr_iff\<close>)

lemma set_block_parameters_inv:
  assumes "set_block_parameters cpu net db = Inr db'" "resource_inv db"
  shows "resource_inv db'"
  using assms(2) by (rule totals_inv) (use assms(1) in \<open>auto simp: set_block_parameters_def bind_r_Inr_iff split: if_splits\<close>)

section \<open>Reachable states\<close>

inductive resource_step :: "resource_db \<Rightarrow> resource_db \<Rightarrow> bool" where
  initialize_account: "initialize_account a db = Inr db' \<Longrightarrow> resource_step db db'"
| set_account_limits: "set_account_limits a ram net cpu db = Inr (d, db') \<Longrightarrow> resource_step db db'"
| process_limits: "process_account_limit_updates db = Inr db' \<Longrightarrow> resource_step db db'"
| add_transaction: "add_transaction_usage accounts c n slot db = Inr db' \<Longrightarrow> resource_step db db'"
| update_usage: "update_account_usage accounts slot db = Inr db' \<Longrightarrow> resource_step db db'"
| add_ram: "add_pending_ram_usage a delta db = Inr db' \<Longrightarrow> resource_step db db'"
| block_usage: "process_block_usage blk db = Inr db' \<Longrightarrow> resource_step db db'"
| block_parameters: "set_block_parameters pc pn db = Inr db' \<Longrightarrow> resource_step db db'"
| chain_parameter: "resource_step db (set_num_config_on_chain db key num)"
| votes: "resource_step db (db\<lparr>vote4ram_staked := v\<rparr>)"

inductive resource_reachable :: "resource_db \<Rightarrow> bool" where
  init: "resource_reachable (initialize_database cfg v)"
| step: "resource_reachable db \<Longrightarrow> resource_step db db' \<Longrightarrow> resource_reachable db'"

lemma resource_step_inv: "resource_step db db' \<Longrightarrow> resource_inv db \<Longrightarrow> resource_inv db'"
proof (induction rule: resource_step.induct)
  case (chain_parameter db key num)
  then show ?case
    by (auto intro: totals_inv simp: set_num_config_on_chain_def)
next
  case (votes db v)
  then show ?case
    by (auto intro: totals_inv)
qed ((blast intro: initialize_account_inv set_account_limits_inv process_account_limit_updates_inv
    add_transaction_usage_inv update_account_usage_inv add_pending_ram_usage_inv
    process_block_usage_inv set_block_parameters_inv)+)

lemma resource_reachable_inv: "resource_reachable db \<Longrightarrow> resource_inv db"
  by (induction rule: resource_reachable.induct) (auto intro: initialize_database_inv resource_step_inv)

text \<open>
  C2. In every state the operations can reach, the total CPU and network weights and RAM bytes
  the manager divides by are exactly the sums over the accounts' effective limit rows, and every
  account with a limit row has a usage row.
\<close>

theorem resource_totals:
  assumes "resource_reachable db"
  shows "total_cpu_weight (rl_state db) = active_sum cpu_weight (limits db)
    \<and> total_net_weight (rl_state db) = active_sum net_weight (limits db)
    \<and> total_ram_bytes (rl_state db) = active_sum ram_bytes (limits db)
    \<and> (\<forall>a. (False, a) \<in> tbl_keys (limits db) \<longleftrightarrow> a \<in> tbl_keys (usages db))"
  using resource_reachable_inv [OF assms] by (simp add: resource_inv_def)

section \<open>Applying the pending limits\<close>

lemma first_pending_None:
  assumes "first_pending db = None"
  shows "tbl_find (True, a) (limits db) = None"
proof -
  have "List.find (\<lambda>r. fst (fst r)) (limits db) = None"
    using assms by (simp add: first_pending_def split: option.splits)
  then have "\<forall>r\<in>set (limits db). \<not> fst (fst r)"
    unfolding find_None_iff by blast
  then show ?thesis
    by (force simp: tbl_find_None_keys tbl_keys_def)
qed

definition sums_bounded :: "resource_db \<Rightarrow> bool" where
  "sums_bounded db \<longleftrightarrow> all_sum cpu_weight (limits db) \<le> u64_max \<and> all_sum net_weight (limits db) \<le> u64_max
     \<and> all_sum ram_bytes (limits db) \<le> u64_max"

lemma apply_pending_ok:
  assumes "resource_inv db" "sums_bounded db" "first_pending db = Some (a, p)"
  shows "\<exists>db'. apply_pending a p db = Inr db' \<and> resource_inv db' \<and> sums_bounded db'
    \<and> limits db' = tbl_remove (True, a) (tbl_put (False, a) p (limits db)) \<and> usages db' = usages db
    \<and> tbl_find (True, a) (limits db) = Some p"
proof -
  have wf: "tbl_wf (limits db)"
    using assms(1) by (simp add: resource_inv_def)
  have p: "tbl_find (True, a) (limits db) = Some p"
    using tbl_wf_find [OF wf] first_pending_in [OF assms(3)] by blast
  then have "(False, a) \<in> tbl_keys (limits db)"
    using assms(1) tbl_find_keys by (force simp: resource_inv_def)
  then obtain r where r: "tbl_find (False, a) (limits db) = Some r"
    using tbl_find_keys by (metis option.exhaust)
  have upd: "update_total (active_sum w (limits db)) (w r) (w p)
      = Inr (active_sum w (limits db) - nat (w r) + nat (w p))"
    if "all_sum w (limits db) \<le> u64_max" for w
    using that active_sum_apply(2) [OF wf r, of w] all_sum_apply(2) [OF wf r p, of w]
    by (intro update_total_ok) auto
  have "\<exists>db'. apply_pending a p db = Inr db'"
    using assms(1,2) upd [of cpu_weight] upd [of net_weight] upd [of ram_bytes]
    by (auto simp: apply_pending_def r tbl_get_def resource_inv_def sums_bounded_def)
  then obtain db' where db': "apply_pending a p db = Inr db'"
    by blast
  have lim: "limits db' = tbl_remove (True, a) (tbl_put (False, a) p (limits db))" "usages db' = usages db"
    using apply_pending_Inr [OF db'] by auto
  have "all_sum w (limits db') \<le> all_sum w (limits db)" for w
    using all_sum_apply(1) [OF wf r p, of w] by (simp add: lim)
  then have "sums_bounded db'"
    using assms(2) unfolding sums_bounded_def by (meson le_trans)
  then show ?thesis
    using db' lim p apply_pending_inv [OF db' assms(1)] by blast
qed

lemma process_account_limit_updates_result:
  assumes "resource_inv db" "sums_bounded db"
  shows "\<exists>db'. process_account_limit_updates db = Inr db' \<and> resource_inv db' \<and> usages db' = usages db
    \<and> (\<forall>a. tbl_find (True, a) (limits db') = None
          \<and> tbl_find (False, a) (limits db') =
             (case tbl_find (True, a) (limits db) of
                Some p \<Rightarrow> Some p
              | None \<Rightarrow> tbl_find (False, a) (limits db)))"
  using assms
proof (induction db rule: process_account_limit_updates.induct)
  case (1 db)
  show ?case
  proof (cases "first_pending db")
    case None
    then show ?thesis
      using 1(2) first_pending_None [OF None] by (auto simp: process_account_limit_updates_step)
  next
    case (Some ap)
    obtain a p where ap: "ap = (a, p)"
      by (cases ap)
    obtain db1 where db1: "apply_pending a p db = Inr db1" "resource_inv db1" "sums_bounded db1"
      "limits db1 = tbl_remove (True, a) (tbl_put (False, a) p (limits db))" "usages db1 = usages db"
      "tbl_find (True, a) (limits db) = Some p"
      using apply_pending_ok [OF 1(2,3)] Some ap by blast
    have found: "tbl_find (True, b) (limits db1) = (if b = a then None else tbl_find (True, b) (limits db))"
      "tbl_find (False, b) (limits db1) = (if b = a then Some p else tbl_find (False, b) (limits db))" for b
      using db1(4) by simp_all
    obtain db' where "process_account_limit_updates db1 = Inr db'" "resource_inv db'" "usages db' = usages db"
      "\<And>b. tbl_find (True, b) (limits db') = None"
      "\<And>b. tbl_find (False, b) (limits db') =
         (case tbl_find (True, b) (limits db1) of Some p \<Rightarrow> Some p | None \<Rightarrow> tbl_find (False, b) (limits db1))"
      using 1(1) [OF Some ap [symmetric] db1(1-3)] db1(5) by auto
    then show ?thesis
      using db1(1,6) by (auto simp: Some ap process_account_limit_updates_step found split: option.splits)
  qed
qed

text \<open>
  Applying the pending limits at a block boundary terminates without an error as long as the
  weights of all rows together fit 64 bits; afterwards no pending row is left, every account's
  effective row is its pending row if it had one and unchanged otherwise, and usage is untouched.
\<close>

theorem process_account_limit_updates_correct:
  assumes "resource_inv db" "sums_bounded db"
  shows "\<exists>db'. process_account_limit_updates db = Inr db' \<and> resource_inv db' \<and> usages db' = usages db
    \<and> (\<forall>a. tbl_find (True, a) (limits db') = None
          \<and> tbl_find (False, a) (limits db') =
             (case tbl_find (True, a) (limits db) of
                Some p \<Rightarrow> Some p
              | None \<Rightarrow> tbl_find (False, a) (limits db)))"
  using assms by (rule process_account_limit_updates_result)

section \<open>Billing a transaction\<close>

definition within_cpu_window :: "resource_db \<Rightarrow> account_name \<Rightarrow> resource_usage_object \<Rightarrow> bool" where
  "within_cpu_window db a u \<longleftrightarrow>
     (\<forall>ram n w. get_account_limits db a = Inr (ram, n, w) \<longrightarrow> 0 \<le> w \<longrightarrow> 0 < total_cpu_weight (rl_state db) \<longrightarrow>
        mul128 (value_ex (cpu_usage u)) (account_cpu_usage_average_window (rl_config db)) div rate_limiting_precision
        \<le> max_user_use_in_window (virtual_cpu_limit (rl_state db)) (account_cpu_usage_average_window (rl_config db))
            w (total_cpu_weight (rl_state db)))"

definition within_net_window :: "resource_db \<Rightarrow> account_name \<Rightarrow> resource_usage_object \<Rightarrow> bool" where
  "within_net_window db a u \<longleftrightarrow>
     (\<forall>ram w c. get_account_limits db a = Inr (ram, w, c) \<longrightarrow> 0 \<le> w \<longrightarrow> 0 < total_net_weight (rl_state db) \<longrightarrow>
        mul128 (value_ex (net_usage u)) (account_net_usage_average_window (rl_config db)) div rate_limiting_precision
        \<le> max_user_use_in_window (virtual_net_limit (rl_state db)) (account_net_usage_average_window (rl_config db))
            w (total_net_weight (rl_state db)))"

definition billed :: "nat \<Rightarrow> nat \<Rightarrow> nat \<Rightarrow> resource_db \<Rightarrow> account_name \<Rightarrow> resource_usage_object \<Rightarrow> bool" where
  "billed cpu net slot db a u' \<longleftrightarrow>
     (\<exists>u. tbl_find a (usages db) = Some u \<and> usage_add net cpu slot (rl_config db) u = Inr u')
     \<and> within_cpu_window db a u' \<and> within_net_window db a u'"

lemma get_num_config_usages [simp]:
  "get_num_config_on_chain (db\<lparr>usages := us\<rparr>) key num = get_num_config_on_chain db key num"
  by (simp add: get_num_config_on_chain_def)

lemma get_account_limits_usages [simp]: "get_account_limits (db\<lparr>usages := us\<rparr>) a = get_account_limits db a"
  by (auto simp: get_account_limits_def get_account_ram_limit_def Let_def split: option.split)

lemma billed_usages:
  "tbl_find a us = tbl_find a (usages db) \<Longrightarrow> billed cpu net slot (db\<lparr>usages := us\<rparr>) a u' = billed cpu net slot db a u'"
  by (simp add: billed_def within_cpu_window_def within_net_window_def)

lemma bill_account_billed:
  assumes "bill_account cpu net slot a db = Inr db'"
  obtains u' where "billed cpu net slot db a u'" "db' = db\<lparr>usages := tbl_put a u' (usages db)\<rparr>"
  using assms
  by (auto simp: bill_account_def bind_r_Inr_iff billed_def within_cpu_window_def within_net_window_def Let_def
      split: if_splits)

lemma bill_accounts_billed:
  assumes "fold_r (bill_account cpu net slot) accounts db = Inr db'" "distinct accounts"
  shows "\<exists>us. db' = db\<lparr>usages := us\<rparr> \<and> (\<forall>a\<in>set accounts. \<exists>u'. billed cpu net slot db a u' \<and> tbl_find a us = Some u')
    \<and> (\<forall>a. a \<notin> set accounts \<longrightarrow> tbl_find a us = tbl_find a (usages db))"
  using assms
proof (induction accounts arbitrary: db)
  case Nil
  then show ?case
    by (auto intro!: exI [of _ "usages db"])
next
  case (Cons a accounts)
  obtain db1 where db1: "bill_account cpu net slot a db = Inr db1" "fold_r (bill_account cpu net slot) accounts db1 = Inr db'"
    using Cons.prems(1) by (auto simp: bind_r_Inr_iff)
  obtain u where u: "billed cpu net slot db a u" "db1 = db\<lparr>usages := tbl_put a u (usages db)\<rparr>"
    using bill_account_billed [OF db1(1)] .
  obtain us where us: "db' = db1\<lparr>usages := us\<rparr>"
    "\<forall>b\<in>set accounts. \<exists>u'. billed cpu net slot db1 b u' \<and> tbl_find b us = Some u'"
    "\<forall>b. b \<notin> set accounts \<longrightarrow> tbl_find b us = tbl_find b (usages db1)"
    using Cons.IH [OF db1(2)] Cons.prems(2) by auto
  have "billed cpu net slot db1 b u' = billed cpu net slot db b u'" if "b \<in> set accounts" for b u'
    using that Cons.prems(2) unfolding u(2) by (intro billed_usages) auto
  then show ?case
    using us u Cons.prems(2) by (intro exI [of _ us]) auto
qed

text \<open>
  One accumulator after \<open>units\<close> more, in exact arithmetic: the old average decays linearly over the
  window, the units spread over it, rounded up, are added, and the units consumed start again from
  the decayed average in a new slot.
\<close>

definition accumulated :: "nat \<Rightarrow> nat \<Rightarrow> nat \<Rightarrow> usage_accumulator \<Rightarrow> usage_accumulator" where
  "accumulated units slot w a =
     \<lparr>last_ordinal = slot,
      value_ex = decayed slot w a + integer_divide_ceil (units * rate_limiting_precision) w,
      consumed = (if last_ordinal a = slot then consumed a
                  else integer_divide_ceil (decayed slot w a) rate_limiting_precision) + units\<rparr>"

definition billed_row :: "nat \<Rightarrow> nat \<Rightarrow> nat \<Rightarrow> resource_limits_config \<Rightarrow> resource_usage_object \<Rightarrow> resource_usage_object" where
  "billed_row cpu net slot config u =
     u\<lparr>net_usage := accumulated net slot (account_net_usage_average_window config) (net_usage u),
       cpu_usage := accumulated cpu slot (account_cpu_usage_average_window config) (cpu_usage u)\<rparr>"

text \<open>The accumulators of the usage rows hold values of their integer types.\<close>

definition usages_fit :: "resource_db \<Rightarrow> bool" where
  "usages_fit db \<longleftrightarrow> (\<forall>a u. tbl_find a (usages db) = Some u \<longrightarrow> accumulator_wf (net_usage u) \<and> accumulator_wf (cpu_usage u))"

lemma accumulator_add_exact:
  assumes "accumulator_add units slot w a = Inr a'" "accumulator_wf a"
  shows "a' = accumulated units slot w a"
  using accumulator_add_Inr [OF assms] by (simp add: accumulated_def)

lemma usage_add_exact:
  assumes "usage_add net cpu slot config u = Inr u'" "accumulator_wf (net_usage u)" "accumulator_wf (cpu_usage u)"
  shows "u' = billed_row cpu net slot config u"
  using assms(1) accumulator_add_exact [OF _ assms(2)] accumulator_add_exact [OF _ assms(3)]
  by (auto simp: usage_add_def bind_r_Inr_iff billed_row_def)

text \<open>
  C3. When billing a transaction succeeds, every billed account had a usage row, and its network and
  CPU accumulators have decayed to the slot and received the network and CPU usage of the
  transaction respectively; the new row lies within the account's share of the CPU and network
  windows. The block's pending CPU and network usage grow by the same amounts and stay within the
  block maxima. Nothing else of the state changes: no other row or field of a row, no limit, no
  configuration, no virtual limit, no total and no block average.
\<close>

theorem add_transaction_usage_effect:
  assumes "add_transaction_usage accounts cpu net slot db = Inr db'" "distinct accounts" "usages_fit db"
  shows "db' = db\<lparr>usages := usages db',
      rl_state := (rl_state db)\<lparr>pending_cpu_usage := add64 (pending_cpu_usage (rl_state db)) cpu,
                                pending_net_usage := add64 (pending_net_usage (rl_state db)) net\<rparr>\<rparr>
    \<and> (\<forall>a\<in>set accounts. \<exists>u. tbl_find a (usages db) = Some u
          \<and> tbl_find a (usages db') = Some (billed_row cpu net slot (rl_config db) u)
          \<and> within_cpu_window db a (billed_row cpu net slot (rl_config db) u)
          \<and> within_net_window db a (billed_row cpu net slot (rl_config db) u))
    \<and> (\<forall>a. a \<notin> set accounts \<longrightarrow> tbl_find a (usages db') = tbl_find a (usages db))
    \<and> pending_cpu_usage (rl_state db') \<le> max_usage (cpu_limit_parameters (rl_config db))
    \<and> pending_net_usage (rl_state db') \<le> max_usage (net_limit_parameters (rl_config db))"
proof -
  obtain db1 where db1: "fold_r (bill_account cpu net slot) accounts db = Inr db1"
    using assms(1) by (auto simp: add_transaction_usage_def bind_r_Inr_iff)
  obtain us where us: "db1 = db\<lparr>usages := us\<rparr>"
    "\<forall>a\<in>set accounts. \<exists>u'. billed cpu net slot db a u' \<and> tbl_find a us = Some u'"
    "\<forall>a. a \<notin> set accounts \<longrightarrow> tbl_find a us = tbl_find a (usages db)"
    using bill_accounts_billed [OF db1 assms(2)] by blast
  have row: "\<exists>u. tbl_find a (usages db) = Some u \<and> tbl_find a us = Some (billed_row cpu net slot (rl_config db) u)
      \<and> within_cpu_window db a (billed_row cpu net slot (rl_config db) u)
      \<and> within_net_window db a (billed_row cpu net slot (rl_config db) u)" if a: "a \<in> set accounts" for a
  proof -
    obtain u u' where u: "tbl_find a (usages db) = Some u" "usage_add net cpu slot (rl_config db) u = Inr u'"
      "within_cpu_window db a u'" "within_net_window db a u'" "tbl_find a us = Some u'"
      using us(2) a by (auto simp: billed_def)
    moreover have "u' = billed_row cpu net slot (rl_config db) u"
      using u(1) assms(3) by (intro usage_add_exact [OF u(2)]) (auto simp: usages_fit_def)
    ultimately show ?thesis
      by auto
  qed
  show ?thesis
    using assms(1) row us(3) by (auto simp: add_transaction_usage_def db1 us(1) bind_r_Inr_iff Let_def)
qed

section \<open>RAM\<close>

text \<open>
  RAM deltas are accounted exactly: a delta that would take the usage of an existing account
  below zero or above 64 bits is a transaction error, any other delta is added without wrapping
  and no other account's usage changes.
\<close>

theorem add_pending_ram_usage_exact:
  assumes "tbl_find a (usages db) = Some u" "ram_usage u \<le> u64_max" "s = int (ram_usage u) + delta"
  shows "if 0 \<le> s \<and> s \<le> int u64_max
    then \<exists>db'. add_pending_ram_usage a delta db = Inr db' \<and> get_account_ram_usage db' a = Inr (wrap_i64 s)
           \<and> (\<forall>b. b \<noteq> a \<longrightarrow> tbl_find b (usages db') = tbl_find b (usages db)) \<and> limits db' = limits db
    else add_pending_ram_usage a delta db = Inl transaction_exception"
proof (cases "0 \<le> s \<and> s \<le> int u64_max")
  case True
  then have "s mod 2 ^ 64 = s"
    by (simp add: u64_max_def)
  moreover have "delta \<le> 0 \<or> nat delta \<le> u64_max - ram_usage u" "0 \<le> delta \<or> nat (- delta) \<le> ram_usage u"
    using True assms(2) by (auto simp: assms(3))
  ultimately show ?thesis
    using True assms(1)
    by (auto simp: add_pending_ram_usage_def get_account_ram_usage_def tbl_get_def assms(3) eos_assert_def)
next
  case False
  then have "delta \<noteq> 0" "\<not> (delta \<le> 0 \<or> nat delta \<le> u64_max - ram_usage u) \<or> \<not> (0 \<le> delta \<or> nat (- delta) \<le> ram_usage u)"
    using assms(2) by (auto simp: assms(3))
  then show ?thesis
    using False assms(1) by (auto simp: add_pending_ram_usage_def tbl_get_def eos_assert_def)
qed

section \<open>Reported limits\<close>

lemma account_limit_ex_Inr:
  assumes "account_limit_ex window maxu g virt vex all_w w = Inr (arl, grey)"
  shows "arl_available arl = max 0 (arl_max arl - arl_used arl) \<and> 0 \<le> arl_used arl \<and> 0 \<le> arl_max arl
    \<and> arl_max arl \<le> int i64_max \<and> grey = (mul64 maxu g < virt)
    \<and> nat (arl_max arl) = mul128 (mul128 window (min virt (mul64 maxu g))) (nat w) div all_w"
  using assms
  by (auto simp: account_limit_ex_def bind_r_Inr_iff Let_def downgrade_cast_i64_def eos_assert_def min_def
      split: if_splits)

text \<open>
  The CPU limit reported for an account is consistent: what is available is what the window
  allows minus what is used, never negative; all three values fit a signed 64-bit integer; an
  account without a weight reports -1 for all three; and greylisting can only lower the maximum.
\<close>

theorem get_account_cpu_limit_ex_consistent:
  assumes "get_account_cpu_limit_ex db a g = Inr (arl, grey)"
  shows "(arl = \<lparr>arl_used = -1, arl_available = -1, arl_max = -1\<rparr> \<and> \<not> grey)
    \<or> (arl_available arl = max 0 (arl_max arl - arl_used arl) \<and> 0 \<le> arl_used arl \<and> 0 \<le> arl_max arl \<and> arl_max arl \<le> int i64_max
       \<and> (grey \<longleftrightarrow> mul64 (max_usage (cpu_limit_parameters (rl_config db))) g < virtual_cpu_limit (rl_state db))
       \<and> (\<exists>ram n w. get_account_limits db a = Inr (ram, n, w)
            \<and> nat (arl_max arl) = mul128 (mul128 (account_cpu_usage_average_window (rl_config db))
                 (min (virtual_cpu_limit (rl_state db)) (mul64 (max_usage (cpu_limit_parameters (rl_config db))) g)))
                 (nat w) div total_cpu_weight (rl_state db)))"
  using assms
  by (auto simp: get_account_cpu_limit_ex_def bind_r_Inr_iff dest!: account_limit_ex_Inr split: if_splits)

section \<open>Concrete runs\<close>

text \<open>
  A database with one account that has effective limits, pending limits and some usage.
\<close>

definition sample_row :: resource_limits_object where
  "sample_row = \<lparr>net_weight = 10, cpu_weight = 20, ram_bytes = 30\<rparr>"

definition sample_pending :: resource_limits_object where
  "sample_pending = \<lparr>net_weight = 11, cpu_weight = 22, ram_bytes = -1\<rparr>"

definition sample_db :: resource_db where
  "sample_db = (let db = initialize_database [] (\<lambda>_. None) in
     db\<lparr>limits := [((False, 1), sample_row), ((True, 1), sample_pending)],
        usages := [(1, default_usage_row\<lparr>ram_usage := 5\<rparr>)],
        rl_state := (rl_state db)\<lparr>total_net_weight := 10, total_cpu_weight := 20, total_ram_bytes := 30\<rparr>\<rparr>)"

lemmas sample_simps = sample_db_def sample_row_def sample_pending_def initialize_database_def default_config_def
  default_usage_row_def usage_accumulator_init_def eos_percent_def

lemmas accumulator_simps = accumulator_add_def accumulator_advance_def
  update_elastic_limit_def ratio_times_def downgrade_cast_u64_def integer_divide_ceil_def
  rate_limiting_precision_def max_raw_value_def average_def Let_def eos_assert_def u64_max_def
  mul128_def mul64_def add64_def

lemma sample_inv: "resource_inv sample_db"
  by (auto simp: resource_inv_def sample_simps weight_sum_def tbl_keys_def)

lemma sample_sums: "sums_bounded sample_db"
  by (simp add: sums_bounded_def weight_sum_def sample_simps u64_max_def)

theorem accumulator_average_bound_witness:
  "\<exists>a. accumulator_run 4 [(1, 9), (2, 7), (5, 9)] usage_accumulator_init = Inr a \<and> average a \<le> 9 + 1"
proof -
  have "\<exists>a. accumulator_run 4 [(1, 9), (2, 7), (5, 9)] usage_accumulator_init = Inr a"
    by (simp add: accumulator_run_def usage_accumulator_init_def accumulator_simps)
  then show ?thesis
    using accumulator_average_bound [of 4 "[(1, 9), (2, 7), (5, 9)]" _ 9]
    by (auto simp: rate_limiting_precision_def)
qed

theorem process_block_usage_limits_witness:
  "\<exists>db'. process_block_usage 7 sample_db = Inr db' \<and> pending_cpu_usage (rl_state db') = 0
     \<and> virtual_cpu_limit (rl_state db') \<le> max_usage (cpu_limit_parameters (rl_config sample_db)) * 1000"
proof -
  have "\<exists>db'. process_block_usage 7 sample_db = Inr db'"
    by (simp add: process_block_usage_def sample_simps accumulator_simps)
  then obtain db' where db': "process_block_usage 7 sample_db = Inr db'"
    by blast
  have "rl_state_wf (rl_state sample_db)" "elastic_sane (cpu_limit_parameters (rl_config sample_db))"
    "elastic_sane (net_limit_parameters (rl_config sample_db))"
    "max_multiplier (cpu_limit_parameters (rl_config sample_db)) = 1000"
    by (simp_all add: rl_state_wf_def accumulator_wf_def elastic_sane_def sample_simps)
  then show ?thesis
    using process_block_usage_limits [OF db'] db' by auto
qed

theorem process_account_limit_updates_correct_witness:
  "\<exists>db'. process_account_limit_updates sample_db = Inr db' \<and> tbl_find (False, 1) (limits db') = Some sample_pending"
  using process_account_limit_updates_correct [OF sample_inv sample_sums]
  by (auto simp: sample_simps tbl_find_def)

theorem resource_totals_witness:
  "\<exists>db. resource_reachable db \<and> tbl_find (False, 1) (limits db) = Some sample_row
     \<and> total_cpu_weight (rl_state db) = active_sum cpu_weight (limits db)"
proof -
  let ?db0 = "initialize_database [] (\<lambda>_. None)"
  obtain db1 where db1: "initialize_account 1 ?db0 = Inr db1" "limits db1 = [((False, 1), default_limits_row)]"
    by (simp add: initialize_account_def initialize_database_def tbl_create_def)
  obtain d db2 where db2: "set_account_limits 1 30 10 20 db1 = Inr (d, db2)"
    "tbl_find (True, 1) (limits db2) = Some sample_row"
    "limits db2 = [((False, 1), default_limits_row), ((True, 1), sample_row)]"
    by (simp add: set_account_limits_def db1 tbl_find_def tbl_get_def sample_row_def)
  have reach: "resource_reachable db2"
    using db1(1) db2(1) by (blast intro: resource_reachable.intros resource_step.intros)
  have "sums_bounded db2"
    by (simp add: sums_bounded_def weight_sum_def db2(3) sample_row_def default_limits_row_def u64_max_def)
  then obtain db3 where db3: "process_account_limit_updates db2 = Inr db3" "tbl_find (False, 1) (limits db3) = Some sample_row"
    using process_account_limit_updates_result [OF resource_reachable_inv [OF reach]] db2(2) by auto
  then have "resource_reachable db3"
    using reach by (blast intro: resource_reachable.step resource_step.process_limits)
  then show ?thesis
    using resource_totals [of db3] db3(2) by auto
qed

theorem add_transaction_usage_effect_witness:
  "\<exists>db'. add_transaction_usage [1] 100 200 7 sample_db = Inr db'
     \<and> pending_cpu_usage (rl_state db') = add64 0 100 \<and> total_ram_bytes (rl_state db') = 30
     \<and> tbl_find 1 (usages db') = Some (billed_row 100 200 7 default_config (default_usage_row\<lparr>ram_usage := 5\<rparr>))"
proof -
  have "\<exists>db'. add_transaction_usage [1] 100 200 7 sample_db = Inr db'"
    by (simp add: add_transaction_usage_def bill_account_def usage_add_def get_account_limits_def tbl_get_def tbl_find_def
        max_user_use_in_window_def sample_simps accumulator_simps)
  then obtain db' where db': "add_transaction_usage [1] 100 200 7 sample_db = Inr db'"
    by blast
  have sample: "tbl_find 1 (usages sample_db) = Some (default_usage_row\<lparr>ram_usage := 5\<rparr>)" "rl_config sample_db = default_config"
    "pending_cpu_usage (rl_state sample_db) = 0" "total_ram_bytes (rl_state sample_db) = 30" "usages_fit sample_db"
    by (simp_all add: sample_db_def tbl_find_def Let_def initialize_database_def usages_fit_def default_usage_row_def
        usage_accumulator_init_def accumulator_wf_def)
  note effect = add_transaction_usage_effect [OF db' _ sample(5)]
  have "rl_state db' = (rl_state sample_db)\<lparr>pending_cpu_usage := add64 (pending_cpu_usage (rl_state sample_db)) 100,
      pending_net_usage := add64 (pending_net_usage (rl_state sample_db)) 200\<rparr>"
    using effect by (metis distinct_singleton resource_db.select_convs(4) resource_db.surjective resource_db.update_convs(2,4))
  then show ?thesis
    using effect db' sample by auto
qed

theorem add_pending_ram_usage_exact_witness:
  "(\<exists>db'. add_pending_ram_usage 1 (-3) sample_db = Inr db' \<and> get_account_ram_usage db' 1 = Inr 2)
   \<and> add_pending_ram_usage 1 (-6) sample_db = Inl transaction_exception"
proof -
  have u: "tbl_find 1 (usages sample_db) = Some (default_usage_row\<lparr>ram_usage := 5\<rparr>)"
    by (simp add: sample_db_def tbl_find_def Let_def)
  show ?thesis
    using add_pending_ram_usage_exact [OF u, of 2 "-3"] add_pending_ram_usage_exact [OF u, of "-1" "-6"]
    by (auto simp: u64_max_def wrap_i64_def)
qed

theorem get_account_cpu_limit_ex_consistent_witness:
  "\<exists>arl grey. get_account_cpu_limit_ex sample_db 1 1000 = Inr (arl, grey)
     \<and> arl_available arl = max 0 (arl_max arl - arl_used arl) \<and> 0 < arl_max arl"
proof -
  have "\<exists>arl grey. get_account_cpu_limit_ex sample_db 1 1000 = Inr (arl, grey) \<and> 0 < arl_max arl"
    by (auto simp: get_account_cpu_limit_ex_def account_limit_ex_def get_account_limits_def tbl_get_def tbl_find_def
        downgrade_cast_i64_def i64_max_def sample_simps accumulator_simps)
  then obtain arl grey where arl: "get_account_cpu_limit_ex sample_db 1 1000 = Inr (arl, grey)" "0 < arl_max arl"
    by blast
  then show ?thesis
    using get_account_cpu_limit_ex_consistent [OF arl(1)] by auto
qed

end
