(* ===== verification/Feature_Activation.thy ===== *)
theory Feature_Activation
  imports Protocol_Features Whitelisted_Intrinsics Resource_Accounting
begin

text \<open>
  The life of a protocol feature in the controller (\<^verbatim>\<open>controller.cpp\<close>, \<^verbatim>\<open>protocol_state_object.hpp\<close>): a
  contract pre-activates it in one block, the next block must activate every pre-activated feature
  at its start, which runs the handler of the feature, tells the manager and moves the digest to
  the activated features of the protocol state. \<open>activation_state\<close> holds the parts of the
  controller these steps read and write.
\<close>

record protocol_state_object =
  pso_activated_protocol_features :: "(digest \<times> nat) list"
  pso_preactivated_protocol_features :: "digest list"
  pso_whitelisted_intrinsics :: whitelisted_intrinsics_type
  pso_num_supported_key_types :: nat

record activation_state =
  as_protocol_state :: protocol_state_object
  as_protocol_features :: protocol_feature_manager
  as_resource_limits :: resource_db
  as_ram_corrections :: "(account_name \<times> nat) list"

section \<open>Checks\<close>

text \<open>\<open>before\<close> is the part of the list already passed.\<close>

fun check_features_loop ::
    "protocol_feature_set \<Rightarrow> time_point \<Rightarrow> digest set \<Rightarrow> digest list \<Rightarrow> digest list \<Rightarrow> unit result" where
  "check_features_loop pfs timestamp current before [] = Inr ()"
| "check_features_loop pfs timestamp current before (f # fs) =
     bind_r (eos_assert (is_recognized pfs f timestamp = ready) protocol_feature_exception) (\<lambda>_.
     bind_r (eos_assert (f \<notin> current) protocol_feature_exception) (\<lambda>_.
     bind_r (eos_assert (validate_dependencies pfs f (\<lambda>d. d \<in> current \<or> d \<in> set before)) protocol_feature_exception) (\<lambda>_.
       check_features_loop pfs timestamp current (before @ [f]) fs)))"

definition check_protocol_features ::
    "protocol_feature_set \<Rightarrow> block_timestamp \<Rightarrow> digest set \<Rightarrow> digest list \<Rightarrow> unit result" where
  "check_protocol_features pfs timestamp currently_activated_protocol_features new_protocol_features =
     check_features_loop pfs (to_time_point timestamp) currently_activated_protocol_features [] new_protocol_features"

definition validate_protocol_features ::
    "protocol_feature_set \<Rightarrow> block_timestamp \<Rightarrow> digest set \<Rightarrow> digest list \<Rightarrow> unit result" where
  "validate_protocol_features pfs head_timestamp head_activated features_to_activate =
     check_protocol_features pfs head_timestamp head_activated features_to_activate"

text \<open>
  What the stages of a pending block know of the activations: the set of the previous block and how
  many of the new ones took effect, nothing, or the set of the finished block state.
\<close>

datatype block_stage_features =
    building_block "digest set" "digest list" nat
  | assembled_block
  | completed_block "digest set"

fun pending_is_protocol_feature_activated :: "block_stage_features \<Rightarrow> digest \<Rightarrow> bool result" where
  "pending_is_protocol_feature_activated (building_block prev_activated new_activations num) feature_digest =
     Inr (if feature_digest \<in> prev_activated then True
          else if num = 0 then False
          else feature_digest \<in> set (take num new_activations))"
| "pending_is_protocol_feature_activated assembled_block feature_digest = Inl misc_exception"
| "pending_is_protocol_feature_activated (completed_block activated) feature_digest = Inr (feature_digest \<in> activated)"

definition controller_is_protocol_feature_activated ::
    "block_stage_features option \<Rightarrow> digest set \<Rightarrow> digest \<Rightarrow> bool result" where
  "controller_is_protocol_feature_activated pending head_activated feature_digest =
     (case pending of
        Some stage \<Rightarrow> pending_is_protocol_feature_activated stage feature_digest
      | None \<Rightarrow> Inr (feature_digest \<in> head_activated))"

definition controller_is_builtin_activated ::
    "protocol_feature_manager \<Rightarrow> nat \<Rightarrow> bool \<Rightarrow> builtin_protocol_feature_t \<Rightarrow> bool" where
  "controller_is_builtin_activated m head_block_num has_pending f =
     is_builtin_activated m f (if has_pending then add32 head_block_num 1 else head_block_num)"

section \<open>Pre-activation\<close>

definition preactivate_protocol_feature ::
    "protocol_feature_set \<Rightarrow> time_point \<Rightarrow> bool \<Rightarrow> (digest \<Rightarrow> bool) \<Rightarrow> digest \<Rightarrow> protocol_state_object \<Rightarrow> protocol_state_object result" where
  "preactivate_protocol_feature pfs cur_time producing is_activated feature_digest pso =
     (let preactivated = pso_preactivated_protocol_features pso in
     bind_r (eos_assert (is_recognized pfs feature_digest cur_time = ready)
               (if producing then subjective_block_production_exception else protocol_feature_bad_block_exception)) (\<lambda>_.
     bind_r (eos_assert (\<not> is_activated feature_digest) protocol_feature_exception) (\<lambda>_.
     bind_r (eos_assert (feature_digest \<notin> set preactivated) protocol_feature_exception) (\<lambda>_.
     bind_r (eos_assert (validate_dependencies pfs feature_digest (\<lambda>d. is_activated d \<or> d \<in> set preactivated))
               protocol_feature_exception) (\<lambda>_.
       Inr (pso\<lparr>pso_preactivated_protocol_features := preactivated @ [feature_digest]\<rparr>))))))"

definition get_preactivated_protocol_features :: "protocol_state_object \<Rightarrow> digest list" where
  "get_preactivated_protocol_features pso =
     (if length (pso_preactivated_protocol_features pso) = 0 then []
      else fold (\<lambda>f v. v @ [f]) (pso_preactivated_protocol_features pso) [])"

section \<open>Handlers\<close>

definition whitelist_intrinsic :: "str_hash \<Rightarrow> string \<Rightarrow> activation_state \<Rightarrow> activation_state result" where
  "whitelist_intrinsic hash nm st =
     bind_r (add_intrinsic_to_whitelist hash nm (pso_whitelisted_intrinsics (as_protocol_state st))) (\<lambda>w.
       Inr (st\<lparr>as_protocol_state := (as_protocol_state st)\<lparr>pso_whitelisted_intrinsics := w\<rparr>\<rparr>))"

definition on_activation_preactivate_feature :: "str_hash \<Rightarrow> activation_state \<Rightarrow> activation_state result" where
  "on_activation_preactivate_feature hash st =
     bind_r (whitelist_intrinsic hash ''preactivate_feature'' st) (whitelist_intrinsic hash ''is_feature_activated'')"

definition on_activation_get_sender :: "str_hash \<Rightarrow> activation_state \<Rightarrow> activation_state result" where
  "on_activation_get_sender hash st = whitelist_intrinsic hash ''get_sender'' st"

text \<open>The loop removes the first correction until none is left.\<close>

fun ram_correction_loop :: "(account_name \<times> nat) list \<Rightarrow> resource_db \<Rightarrow> resource_db result" where
  "ram_correction_loop [] db = Inr db"
| "ram_correction_loop ((nm, ram_correction) # rest) db =
     bind_r (get_account_ram_usage db nm) (\<lambda>current_ram_usage.
     (let ram_delta = wrap_i64 (- wrap_i64 (int ram_correction));
          ram_delta = (if int ram_correction > current_ram_usage mod 2 ^ 64 then wrap_i64 (- current_ram_usage) else ram_delta)
      in bind_r (add_pending_ram_usage nm ram_delta db) (ram_correction_loop rest)))"

definition on_activation_replace_deferred :: "activation_state \<Rightarrow> activation_state result" where
  "on_activation_replace_deferred st =
     bind_r (ram_correction_loop (as_ram_corrections st) (as_resource_limits st)) (\<lambda>db.
       Inr (st\<lparr>as_resource_limits := db, as_ram_corrections := []\<rparr>))"

definition on_activation_webauthn_key :: "activation_state \<Rightarrow> activation_state result" where
  "on_activation_webauthn_key st =
     Inr (st\<lparr>as_protocol_state := (as_protocol_state st)\<lparr>pso_num_supported_key_types := 3\<rparr>\<rparr>)"

definition on_activation_wtmsig_block_signatures :: "str_hash \<Rightarrow> activation_state \<Rightarrow> activation_state result" where
  "on_activation_wtmsig_block_signatures hash st = whitelist_intrinsic hash ''set_proposed_producers_ex'' st"

definition trigger_activation_handler ::
    "str_hash \<Rightarrow> builtin_protocol_feature_t \<Rightarrow> activation_state \<Rightarrow> activation_state result" where
  "trigger_activation_handler hash f st =
     (case f of
        preactivate_feature \<Rightarrow> on_activation_preactivate_feature hash st
      | replace_deferred \<Rightarrow> on_activation_replace_deferred st
      | get_sender \<Rightarrow> on_activation_get_sender hash st
      | webauthn_key \<Rightarrow> on_activation_webauthn_key st
      | wtmsig_block_signatures \<Rightarrow> on_activation_wtmsig_block_signatures hash st
      | _ \<Rightarrow> Inr st)"

definition add_to_ram_correction :: "account_name \<Rightarrow> nat \<Rightarrow> activation_state \<Rightarrow> activation_state" where
  "add_to_ram_correction account bytes st =
     st\<lparr>as_ram_corrections :=
          (if account \<in> fst ` set (as_ram_corrections st)
           then map (\<lambda>(a, c). if a = account then (a, add64 c bytes) else (a, c)) (as_ram_corrections st)
           else as_ram_corrections st @ [(account, bytes)])\<rparr>"

section \<open>Activation at the start of a block\<close>

text \<open>
  What \<^verbatim>\<open>start_block\<close> does with the features to activate, in speculative read mode or for a block that
  is not incomplete; for an incomplete block in another read mode \<^verbatim>\<open>start_block\<close> skips all of it. First
  its loop over the features: \<open>seen\<close> is its local map: \<open>Some False\<close> for a
  pre-activated feature that was not met yet.
\<close>

fun activation_loop ::
    "str_hash \<Rightarrow> nat \<Rightarrow> (digest \<Rightarrow> bool option) \<Rightarrow> nat \<Rightarrow> digest list \<Rightarrow> activation_state \<Rightarrow> (nat \<times> activation_state) result" where
  "activation_loop hash block_num seen num_handled [] st = Inr (num_handled, st)"
| "activation_loop hash block_num seen num_handled (d # ds) st =
     bind_r (get_protocol_feature (pfm_protocol_feature_set (as_protocol_features st)) d) (\<lambda>f.
     bind_r (case seen d of
               None \<Rightarrow> bind_r (eos_assert (\<not> pf_preactivation_required f) protocol_feature_exception) (\<lambda>_. Inr num_handled)
             | Some used \<Rightarrow> bind_r (eos_assert (\<not> used) block_validate_exception) (\<lambda>_. Inr (num_handled + 1))) (\<lambda>num_handled.
     bind_r (case pf_builtin_feature f of None \<Rightarrow> Inr st | Some b \<Rightarrow> trigger_activation_handler hash b st) (\<lambda>st.
     bind_r (activate_feature d block_num (as_protocol_features st)) (\<lambda>m.
       activation_loop hash block_num (seen(d \<mapsto> True)) num_handled ds (st\<lparr>as_protocol_features := m\<rparr>)))))"

definition activate_protocol_features ::
    "str_hash \<Rightarrow> digest list \<Rightarrow> nat \<Rightarrow> activation_state \<Rightarrow> activation_state result" where
  "activate_protocol_features hash new_activations block_num st =
     (let preactivated = pso_preactivated_protocol_features (as_protocol_state st);
          seen = (\<lambda>d. if d \<in> set preactivated then Some False else None)
      in
     bind_r (activation_loop hash block_num seen 0 new_activations st) (\<lambda>(num_handled, st).
     bind_r (eos_assert (length preactivated = 0 \<or> (length new_activations > 0 \<and> num_handled = length preactivated))
               block_validate_exception) (\<lambda>_.
       Inr (if length new_activations > 0
            then st\<lparr>as_protocol_state := (as_protocol_state st)
                      \<lparr>pso_preactivated_protocol_features := [],
                       pso_activated_protocol_features := pso_activated_protocol_features (as_protocol_state st) @
                         map (\<lambda>d. (d, block_num)) new_activations\<rparr>\<rparr>
            else st))))"

section \<open>Checks and pre-activation agree\<close>

text \<open>What a list of features to activate must satisfy, given the active ones.\<close>

definition activatable :: "protocol_feature_set \<Rightarrow> time_point \<Rightarrow> digest set \<Rightarrow> digest list \<Rightarrow> bool" where
  "activatable pfs now current ds \<longleftrightarrow>
     (\<forall>pre d post. ds = pre @ d # post \<longrightarrow>
        is_recognized pfs d now = ready \<and> d \<notin> current \<and>
        validate_dependencies pfs d (\<lambda>x. x \<in> current \<or> x \<in> set pre))"

lemma activatable_Nil [simp]: "activatable pfs now current []"
  by (simp add: activatable_def)

lemma activatable_snoc:
  "activatable pfs now current (ds @ [d]) \<longleftrightarrow>
     activatable pfs now current ds \<and> is_recognized pfs d now = ready \<and> d \<notin> current \<and>
     validate_dependencies pfs d (\<lambda>x. x \<in> current \<or> x \<in> set ds)"
  unfolding activatable_def
proof (intro iffI conjI allI impI, goal_cases)
  case (1 pre x post)
  then show ?case by (metis append_Cons append_assoc)
next
  case (2 pre x post)
  then show ?case by (metis append_Cons append_assoc)
next
  case (3 pre x post)
  then show ?case by (metis append_Cons append_assoc)
next
  case (7 pre x post)
  then show ?case by (cases post rule: rev_cases) auto
next
  case (8 pre x post)
  then show ?case by (cases post rule: rev_cases) auto
next
  case (9 pre x post)
  then show ?case by (cases post rule: rev_cases) auto
qed blast+

lemma activatable_member:
  assumes "activatable pfs now current ds" "d \<in> set ds"
  shows "find_feature pfs d \<noteq> None \<and> d \<notin> current"
proof -
  have "is_recognized pfs d now = ready \<and> d \<notin> current"
    using assms split_list [OF assms(2)] unfolding activatable_def by blast
  then show ?thesis
    by (auto simp: is_recognized_def split: option.splits)
qed

lemma check_features_loop_snoc:
  "check_features_loop pfs now current before (fs @ [f]) =
     bind_r (check_features_loop pfs now current before fs) (\<lambda>_. check_features_loop pfs now current (before @ fs) [f])"
  by (induction fs arbitrary: before) (auto simp: eos_assert_def)

lemma check_features_loop_iff:
  "check_features_loop pfs now current [] fs = Inr () \<longleftrightarrow> activatable pfs now current fs"
  by (induction fs rule: rev_induct)
    (auto simp: check_features_loop_snoc activatable_snoc bind_r_Inr_iff eos_assert_def split: if_splits)

lemma check_protocol_features_iff:
  "check_protocol_features pfs slot current ds = Inr () \<longleftrightarrow> activatable pfs (to_time_point slot) current ds"
  by (simp add: check_protocol_features_def check_features_loop_iff)

lemma is_recognized_mono: "is_recognized pfs d now = ready \<Longrightarrow> now \<le> later \<Longrightarrow> is_recognized pfs d later = ready"
  by (auto simp: is_recognized_def split: option.splits if_splits)

lemma activatable_mono: "activatable pfs now current ds \<Longrightarrow> now \<le> later \<Longrightarrow> activatable pfs later current ds"
  unfolding activatable_def using is_recognized_mono by blast

lemma preactivate_Inr:
  "preactivate_protocol_feature pfs now producing is_active d pso = Inr pso' \<longleftrightarrow>
     is_recognized pfs d now = ready \<and> \<not> is_active d \<and> d \<notin> set (pso_preactivated_protocol_features pso) \<and>
     validate_dependencies pfs d (\<lambda>x. is_active x \<or> x \<in> set (pso_preactivated_protocol_features pso)) \<and>
     pso' = pso\<lparr>pso_preactivated_protocol_features := pso_preactivated_protocol_features pso @ [d]\<rparr>"
  by (auto simp: preactivate_protocol_feature_def Let_def eos_assert_def split: if_splits)

lemma preactivate_activatable:
  assumes "preactivate_protocol_feature pfs now producing (\<lambda>x. x \<in> current) d pso = Inr pso'"
    "activatable pfs now current (pso_preactivated_protocol_features pso)" "distinct (pso_preactivated_protocol_features pso)"
  shows "activatable pfs now current (pso_preactivated_protocol_features pso')"
    "distinct (pso_preactivated_protocol_features pso')"
  using assms by (auto simp: preactivate_Inr activatable_snoc)

lemma preactivate_all:
  assumes "fold_r (preactivate_protocol_feature pfs now producing (\<lambda>x. x \<in> current)) ds pso = Inr pso'"
    "activatable pfs now current (pso_preactivated_protocol_features pso)" "distinct (pso_preactivated_protocol_features pso)"
  shows "activatable pfs now current (pso_preactivated_protocol_features pso') \<and>
         distinct (pso_preactivated_protocol_features pso') \<and>
         pso' = pso\<lparr>pso_preactivated_protocol_features := pso_preactivated_protocol_features pso @ ds\<rparr>"
  using assms
proof (induction ds arbitrary: pso)
  case (Cons d ds)
  from Cons.prems(1) obtain p where p: "preactivate_protocol_feature pfs now producing (\<lambda>x. x \<in> current) d pso = Inr p"
    and rest: "fold_r (preactivate_protocol_feature pfs now producing (\<lambda>x. x \<in> current)) ds p = Inr pso'"
    by (auto simp: bind_r_Inr_iff)
  from Cons.IH [OF rest preactivate_activatable [OF p Cons.prems(2,3)]] p show ?case
    by (auto simp: preactivate_Inr)
qed simp

lemma fold_push_back: "fold (\<lambda>f v. v @ [f]) xs ys = ys @ xs"
  by (induction xs arbitrary: ys) simp_all

lemma get_preactivated_eq: "get_preactivated_protocol_features pso = pso_preactivated_protocol_features pso"
  by (simp add: get_preactivated_protocol_features_def fold_push_back)

section \<open>Handlers succeed on features that are not active\<close>

definition handler_intrinsics :: "builtin_protocol_feature_t \<Rightarrow> string list" where
  "handler_intrinsics b =
     (case b of
        preactivate_feature \<Rightarrow> [''preactivate_feature'', ''is_feature_activated'']
      | get_sender \<Rightarrow> [''get_sender'']
      | wtmsig_block_signatures \<Rightarrow> [''set_proposed_producers_ex'']
      | _ \<Rightarrow> [])"

text \<open>A correction is at most taken from what the account uses.\<close>

definition corrections_ok :: "activation_state \<Rightarrow> bool" where
  "corrections_ok st \<longleftrightarrow>
     (\<forall>c\<in>set (as_ram_corrections st). \<exists>u. tbl_find (fst c) (usages (as_resource_limits st)) = Some u \<and> ram_usage u \<le> i64_max)"

definition handlers_inv :: "str_hash \<Rightarrow> protocol_feature_set \<Rightarrow> activation_state \<Rightarrow> bool" where
  "handlers_inv hash pfs st \<longleftrightarrow>
     pfm_inv pfs (as_protocol_features st) \<and>
     whitelist_wf hash (pso_whitelisted_intrinsics (as_protocol_state st)) \<and>
     (\<forall>b d. get_builtin_digest pfs b = Some d \<longrightarrow> d \<notin> fst ` set (log_of (as_protocol_features st)) \<longrightarrow>
        set (handler_intrinsics b) \<inter> convert_intrinsic_whitelist_to_set (pso_whitelisted_intrinsics (as_protocol_state st)) = {}) \<and>
     corrections_ok st"

definition activation_inv :: "str_hash \<Rightarrow> protocol_feature_set \<Rightarrow> activation_state \<Rightarrow> bool" where
  "activation_inv hash pfs st \<longleftrightarrow>
     handlers_inv hash pfs st \<and>
     pso_activated_protocol_features (as_protocol_state st) = log_of (as_protocol_features st)"

lemma handler_intrinsics_disjoint:
  "a \<noteq> b \<Longrightarrow> set (handler_intrinsics a) \<inter> set (handler_intrinsics b) = {}"
  by (cases a; cases b) (simp_all add: handler_intrinsics_def)

lemma ram_correction_step:
  assumes "tbl_find nm (usages db) = Some u" "ram_usage u \<le> i64_max"
  shows "ram_correction_loop ((nm, c) # rest) db =
           (if c = 0 \<or> ram_usage u = 0 then ram_correction_loop rest db
            else ram_correction_loop rest (db\<lparr>usages := tbl_put nm (u\<lparr>ram_usage := ram_usage u - c\<rparr>) (usages db)\<rparr>))"
proof -
  let ?w = "ram_usage u"
  have ids: "wrap_i64 (int ?w) = int ?w" "int ?w mod 18446744073709551616 = int ?w" "wrap_i64 (- int ?w) = - int ?w"
    "c \<le> ?w \<Longrightarrow> wrap_i64 (int c) = int c" "c \<le> ?w \<Longrightarrow> wrap_i64 (- int c) = - int c"
    using assms(2) by (auto simp: i64_max_def is_i64_def intro!: wrap_i64_id)
  define delta where "delta = - int (min c ?w)"
  have d: "(if int c > int ?w then wrap_i64 (- int ?w) else wrap_i64 (- wrap_i64 (int c))) = delta"
    using ids(3-5) by (auto simp: delta_def min_def)
  have new: "nat ((int ?w + delta) mod 2 ^ 64) = ?w - c"
    using assms(2) by (auto simp: delta_def i64_max_def min_def)
  have le: "delta \<le> 0" "nat (- delta) \<le> ?w"
    by (auto simp: delta_def)
  have "ram_correction_loop ((nm, c) # rest) db = bind_r (add_pending_ram_usage nm delta db) (ram_correction_loop rest)"
    using assms(1) d by (auto simp: get_account_ram_usage_def tbl_get_def Let_def ids(1,2) split: if_splits)
  also have "add_pending_ram_usage nm delta db =
      (if delta = 0 then Inr db else Inr (db\<lparr>usages := tbl_put nm (u\<lparr>ram_usage := ?w - c\<rparr>) (usages db)\<rparr>))"
    using assms(1) new le by (simp add: add_pending_ram_usage_def tbl_get_def eos_assert_def)
  also have "delta = 0 \<longleftrightarrow> c = 0 \<or> ?w = 0"
    by (auto simp: delta_def)
  finally show ?thesis
    by (simp del: ram_correction_loop.simps)
qed

text \<open>The corrections are taken from the usage of the accounts, down to zero.\<close>

lemma ram_correction_loop_ok:
  assumes "\<forall>c\<in>set cs. \<exists>u. tbl_find (fst c) (usages db) = Some u \<and> ram_usage u \<le> i64_max"
  shows "\<exists>db'. ram_correction_loop cs db = Inr db' \<and>
           (\<forall>a. map_option ram_usage (tbl_find a (usages db')) =
                 map_option (\<lambda>u. ram_usage u - sum_list (map snd (filter (\<lambda>c. fst c = a) cs))) (tbl_find a (usages db)))"
  using assms
proof (induction cs arbitrary: db)
  case (Cons x cs)
  obtain nm c where x: "x = (nm, c)"
    by (cases x)
  obtain u where u: "tbl_find nm (usages db) = Some u" "ram_usage u \<le> i64_max"
    using Cons.prems x by auto
  note step = ram_correction_step [OF u, of c cs]
  let ?db = "db\<lparr>usages := tbl_put nm (u\<lparr>ram_usage := ram_usage u - c\<rparr>) (usages db)\<rparr>"
  show ?case
  proof (cases "c = 0 \<or> ram_usage u = 0")
    case True
    then show ?thesis
      using Cons.IH [of db] Cons.prems u step x by (auto simp del: ram_correction_loop.simps intro!: map_option_cong)
  next
    case False
    have "\<forall>c\<in>set cs. \<exists>u. tbl_find (fst c) (usages ?db) = Some u \<and> ram_usage u \<le> i64_max"
      using Cons.prems u by auto
    from Cons.IH [OF this] False show ?thesis
      using step x u by (auto simp del: ram_correction_loop.simps)
  qed
qed simp

lemma whitelist_intrinsic_ok:
  assumes "whitelist_wf hash (pso_whitelisted_intrinsics (as_protocol_state st))"
    "nm \<notin> convert_intrinsic_whitelist_to_set (pso_whitelisted_intrinsics (as_protocol_state st))"
  shows "\<exists>w. whitelist_intrinsic hash nm st =
               Inr (st\<lparr>as_protocol_state := (as_protocol_state st)\<lparr>pso_whitelisted_intrinsics := w\<rparr>\<rparr>) \<and>
             whitelist_wf hash w \<and>
             convert_intrinsic_whitelist_to_set w =
               insert nm (convert_intrinsic_whitelist_to_set (pso_whitelisted_intrinsics (as_protocol_state st)))"
  using assms by (auto simp: whitelist_intrinsic_def add_intrinsic_wf whitelist_wf_emplace)

text \<open>What a handler may change: the whitelist grows by its intrinsics, the digests and the manager stay.\<close>

definition handler_frame :: "str_hash \<Rightarrow> builtin_protocol_feature_t \<Rightarrow> activation_state \<Rightarrow> activation_state \<Rightarrow> bool" where
  "handler_frame hash b st st' \<longleftrightarrow>
     as_protocol_features st' = as_protocol_features st \<and>
     pso_activated_protocol_features (as_protocol_state st') = pso_activated_protocol_features (as_protocol_state st) \<and>
     pso_preactivated_protocol_features (as_protocol_state st') = pso_preactivated_protocol_features (as_protocol_state st) \<and>
     whitelist_wf hash (pso_whitelisted_intrinsics (as_protocol_state st')) \<and>
     convert_intrinsic_whitelist_to_set (pso_whitelisted_intrinsics (as_protocol_state st')) =
       set (handler_intrinsics b) \<union> convert_intrinsic_whitelist_to_set (pso_whitelisted_intrinsics (as_protocol_state st)) \<and>
     corrections_ok st'"

lemma handler_preactivate_feature:
  assumes "whitelist_wf hash (pso_whitelisted_intrinsics (as_protocol_state st))" "corrections_ok st"
    "set (handler_intrinsics preactivate_feature) \<inter>
       convert_intrinsic_whitelist_to_set (pso_whitelisted_intrinsics (as_protocol_state st)) = {}"
  shows "\<exists>st'. on_activation_preactivate_feature hash st = Inr st' \<and> handler_frame hash preactivate_feature st st'"
proof -
  obtain w where w: "whitelist_intrinsic hash ''preactivate_feature'' st =
        Inr (st\<lparr>as_protocol_state := (as_protocol_state st)\<lparr>pso_whitelisted_intrinsics := w\<rparr>\<rparr>)" (is "_ = Inr ?s")
      "whitelist_wf hash w" "convert_intrinsic_whitelist_to_set w =
        insert ''preactivate_feature'' (convert_intrinsic_whitelist_to_set (pso_whitelisted_intrinsics (as_protocol_state st)))"
    using whitelist_intrinsic_ok [OF assms(1)] assms(3) by (auto simp: handler_intrinsics_def)
  then have "''is_feature_activated'' \<notin> convert_intrinsic_whitelist_to_set w"
    using assms(3) by (auto simp: handler_intrinsics_def)
  with whitelist_intrinsic_ok [of hash ?s "''is_feature_activated''"] w assms(2) show ?thesis
    by (auto simp: on_activation_preactivate_feature_def handler_frame_def handler_intrinsics_def corrections_ok_def)
qed

lemma handler_one_intrinsic:
  assumes "whitelist_wf hash (pso_whitelisted_intrinsics (as_protocol_state st))" "corrections_ok st"
    "set (handler_intrinsics b) \<inter>
       convert_intrinsic_whitelist_to_set (pso_whitelisted_intrinsics (as_protocol_state st)) = {}"
    "handler_intrinsics b = [nm]"
  shows "\<exists>st'. whitelist_intrinsic hash nm st = Inr st' \<and> handler_frame hash b st st'"
  using whitelist_intrinsic_ok [OF assms(1), of nm] assms(2-4)
  by (auto simp: handler_frame_def corrections_ok_def)

lemma handler_replace_deferred:
  assumes "whitelist_wf hash (pso_whitelisted_intrinsics (as_protocol_state st))" "corrections_ok st"
  shows "\<exists>st'. on_activation_replace_deferred st = Inr st' \<and> handler_frame hash replace_deferred st st'"
  using ram_correction_loop_ok [of "as_ram_corrections st" "as_resource_limits st"] assms
  by (auto simp: on_activation_replace_deferred_def handler_frame_def handler_intrinsics_def corrections_ok_def)

lemma trigger_activation_handler_ok:
  assumes "whitelist_wf hash (pso_whitelisted_intrinsics (as_protocol_state st))" "corrections_ok st"
    "set (handler_intrinsics b) \<inter>
       convert_intrinsic_whitelist_to_set (pso_whitelisted_intrinsics (as_protocol_state st)) = {}"
  shows "\<exists>st'. trigger_activation_handler hash b st = Inr st' \<and> handler_frame hash b st st'"
proof (cases b)
  case preactivate_feature
  with handler_preactivate_feature [of hash st] assms show ?thesis
    by (simp add: trigger_activation_handler_def)
next
  case replace_deferred
  with handler_replace_deferred [of hash st] assms show ?thesis
    by (simp add: trigger_activation_handler_def)
next
  case get_sender
  with handler_one_intrinsic [OF assms, of "''get_sender''"] show ?thesis
    by (simp add: trigger_activation_handler_def on_activation_get_sender_def handler_intrinsics_def)
next
  case wtmsig_block_signatures
  with handler_one_intrinsic [OF assms, of "''set_proposed_producers_ex''"] show ?thesis
    by (simp add: trigger_activation_handler_def on_activation_wtmsig_block_signatures_def handler_intrinsics_def)
qed (use assms in \<open>auto simp: trigger_activation_handler_def handler_frame_def handler_intrinsics_def
       on_activation_webauthn_key_def corrections_ok_def\<close>)

section \<open>The activation loop\<close>

lemma digest_builtin:
  assumes "pfs_wf pfs" "find_feature pfs d = Some f"
  obtains b where "pf_builtin_feature f = Some b" "get_builtin_digest pfs b = Some d"
proof -
  have f: "f \<in> set (recognized_protocol_features pfs)" "pf_feature_digest f = d"
    using find_feature_Some [OF assms(2)] by blast+
  then obtain b where b: "pf_builtin_feature f = Some b"
    using assms(1) unfolding pfs_wf_def by blast
  have "feature_index b < length (recognized_builtin_protocol_features pfs) \<and>
        recognized_builtin_protocol_features pfs ! feature_index b = Some d"
    using assms(1) f b unfolding pfs_wf_def by blast
  then have "get_builtin_digest pfs b = Some d"
    using assms(2) f(2) by (simp add: get_builtin_digest_def)
  with b that show thesis
    by blast
qed

text \<open>One feature: its handler and the manager succeed, and the invariant is kept.\<close>

lemma activation_step:
  assumes built: "feature_set_built env pfs" and inv: "handlers_inv hash pfs st"
    and f: "find_feature pfs d = Some f" and fresh: "d \<notin> fst ` set (log_of (as_protocol_features st))"
    and n: "n < not_active" "\<forall>e\<in>set (log_of (as_protocol_features st)). snd e \<le> n"
  shows "\<exists>b st1 m. pf_builtin_feature f = Some b \<and> trigger_activation_handler hash b st = Inr st1 \<and>
           activate_feature d n (as_protocol_features st1) = Inr m \<and>
           handlers_inv hash pfs (st1\<lparr>as_protocol_features := m\<rparr>) \<and>
           log_of m = log_of (as_protocol_features st) @ [(d, n)] \<and>
           pso_activated_protocol_features (as_protocol_state st1) = pso_activated_protocol_features (as_protocol_state st) \<and>
           pso_preactivated_protocol_features (as_protocol_state st1) = pso_preactivated_protocol_features (as_protocol_state st)"
proof -
  have wf: "pfs_wf pfs"
    using feature_set_built_wf built by blast
  from wf f obtain b where b: "pf_builtin_feature f = Some b" "get_builtin_digest pfs b = Some d"
    by (rule digest_builtin)
  have "set (handler_intrinsics b) \<inter>
      convert_intrinsic_whitelist_to_set (pso_whitelisted_intrinsics (as_protocol_state st)) = {}"
    using inv b(2) fresh unfolding handlers_inv_def by blast
  then obtain st1 where st1: "trigger_activation_handler hash b st = Inr st1" "handler_frame hash b st st1"
    using trigger_activation_handler_ok [of hash st b] inv unfolding handlers_inv_def by blast
  have same: "as_protocol_features st1 = as_protocol_features st"
    using st1(2) by (simp add: handler_frame_def)
  have m0: "pfm_inv pfs (as_protocol_features st)"
    using inv by (simp add: handlers_inv_def)
  have known: "d \<in> pf_feature_digest ` set (recognized_protocol_features pfs)"
    using f find_feature_None [of pfs d] by (metis option.distinct(1))
  have "log_activate pfs d n (log_of (as_protocol_features st)) = Inr (log_of (as_protocol_features st) @ [(d, n)])"
    using known fresh n(2) by (simp add: log_activate_def) (meson not_le)
  with activate_feature_log [OF built m0 n(1), of d] obtain m where
      m: "activate_feature d n (as_protocol_features st) = Inr m" "log_of m = log_of (as_protocol_features st) @ [(d, n)]"
        "pfm_inv pfs m"
    by (auto split: sum.splits)
  have other: "set (handler_intrinsics b') \<inter> set (handler_intrinsics b) = {}" if "get_builtin_digest pfs b' = Some d'" "d' \<noteq> d" for b' d'
    using that b(2) by (intro handler_intrinsics_disjoint) auto
  have "set (handler_intrinsics b') \<inter> convert_intrinsic_whitelist_to_set (pso_whitelisted_intrinsics (as_protocol_state st1)) = {}"
    if "get_builtin_digest pfs b' = Some d'" "d' \<notin> fst ` set (log_of m)" for b' d'
  proof -
    have "d' \<noteq> d" "d' \<notin> fst ` set (log_of (as_protocol_features st))"
      using that(2) m(2) by auto
    then show ?thesis
      using other [OF that(1)] inv that(1) st1(2) unfolding handlers_inv_def handler_frame_def by (metis Int_Un_distrib Un_empty_left)
  qed
  then have "handlers_inv hash pfs (st1\<lparr>as_protocol_features := m\<rparr>)"
    using st1(2) m(3) unfolding handlers_inv_def handler_frame_def corrections_ok_def by simp
  with b(1) st1 m same show ?thesis
    by (auto simp: handler_frame_def)
qed

text \<open>All features of a list that were pre-activated and are not active.\<close>

lemma activation_loop_ok:
  assumes built: "feature_set_built env pfs"
  shows "handlers_inv hash pfs st \<Longrightarrow> n < not_active \<Longrightarrow> \<forall>e\<in>set (log_of (as_protocol_features st)). snd e \<le> n \<Longrightarrow>
    distinct ds \<Longrightarrow> \<forall>d\<in>set ds. seen d = Some False \<and> find_feature pfs d \<noteq> None \<and> d \<notin> fst ` set (log_of (as_protocol_features st)) \<Longrightarrow>
    \<exists>st'. activation_loop hash n seen k ds st = Inr (k + length ds, st')"
proof (induction ds arbitrary: seen k st)
  case (Cons d ds)
  have pfs: "pfm_protocol_feature_set (as_protocol_features st) = pfs"
    using Cons.prems(1) by (simp add: handlers_inv_def pfm_inv_def)
  obtain f where f: "find_feature pfs d = Some f" and s: "seen d = Some False"
    and fresh: "d \<notin> fst ` set (log_of (as_protocol_features st))"
    using Cons.prems(5) by auto
  obtain b st1 m where step: "pf_builtin_feature f = Some b" "trigger_activation_handler hash b st = Inr st1"
      "activate_feature d n (as_protocol_features st1) = Inr m" "handlers_inv hash pfs (st1\<lparr>as_protocol_features := m\<rparr>)"
      "log_of m = log_of (as_protocol_features st) @ [(d, n)]"
    using activation_step [OF built Cons.prems(1) f fresh Cons.prems(2,3)] by blast
  have "\<exists>st'. activation_loop hash n (seen(d \<mapsto> True)) (k + 1) ds (st1\<lparr>as_protocol_features := m\<rparr>) = Inr (k + 1 + length ds, st')"
    using Cons.prems(2-5) step(5) by (intro Cons.IH [OF step(4)]) auto
  then show ?case
    using pfs f s step(1-3) by (simp add: get_protocol_feature_def eos_assert_def)
qed simp

lemma trigger_keeps_manager:
  "trigger_activation_handler hash b st = Inr st' \<Longrightarrow> as_protocol_features st' = as_protocol_features st"
  by (auto simp: trigger_activation_handler_def on_activation_preactivate_feature_def on_activation_get_sender_def
      on_activation_replace_deferred_def on_activation_webauthn_key_def on_activation_wtmsig_block_signatures_def
      whitelist_intrinsic_def bind_r_Inr_iff split: builtin_protocol_feature_t.splits)

definition loop_frame ::
    "str_hash \<Rightarrow> protocol_feature_set \<Rightarrow> nat \<Rightarrow> (digest \<Rightarrow> bool option) \<Rightarrow> digest list \<Rightarrow> activation_state \<Rightarrow> activation_state \<Rightarrow> bool" where
  "loop_frame hash pfs n seen ds st st' \<longleftrightarrow>
     handlers_inv hash pfs st' \<and>
     log_of (as_protocol_features st') = log_of (as_protocol_features st) @ map (\<lambda>d. (d, n)) ds \<and>
     pso_activated_protocol_features (as_protocol_state st') = pso_activated_protocol_features (as_protocol_state st) \<and>
     pso_preactivated_protocol_features (as_protocol_state st') = pso_preactivated_protocol_features (as_protocol_state st) \<and>
     distinct ds \<and>
     (\<forall>d\<in>set ds. seen d \<noteq> Some True \<and>
        (seen d = None \<longrightarrow> (\<exists>f. find_feature pfs d = Some f \<and> \<not> pf_preactivation_required f)))"

lemma activation_loop_Inr:
  assumes built: "feature_set_built env pfs" and n: "n < not_active"
  shows "activation_loop hash n seen k ds st = Inr (k', st') \<Longrightarrow> handlers_inv hash pfs st \<Longrightarrow>
    loop_frame hash pfs n seen ds st st' \<and> k' = k + length (filter (\<lambda>d. seen d = Some False) ds)"
proof (induction ds arbitrary: seen k st)
  case Nil
  then show ?case
    by (simp add: loop_frame_def)
next
  case (Cons d ds)
  have m0: "pfm_inv pfs (as_protocol_features st)" and pfs: "pfm_protocol_feature_set (as_protocol_features st) = pfs"
    using Cons.prems(2) by (simp_all add: handlers_inv_def pfm_inv_def)
  have wf: "pfs_wf pfs"
    using feature_set_built_wf built by blast
  from Cons.prems(1) obtain f where f: "find_feature pfs d = Some f"
    by (auto simp: pfs get_protocol_feature_def bind_r_Inr_iff)
  from wf f obtain b where b: "pf_builtin_feature f = Some b"
    by (rule digest_builtin)
  from Cons.prems(1) obtain k1 st1 m where
      k1: "k1 = (if seen d = None then k else k + 1)" "seen d \<noteq> Some True" "seen d = None \<longrightarrow> \<not> pf_preactivation_required f"
      and st1: "trigger_activation_handler hash b st = Inr st1" "activate_feature d n (as_protocol_features st1) = Inr m"
      and rest: "activation_loop hash n (seen(d \<mapsto> True)) k1 ds (st1\<lparr>as_protocol_features := m\<rparr>) = Inr (k', st')"
    by (auto simp: pfs get_protocol_feature_def f b bind_r_Inr_iff eos_assert_def split: option.splits if_splits)
  have "log_activate pfs d n (log_of (as_protocol_features st)) = Inr (log_of m)"
    using activate_feature_log [OF built m0 n, of d] st1(2) trigger_keeps_manager [OF st1(1)] by simp
  then have fresh: "d \<notin> fst ` set (log_of (as_protocol_features st))" "\<forall>e\<in>set (log_of (as_protocol_features st)). snd e \<le> n"
    by (auto simp: log_activate_def not_less split: if_splits)
  obtain st2 m2 where two: "trigger_activation_handler hash b st = Inr st2" "activate_feature d n (as_protocol_features st2) = Inr m2"
      and inv: "handlers_inv hash pfs (st2\<lparr>as_protocol_features := m2\<rparr>)"
      "log_of m2 = log_of (as_protocol_features st) @ [(d, n)]"
      "pso_activated_protocol_features (as_protocol_state st2) = pso_activated_protocol_features (as_protocol_state st)"
      "pso_preactivated_protocol_features (as_protocol_state st2) = pso_preactivated_protocol_features (as_protocol_state st)"
    using activation_step [OF built Cons.prems(2) f fresh(1) n fresh(2)] b by auto
  have eq: "st2 = st1" "m2 = m"
    using two st1 by auto
  from Cons.IH [OF rest] inv have ih: "loop_frame hash pfs n (seen(d \<mapsto> True)) ds (st1\<lparr>as_protocol_features := m\<rparr>) st'"
      "k' = k1 + length (filter (\<lambda>x. (seen(d \<mapsto> True)) x = Some False) ds)"
    unfolding eq by blast+
  have notin: "d \<notin> set ds"
    using ih(1) by (auto simp: loop_frame_def)
  then have "filter (\<lambda>x. (seen(d \<mapsto> True)) x = Some False) ds = filter (\<lambda>x. seen x = Some False) ds"
    by (intro filter_cong) auto
  with ih(2) k1 have "k' = k + length (filter (\<lambda>x. seen x = Some False) (d # ds))"
    by (cases "seen d") auto
  moreover have "\<forall>x\<in>set ds. seen x \<noteq> Some True \<and>
      (seen x = None \<longrightarrow> (\<exists>f. find_feature pfs x = Some f \<and> \<not> pf_preactivation_required f))"
    using ih(1) notin unfolding loop_frame_def by (metis fun_upd_other)
  then have "loop_frame hash pfs n seen (d # ds) st st'"
    using ih(1) inv(2-4) notin k1(2,3) f unfolding loop_frame_def eq by simp
  ultimately show ?case
    by blast
qed

section \<open>Activation of pre-activated features\<close>

lemma filter_covers:
  assumes "distinct xs" "distinct ys" "length (filter (\<lambda>x. x \<in> set ys) xs) = length ys"
  shows "set ys \<subseteq> set xs"
proof -
  have "card (set xs \<inter> set ys) = card (set ys)"
    using assms distinct_card [of "filter (\<lambda>x. x \<in> set ys) xs"] distinct_card [of ys]
    by (simp add: Int_def conj_commute)
  then have "set xs \<inter> set ys = set ys"
    by (intro card_subset_eq) auto
  then show ?thesis
    by blast
qed

lemma activate_protocol_features_iff:
  "activate_protocol_features hash news n st = Inr st' \<longleftrightarrow>
     (\<exists>k s. activation_loop hash n (\<lambda>d. if d \<in> set (pso_preactivated_protocol_features (as_protocol_state st)) then Some False else None)
               0 news st = Inr (k, s) \<and>
        (pso_preactivated_protocol_features (as_protocol_state st) = [] \<or>
         news \<noteq> [] \<and> k = length (pso_preactivated_protocol_features (as_protocol_state st))) \<and>
        st' = (if news \<noteq> [] then s\<lparr>as_protocol_state := (as_protocol_state s)
                \<lparr>pso_preactivated_protocol_features := [],
                 pso_activated_protocol_features := pso_activated_protocol_features (as_protocol_state s) @ map (\<lambda>d. (d, n)) news\<rparr>\<rparr> else s))"
  by (cases "activation_loop hash n (\<lambda>d. if d \<in> set (pso_preactivated_protocol_features (as_protocol_state st)) then Some False else None)
               0 news st"; cases "news = []")
    (auto simp: activate_protocol_features_def Let_def eos_assert_def split: if_splits)

lemma activate_protocol_features_Inr:
  assumes built: "feature_set_built env pfs" and n: "n < not_active" and inv: "activation_inv hash pfs st"
    and pre: "distinct (pso_preactivated_protocol_features (as_protocol_state st))"
    and run: "activate_protocol_features hash news n st = Inr st'"
  shows "activation_inv hash pfs st' \<and>
    pso_activated_protocol_features (as_protocol_state st') =
      pso_activated_protocol_features (as_protocol_state st) @ map (\<lambda>d. (d, n)) news \<and>
    pso_preactivated_protocol_features (as_protocol_state st') = [] \<and>
    set (pso_preactivated_protocol_features (as_protocol_state st)) \<subseteq> set news \<and> distinct news \<and>
    (\<forall>d\<in>set news. d \<in> set (pso_preactivated_protocol_features (as_protocol_state st)) \<or>
       (\<exists>f. find_feature pfs d = Some f \<and> \<not> pf_preactivation_required f))"
proof -
  let ?pre = "pso_preactivated_protocol_features (as_protocol_state st)"
  let ?seen = "\<lambda>d. if d \<in> set ?pre then Some False else None"
  from run obtain k s where loop: "activation_loop hash n ?seen 0 news st = Inr (k, s)"
    and all: "?pre = [] \<or> news \<noteq> [] \<and> k = length ?pre"
    and st': "st' = (if news \<noteq> [] then s\<lparr>as_protocol_state := (as_protocol_state s)
                \<lparr>pso_preactivated_protocol_features := [],
                 pso_activated_protocol_features := pso_activated_protocol_features (as_protocol_state s) @ map (\<lambda>d. (d, n)) news\<rparr>\<rparr> else s)"
    unfolding activate_protocol_features_iff by blast
  have hinv: "handlers_inv hash pfs st" and log: "pso_activated_protocol_features (as_protocol_state st) = log_of (as_protocol_features st)"
    using inv by (simp_all add: activation_inv_def)
  have frame: "loop_frame hash pfs n ?seen news st s" and k: "k = length (filter (\<lambda>d. ?seen d = Some False) news)"
    using activation_loop_Inr [OF built n loop hinv] by simp_all
  have "length (filter (\<lambda>d. d \<in> set ?pre) news) = k"
    unfolding k by (rule arg_cong [of _ _ length], rule filter_cong) auto
  then have "set ?pre \<subseteq> set news"
    using all filter_covers [of news ?pre] pre frame by (auto simp: loop_frame_def)
  moreover have "handlers_inv hash pfs (s\<lparr>as_protocol_state := (as_protocol_state s)
      \<lparr>pso_preactivated_protocol_features := x, pso_activated_protocol_features := y\<rparr>\<rparr>)" for x y
    using frame by (simp add: loop_frame_def handlers_inv_def corrections_ok_def)
  moreover have "\<forall>d\<in>set news. d \<in> set ?pre \<or> (\<exists>f. find_feature pfs d = Some f \<and> \<not> pf_preactivation_required f)"
    using frame unfolding loop_frame_def by (auto split: if_splits)
  ultimately show ?thesis
    using frame log all unfolding st' activation_inv_def by (auto simp: loop_frame_def)
qed

lemma activate_preactivated:
  assumes built: "feature_set_built env pfs" and inv: "activation_inv hash pfs st"
    and n: "n < not_active" "\<forall>e\<in>set (pso_activated_protocol_features (as_protocol_state st)). snd e \<le> n"
    and pre: "distinct (pso_preactivated_protocol_features (as_protocol_state st))"
      "activatable pfs now (fst ` set (pso_activated_protocol_features (as_protocol_state st)))
         (pso_preactivated_protocol_features (as_protocol_state st))"
  shows "\<exists>st'. activate_protocol_features hash (pso_preactivated_protocol_features (as_protocol_state st)) n st = Inr st'"
proof -
  let ?pre = "pso_preactivated_protocol_features (as_protocol_state st)"
  have log: "pso_activated_protocol_features (as_protocol_state st) = log_of (as_protocol_features st)"
    and hinv: "handlers_inv hash pfs st"
    using inv by (simp_all add: activation_inv_def)
  have "find_feature pfs d \<noteq> None \<and> d \<notin> fst ` set (log_of (as_protocol_features st))" if "d \<in> set ?pre" for d
    using activatable_member [OF pre(2) that] unfolding log .
  then obtain s where "activation_loop hash n (\<lambda>d. if d \<in> set ?pre then Some False else None) 0 ?pre st = Inr (0 + length ?pre, s)"
    using activation_loop_ok [OF built hinv n(1) n(2) [unfolded log] pre(1), of "\<lambda>d. if d \<in> set ?pre then Some False else None" 0]
    by auto
  then show ?thesis
    by (auto simp: activate_protocol_features_def Let_def eos_assert_def)
qed

text \<open>
  C30. Features that contracts pre-activate in one block are activated by the next: whatever calls
  of \<^verbatim>\<open>preactivate_feature\<close> succeeded, listing the pre-activated features passes
  \<^verbatim>\<open>check_protocol_features\<close> at the later time of the next block, the start of that block activates
  all of them, handlers included, without an exception, and the protocol state and the manager
  afterwards agree on the activations.
\<close>

theorem preactivated_features_activate:
  assumes "feature_set_built env pfs" "activation_inv hash pfs st"
    "pso_preactivated_protocol_features (as_protocol_state st) = []"
    "fold_r (preactivate_protocol_feature pfs now producing
       (\<lambda>d. d \<in> fst ` set (pso_activated_protocol_features (as_protocol_state st)))) ds (as_protocol_state st) = Inr pso"
    "now \<le> to_time_point slot" "n < not_active" "\<forall>e\<in>set (pso_activated_protocol_features (as_protocol_state st)). snd e \<le> n"
  shows "check_protocol_features pfs slot (fst ` set (pso_activated_protocol_features pso)) (get_preactivated_protocol_features pso) = Inr () \<and>
    (\<exists>st'. activate_protocol_features hash (get_preactivated_protocol_features pso) n (st\<lparr>as_protocol_state := pso\<rparr>) = Inr st' \<and>
       activation_inv hash pfs st' \<and>
       pso_activated_protocol_features (as_protocol_state st') =
         pso_activated_protocol_features (as_protocol_state st) @ map (\<lambda>d. (d, n)) ds \<and>
       pso_preactivated_protocol_features (as_protocol_state st') = [])"
proof -
  let ?current = "fst ` set (pso_activated_protocol_features (as_protocol_state st))"
  have act: "activatable pfs now ?current (pso_preactivated_protocol_features pso)"
    and dist: "distinct (pso_preactivated_protocol_features pso)"
    and pso: "pso = (as_protocol_state st)\<lparr>pso_preactivated_protocol_features := ds\<rparr>"
    using preactivate_all [OF assms(4)] assms(3) by (metis activatable_Nil append_Nil distinct.simps(1))+
  have inv: "activation_inv hash pfs (st\<lparr>as_protocol_state := pso\<rparr>)"
    using assms(2) unfolding pso activation_inv_def handlers_inv_def corrections_ok_def by simp
  obtain st' where st': "activate_protocol_features hash (pso_preactivated_protocol_features pso) n (st\<lparr>as_protocol_state := pso\<rparr>) = Inr st'"
    using activate_preactivated [OF assms(1) inv assms(6), of now] assms(7) act dist by (auto simp: pso)
  then show ?thesis
    using activate_protocol_features_Inr [OF assms(1,6) inv, of _ st'] dist
      activatable_mono [OF act assms(5)] by (simp add: check_protocol_features_iff get_preactivated_eq pso)
qed

text \<open>
  C31. A block whose activations the start of a block accepts, activates every pre-activated
  feature, each feature once, and besides them only features that need no pre-activation. The
  protocol state records exactly its activations, at its block number, in agreement with the manager,
  and no feature stays pre-activated.
\<close>

theorem accepted_activations:
  assumes "feature_set_built env pfs" "n < not_active" "activation_inv hash pfs st"
    "distinct (pso_preactivated_protocol_features (as_protocol_state st))"
    "activate_protocol_features hash news n st = Inr st'"
  shows "activation_inv hash pfs st' \<and>
    pso_activated_protocol_features (as_protocol_state st') =
      pso_activated_protocol_features (as_protocol_state st) @ map (\<lambda>d. (d, n)) news \<and>
    pso_preactivated_protocol_features (as_protocol_state st') = [] \<and>
    set (pso_preactivated_protocol_features (as_protocol_state st)) \<subseteq> set news \<and> distinct news \<and>
    (\<forall>d\<in>set news. d \<in> set (pso_preactivated_protocol_features (as_protocol_state st)) \<or>
       (\<exists>f. find_feature pfs d = Some f \<and> \<not> pf_preactivation_required f))"
  by (rule activate_protocol_features_Inr [OF assms])

section \<open>Sample\<close>

definition sample_activation_state :: activation_state where
  "sample_activation_state =
     \<lparr>as_protocol_state = \<lparr>pso_activated_protocol_features = [], pso_preactivated_protocol_features = [],
        pso_whitelisted_intrinsics = [], pso_num_supported_key_types = 2\<rparr>,
      as_protocol_features = (make_protocol_feature_manager sample_feature_set)\<lparr>pfm_initialized := True\<rparr>,
      as_resource_limits = sample_db, as_ram_corrections = [(1, 3)]\<rparr>"

lemma sample_activation_inv: "activation_inv hash sample_feature_set sample_activation_state"
  by (auto simp: activation_inv_def handlers_inv_def pfm_inv_start sample_activation_state_def whitelist_wf_def
      corrections_ok_def convert_intrinsic_whitelist_to_set_def make_protocol_feature_manager_def log_of_def sample_simps
      tbl_find_Cons i64_max_def)
    (use pfm_inv_start [of sample_feature_set] in \<open>simp add: make_protocol_feature_manager_def\<close>)

theorem preactivated_features_activate_witness:
  "\<exists>st'. activate_protocol_features (\<lambda>_. 0) [sample_digest replace_deferred, sample_digest no_duplicate_deferred_id] 7
      (sample_activation_state\<lparr>as_protocol_state := (as_protocol_state sample_activation_state)
         \<lparr>pso_preactivated_protocol_features := [sample_digest replace_deferred, sample_digest no_duplicate_deferred_id]\<rparr>\<rparr>) = Inr st' \<and>
     pso_activated_protocol_features (as_protocol_state st') =
       [(sample_digest replace_deferred, 7), (sample_digest no_duplicate_deferred_id, 7)]"
  using preactivated_features_activate [OF sample_feature_set_built sample_activation_inv, of 0 False
      "[sample_digest replace_deferred, sample_digest no_duplicate_deferred_id]" _ 0 7 "\<lambda>_. 0"]
  by (auto simp: preactivate_Inr bind_r_Inr_iff get_preactivated_eq sample_activation_state_def is_recognized_def validate_dependencies_def
      sample_feature_simps not_active_def u32_max_def to_time_point_def wrap_i64_def block_timestamp_epoch_def)

theorem accepted_activations_witness:
  "\<exists>st'. activate_protocol_features (\<lambda>_. 0) [sample_digest replace_deferred] 7
      (sample_activation_state\<lparr>as_protocol_state := (as_protocol_state sample_activation_state)
         \<lparr>pso_preactivated_protocol_features := [sample_digest replace_deferred]\<rparr>\<rparr>) = Inr st' \<and>
     pso_activated_protocol_features (as_protocol_state st') = [(sample_digest replace_deferred, 7)]"
proof -
  let ?st = "sample_activation_state\<lparr>as_protocol_state := (as_protocol_state sample_activation_state)
         \<lparr>pso_preactivated_protocol_features := [sample_digest replace_deferred]\<rparr>\<rparr>"
  have inv: "activation_inv (\<lambda>_. 0) sample_feature_set ?st"
    using sample_activation_inv unfolding activation_inv_def handlers_inv_def corrections_ok_def by simp
  have "activatable sample_feature_set 0 {} ([] @ [sample_digest replace_deferred])"
    unfolding activatable_snoc by (simp add: is_recognized_def validate_dependencies_def sample_feature_simps)
  then obtain st' where "activate_protocol_features (\<lambda>_. 0) [sample_digest replace_deferred] 7 ?st = Inr st'"
    using activate_preactivated [OF sample_feature_set_built inv, of 7 0]
    by (auto simp: sample_activation_state_def not_active_def u32_max_def)
  with accepted_activations [OF sample_feature_set_built _ inv, of 7 "[sample_digest replace_deferred]" st'] show ?thesis
    by (auto simp: sample_activation_state_def not_active_def u32_max_def)
qed

end
