(* ===== verification/Authorization.thy ===== *)
theory Authorization
  imports Authority Tables Transactions
begin

text \<open>
  The permissions of the accounts (\<^verbatim>\<open>permission_object.hpp\<close>, \<^verbatim>\<open>permission_link_object.hpp\<close> and the
  database part of \<^verbatim>\<open>authorization_manager.cpp\<close>): permissions form trees, one per account, whose
  edges are the identifiers of the parents; a permission satisfies those below it. The tables hold
  the rows in the order of their identifiers; a new row takes the next identifier of its table.
\<close>

record permission_object =
  po_id :: nat
  po_usage_id :: nat
  po_parent :: nat
  po_owner :: account_name
  po_name :: name
  po_last_updated :: time_point
  po_auth :: authority

record authorization_db =
  adb_permissions :: "(nat, permission_object) table"
  adb_permissions_next_id :: nat
  adb_usages :: "(nat, time_point) table"
  adb_usages_next_id :: nat
  adb_links :: "((account_name \<times> account_name \<times> name) \<times> name) list"

text \<open>A default-constructed row.\<close>

definition default_authority :: authority where
  "default_authority = \<lparr>auth_threshold = 0, auth_keys = [], auth_accounts = [], auth_waits = []\<rparr>"

definition default_permission :: "nat \<Rightarrow> permission_object" where
  "default_permission i = \<lparr>po_id = i, po_usage_id = 0, po_parent = 0, po_owner = 0, po_name = 0, po_last_updated = 0,
     po_auth = default_authority\<rparr>"

definition empty_authorization_db :: authorization_db where
  "empty_authorization_db = \<lparr>adb_permissions = [], adb_permissions_next_id = 0, adb_usages = [], adb_usages_next_id = 0, adb_links = []\<rparr>"

section \<open>Rows\<close>

definition find_by_owner :: "authorization_db \<Rightarrow> permission_level \<Rightarrow> permission_object option" where
  "find_by_owner db level =
     List.find (\<lambda>p. (po_owner p, po_name p) = level) (map snd (adb_permissions db))"

text \<open>Creating a row; the index by owner and name is unique.\<close>

definition create_permission_row ::
    "(permission_object \<Rightarrow> permission_object) \<Rightarrow> authorization_db \<Rightarrow> (permission_object \<times> authorization_db) result" where
  "create_permission_row constructor db =
     (let p = constructor (default_permission (adb_permissions_next_id db)) in
      if find_by_owner db (po_owner p, po_name p) = None
      then Inr (p, db\<lparr>adb_permissions := tbl_put (adb_permissions_next_id db) p (adb_permissions db),
                      adb_permissions_next_id := adb_permissions_next_id db + 1\<rparr>)
      else Inl db_not_unique)"

definition create_usage_row :: "time_point \<Rightarrow> authorization_db \<Rightarrow> nat \<times> authorization_db" where
  "create_usage_row last_used db =
     (adb_usages_next_id db,
      db\<lparr>adb_usages := tbl_put (adb_usages_next_id db) last_used (adb_usages db),
         adb_usages_next_id := adb_usages_next_id db + 1\<rparr>)"

definition authorization_initialize_database :: "authorization_db \<Rightarrow> authorization_db result" where
  "authorization_initialize_database db = bind_r (create_permission_row (\<lambda>p. p) db) (\<lambda>(_, db). Inr db)"

section \<open>The operations\<close>

text \<open>
  What the manager asks the controller: the time of the pending block, the number of activated key
  types, the limits of the chain configuration, a protocol feature and the deferred transactions in
  the order of their identifiers. \<open>key_which\<close> is the index of the type of a key.
\<close>

record generated_transaction_object =
  gto_trx_id :: digest
  gto_sender :: account_name
  gto_sender_id :: nat
  gto_payer :: account_name
  gto_delay_until :: time_point
  gto_expiration :: time_point
  gto_published :: time_point
  gto_packed_trx :: bytes

record authorization_control =
  ac_pending_block_time :: time_point
  ac_num_supported_key_types :: nat
  ac_max_transaction_delay :: nat
  ac_max_authority_depth :: nat
  ac_fix_linkauth_restriction :: bool
  ac_generated_transactions :: "generated_transaction_object list"
  key_which :: "public_key_type \<Rightarrow> nat"

definition check_key_types :: "authorization_control \<Rightarrow> authority \<Rightarrow> unit result" where
  "check_key_types ctl auth =
     fold_r (\<lambda>k _. eos_assert (key_which ctl (kw_key k) < ac_num_supported_key_types ctl) unactivated_key_type) (auth_keys auth) ()"

definition create_permission ::
    "authorization_control \<Rightarrow> account_name \<Rightarrow> name \<Rightarrow> nat \<Rightarrow> authority \<Rightarrow> time_point \<Rightarrow> authorization_db
       \<Rightarrow> (permission_object \<times> authorization_db) result" where
  "create_permission ctl account nm parent auth initial_creation_time db =
     bind_r (check_key_types ctl auth) (\<lambda>_.
     (let creation_time = (if initial_creation_time = 0 then ac_pending_block_time ctl else initial_creation_time);
          (usage_id, db) = create_usage_row creation_time db
      in create_permission_row (\<lambda>p. p\<lparr>po_usage_id := usage_id, po_parent := parent, po_owner := account, po_name := nm,
                                      po_last_updated := creation_time, po_auth := auth\<rparr>) db))"

definition modify_permission ::
    "authorization_control \<Rightarrow> permission_object \<Rightarrow> authority \<Rightarrow> authorization_db \<Rightarrow> authorization_db result" where
  "modify_permission ctl permission auth db =
     bind_r (check_key_types ctl auth) (\<lambda>_.
       Inr (db\<lparr>adb_permissions := tbl_put (po_id permission)
                 (permission\<lparr>po_auth := auth, po_last_updated := ac_pending_block_time ctl\<rparr>) (adb_permissions db)\<rparr>))"

definition remove_permission :: "permission_object \<Rightarrow> authorization_db \<Rightarrow> authorization_db result" where
  "remove_permission permission db =
     bind_r (eos_assert (\<forall>r\<in>set (adb_permissions db). po_parent (snd r) \<noteq> po_id permission) action_validate_exception) (\<lambda>_.
     bind_r (eos_assert (tbl_find (po_usage_id permission) (adb_usages db) \<noteq> None) db_not_found) (\<lambda>_.
       Inr (db\<lparr>adb_usages := tbl_remove (po_usage_id permission) (adb_usages db),
               adb_permissions := tbl_remove (po_id permission) (adb_permissions db)\<rparr>)))"

definition update_permission_usage ::
    "authorization_control \<Rightarrow> permission_object \<Rightarrow> authorization_db \<Rightarrow> authorization_db result" where
  "update_permission_usage ctl permission db =
     bind_r (tbl_get (po_usage_id permission) (adb_usages db)) (\<lambda>_.
       Inr (db\<lparr>adb_usages := tbl_put (po_usage_id permission) (ac_pending_block_time ctl) (adb_usages db)\<rparr>))"

definition get_permission_last_used :: "permission_object \<Rightarrow> authorization_db \<Rightarrow> time_point result" where
  "get_permission_last_used permission db = tbl_get (po_usage_id permission) (adb_usages db)"

definition find_permission :: "authorization_db \<Rightarrow> permission_level \<Rightarrow> permission_object option result" where
  "find_permission db level =
     bind_r (eos_assert (fst level \<noteq> 0 \<and> snd level \<noteq> 0) invalid_permission) (\<lambda>_. Inr (find_by_owner db level))"

text \<open>A failed lookup is not a chain exception; the handler turns it into \<^verbatim>\<open>permission_query_exception\<close>.\<close>

definition get_permission :: "authorization_db \<Rightarrow> permission_level \<Rightarrow> permission_object result" where
  "get_permission db level =
     bind_r (eos_assert (fst level \<noteq> 0 \<and> snd level \<noteq> 0) invalid_permission) (\<lambda>_.
       of_option permission_query_exception (find_by_owner db level))"

section \<open>Satisfaction between permissions\<close>

text \<open>
  The walk up the parents. The code dereferences the result of the lookup without a check, and has
  no bound on the number of steps; the bound here is the number of rows, which is enough on trees.
\<close>

fun satisfies_loop :: "nat \<Rightarrow> (nat, permission_object) table \<Rightarrow> nat \<Rightarrow> nat \<Rightarrow> bool result" where
  "satisfies_loop 0 permissions i parent = Inl fuel_exhausted"
| "satisfies_loop (Suc n) permissions i parent =
     (case tbl_find parent permissions of
        None \<Rightarrow> Inl undefined_behaviour
      | Some p \<Rightarrow> if i = po_parent p then Inr True
                  else if po_parent p = 0 then Inr False
                  else satisfies_loop n permissions i (po_parent p))"

definition satisfies :: "permission_object \<Rightarrow> permission_object \<Rightarrow> (nat, permission_object) table \<Rightarrow> bool result" where
  "satisfies this other permissions =
     (if po_owner this \<noteq> po_owner other then Inr False
      else if po_id this = po_id other \<or> po_id this = po_parent other then Inr True
      else satisfies_loop (length permissions) permissions (po_id this) (po_parent other))"

section \<open>Links\<close>

definition system_account_name :: account_name where
  "system_account_name = string_to_name ''eosio''"

definition active_name :: name where
  "active_name = string_to_name ''active''"

definition eosio_any_name :: name where
  "eosio_any_name = string_to_name ''eosio.any''"

definition unlinkable_action :: "name \<Rightarrow> bool" where
  "unlinkable_action action_nm \<longleftrightarrow>
     action_nm = string_to_name ''updateauth'' \<or> action_nm = string_to_name ''deleteauth'' \<or>
     action_nm = string_to_name ''linkauth'' \<or> action_nm = string_to_name ''unlinkauth'' \<or>
     action_nm = string_to_name ''canceldelay''"

definition lookup_linked_permission :: "authorization_db \<Rightarrow> account_name \<Rightarrow> account_name \<Rightarrow> name \<Rightarrow> name option" where
  "lookup_linked_permission db authorizer_account scope action_nm =
     (case tbl_find (authorizer_account, scope, action_nm) (adb_links db) of
        Some required \<Rightarrow> Some required
      | None \<Rightarrow> tbl_find (authorizer_account, scope, 0) (adb_links db))"

definition lookup_minimum_permission ::
    "authorization_db \<Rightarrow> account_name \<Rightarrow> account_name \<Rightarrow> name \<Rightarrow> name option result" where
  "lookup_minimum_permission db authorizer_account scope action_nm =
     bind_r (if scope = system_account_name
             then eos_assert (\<not> unlinkable_action action_nm) unlinkable_min_permission_action else Inr ()) (\<lambda>_.
       (case lookup_linked_permission db authorizer_account scope action_nm of
          None \<Rightarrow> Inr (Some active_name)
        | Some linked \<Rightarrow> if linked = eosio_any_name then Inr None else Inr (Some linked)))"

section \<open>Snapshots\<close>

record snapshot_permission_object =
  spo_parent :: name
  spo_owner :: account_name
  spo_name :: name
  spo_last_updated :: time_point
  spo_last_used :: time_point
  spo_auth :: authority

definition to_snapshot_row :: "authorization_db \<Rightarrow> permission_object \<Rightarrow> snapshot_permission_object result" where
  "to_snapshot_row db value =
     bind_r (tbl_get (po_parent value) (adb_permissions db)) (\<lambda>parent.
     bind_r (tbl_get (po_usage_id value) (adb_usages db)) (\<lambda>last_used.
       Inr \<lparr>spo_parent = po_name parent, spo_owner = po_owner value, spo_name = po_name value,
            spo_last_updated = po_last_updated value, spo_last_used = last_used, spo_auth = po_auth value\<rparr>))"

text \<open>The constructor that reads a row into the object being created.\<close>

definition from_snapshot_row ::
    "snapshot_permission_object \<Rightarrow> permission_object \<Rightarrow> authorization_db \<Rightarrow> (permission_object \<times> authorization_db) result" where
  "from_snapshot_row row value db =
     (let value = value\<lparr>po_name := spo_name row, po_owner := spo_owner row, po_last_updated := spo_last_updated row,
                        po_auth := spo_auth row, po_parent := 0\<rparr>
      in
     bind_r (if po_id value = 0 then
               bind_r (eos_assert (spo_parent row = 0) snapshot_exception) (\<lambda>_.
               bind_r (eos_assert (spo_name row = 0) snapshot_exception) (\<lambda>_.
               bind_r (eos_assert (spo_owner row = 0) snapshot_exception) (\<lambda>_.
               bind_r (eos_assert (length (auth_accounts (spo_auth row)) = 0) snapshot_exception) (\<lambda>_.
               bind_r (eos_assert (length (auth_keys (spo_auth row)) = 0) snapshot_exception) (\<lambda>_.
               bind_r (eos_assert (length (auth_waits (spo_auth row)) = 0) snapshot_exception) (\<lambda>_.
               bind_r (eos_assert (auth_threshold (spo_auth row) = 0) snapshot_exception) (\<lambda>_.
               bind_r (eos_assert (spo_last_updated row = 0) snapshot_exception) (\<lambda>_.
                 Inr value))))))))
             else if spo_parent row \<noteq> 0 then
               bind_r (of_option db_not_found (find_by_owner db (spo_owner row, spo_parent row))) (\<lambda>parent.
               bind_r (eos_assert (po_id parent \<noteq> 0) snapshot_exception) (\<lambda>_.
                 Inr (value\<lparr>po_parent := po_id parent\<rparr>)))
             else Inr value) (\<lambda>value.
       Inr (if po_id value \<noteq> 0
            then (case create_usage_row (spo_last_used row) db of (u, db) \<Rightarrow> (value\<lparr>po_usage_id := u\<rparr>, db))
            else (value\<lparr>po_usage_id := 0\<rparr>, db))))"

fun read_permission_rows :: "snapshot_permission_object list \<Rightarrow> authorization_db \<Rightarrow> authorization_db result" where
  "read_permission_rows [] db = Inr db"
| "read_permission_rows (row # rows) db =
     bind_r (from_snapshot_row row (default_permission (adb_permissions_next_id db)) db) (\<lambda>(value, db).
     bind_r (create_permission_row (\<lambda>_. value) db) (\<lambda>(_, db).
       read_permission_rows rows db))"

fun map_r :: "('a \<Rightarrow> 'b result) \<Rightarrow> 'a list \<Rightarrow> 'b list result" where
  "map_r f [] = Inr []"
| "map_r f (x # xs) = bind_r (f x) (\<lambda>y. bind_r (map_r f xs) (\<lambda>ys. Inr (y # ys)))"

text \<open>The sections of permissions and of links; the usage rows are inlined in the former.\<close>

definition authorization_add_to_snapshot ::
    "authorization_db \<Rightarrow> (snapshot_permission_object list \<times> ((account_name \<times> account_name \<times> name) \<times> name) list) result" where
  "authorization_add_to_snapshot db =
     bind_r (map_r (to_snapshot_row db) (map snd (adb_permissions db))) (\<lambda>rows. Inr (rows, adb_links db))"

text \<open>A new link gets the largest identifier; the key of account, contract and action is unique.\<close>

definition create_link ::
    "(account_name \<times> account_name \<times> name) \<Rightarrow> name \<Rightarrow> authorization_db \<Rightarrow> authorization_db result" where
  "create_link k required db =
     (if tbl_find k (adb_links db) = None then Inr (db\<lparr>adb_links := adb_links db @ [(k, required)]\<rparr>) else Inl db_not_unique)"

definition authorization_read_from_snapshot ::
    "snapshot_permission_object list \<times> ((account_name \<times> account_name \<times> name) \<times> name) list \<Rightarrow> authorization_db
       \<Rightarrow> authorization_db result" where
  "authorization_read_from_snapshot snapshot db =
     bind_r (read_permission_rows (fst snapshot) db) (\<lambda>db.
       fold_r (\<lambda>(k, required). create_link k required) (snd snapshot) db)"

section \<open>The trees of permissions\<close>

text \<open>
  Every permission but the reserved one has a name, an owner and a parent that was created earlier
  and is the reserved permission or belongs to the same account. Permissions and their usage
  rows are created together, so their identifiers stay one apart.
\<close>

definition permission_ok :: "authorization_db \<Rightarrow> nat \<Rightarrow> permission_object \<Rightarrow> bool" where
  "permission_ok db i p \<longleftrightarrow>
     po_id p = i \<and> po_owner p \<noteq> 0 \<and> po_name p \<noteq> 0 \<and> po_parent p < i \<and> Suc (po_usage_id p) = i \<and>
     po_usage_id p \<in> tbl_keys (adb_usages db) \<and>
     (\<exists>q. tbl_find (po_parent p) (adb_permissions db) = Some q \<and> (po_parent p \<noteq> 0 \<longrightarrow> po_owner q = po_owner p))"

definition permissions_inv :: "authorization_db \<Rightarrow> bool" where
  "permissions_inv db \<longleftrightarrow>
     tbl_wf (adb_permissions db) \<and> tbl_wf (adb_usages db) \<and>
     (\<forall>i\<in>tbl_keys (adb_permissions db). i < adb_permissions_next_id db) \<and>
     (\<forall>i\<in>tbl_keys (adb_usages db). i < adb_usages_next_id db) \<and>
     Suc (adb_usages_next_id db) = adb_permissions_next_id db \<and>
     distinct (map fst (adb_links db)) \<and>
     tbl_find 0 (adb_permissions db) = Some (default_permission 0) \<and>
     (\<forall>i p. tbl_find i (adb_permissions db) = Some p \<longrightarrow> i \<noteq> 0 \<longrightarrow> permission_ok db i p) \<and>
     (\<forall>i j p q. tbl_find i (adb_permissions db) = Some p \<longrightarrow> tbl_find j (adb_permissions db) = Some q \<longrightarrow>
        po_owner p = po_owner q \<longrightarrow> po_name p = po_name q \<longrightarrow> i = j)"

lemma permissions_invD:
  assumes "permissions_inv db"
  shows "tbl_wf (adb_permissions db)" "tbl_wf (adb_usages db)" "Suc (adb_usages_next_id db) = adb_permissions_next_id db"
    "i \<in> tbl_keys (adb_permissions db) \<Longrightarrow> i < adb_permissions_next_id db"
    "j \<in> tbl_keys (adb_usages db) \<Longrightarrow> j < adb_usages_next_id db"
    "tbl_find i (adb_permissions db) = Some p \<Longrightarrow> i \<noteq> 0 \<Longrightarrow> permission_ok db i p"
    "tbl_find i (adb_permissions db) = Some p \<Longrightarrow> tbl_find j (adb_permissions db) = Some q \<Longrightarrow>
       po_owner p = po_owner q \<Longrightarrow> po_name p = po_name q \<Longrightarrow> i = j"
    "tbl_find 0 (adb_permissions db) = Some (default_permission 0)" "distinct (map fst (adb_links db))"
  using assms unfolding permissions_inv_def by blast+

lemma reserved_row:
  assumes "permissions_inv db" "tbl_find 0 (adb_permissions db) = Some p"
  shows "po_id p = 0 \<and> po_owner p = 0 \<and> po_name p = 0 \<and> po_parent p = 0 \<and> po_usage_id p = 0"
  using assms(2) permissions_invD(8) [OF assms(1)] by (auto simp: default_permission_def)

lemma row_id: "permissions_inv db \<Longrightarrow> tbl_find i (adb_permissions db) = Some p \<Longrightarrow> po_id p = i"
  using permissions_invD(6) [of db i p] reserved_row [of db p] by (cases "i = 0") (auto simp: permission_ok_def)

lemma find_member: "List.find P xs = Some x \<Longrightarrow> x \<in> set xs \<and> P x"
  by (induction xs) (auto split: if_splits)

lemma find_by_owner_row:
  assumes "permissions_inv db" "find_by_owner db level = Some p"
  shows "\<exists>i. tbl_find i (adb_permissions db) = Some p \<and> (po_owner p, po_name p) = level"
proof -
  have "p \<in> set (map snd (adb_permissions db))" "(po_owner p, po_name p) = level"
    using find_member [OF assms(2) [unfolded find_by_owner_def]] by blast+
  then obtain i where "(i, p) \<in> set (adb_permissions db)"
    by auto
  with \<open>_ = level\<close> show ?thesis
    using tbl_wf_find [OF permissions_invD(1) [OF assms(1)]] by blast
qed

lemma find_by_owner_Some:
  assumes "permissions_inv db"
  shows "find_by_owner db level = Some p \<longleftrightarrow>
           (\<exists>i. tbl_find i (adb_permissions db) = Some p \<and> (po_owner p, po_name p) = level)"
proof
  assume "\<exists>i. tbl_find i (adb_permissions db) = Some p \<and> (po_owner p, po_name p) = level"
  then obtain i where i: "tbl_find i (adb_permissions db) = Some p" "(po_owner p, po_name p) = level"
    by blast
  show "find_by_owner db level = Some p"
  proof (cases "find_by_owner db level")
    case None
    then show ?thesis
      using tbl_find_in [OF i(1)] i(2) unfolding find_by_owner_def by (force simp: find_None_iff)
  next
    case (Some q)
    then obtain j where j: "tbl_find j (adb_permissions db) = Some q" "(po_owner q, po_name q) = level"
      using find_by_owner_row [OF assms] by blast
    then have "j = i"
      using permissions_invD(7) [OF assms j(1) i(1)] i(2) j(2) by (metis prod.inject)
    with j i(1) Some show ?thesis
      by simp
  qed
qed (rule find_by_owner_row [OF assms])

inductive ancestor :: "(nat, permission_object) table \<Rightarrow> nat \<Rightarrow> nat \<Rightarrow> bool" for t where
  parent: "tbl_find i t = Some p \<Longrightarrow> i \<noteq> 0 \<Longrightarrow> ancestor t (po_parent p) i"
| above: "tbl_find i t = Some p \<Longrightarrow> i \<noteq> 0 \<Longrightarrow> ancestor t a (po_parent p) \<Longrightarrow> ancestor t a i"

inductive_cases ancestor_cases: "ancestor t a i"

lemma ancestor_row:
  assumes "tbl_find i t = Some p"
  shows "ancestor t a i \<longleftrightarrow> i \<noteq> 0 \<and> (a = po_parent p \<or> ancestor t a (po_parent p))"
  using assms by (auto elim: ancestor_cases intro: ancestor.intros)

lemma ancestor_owner:
  assumes inv: "permissions_inv db" and anc: "ancestor (adb_permissions db) a i"
  shows "tbl_find a (adb_permissions db) = Some pa \<Longrightarrow> a \<noteq> 0 \<Longrightarrow> tbl_find i (adb_permissions db) = Some p \<Longrightarrow> po_owner pa = po_owner p"
  using anc
proof (induction arbitrary: p rule: ancestor.induct)
  case (parent i q)
  then show ?case
    using permissions_invD(6) [OF inv, of i q] by (auto simp: permission_ok_def)
next
  case (above i q a)
  then obtain r where r: "tbl_find (po_parent q) (adb_permissions db) = Some r" "po_parent q \<noteq> 0 \<longrightarrow> po_owner r = po_owner q"
    using permissions_invD(6) [OF inv, of i q] by (auto simp: permission_ok_def)
  moreover have "po_parent q \<noteq> 0"
    using above.hyps(3) by (cases "po_parent q = 0") (auto elim: ancestor_cases)
  ultimately show ?case
    using above by auto
qed

lemma satisfies_loop_correct:
  assumes inv: "permissions_inv db"
  shows "i \<noteq> 0 \<Longrightarrow> j \<in> tbl_keys (adb_permissions db) \<Longrightarrow> card {k \<in> tbl_keys (adb_permissions db). k \<le> j} \<le> n \<Longrightarrow>
    satisfies_loop n (adb_permissions db) i j = Inr (ancestor (adb_permissions db) i j)"
proof (induction n arbitrary: j)
  case 0
  then have "{k \<in> tbl_keys (adb_permissions db). k \<le> j} = {}"
    using card_eq_0_iff by (auto simp: tbl_keys_def)
  then show ?case
    using 0(2) by auto
next
  case (Suc n)
  obtain p where p: "tbl_find j (adb_permissions db) = Some p"
    using Suc.prems(2) tbl_find_keys [of j "adb_permissions db"] by auto
  note row = ancestor_row [OF p, of i]
  show ?case
  proof (cases "j = 0")
    case True
    then have "po_parent p = 0"
      using p reserved_row [OF inv, of p] by simp
    then show ?thesis
      using p row True Suc.prems(1) by simp
  next
    case False
    then have ok: "po_parent p < j" "po_parent p \<in> tbl_keys (adb_permissions db)"
      using permissions_invD(6) [OF inv p] by (auto simp: permission_ok_def intro: tbl_find_Some_keys)
    have fin: "finite {k \<in> tbl_keys (adb_permissions db). k \<le> j}"
      by (simp add: tbl_keys_def)
    have "card {k \<in> tbl_keys (adb_permissions db). k \<le> po_parent p} \<le> card ({k \<in> tbl_keys (adb_permissions db). k \<le> j} - {j})"
      using fin ok(1) by (intro card_mono) auto
    then have "card {k \<in> tbl_keys (adb_permissions db). k \<le> po_parent p} \<le> n"
      using Suc.prems(2,3) by simp
    then have rec: "satisfies_loop n (adb_permissions db) i (po_parent p) = Inr (ancestor (adb_permissions db) i (po_parent p))"
      using Suc.IH Suc.prems(1) ok(2) by blast
    have "\<not> ancestor (adb_permissions db) i 0"
      using ancestor_row [OF permissions_invD(8) [OF inv]] by blast
    then show ?thesis
      using p row rec False by auto
  qed
qed

lemma satisfies_correct:
  assumes inv: "permissions_inv db" and p: "tbl_find i (adb_permissions db) = Some p" "i \<noteq> 0"
    and q: "tbl_find j (adb_permissions db) = Some q"
  shows "satisfies p q (adb_permissions db) = Inr (i = j \<or> ancestor (adb_permissions db) i j)"
proof -
  have ids: "po_id p = i" "po_id q = j"
    using row_id [OF inv] p(1) q by auto
  have owner: "ancestor (adb_permissions db) i j \<Longrightarrow> po_owner p = po_owner q"
    using ancestor_owner [OF inv _ p q] .
  have par: "po_parent q \<in> tbl_keys (adb_permissions db)"
  proof (cases "j = 0")
    case True
    then show ?thesis
      using q reserved_row [OF inv, of q] tbl_find_Some_keys [of 0] by auto
  next
    case False
    then show ?thesis
      using permissions_invD(6) [OF inv q] by (auto simp: permission_ok_def intro: tbl_find_Some_keys)
  qed
  have "card {k \<in> tbl_keys (adb_permissions db). k \<le> po_parent q} \<le> card (tbl_keys (adb_permissions db))"
    by (rule card_mono) (auto simp: tbl_keys_def)
  also have "\<dots> \<le> length (adb_permissions db)"
    unfolding tbl_keys_def by (metis card_length length_map set_map)
  finally have loop: "satisfies_loop (length (adb_permissions db)) (adb_permissions db) i (po_parent q) =
      Inr (ancestor (adb_permissions db) i (po_parent q))"
    using satisfies_loop_correct [OF inv p(2) par] by blast
  show ?thesis
  proof (cases "j = 0")
    case True
    then have "po_parent q = 0" "po_owner q = 0"
      using q reserved_row [OF inv, of q] by simp_all
    moreover have "po_owner p \<noteq> 0"
      using permissions_invD(6) [OF inv p] by (simp add: permission_ok_def)
    ultimately show ?thesis
      using True p(2) ancestor_row [OF q] by (simp add: satisfies_def)
  next
    case False
    then have eq: "ancestor (adb_permissions db) i j \<longleftrightarrow> i = po_parent q \<or> ancestor (adb_permissions db) i (po_parent q)"
      using ancestor_row [OF q] by simp
    show ?thesis
    proof (cases "po_owner p = po_owner q")
      case True
      then show ?thesis
        by (simp add: satisfies_def ids loop eq)
    next
      case False
      moreover have "i \<noteq> j"
        using False p(1) q by auto
      ultimately show ?thesis
        using owner by (auto simp: satisfies_def)
    qed
  qed
qed

section \<open>Sequences of operations\<close>

text \<open>
  The callers pass rows of the table, and as parent of a new permission the reserved permission
  or one of the same account.
\<close>

inductive authorization_step :: "authorization_db \<Rightarrow> authorization_db \<Rightarrow> bool" where
  create: "create_permission ctl account nm parent auth t db = Inr (p, db') \<Longrightarrow> account \<noteq> 0 \<Longrightarrow> nm \<noteq> 0 \<Longrightarrow>
    tbl_find parent (adb_permissions db) = Some q \<Longrightarrow> parent = 0 \<or> po_owner q = account \<Longrightarrow> authorization_step db db'"
| modify: "tbl_find i (adb_permissions db) = Some p \<Longrightarrow> i \<noteq> 0 \<Longrightarrow> modify_permission ctl p auth db = Inr db' \<Longrightarrow> authorization_step db db'"
| remove: "tbl_find i (adb_permissions db) = Some p \<Longrightarrow> i \<noteq> 0 \<Longrightarrow> remove_permission p db = Inr db' \<Longrightarrow> authorization_step db db'"
| usage: "tbl_find i (adb_permissions db) = Some p \<Longrightarrow> update_permission_usage ctl p db = Inr db' \<Longrightarrow> authorization_step db db'"
| links: "distinct (map fst links) \<Longrightarrow> authorization_step db (db\<lparr>adb_links := links\<rparr>)"

inductive authorization_reachable :: "authorization_db \<Rightarrow> bool" where
  start: "authorization_initialize_database empty_authorization_db = Inr db \<Longrightarrow> authorization_reachable db"
| step: "authorization_reachable db \<Longrightarrow> authorization_step db db' \<Longrightarrow> authorization_reachable db'"

lemma initialize_inv:
  "authorization_initialize_database empty_authorization_db = Inr db \<Longrightarrow> permissions_inv db"
  by (auto simp: authorization_initialize_database_def create_permission_row_def empty_authorization_db_def find_by_owner_def
      permissions_inv_def default_permission_def Let_def tbl_find_Cons split: if_splits)

lemma create_permission_Inr:
  assumes "create_permission ctl account nm parent auth t db = Inr (p, db')"
  shows "find_by_owner db (account, nm) = None \<and> po_id p = adb_permissions_next_id db \<and> po_usage_id p = adb_usages_next_id db \<and>
    po_parent p = parent \<and> po_owner p = account \<and> po_name p = nm \<and> po_auth p = auth \<and>
    (\<exists>u. db' = db\<lparr>adb_usages := tbl_put (adb_usages_next_id db) u (adb_usages db), adb_usages_next_id := adb_usages_next_id db + 1,
              adb_permissions := tbl_put (adb_permissions_next_id db) p (adb_permissions db),
              adb_permissions_next_id := adb_permissions_next_id db + 1\<rparr>)"
  using assms
  by (auto simp: create_permission_def bind_r_Inr_iff create_usage_row_def create_permission_row_def find_by_owner_def
      default_permission_def Let_def split: if_splits)

lemma find_by_owner_None:
  assumes "permissions_inv db" "find_by_owner db (o', nm) = None" "tbl_find i (adb_permissions db) = Some p"
  shows "\<not> (po_owner p = o' \<and> po_name p = nm)"
  using assms find_by_owner_Some [OF assms(1), of "(o', nm)" p] by auto

lemma create_permission_inv:
  assumes inv: "permissions_inv db" and create: "create_permission ctl account nm parent auth t db = Inr (p, db')"
    and args: "account \<noteq> 0" "nm \<noteq> 0" "tbl_find parent (adb_permissions db) = Some q" "parent = 0 \<or> po_owner q = account"
  shows "permissions_inv db'"
proof -
  from create_permission_Inr [OF create]
  have c: "find_by_owner db (account, nm) = None" "po_id p = adb_permissions_next_id db" "po_usage_id p = adb_usages_next_id db"
      "po_parent p = parent" "po_owner p = account" "po_name p = nm"
    by blast+
  from create_permission_Inr [OF create] obtain u where db': "db' = db\<lparr>adb_usages := tbl_put (adb_usages_next_id db) u (adb_usages db), adb_usages_next_id := adb_usages_next_id db + 1,
              adb_permissions := tbl_put (adb_permissions_next_id db) p (adb_permissions db),
              adb_permissions_next_id := adb_permissions_next_id db + 1\<rparr>"
    by blast
  note d = permissions_invD [OF inv]
  have lt: "parent < adb_permissions_next_id db"
    using d(4) tbl_find_Some_keys [OF args(3)] by blast
  have pos: "0 < adb_permissions_next_id db"
    using d(3) by simp
  have new: "permission_ok db' (adb_permissions_next_id db) p"
    using c args lt d(3) by (auto simp: permission_ok_def db')
  have old: "permission_ok db' i r" if "tbl_find i (adb_permissions db) = Some r" "i \<noteq> 0" for i r
    using d(6) [OF that] d(4) [OF tbl_find_Some_keys [OF that(1)]] unfolding permission_ok_def db' by auto
  show ?thesis
    unfolding permissions_inv_def
  proof (intro conjI allI impI ballI)
    show "tbl_find 0 (adb_permissions db') = Some (default_permission 0)"
      using d(8) pos by (simp add: db')
    show "permission_ok db' i r" if "tbl_find i (adb_permissions db') = Some r" "i \<noteq> 0" for i r
      using that new old [of i r] by (auto simp: db' split: if_splits)
    show "i = j" if "tbl_find i (adb_permissions db') = Some r" "tbl_find j (adb_permissions db') = Some s"
        "po_owner r = po_owner s" "po_name r = po_name s" for i j r s
      using that d(7) [of i r j s] find_by_owner_None [OF inv, of account nm] c by (auto simp: db' split: if_splits)
  qed (use d(1,2,4,5,9) d(3) [symmetric] in \<open>auto simp: db' intro: less_SucI\<close>)
qed

lemma modify_permission_inv:
  assumes inv: "permissions_inv db" and p: "tbl_find i (adb_permissions db) = Some p"
    and "i \<noteq> 0" "modify_permission ctl p auth db = Inr db'"
  shows "permissions_inv db'"
proof -
  have i: "po_id p = i" "i \<in> tbl_keys (adb_permissions db)"
    using row_id [OF inv p] tbl_find_Some_keys [OF p] by auto
  define p' where "p' = p\<lparr>po_auth := auth, po_last_updated := ac_pending_block_time ctl\<rparr>"
  have db': "db' = db\<lparr>adb_permissions := tbl_put i p' (adb_permissions db)\<rparr>"
    using assms(4) i by (auto simp: modify_permission_def bind_r_Inr_iff p'_def)
  have p': "po_id p' = po_id p" "po_owner p' = po_owner p" "po_name p' = po_name p" "po_parent p' = po_parent p" "po_usage_id p' = po_usage_id p"
    by (simp_all add: p'_def)
  note d = permissions_invD [OF inv]
  have owner: "\<exists>r'. tbl_find j (adb_permissions db') = Some r' \<and> po_owner r' = po_owner r \<and> po_name r' = po_name r"
    if "tbl_find j (adb_permissions db) = Some r" for j r
    using that p p' by (auto simp: db')
  have same: "\<exists>r. tbl_find j (adb_permissions db) = Some r \<and> po_id r' = po_id r \<and> po_owner r' = po_owner r \<and> po_name r' = po_name r \<and>
      po_parent r' = po_parent r \<and> po_usage_id r' = po_usage_id r" if "tbl_find j (adb_permissions db') = Some r'" for j r'
    using that p p' by (auto simp: db' split: if_splits)
  show ?thesis
    unfolding permissions_inv_def
  proof (intro conjI allI impI ballI)
    show "tbl_find 0 (adb_permissions db') = Some (default_permission 0)"
      using d(8) assms(3) by (simp add: db')
    show "permission_ok db' j r" if row: "tbl_find j (adb_permissions db') = Some r" "j \<noteq> 0" for j r
    proof -
      obtain r0 where r0: "tbl_find j (adb_permissions db) = Some r0" "po_id r = po_id r0" "po_owner r = po_owner r0" "po_name r = po_name r0"
          "po_parent r = po_parent r0" "po_usage_id r = po_usage_id r0"
        using same [OF row(1)] by blast
      then show ?thesis
        using d(6) [OF r0(1) row(2)] owner [of "po_parent r0"] unfolding permission_ok_def by (auto simp: db')
    qed
    show "j = k" if "tbl_find j (adb_permissions db') = Some r" "tbl_find k (adb_permissions db') = Some s"
        "po_owner r = po_owner s" "po_name r = po_name s" for j k r s
      using same [OF that(1)] same [OF that(2)] that(3,4) d(7) by metis
  qed (use d(1-5,9) i in \<open>auto simp: db'\<close>)
qed

lemma remove_permission_inv:
  assumes inv: "permissions_inv db" and p: "tbl_find i (adb_permissions db) = Some p" "i \<noteq> 0" and "remove_permission p db = Inr db'"
  shows "permissions_inv db'"
proof -
  have i: "po_id p = i"
    using row_id [OF inv p(1)] .
  have db': "db' = db\<lparr>adb_usages := tbl_remove (po_usage_id p) (adb_usages db), adb_permissions := tbl_remove i (adb_permissions db)\<rparr>"
    and kids: "\<forall>r\<in>set (adb_permissions db). po_parent (snd r) \<noteq> i"
    using assms(4) i by (auto simp: remove_permission_def bind_r_Inr_iff)
  note d = permissions_invD [OF inv]
  have usage: "Suc (po_usage_id p) = i"
    using d(6) [OF p] by (simp add: permission_ok_def)
  show ?thesis
    unfolding permissions_inv_def
  proof (intro conjI allI impI ballI)
    show "permission_ok db' j r" if "tbl_find j (adb_permissions db') = Some r" "j \<noteq> 0" for j r
    proof -
      have r: "tbl_find j (adb_permissions db) = Some r" "j \<noteq> i"
        using that by (auto simp: db' split: if_splits)
      moreover have "po_parent r \<noteq> i"
        using kids tbl_find_in [OF r(1)] by auto
      ultimately show ?thesis
        using d(6) [OF r(1) that(2)] usage unfolding permission_ok_def by (auto simp: db')
    qed
    show "j = k" if "tbl_find j (adb_permissions db') = Some r" "tbl_find k (adb_permissions db') = Some s"
        "po_owner r = po_owner s" "po_name r = po_name s" for j k r s
      using that d(7) [of j r k s] by (auto simp: db' split: if_splits)
  qed (use d p in \<open>auto simp: db'\<close>)
qed

lemma frame_inv:
  assumes "permissions_inv db" "adb_permissions db' = adb_permissions db" "adb_permissions_next_id db' = adb_permissions_next_id db"
    "adb_usages_next_id db' = adb_usages_next_id db" "tbl_keys (adb_usages db') = tbl_keys (adb_usages db)" "tbl_wf (adb_usages db')" "distinct (map fst (adb_links db'))"
  shows "permissions_inv db'"
  using assms unfolding permissions_inv_def permission_ok_def by simp

lemma authorization_step_inv: "authorization_step db db' \<Longrightarrow> permissions_inv db \<Longrightarrow> permissions_inv db'"
proof (induction rule: authorization_step.induct)
  case (usage i db p ctl db')
  have "tbl_wf (adb_usages db)" "distinct (map fst (adb_links db))"
    using permissions_invD(2,9) [OF usage(3)] .
  with usage(2) show ?case
    by (intro frame_inv [OF usage(3)])
      (auto simp: update_permission_usage_def bind_r_Inr_iff insert_absorb dest: tbl_find_Some_keys)
next
  case (links links db)
  then show ?case
    by (intro frame_inv [OF links(2)]) (auto intro: permissions_invD)
qed (auto intro: create_permission_inv modify_permission_inv remove_permission_inv)

lemma authorization_reachable_inv: "authorization_reachable db \<Longrightarrow> permissions_inv db"
  by (induction rule: authorization_reachable.induct) (auto intro: initialize_inv authorization_step_inv)

text \<open>
  C23. Whatever permissions were created, changed and removed, the walk up the parents ends, never
  reads a missing row, and \<^verbatim>\<open>satisfies\<close> answers exactly whether one permission is the other or
  stands above it in the tree of the account; so a permission of another account is never satisfied.
\<close>

theorem satisfies_is_ancestor:
  assumes "authorization_reachable db" "tbl_find i (adb_permissions db) = Some p" "i \<noteq> 0"
    "tbl_find j (adb_permissions db) = Some q"
  shows "satisfies p q (adb_permissions db) = Inr (i = j \<or> ancestor (adb_permissions db) i j) \<and>
    (satisfies p q (adb_permissions db) = Inr True \<longrightarrow> po_owner p = po_owner q)"
proof -
  have inv: "permissions_inv db"
    using authorization_reachable_inv assms(1) .
  from satisfies_correct [OF inv assms(2-4)] show ?thesis
    by (auto simp: satisfies_def split: if_splits)
qed

section \<open>Sample\<close>

text \<open>An account 5 with the permissions 1 and, below it, 2; the latter may also act for account 6.\<close>

definition sample_control :: authorization_control where
  "sample_control =
     \<lparr>ac_pending_block_time = 100, ac_num_supported_key_types = 2, ac_max_transaction_delay = 3888000, ac_max_authority_depth = 6,
      ac_fix_linkauth_restriction = False, ac_generated_transactions = [], key_which = (\<lambda>_. 0)\<rparr>"

definition sample_permission :: "nat \<Rightarrow> nat \<Rightarrow> name \<Rightarrow> public_key_type \<Rightarrow> permission_object" where
  "sample_permission i parent nm k = \<lparr>po_id = i, po_usage_id = i - 1, po_parent = parent, po_owner = 5, po_name = nm, po_last_updated = 100,
     po_auth = authority_of_key k 0\<rparr>"

definition sample_authorization_db :: authorization_db where
  "sample_authorization_db =
     \<lparr>adb_permissions = [(0, default_permission 0), (1, sample_permission 1 0 1 7), (2, sample_permission 2 1 2 8)],
      adb_permissions_next_id = 3, adb_usages = [(0, 100), (1, 100)], adb_usages_next_id = 2, adb_links = []\<rparr>"

lemma sample_authorization_reachable: "authorization_reachable sample_authorization_db"
proof -
  let ?a = "\<lparr>adb_permissions = [(0, default_permission 0)], adb_permissions_next_id = 1, adb_usages = [], adb_usages_next_id = 0, adb_links = []\<rparr>"
  let ?b = "\<lparr>adb_permissions = [(0, default_permission 0), (1, sample_permission 1 0 1 7)], adb_permissions_next_id = 2,
    adb_usages = [(0, 100)], adb_usages_next_id = 1, adb_links = []\<rparr>"
  note defs = find_by_owner_def create_permission_row_def create_usage_row_def default_permission_def Let_def sample_permission_def
    create_permission_def check_key_types_def sample_control_def authority_of_key_def
  have "authorization_reachable ?a"
    by (rule start) (simp add: authorization_initialize_database_def empty_authorization_db_def defs)
  moreover have "create_permission sample_control 5 1 0 (authority_of_key 7 0) 0 ?a = Inr (sample_permission 1 0 1 7, ?b)"
    by (simp add: defs)
  then have "authorization_step ?a ?b"
    by (rule create) (simp_all add: tbl_find_Cons)
  ultimately have "authorization_reachable ?b"
    by (rule step)
  moreover have "create_permission sample_control 5 2 1 (authority_of_key 8 0) 0 ?b = Inr (sample_permission 2 1 2 8, sample_authorization_db)"
    by (simp add: defs sample_authorization_db_def)
  then have "authorization_step ?b sample_authorization_db"
    by (rule create [where q = "sample_permission 1 0 1 7"]) (simp_all add: tbl_find_Cons sample_permission_def)
  ultimately show ?thesis
    by (rule step)
qed

theorem satisfies_is_ancestor_witness:
  "satisfies (sample_permission 1 0 1 7) (sample_permission 2 1 2 8) (adb_permissions sample_authorization_db) = Inr True \<and>
   satisfies (sample_permission 2 1 2 8) (sample_permission 1 0 1 7) (adb_permissions sample_authorization_db) = Inr False"
proof -
  have rows: "tbl_find 1 (adb_permissions sample_authorization_db) = Some (sample_permission 1 0 1 7)"
    "tbl_find 2 (adb_permissions sample_authorization_db) = Some (sample_permission 2 1 2 8)"
    "tbl_find 0 (adb_permissions sample_authorization_db) = Some (default_permission 0)"
    by (simp_all add: sample_authorization_db_def tbl_find_Cons)
  have anc: "ancestor (adb_permissions sample_authorization_db) 1 2" "\<not> ancestor (adb_permissions sample_authorization_db) 2 1"
    using ancestor_row [OF rows(2), of 1] ancestor_row [OF rows(1), of 2] ancestor_row [OF rows(3), of 2]
    by (simp_all add: sample_permission_def)
  show ?thesis
    using satisfies_is_ancestor [OF sample_authorization_reachable rows(1) _ rows(2)]
      satisfies_is_ancestor [OF sample_authorization_reachable rows(2) _ rows(1)] anc by simp
qed

end
