(* ===== verification/Authorization_Snapshot.thy ===== *)
theory Authorization_Snapshot
  imports Authorization
begin

text \<open>
  Writing the permissions to a snapshot and reading them into an empty database. The rows written
  refer to parents by name; reading creates the rows in the same order under new identifiers,
  which leave no gaps, and finds the parents again by owner and name.
\<close>

section \<open>Positions in the table\<close>

lemma filter_less_nth:
  fixes ks :: "nat list"
  assumes "sorted_wrt (<) ks" "j < length ks"
  shows "length (filter (\<lambda>x. x < ks ! j) ks) = j"
proof -
  have "filter (\<lambda>x. x < ks ! j) (take j ks) = take j ks"
    using assms by (auto simp: filter_id_conv in_set_conv_nth sorted_wrt_iff_nth_less)
  moreover have "filter (\<lambda>x. x < ks ! j) (drop j ks) = []"
    using assms by (auto simp: filter_empty_conv in_set_conv_nth sorted_wrt_iff_nth_less)
      (metis add.right_neutral add_less_cancel_left less_asym less_irrefl neq0_conv nat_add_left_cancel_less less_diff_conv add.commute)
  ultimately have "filter (\<lambda>x. x < ks ! j) ks = take j ks"
    by (metis append.right_neutral append_take_drop_id filter_append)
  then show ?thesis
    using assms(2) by simp
qed

definition row_position :: "authorization_db \<Rightarrow> nat \<Rightarrow> nat" where
  "row_position db i = length (filter (\<lambda>x. x < i) (map fst (adb_permissions db)))"

abbreviation row_at :: "authorization_db \<Rightarrow> nat \<Rightarrow> permission_object" where
  "row_at db j \<equiv> snd (adb_permissions db ! j)"

lemma row_at_find:
  assumes "permissions_inv db" "j < length (adb_permissions db)"
  shows "tbl_find (po_id (row_at db j)) (adb_permissions db) = Some (row_at db j)" "fst (adb_permissions db ! j) = po_id (row_at db j)"
proof -
  have "tbl_find (fst (adb_permissions db ! j)) (adb_permissions db) = Some (row_at db j)"
    using tbl_wf_find [OF permissions_invD(1) [OF assms(1)], of "fst (adb_permissions db ! j)" "row_at db j"] nth_mem [OF assms(2)] by simp
  then show "tbl_find (po_id (row_at db j)) (adb_permissions db) = Some (row_at db j)" "fst (adb_permissions db ! j) = po_id (row_at db j)"
    using row_id [OF assms(1)] by auto
qed

lemma row_position_at:
  assumes "permissions_inv db" "j < length (adb_permissions db)"
  shows "row_position db (po_id (row_at db j)) = j"
  using filter_less_nth [of "map fst (adb_permissions db)" j] permissions_invD(1) [OF assms(1)] assms(2) row_at_find(2) [OF assms]
  by (simp add: row_position_def tbl_wf_def)

lemma position_row:
  assumes "permissions_inv db" "tbl_find i (adb_permissions db) = Some p"
  shows "row_position db i < length (adb_permissions db)" "row_at db (row_position db i) = p"
proof -
  obtain j where j: "j < length (adb_permissions db)" "adb_permissions db ! j = (i, p)"
    using tbl_find_in [OF assms(2)] by (auto simp: in_set_conv_nth)
  then have "row_position db i = j"
    using row_position_at [OF assms(1) j(1)] row_id [OF assms] by simp
  with j show "row_position db i < length (adb_permissions db)" "row_at db (row_position db i) = p"
    by simp_all
qed

lemma row_at_mono:
  assumes "permissions_inv db" "k < length (adb_permissions db)" "j < k"
  shows "po_id (row_at db j) < po_id (row_at db k)"
  using permissions_invD(1) [OF assms(1)] assms row_at_find(2) [OF assms(1)]
  by (auto simp: tbl_wf_def sorted_wrt_iff_nth_less dest!: spec [of _ j] spec [of _ k])

lemma row_at_0:
  assumes "permissions_inv db"
  shows "adb_permissions db \<noteq> []" "row_at db 0 = default_permission 0" "row_position db 0 = 0"
proof -
  have p: "tbl_find 0 (adb_permissions db) = Some (default_permission 0)"
    using permissions_invD(8) [OF assms] .
  show "row_position db 0 = 0"
    by (simp add: row_position_def)
  then show "adb_permissions db \<noteq> []" "row_at db 0 = default_permission 0"
    using position_row [OF assms p] by auto
qed

section \<open>The database read back\<close>

definition reread_row :: "authorization_db \<Rightarrow> nat \<Rightarrow> permission_object" where
  "reread_row db j = (row_at db j)\<lparr>po_id := j, po_parent := row_position db (po_parent (row_at db j)), po_usage_id := j - 1\<rparr>"

definition last_used_at :: "authorization_db \<Rightarrow> nat \<Rightarrow> time_point" where
  "last_used_at db j = the (tbl_find (po_usage_id (row_at db j)) (adb_usages db))"

definition reread_db :: "authorization_db \<Rightarrow> nat \<Rightarrow> authorization_db" where
  "reread_db db k =
     \<lparr>adb_permissions = map (\<lambda>j. (j, reread_row db j)) [0..<k], adb_permissions_next_id = k,
      adb_usages = map (\<lambda>j. (j, last_used_at db (Suc j))) [0..<k - 1], adb_usages_next_id = k - 1, adb_links = []\<rparr>"

definition snapshot_row_at :: "authorization_db \<Rightarrow> nat \<Rightarrow> snapshot_permission_object" where
  "snapshot_row_at db j =
     \<lparr>spo_parent = po_name (row_at db (row_position db (po_parent (row_at db j)))), spo_owner = po_owner (row_at db j),
      spo_name = po_name (row_at db j), spo_last_updated = po_last_updated (row_at db j),
      spo_last_used = last_used_at db j, spo_auth = po_auth (row_at db j)\<rparr>"

lemma tbl_find_enum: "tbl_find j (map (\<lambda>j. (j, f j)) [0..<k]) = (if j < k then Some (f j) else None)"
  by (induction k) (auto simp: tbl_find_def map_of_append map_add_def less_Suc_eq split: option.splits)

lemma tbl_put_last: "\<forall>i\<in>tbl_keys t. i < k \<Longrightarrow> tbl_put k v t = t @ [(k, v)]"
  by (induction k v t rule: tbl_put.induct) auto

lemma tbl_put_enum: "tbl_put k (f k) (map (\<lambda>j. (j, f j)) [0..<k]) = map (\<lambda>j. (j, f j)) [0..<Suc k]"
  by (subst tbl_put_last) (auto simp: tbl_keys_def)

lemma unique_names:
  assumes "permissions_inv db" "i < length (adb_permissions db)" "j < length (adb_permissions db)"
    "po_owner (row_at db i) = po_owner (row_at db j)" "po_name (row_at db i) = po_name (row_at db j)"
  shows "i = j"
proof -
  have "po_id (row_at db i) = po_id (row_at db j)"
    using permissions_invD(7) [OF assms(1)] row_at_find(1) [OF assms(1)] assms(2-5) by blast
  then show ?thesis
    using row_position_at [OF assms(1)] assms(2,3) by metis
qed

lemma find_by_owner_reread:
  assumes inv: "permissions_inv db" and k: "k \<le> length (adb_permissions db)"
  shows "j < k \<Longrightarrow> find_by_owner (reread_db db k) (po_owner (row_at db j), po_name (row_at db j)) = Some (reread_row db j)"
    and "k < length (adb_permissions db) \<Longrightarrow> find_by_owner (reread_db db k) (po_owner (row_at db k), po_name (row_at db k)) = None"
proof -
  have u: "i = j" if "i < length (adb_permissions db)" "j < length (adb_permissions db)"
      "po_owner (reread_row db i) = po_owner (row_at db j)" "po_name (reread_row db i) = po_name (row_at db j)" for i j
    using unique_names [OF inv that(1,2)] that(3,4) by (simp add: reread_row_def)
  have rows: "map snd (adb_permissions (reread_db db k)) = map (reread_row db) [0..<k]"
    by (simp add: reread_db_def)
  show "find_by_owner (reread_db db k) (po_owner (row_at db j), po_name (row_at db j)) = Some (reread_row db j)" if "j < k"
    unfolding find_by_owner_def rows find_Some_iff
  proof (intro exI [of _ j] conjI allI impI)
    fix i assume "i < j"
    then show "(po_owner (map (reread_row db) [0..<k] ! i), po_name (map (reread_row db) [0..<k] ! i)) \<noteq>
        (po_owner (row_at db j), po_name (row_at db j))"
      using u [of i j] that k by auto
  qed (use that in \<open>auto simp: reread_row_def\<close>)
  show "find_by_owner (reread_db db k) (po_owner (row_at db k), po_name (row_at db k)) = None" if "k < length (adb_permissions db)"
  proof -
    have "\<not> (po_owner (reread_row db i) = po_owner (row_at db k) \<and> po_name (reread_row db i) = po_name (row_at db k))" if "i < k" for i
      using u [of i k] that \<open>k < length (adb_permissions db)\<close> by auto
    then show ?thesis
      unfolding find_by_owner_def rows find_None_iff by auto
  qed
qed

section \<open>Reading one row\<close>

lemma snapshot_parent:
  assumes inv: "permissions_inv db" and j: "j < length (adb_permissions db)"
  shows "row_position db (po_parent (row_at db j)) < length (adb_permissions db)"
    "tbl_find (po_parent (row_at db j)) (adb_permissions db) = Some (row_at db (row_position db (po_parent (row_at db j))))"
    "j \<noteq> 0 \<Longrightarrow> row_position db (po_parent (row_at db j)) < j"
    "po_parent (row_at db j) \<noteq> 0 \<Longrightarrow> row_position db (po_parent (row_at db j)) \<noteq> 0 \<and>
       spo_parent (snapshot_row_at db j) \<noteq> 0 \<and>
       po_owner (row_at db (row_position db (po_parent (row_at db j)))) = po_owner (row_at db j)"
    "po_parent (row_at db j) = 0 \<Longrightarrow> row_position db (po_parent (row_at db j)) = 0 \<and> spo_parent (snapshot_row_at db j) = 0"
proof -
  let ?p = "row_at db j"
  note zero = row_at_0 [OF inv]
  have row: "tbl_find (po_id ?p) (adb_permissions db) = Some ?p"
    using row_at_find(1) [OF inv j] .
  have id: "po_id ?p = 0 \<longleftrightarrow> j = 0"
    using row_position_at [OF inv j] zero(3) row_at_mono [OF inv j, of 0] zero(2) by (cases "j = 0") (auto simp: default_permission_def)
  have parent: "\<exists>q. tbl_find (po_parent ?p) (adb_permissions db) = Some q"
  proof (cases "j = 0")
    case True
    then show ?thesis
      using zero(2) permissions_invD(8) [OF inv] by (simp add: default_permission_def)
  next
    case False
    then show ?thesis
      using permissions_invD(6) [OF inv row] id by (auto simp: permission_ok_def)
  qed
  then obtain q where q: "tbl_find (po_parent ?p) (adb_permissions db) = Some q"
    by blast
  note pos = position_row [OF inv q]
  show "row_position db (po_parent ?p) < length (adb_permissions db)"
    "tbl_find (po_parent ?p) (adb_permissions db) = Some (row_at db (row_position db (po_parent ?p)))"
    using pos q by auto
  have idq: "po_id q = po_parent ?p"
    using row_id [OF inv q] .
  show "row_position db (po_parent ?p) < j" if "j \<noteq> 0"
  proof (rule ccontr)
    assume "\<not> row_position db (po_parent ?p) < j"
    then have "j = row_position db (po_parent ?p) \<or> po_id ?p < po_id q"
      using row_at_mono [OF inv pos(1), of j] pos(2) by (auto simp: not_less le_less)
    moreover have "po_parent ?p < po_id ?p"
      using permissions_invD(6) [OF inv row] id that by (simp add: permission_ok_def)
    ultimately show False
      using idq pos(2) by auto
  qed
  show "row_position db (po_parent ?p) \<noteq> 0 \<and> spo_parent (snapshot_row_at db j) \<noteq> 0 \<and>
      po_owner (row_at db (row_position db (po_parent ?p))) = po_owner ?p" if "po_parent ?p \<noteq> 0"
  proof -
    have "j \<noteq> 0"
      using that zero(2) by (cases "j = 0") (auto simp: default_permission_def)
    moreover have "row_position db (po_parent ?p) \<noteq> 0"
      using that idq pos(2) zero(2) by (cases "row_position db (po_parent ?p) = 0") (auto simp: default_permission_def)
    moreover have "po_name q \<noteq> 0"
      using permissions_invD(6) [OF inv q that] by (simp add: permission_ok_def)
    ultimately show ?thesis
      using permissions_invD(6) [OF inv row] id that q pos(2) by (auto simp: permission_ok_def snapshot_row_at_def)
  qed
  show "row_position db (po_parent ?p) = 0 \<and> spo_parent (snapshot_row_at db j) = 0" if "po_parent ?p = 0"
    using that zero by (simp add: snapshot_row_at_def default_permission_def)
qed

lemma from_snapshot_row_reread:
  assumes inv: "permissions_inv db" and k: "k < length (adb_permissions db)"
  shows "from_snapshot_row (snapshot_row_at db k) (default_permission k) (reread_db db k) =
    Inr (reread_row db k, (reread_db db k)\<lparr>adb_usages := adb_usages (reread_db db (Suc k)), adb_usages_next_id := k\<rparr>)"
proof (cases "k = 0")
  case True
  have "row_at db 0 = default_permission 0"
    using row_at_0 [OF inv] by blast
  then show ?thesis
    using True row_at_0(3) [OF inv]
    by (simp add: from_snapshot_row_def snapshot_row_at_def reread_row_def reread_db_def default_permission_def default_authority_def eos_assert_def Let_def)
next
  case False
  let ?p = "row_at db k"
  let ?pos = "row_position db (po_parent ?p)"
  note par = snapshot_parent [OF inv k]
  have usage: "create_usage_row u (reread_db db k) =
      (k - 1, (reread_db db k)\<lparr>adb_usages := adb_usages (reread_db db (Suc k)), adb_usages_next_id := k\<rparr>)" if "u = last_used_at db k" for u
    using False that tbl_put_enum [of "k - 1" "\<lambda>j. last_used_at db (Suc j)"]
    by (simp add: create_usage_row_def reread_db_def)
  show ?thesis
  proof (cases "po_parent ?p = 0")
    case True
    then show ?thesis
      using par(5) False usage
      by (simp add: from_snapshot_row_def default_permission_def Let_def)
        (simp add: snapshot_row_at_def reread_row_def)
  next
    case nz: False
    have "find_by_owner (reread_db db k) (spo_owner (snapshot_row_at db k), spo_parent (snapshot_row_at db k)) = Some (reread_row db ?pos)"
      using find_by_owner_reread(1) [OF inv less_imp_le [OF k], of ?pos] par(3,4) False nz by (simp add: snapshot_row_at_def)
    moreover have "po_id (reread_row db ?pos) = ?pos"
      by (simp add: reread_row_def)
    ultimately show ?thesis
      using par(4) nz False usage
      by (simp add: from_snapshot_row_def default_permission_def Let_def eos_assert_def)
        (simp add: snapshot_row_at_def reread_row_def)
  qed
qed

lemma read_one:
  assumes inv: "permissions_inv db" and k: "k < length (adb_permissions db)"
  shows "read_permission_rows (snapshot_row_at db k # rows) (reread_db db k) = read_permission_rows rows (reread_db db (Suc k))"
proof -
  have o: "po_owner (reread_row db k) = po_owner (row_at db k)" "po_name (reread_row db k) = po_name (row_at db k)"
    by (simp_all add: reread_row_def)
  let ?db = "(reread_db db k)\<lparr>adb_usages := adb_usages (reread_db db (Suc k)), adb_usages_next_id := k\<rparr>"
  have "find_by_owner ?db (po_owner (row_at db k), po_name (row_at db k)) = None"
    using find_by_owner_reread(2) [OF inv less_imp_le [OF k] k] by (simp add: find_by_owner_def)
  then have "create_permission_row (\<lambda>_. reread_row db k) ?db = Inr (reread_row db k, reread_db db (Suc k))"
    using tbl_put_enum [of k "reread_row db"] o by (simp add: create_permission_row_def reread_db_def Let_def)
  then show ?thesis
    using from_snapshot_row_reread [OF inv k] by (simp add: reread_db_def)
qed

lemma read_all:
  assumes inv: "permissions_inv db"
  shows "k \<le> length (adb_permissions db) \<Longrightarrow>
    read_permission_rows (map (snapshot_row_at db) [k..<length (adb_permissions db)]) (reread_db db k) = Inr (reread_db db (length (adb_permissions db)))"
proof (induction "length (adb_permissions db) - k" arbitrary: k)
  case 0
  then show ?case
    by simp
next
  case (Suc m)
  then have k: "k < length (adb_permissions db)"
    by simp
  then show ?case
    using read_one [OF inv k] Suc by (simp add: upt_conv_Cons del: read_permission_rows.simps(2))
qed

section \<open>Writing the rows\<close>

lemma map_r_Inr: "(\<And>j. j < length xs \<Longrightarrow> f (xs ! j) = Inr (g j)) \<Longrightarrow> map_r f xs = Inr (map g [0..<length xs])"
proof (induction xs arbitrary: g)
  case (Cons x xs)
  have "map_r f xs = Inr (map (\<lambda>j. g (Suc j)) [0..<length xs])"
    using Cons.prems [of "Suc _"] by (intro Cons.IH) auto
  then show ?case
    using Cons.prems [of 0] by (simp add: upt_conv_Cons map_Suc_upt [symmetric] comp_def del: upt_Suc)
qed simp

lemma usage_found:
  assumes inv: "permissions_inv db" and one: "1 \<in> tbl_keys (adb_permissions db)" and j: "j < length (adb_permissions db)"
  shows "tbl_find (po_usage_id (row_at db j)) (adb_usages db) = Some (last_used_at db j)"
proof -
  have "po_usage_id (row_at db j) \<in> tbl_keys (adb_usages db)"
  proof (cases "j = 0")
    case True
    obtain p where "tbl_find 1 (adb_permissions db) = Some p"
      using one tbl_find_keys [of 1 "adb_permissions db"] by auto
    then have "0 \<in> tbl_keys (adb_usages db)"
      using permissions_invD(6) [OF inv, of 1 p] by (auto simp: permission_ok_def)
    then show ?thesis
      using True row_at_0 [OF inv] by (simp add: default_permission_def)
  next
    case False
    have "po_id (row_at db j) \<noteq> 0"
      using row_at_mono [OF inv j, of 0] False by simp
    then show ?thesis
      using permissions_invD(6) [OF inv row_at_find(1) [OF inv j]] by (simp add: permission_ok_def)
  qed
  then show ?thesis
    using tbl_find_keys [of "po_usage_id (row_at db j)" "adb_usages db"] by (auto simp: last_used_at_def)
qed

lemma write_rows:
  assumes inv: "permissions_inv db" and one: "1 \<in> tbl_keys (adb_permissions db)"
  shows "map_r (to_snapshot_row db) (map snd (adb_permissions db)) = Inr (map (snapshot_row_at db) [0..<length (adb_permissions db)])"
proof -
  have "to_snapshot_row db (map snd (adb_permissions db) ! j) = Inr (snapshot_row_at db j)" if "j < length (map snd (adb_permissions db))" for j
    using snapshot_parent(2) [OF inv, of j] usage_found [OF inv one, of j] that
    by (simp add: to_snapshot_row_def tbl_get_def snapshot_row_at_def)
  with map_r_Inr [of "map snd (adb_permissions db)" "to_snapshot_row db" "snapshot_row_at db"] show ?thesis
    by simp
qed

text \<open>The second row is the first permission created, whose usage row the reserved one refers to.\<close>

lemma row_at_1:
  assumes inv: "permissions_inv db" and one: "1 \<in> tbl_keys (adb_permissions db)"
  shows "1 < length (adb_permissions db)" "po_usage_id (row_at db 1) = 0"
proof -
  obtain p where p: "tbl_find 1 (adb_permissions db) = Some p"
    using one tbl_find_keys [of 1 "adb_permissions db"] by auto
  note pos = position_row [OF inv p]
  have "row_position db 1 = 1"
  proof -
    have nz: "row_position db 1 \<noteq> 0"
      using pos(2) row_at_0(2) [OF inv] row_id [OF inv p] by (cases "row_position db 1 = 0") (auto simp: default_permission_def)
    moreover have "\<not> 1 < row_position db 1"
      using row_at_mono [OF inv pos(1), of 1] row_at_mono [OF inv, of 1 0] pos row_id [OF inv p] by force
    ultimately show ?thesis
      by simp
  qed
  then show "1 < length (adb_permissions db)" "po_usage_id (row_at db 1) = 0"
    using pos permissions_invD(6) [OF inv p] by (auto simp: permission_ok_def)
qed

lemma write_reread:
  assumes inv: "permissions_inv db" and one: "1 \<in> tbl_keys (adb_permissions db)"
  shows "map_r (to_snapshot_row (reread_db db (length (adb_permissions db)))) (map snd (adb_permissions (reread_db db (length (adb_permissions db))))) =
    Inr (map (snapshot_row_at db) [0..<length (adb_permissions db)])" (is "map_r (to_snapshot_row ?db) _ = Inr (map _ [0..<?n])")
proof -
  have rows: "map snd (adb_permissions ?db) = map (reread_row db) [0..<?n]"
    by (simp add: reread_db_def)
  have "to_snapshot_row ?db (reread_row db j) = Inr (snapshot_row_at db j)" if j: "j < ?n" for j
  proof -
    let ?pos = "row_position db (po_parent (row_at db j))"
    have parent: "tbl_find ?pos (adb_permissions ?db) = Some (reread_row db ?pos)"
      using snapshot_parent(1) [OF inv j] by (simp add: reread_db_def tbl_find_enum)
    have used: "tbl_find (j - 1) (adb_usages ?db) = Some (last_used_at db j)"
    proof (cases "j = 0")
      case True
      have "last_used_at db 0 = last_used_at db 1"
        using row_at_0(2) [OF inv] row_at_1(2) [OF inv one] by (simp add: last_used_at_def default_permission_def)
      then show ?thesis
        using True row_at_1(1) [OF inv one] by (simp add: reread_db_def tbl_find_enum)
    next
      case False
      then have "j - 1 < ?n - 1"
        using j by simp
      then show ?thesis
        using False by (simp add: reread_db_def tbl_find_enum)
    qed
    show ?thesis
      using parent used by (simp add: to_snapshot_row_def tbl_get_def reread_row_def snapshot_row_at_def)
  qed
  with map_r_Inr [of "map (reread_row db) [0..<?n]" "to_snapshot_row ?db" "snapshot_row_at db"] show ?thesis
    unfolding rows by simp
qed

lemma create_links:
  assumes "distinct (map fst (ls @ t))" "adb_links db = ls"
  shows "fold_r (\<lambda>(k, required). create_link k required) t db = Inr (db\<lparr>adb_links := ls @ t\<rparr>)"
  using assms
proof (induction t arbitrary: ls db)
  case (Cons r t)
  obtain k v where r: "r = (k, v)"
    by (cases r)
  have "tbl_find k ls = None"
    using Cons.prems(1) r by (auto simp: tbl_find_def map_of_eq_None_iff)
  then show ?case
    using Cons.IH [of "ls @ [(k, v)]" "db\<lparr>adb_links := ls @ [(k, v)]\<rparr>"] Cons.prems r by (simp add: create_link_def)
qed simp

text \<open>
  C24. A snapshot of the permissions and links of any reachable database in which the first
  permission still exists can be written, and reading it into an empty database succeeds and gives
  a database whose snapshot is the same, with the same links: parents, authorities and times of
  use survive although all identifiers are assigned anew.
\<close>

theorem authorization_snapshot_roundtrip:
  assumes "authorization_reachable db" "1 \<in> tbl_keys (adb_permissions db)"
  shows "\<exists>snapshot db'. authorization_add_to_snapshot db = Inr snapshot \<and>
    authorization_read_from_snapshot snapshot empty_authorization_db = Inr db' \<and>
    authorization_add_to_snapshot db' = Inr snapshot \<and> adb_links db' = adb_links db"
proof -
  have inv: "permissions_inv db"
    using authorization_reachable_inv assms(1) .
  let ?n = "length (adb_permissions db)"
  have "empty_authorization_db = reread_db db 0"
    by (simp add: empty_authorization_db_def reread_db_def)
  then have read: "read_permission_rows (map (snapshot_row_at db) [0..<?n]) empty_authorization_db = Inr (reread_db db ?n)"
    using read_all [OF inv, of 0] by simp
  let ?db = "(reread_db db ?n)\<lparr>adb_links := adb_links db\<rparr>"
  have "authorization_read_from_snapshot (map (snapshot_row_at db) [0..<?n], adb_links db) empty_authorization_db = Inr ?db"
    using read create_links [of "[]" "adb_links db" "reread_db db ?n"] permissions_invD(9) [OF inv]
    by (simp add: authorization_read_from_snapshot_def reread_db_def)
  moreover have same: "to_snapshot_row ?db = to_snapshot_row (reread_db db ?n)"
    by (simp add: fun_eq_iff to_snapshot_row_def)
  have "authorization_add_to_snapshot ?db = Inr (map (snapshot_row_at db) [0..<?n], adb_links db)"
    using write_reread [OF inv assms(2)] same by (simp add: authorization_add_to_snapshot_def)
  moreover have "authorization_add_to_snapshot db = Inr (map (snapshot_row_at db) [0..<?n], adb_links db)"
    using write_rows [OF inv assms(2)] by (simp add: authorization_add_to_snapshot_def)
  ultimately show ?thesis
    by fastforce
qed

theorem authorization_snapshot_roundtrip_witness:
  "\<exists>snapshot db'. authorization_add_to_snapshot sample_authorization_db = Inr snapshot \<and>
    authorization_read_from_snapshot snapshot empty_authorization_db = Inr db' \<and>
    authorization_add_to_snapshot db' = Inr snapshot"
  using authorization_snapshot_roundtrip [OF sample_authorization_reachable]
  by (auto simp: sample_authorization_db_def)

end
