(* ===== verification/Authority_Checker.thy ===== *)
theory Authority_Checker
  imports Authority Tables
begin

text \<open>
  The authority checker (\<^verbatim>\<open>authority_checker.hpp\<close>): whether provided keys, permissions and a delay
  satisfy an authority, following permissions to the authorities behind them up to a depth limit,
  with a cache of the permissions already looked at and a record of the keys used. The functor
  \<^verbatim>\<open>permission_to_authority\<close> is a field of the checker, as in the class.
\<close>

record checker =
  permission_to_authority :: "permission_level \<Rightarrow> authority result"
  provided_keys :: "public_key_type list"
  provided_permissions :: "permission_level list"
  provided_delay :: int
  recursion_depth_limit :: nat

datatype permission_cache_status = being_evaluated | permission_unsatisfied | permission_satisfied

type_synonym permission_cache = "(permission_level, permission_cache_status) table"

record checker_state =
  used_keys_marks :: "bool list"
  cached_permissions :: permission_cache

text \<open>The entries of \<^verbatim>\<open>meta_permission_map\<close>.\<close>

datatype meta_permission =
    account_permission permission_level_weight
  | key_permission key_weight
  | wait_permission wait_weight

fun meta_weight :: "meta_permission \<Rightarrow> nat" where
  "meta_weight (account_permission p) = plw_weight p"
| "meta_weight (key_permission k) = kw_weight k"
| "meta_weight (wait_permission w) = ww_weight w"

fun meta_priority :: "meta_permission \<Rightarrow> nat" where
  "meta_priority (account_permission p) = 1"
| "meta_priority (key_permission k) = 2"
| "meta_priority (wait_permission w) = 3"

definition meta_key :: "meta_permission \<Rightarrow> nat \<times> nat" where
  "meta_key m = (meta_weight m, meta_priority m)"

text \<open>Insertion into the multimap ordered by \<^verbatim>\<open>std::greater\<close>: after the entries with an equal key.\<close>

fun emplace_permission :: "meta_permission \<Rightarrow> meta_permission list \<Rightarrow> meta_permission list" where
  "emplace_permission m [] = [m]"
| "emplace_permission m (x # xs) = (if meta_key x < meta_key m then m # x # xs else x # emplace_permission m xs)"

definition authority_factors :: "authority \<Rightarrow> meta_permission list" where
  "authority_factors a = map account_permission (auth_accounts a) @ map key_permission (auth_keys a)
     @ map wait_permission (auth_waits a)"

definition meta_permissions :: "authority \<Rightarrow> meta_permission list" where
  "meta_permissions a = fold emplace_permission (authority_factors a) []"

definition permission_status_in_cache :: "permission_cache \<Rightarrow> permission_level \<Rightarrow> permission_cache_status option" where
  "permission_status_in_cache permissions level =
     (case tbl_find level permissions of
        Some s \<Rightarrow> Some s
      | None \<Rightarrow> tbl_find (fst level, 0) permissions)"

fun find_index :: "'a \<Rightarrow> 'a list \<Rightarrow> nat option" where
  "find_index k [] = None"
| "find_index k (x # xs) = (if x = k then Some 0 else map_option Suc (find_index k xs))"

section \<open>The weight tally visitor\<close>

type_synonym tally = "nat \<times> checker_state"
type_synonym satisfier = "authority \<Rightarrow> checker_state \<Rightarrow> (bool \<times> checker_state) result"

definition visit_wait :: "checker \<Rightarrow> wait_weight \<Rightarrow> tally \<Rightarrow> tally" where
  "visit_wait c w = (\<lambda>(total_weight, st).
     if provided_delay c \<ge> int (ww_wait_sec w) * 1000000 then (add32 total_weight (ww_weight w), st)
     else (total_weight, st))"

definition visit_key :: "checker \<Rightarrow> key_weight \<Rightarrow> tally \<Rightarrow> tally" where
  "visit_key c k = (\<lambda>(total_weight, st).
     case find_index (kw_key k) (provided_keys c) of
       None \<Rightarrow> (total_weight, st)
     | Some i \<Rightarrow> (add32 total_weight (kw_weight k), st\<lparr>used_keys_marks := (used_keys_marks st)[i := True]\<rparr>))"

text \<open>\<open>sat\<close> is the nested call, absent when the depth limit is reached.\<close>

definition visit_permission ::
    "checker \<Rightarrow> satisfier option \<Rightarrow> permission_level_weight \<Rightarrow> tally \<Rightarrow> tally result" where
  "visit_permission c sat p = (\<lambda>(total_weight, st).
     case permission_status_in_cache (cached_permissions st) (plw_permission p) of
       None \<Rightarrow>
         (case sat of
            None \<Rightarrow> Inr (total_weight, st)
          | Some sat' \<Rightarrow>
              (case permission_to_authority c (plw_permission p) of
                 Inl e \<Rightarrow> if e = permission_query_exception then Inr (total_weight, st) else Inl e
               | Inr auth \<Rightarrow>
                   bind_r (sat' auth (st\<lparr>cached_permissions :=
                             tbl_put (plw_permission p) being_evaluated (cached_permissions st)\<rparr>)) (\<lambda>(r, st).
                     if r then Inr (add32 total_weight (plw_weight p),
                            st\<lparr>cached_permissions := tbl_put (plw_permission p) permission_satisfied (cached_permissions st)\<rparr>)
                     else Inr (total_weight,
                            st\<lparr>cached_permissions := tbl_put (plw_permission p) permission_unsatisfied (cached_permissions st)\<rparr>))))
     | Some status \<Rightarrow>
         Inr (if status = permission_satisfied then add32 total_weight (plw_weight p) else total_weight, st))"

fun visit :: "checker \<Rightarrow> satisfier option \<Rightarrow> meta_permission \<Rightarrow> tally \<Rightarrow> tally result" where
  "visit c sat (account_permission p) s = visit_permission c sat p s"
| "visit c sat (key_permission k) s = Inr (visit_key c k s)"
| "visit c sat (wait_permission w) s = Inr (visit_wait c w s)"

section \<open>The checker\<close>

text \<open>The loop over the permissions; it stops as soon as the threshold is reached.\<close>

fun check_permissions ::
    "(meta_permission \<Rightarrow> tally \<Rightarrow> tally result) \<Rightarrow> nat \<Rightarrow> meta_permission list \<Rightarrow> tally \<Rightarrow> (bool \<times> checker_state) result" where
  "check_permissions vis threshold [] (total_weight, st) = Inr (False, st)"
| "check_permissions vis threshold (p # ps) s =
     bind_r (vis p s) (\<lambda>(total_weight, st).
       if total_weight \<ge> threshold then Inr (True, st)
       else check_permissions vis threshold ps (total_weight, st))"

text \<open>One activation: the keys marked so far are restored unless the authority is satisfied.\<close>

definition satisfied_body :: "checker \<Rightarrow> satisfier option \<Rightarrow> satisfier" where
  "satisfied_body c sat auth st =
     bind_r (check_permissions (visit c sat) (auth_threshold auth) (meta_permissions auth) (0, st)) (\<lambda>(r, st').
       Inr (r, if r then st' else st'\<lparr>used_keys_marks := used_keys_marks st\<rparr>))"

text \<open>The recursion; the number is the distance of the current depth from the depth limit.\<close>

fun satisfied_rec :: "checker \<Rightarrow> nat \<Rightarrow> satisfier" where
  "satisfied_rec c 0 auth st = satisfied_body c None auth st"
| "satisfied_rec c (Suc n) auth st = satisfied_body c (Some (satisfied_rec c n)) auth st"

definition initialize_permission_cache :: "checker \<Rightarrow> permission_cache" where
  "initialize_permission_cache c =
     fold (\<lambda>p cache. tbl_put p permission_satisfied cache) (provided_permissions c) []"

definition checker_init :: "checker \<Rightarrow> checker_state" where
  "checker_init c = \<lparr>used_keys_marks = replicate (length (provided_keys c)) False, cached_permissions = []\<rparr>"

text \<open>The public entry points, with the cache of the call freshly initialised.\<close>

definition satisfied_authority :: "checker \<Rightarrow> authority \<Rightarrow> checker_state \<Rightarrow> (bool \<times> checker_state) result" where
  "satisfied_authority c auth st =
     satisfied_rec c (recursion_depth_limit c) auth (st\<lparr>cached_permissions := initialize_permission_cache c\<rparr>)"

definition satisfied_permission :: "checker \<Rightarrow> permission_level \<Rightarrow> checker_state \<Rightarrow> (bool \<times> checker_state) result" where
  "satisfied_permission c p st =
     bind_r (visit_permission c
               (case recursion_depth_limit c of 0 \<Rightarrow> None | Suc n \<Rightarrow> Some (satisfied_rec c n))
               \<lparr>plw_permission = p, plw_weight = 1\<rparr>
               (0, st\<lparr>cached_permissions := initialize_permission_cache c\<rparr>)) (\<lambda>(total_weight, st).
       Inr (total_weight > 0, st))"

text \<open>The overloads with a delay of their own.\<close>

definition satisfied_authority_delay ::
    "checker \<Rightarrow> authority \<Rightarrow> int \<Rightarrow> checker_state \<Rightarrow> (bool \<times> checker_state) result" where
  "satisfied_authority_delay c auth override_provided_delay st =
     satisfied_authority (c\<lparr>provided_delay := override_provided_delay\<rparr>) auth st"

definition satisfied_permission_delay ::
    "checker \<Rightarrow> permission_level \<Rightarrow> int \<Rightarrow> checker_state \<Rightarrow> (bool \<times> checker_state) result" where
  "satisfied_permission_delay c p override_provided_delay st =
     satisfied_permission (c\<lparr>provided_delay := override_provided_delay\<rparr>) p st"

definition all_keys_used :: "checker_state \<Rightarrow> bool" where
  "all_keys_used st = list_all (\<lambda>b. b) (used_keys_marks st)"

definition filter_data_by_marker :: "'a list \<Rightarrow> bool list \<Rightarrow> bool \<Rightarrow> 'a list" where
  "filter_data_by_marker data markers value = map snd (filter (\<lambda>(m, d). m = value) (zip markers data))"

definition used_keys :: "checker \<Rightarrow> checker_state \<Rightarrow> public_key_type list" where
  "used_keys c st = filter_data_by_marker (provided_keys c) (used_keys_marks st) True"

definition unused_keys :: "checker \<Rightarrow> checker_state \<Rightarrow> public_key_type list" where
  "unused_keys c st = filter_data_by_marker (provided_keys c) (used_keys_marks st) False"

section \<open>What it means to be authorized\<close>

text \<open>
  The specification, without depth limit, cache or order of evaluation: a permission is held when
  it is provided (or the actor's unnamed permission is), or when the authority behind it is
  satisfied; an authority is satisfied by held factors whose weights reach the threshold.
\<close>

inductive permission_held :: "checker \<Rightarrow> permission_level \<Rightarrow> bool"
  and factor_held :: "checker \<Rightarrow> meta_permission \<Rightarrow> bool"
  and authority_held :: "checker \<Rightarrow> authority \<Rightarrow> bool" for c where
  provided: "p \<in> set (provided_permissions c) \<Longrightarrow> permission_held c p"
| any_permission: "permission_held c (actor, 0) \<Longrightarrow> permission_held c (actor, p)"
| delegated: "permission_to_authority c p = Inr a \<Longrightarrow> authority_held c a \<Longrightarrow> permission_held c p"
| account: "permission_held c (plw_permission p) \<Longrightarrow> factor_held c (account_permission p)"
| key: "kw_key k \<in> set (provided_keys c) \<Longrightarrow> factor_held c (key_permission k)"
| wait: "int (ww_wait_sec w) * 1000000 \<le> provided_delay c \<Longrightarrow> factor_held c (wait_permission w)"
| threshold: "mset ms \<subseteq># mset (authority_factors a) \<Longrightarrow> \<forall>m\<in>set ms. factor_held c m \<Longrightarrow>
    auth_threshold a \<le> sum_list (map meta_weight ms) \<Longrightarrow> authority_held c a"

definition cache_sound :: "checker \<Rightarrow> checker_state \<Rightarrow> bool" where
  "cache_sound c st \<longleftrightarrow>
     (\<forall>p. tbl_find p (cached_permissions st) = Some permission_satisfied \<longrightarrow> permission_held c p)"

lemma mset_emplace [simp]: "mset (emplace_permission m xs) = add_mset m (mset xs)"
  by (induction m xs rule: emplace_permission.induct) auto

lemma mset_fold_emplace: "mset (fold emplace_permission xs ys) = mset xs + mset ys"
  by (induction xs arbitrary: ys) auto

lemma mset_meta_permissions [simp]: "mset (meta_permissions a) = mset (authority_factors a)"
  by (simp add: meta_permissions_def mset_fold_emplace)

lemma set_meta_permissions [simp]: "set (meta_permissions a) = set (authority_factors a)"
  by (metis mset_meta_permissions set_mset_mset)

lemma authority_factors_weight: "sum_list (map meta_weight (authority_factors a)) = authority_total_weight a"
  by (simp add: authority_factors_def authority_total_weight_def comp_def)

lemma find_index_Some: "find_index k xs = Some i \<Longrightarrow> i < length xs \<and> xs ! i = k"
  by (induction k xs arbitrary: i rule: find_index.induct) (auto split: if_splits)

lemma find_index_None: "find_index k xs = None \<longleftrightarrow> k \<notin> set xs"
  by (induction k xs rule: find_index.induct) auto

lemma permission_status_satisfied:
  assumes "cache_sound c st" "permission_status_in_cache (cached_permissions st) p = Some permission_satisfied"
  shows "permission_held c p"
proof (cases "tbl_find p (cached_permissions st)")
  case None
  then have "permission_held c (fst p, 0)"
    using assms by (simp add: permission_status_in_cache_def cache_sound_def)
  then show ?thesis
    using any_permission [of c "fst p" "snd p"] by simp
next
  case (Some s)
  then show ?thesis
    using assms by (cases p) (simp add: permission_status_in_cache_def cache_sound_def)
qed

lemma cache_sound_marks [simp]: "cache_sound c (st\<lparr>used_keys_marks := ms\<rparr>) = cache_sound c st"
  by (simp add: cache_sound_def)

lemma cache_sound_put:
  "cache_sound c st \<Longrightarrow> (s = permission_satisfied \<Longrightarrow> permission_held c p) \<Longrightarrow>
     cache_sound c (st\<lparr>cached_permissions := tbl_put p s (cached_permissions st)\<rparr>)"
  by (simp add: cache_sound_def)

text \<open>What a nested call must guarantee, and what a visit then guarantees.\<close>

definition satisfier_sound :: "checker \<Rightarrow> satisfier \<Rightarrow> bool" where
  "satisfier_sound c sat \<longleftrightarrow> (\<forall>a st r st'. authority_total_weight a < 2 ^ 32 \<longrightarrow> cache_sound c st \<longrightarrow> sat a st = Inr (r, st') \<longrightarrow>
     cache_sound c st' \<and> (r \<longrightarrow> authority_held c a))"

definition authorities_bounded :: "checker \<Rightarrow> bool" where
  "authorities_bounded c \<longleftrightarrow> (\<forall>p a. permission_to_authority c p = Inr a \<longrightarrow> authority_total_weight a < 2 ^ 32)"

lemma visit_permission_sound:
  assumes "authorities_bounded c" "\<forall>sat'. sat = Some sat' \<longrightarrow> satisfier_sound c sat'" "cache_sound c st"
    "visit_permission c sat p (tot, st) = Inr (tot', st')"
  shows "cache_sound c st' \<and> (tot' = tot \<or> (tot' = add32 tot (plw_weight p) \<and> permission_held c (plw_permission p)))"
proof (cases "permission_status_in_cache (cached_permissions st) (plw_permission p)")
  case (Some s)
  then show ?thesis
    using assms(3,4) permission_status_satisfied by (auto simp: visit_permission_def split: if_splits)
next
  case None
  consider (same) "tot' = tot" "st' = st"
    | (nested) sat' auth r st1 where "sat = Some sat'" "permission_to_authority c (plw_permission p) = Inr auth"
      "sat' auth (st\<lparr>cached_permissions := tbl_put (plw_permission p) being_evaluated (cached_permissions st)\<rparr>) = Inr (r, st1)"
      "tot' = (if r then add32 tot (plw_weight p) else tot)"
      "st' = st1\<lparr>cached_permissions := tbl_put (plw_permission p)
         (if r then permission_satisfied else permission_unsatisfied) (cached_permissions st1)\<rparr>"
    using assms(4) None
    by (auto simp: visit_permission_def bind_r_Inr_iff split: option.splits sum.splits if_splits)
  then show ?thesis
  proof cases
    case same
    with assms(3) show ?thesis
      by simp
  next
    case nested
    have "cache_sound c st1 \<and> (r \<longrightarrow> authority_held c auth)"
      using assms(1,2,3) nested(1-3) cache_sound_put [OF assms(3)]
      unfolding satisfier_sound_def authorities_bounded_def by blast
    then show ?thesis
      using nested(4,5) delegated [OF nested(2)] by (auto intro!: cache_sound_put)
  qed
qed

lemma visit_sound:
  assumes "authorities_bounded c" "\<forall>sat'. sat = Some sat' \<longrightarrow> satisfier_sound c sat'" "cache_sound c st"
    "visit c sat m (tot, st) = Inr (tot', st')"
  shows "cache_sound c st' \<and> (tot' = tot \<or> (tot' = add32 tot (meta_weight m) \<and> factor_held c m))"
proof (cases m)
  case (account_permission p)
  then show ?thesis
    using visit_permission_sound [OF assms(1-3), of p tot tot' st'] assms(4) account [of c p] by auto
next
  case (key_permission k)
  then show ?thesis
    using assms(3,4) key [of k c] find_index_None [of "kw_key k" "provided_keys c"]
    by (auto simp: visit_key_def split: option.splits)
next
  case (wait_permission w)
  then show ?thesis
    using assms(3,4) wait [of w c] by (auto simp: visit_wait_def split: if_splits)
qed

lemma sum_list_mset_mono: "mset ms \<subseteq># mset xs \<Longrightarrow> sum_list (map (f :: 'a \<Rightarrow> nat) ms) \<le> sum_list (map f xs)"
proof -
  assume "mset ms \<subseteq># mset xs"
  then obtain d where "mset xs = mset ms + d"
    by (auto simp: mset_subset_eq_exists_conv)
  then have "sum_mset (image_mset f (mset xs)) = sum_mset (image_mset f (mset ms)) + sum_mset (image_mset f d)"
    by simp
  then show ?thesis
    by (simp flip: mset_map add: sum_mset_sum_list)
qed

lemma check_permissions_sound:
  assumes "authorities_bounded c" "\<forall>sat'. sat = Some sat' \<longrightarrow> satisfier_sound c sat'"
    "check_permissions (visit c sat) threshold ps (tot, st) = Inr (r, st')" "cache_sound c st"
    "mset ms + mset ps \<subseteq># mset fs" "\<forall>m\<in>set ms. factor_held c m" "tot = sum_list (map meta_weight ms)"
    "sum_list (map meta_weight fs) < 2 ^ 32"
  shows "cache_sound c st' \<and> (r \<longrightarrow> (\<exists>ms. mset ms \<subseteq># mset fs \<and> (\<forall>m\<in>set ms. factor_held c m)
      \<and> threshold \<le> sum_list (map meta_weight ms)))"
  using assms(3-7)
proof (induction ps arbitrary: tot st ms)
  case (Cons p ps)
  obtain tot1 st1 where v: "visit c sat p (tot, st) = Inr (tot1, st1)"
    and rest: "(if tot1 \<ge> threshold then Inr (True, st1)
       else check_permissions (visit c sat) threshold ps (tot1, st1)) = Inr (r, st')"
    using Cons.prems(1) by (auto simp: bind_r_Inr_iff)
  note vs = visit_sound [OF assms(1,2) Cons.prems(2) v]
  have sub: "mset (p # ms) + mset ps \<subseteq># mset fs"
    using Cons.prems(3) by simp
  have "mset ms + mset ps \<subseteq># mset (p # ms) + mset ps" "mset (p # ms) \<subseteq># mset (p # ms) + mset ps"
    "mset ms \<subseteq># mset (p # ms) + mset ps"
    by (simp_all add: subset_mset.add_increasing2)
  then have sub1: "mset ms + mset ps \<subseteq># mset fs" "mset (p # ms) \<subseteq># mset fs" "mset ms \<subseteq># mset fs"
    using sub by (blast intro: subset_mset.order_trans)+
  have small: "meta_weight p + sum_list (map meta_weight ms) < 2 ^ 32"
    using sum_list_mset_mono [OF sub1(2), of meta_weight] assms(8) by simp
  obtain ms1 where ms1: "mset ms1 + mset ps \<subseteq># mset fs" "\<forall>m\<in>set ms1. factor_held c m"
    "tot1 = sum_list (map meta_weight ms1)" "mset ms1 \<subseteq># mset fs"
  proof (cases "tot1 = tot")
    case True
    then show thesis
      using that [of ms] Cons.prems(4,5) sub1 by simp
  next
    case False
    then show thesis
      using that [of "p # ms"] vs Cons.prems(4,5) sub sub1(2) small by (auto simp: add32_small add.commute)
  qed
  show ?case
  proof (cases "tot1 \<ge> threshold")
    case True
    then show ?thesis
      using rest vs ms1 by auto
  next
    case False
    then show ?thesis
      using Cons.IH [of tot1 st1 ms1] rest vs ms1(1-3) by simp
  qed
qed simp

lemma satisfied_body_sound:
  assumes "authorities_bounded c" "\<forall>sat'. sat = Some sat' \<longrightarrow> satisfier_sound c sat'"
  shows "satisfier_sound c (satisfied_body c sat)"
  unfolding satisfier_sound_def
proof (intro allI impI)
  fix a st r st'
  assume bound: "authority_total_weight a < 2 ^ 32" and sound: "cache_sound c st"
    and res: "satisfied_body c sat a st = Inr (r, st')"
  obtain st1 where chk: "check_permissions (visit c sat) (auth_threshold a) (meta_permissions a) (0, st) = Inr (r, st1)"
    and st': "st' = (if r then st1 else st1\<lparr>used_keys_marks := used_keys_marks st\<rparr>)"
    using res by (auto simp: satisfied_body_def bind_r_Inr_iff)
  have "cache_sound c st1 \<and> (r \<longrightarrow> (\<exists>ms. mset ms \<subseteq># mset (authority_factors a) \<and> (\<forall>m\<in>set ms. factor_held c m)
      \<and> auth_threshold a \<le> sum_list (map meta_weight ms)))"
    using bound by (intro check_permissions_sound [OF assms chk sound, of "[]"]) (simp_all add: authority_factors_weight)
  then show "cache_sound c st' \<and> (r \<longrightarrow> authority_held c a)"
    using threshold by (auto simp: st')
qed

lemma satisfied_rec_sound: "authorities_bounded c \<Longrightarrow> satisfier_sound c (satisfied_rec c n)"
proof (induction n)
  case 0
  have "satisfied_rec c 0 = satisfied_body c None"
    by (simp add: fun_eq_iff)
  then show ?case
    using satisfied_body_sound [OF 0] by simp
next
  case (Suc n)
  have "satisfied_rec c (Suc n) = satisfied_body c (Some (satisfied_rec c n))"
    by (simp add: fun_eq_iff)
  then show ?case
    using satisfied_body_sound [OF Suc.prems] Suc by simp
qed

lemma find_initial_cache:
  "tbl_find p (initialize_permission_cache c) = (if p \<in> set (provided_permissions c) then Some permission_satisfied else None)"
proof -
  have "tbl_find p (fold (\<lambda>p cache. tbl_put p permission_satisfied cache) ps cache)
      = (if p \<in> set ps then Some permission_satisfied else tbl_find p cache)" for ps cache
    by (induction ps arbitrary: cache) auto
  then show ?thesis
    by (simp add: initialize_permission_cache_def)
qed

lemma initial_cache_sound: "cache_sound c (st\<lparr>cached_permissions := initialize_permission_cache c\<rparr>)"
  using provided by (auto simp: cache_sound_def find_initial_cache)

lemma satisfied_permission_sound:
  assumes "authorities_bounded c" "satisfied_permission c p st = Inr (True, st')"
  shows "permission_held c p"
proof -
  let ?sat = "case recursion_depth_limit c of 0 \<Rightarrow> None | Suc n \<Rightarrow> Some (satisfied_rec c n)"
  obtain tot where tot: "visit_permission c ?sat \<lparr>plw_permission = p, plw_weight = 1\<rparr>
      (0, st\<lparr>cached_permissions := initialize_permission_cache c\<rparr>) = Inr (tot, st')" "0 < tot"
    using assms(2) by (auto simp: satisfied_permission_def bind_r_Inr_iff)
  have "\<forall>sat'. ?sat = Some sat' \<longrightarrow> satisfier_sound c sat'"
    using satisfied_rec_sound [OF assms(1)] by (simp split: nat.split)
  from visit_permission_sound [OF assms(1) this initial_cache_sound tot(1)] show ?thesis
    using tot(2) by simp
qed

text \<open>
  C12. Soundness: when the checker answers that a permission is satisfied, the permission is
  really held, by provided permissions, keys and delay through authorities whose thresholds are
  reached, whatever the cache, the evaluation order and the depth limit did.
\<close>

theorem checker_permission_sound:
  assumes "authorities_bounded c" "satisfied_permission c p st = Inr (True, st')"
  shows "permission_held c p"
  using assms by (rule satisfied_permission_sound)

text \<open>
  The same for an authority handed to the checker directly: a positive answer means that
  held factors of the authority reach its threshold.
\<close>

theorem checker_authority_sound:
  assumes "authorities_bounded c" "authority_total_weight a < 2 ^ 32" "satisfied_authority c a st = Inr (True, st')"
  shows "authority_held c a"
  using satisfied_rec_sound [OF assms(1)] assms(2,3) initial_cache_sound
  unfolding satisfied_authority_def satisfier_sound_def by blast

section \<open>What is provided directly counts\<close>

definition directly_provided :: "checker \<Rightarrow> permission_level \<Rightarrow> bool" where
  "directly_provided c p \<longleftrightarrow> p \<in> set (provided_permissions c) \<or> (fst p, 0) \<in> set (provided_permissions c)"

fun directly_held :: "checker \<Rightarrow> meta_permission \<Rightarrow> bool" where
  "directly_held c (account_permission p) \<longleftrightarrow> directly_provided c (plw_permission p)"
| "directly_held c (key_permission k) \<longleftrightarrow> kw_key k \<in> set (provided_keys c)"
| "directly_held c (wait_permission w) \<longleftrightarrow> int (ww_wait_sec w) * 1000000 \<le> provided_delay c"

definition direct_weight :: "checker \<Rightarrow> meta_permission list \<Rightarrow> nat" where
  "direct_weight c ms = sum_list (map meta_weight (filter (directly_held c) ms))"

text \<open>The only exception the lookup of an authority raises is that the permission does not exist.\<close>

definition only_query_errors :: "checker \<Rightarrow> bool" where
  "only_query_errors c \<longleftrightarrow> (\<forall>p e. permission_to_authority c p = Inl e \<longrightarrow> e = permission_query_exception)"

definition cache_direct :: "checker \<Rightarrow> checker_state \<Rightarrow> bool" where
  "cache_direct c st \<longleftrightarrow>
     (\<forall>p\<in>set (provided_permissions c). tbl_find p (cached_permissions st) = Some permission_satisfied)
     \<and> (\<forall>a q s. (a, 0) \<in> set (provided_permissions c) \<longrightarrow> tbl_find (a, q) (cached_permissions st) = Some s \<longrightarrow>
          s = permission_satisfied)"

definition satisfier_total :: "checker \<Rightarrow> satisfier \<Rightarrow> bool" where
  "satisfier_total c sat \<longleftrightarrow>
     (\<forall>a st. cache_direct c st \<longrightarrow> (\<exists>r st'. sat a st = Inr (r, st') \<and> cache_direct c st'))"

lemma cache_direct_marks [simp]: "cache_direct c (st\<lparr>used_keys_marks := ms\<rparr>) = cache_direct c st"
  by (simp add: cache_direct_def)

lemma cache_direct_put:
  "cache_direct c st \<Longrightarrow> \<not> directly_provided c p \<Longrightarrow>
     cache_direct c (st\<lparr>cached_permissions := tbl_put p s (cached_permissions st)\<rparr>)"
  unfolding cache_direct_def directly_provided_def by auto

lemma cache_direct_status:
  assumes "cache_direct c st"
  shows "directly_provided c p \<Longrightarrow> permission_status_in_cache (cached_permissions st) p = Some permission_satisfied"
  using assms by (cases p) (auto simp: cache_direct_def directly_provided_def permission_status_in_cache_def split: option.split)

lemma visit_permission_total:
  assumes "only_query_errors c" "\<forall>sat'. sat = Some sat' \<longrightarrow> satisfier_total c sat'" "cache_direct c st"
  shows "\<exists>tot' st'. visit_permission c sat p (tot, st) = Inr (tot', st') \<and> cache_direct c st'
    \<and> (tot' = tot \<or> tot' = add32 tot (plw_weight p))
    \<and> (directly_provided c (plw_permission p) \<longrightarrow> tot' = add32 tot (plw_weight p))"
proof (cases "permission_status_in_cache (cached_permissions st) (plw_permission p)")
  case (Some s)
  then show ?thesis
    using assms(3) cache_direct_status [OF assms(3), of "plw_permission p"] by (auto simp: visit_permission_def)
next
  case None
  then have nd: "\<not> directly_provided c (plw_permission p)"
    using cache_direct_status [OF assms(3), of "plw_permission p"] by auto
  show ?thesis
  proof (cases sat)
    case None2: None
    then show ?thesis
      using None nd assms(3) by (auto simp: visit_permission_def)
  next
    case (Some sat')
    show ?thesis
    proof (cases "permission_to_authority c (plw_permission p)")
      case (Inl e)
      then have "e = permission_query_exception"
        using assms(1) unfolding only_query_errors_def by blast
      then show ?thesis
        using None nd assms(3) Some Inl by (auto simp: visit_permission_def)
    next
      case (Inr auth)
      let ?st = "st\<lparr>cached_permissions := tbl_put (plw_permission p) being_evaluated (cached_permissions st)\<rparr>"
      obtain r st1 where "sat' auth ?st = Inr (r, st1)" "cache_direct c st1"
        using assms(2) Some cache_direct_put [OF assms(3) nd] unfolding satisfier_total_def by blast
      then show ?thesis
        using None nd Some Inr by (auto simp: visit_permission_def intro!: cache_direct_put)
    qed
  qed
qed

lemma visit_total:
  assumes "only_query_errors c" "\<forall>sat'. sat = Some sat' \<longrightarrow> satisfier_total c sat'" "cache_direct c st"
  shows "\<exists>tot' st'. visit c sat m (tot, st) = Inr (tot', st') \<and> cache_direct c st'
    \<and> (tot' = tot \<or> tot' = add32 tot (meta_weight m)) \<and> (directly_held c m \<longrightarrow> tot' = add32 tot (meta_weight m))"
proof (cases m)
  case (account_permission p)
  then show ?thesis
    using visit_permission_total [OF assms] by simp
next
  case (key_permission k)
  then show ?thesis
    using assms(3) find_index_None [of "kw_key k" "provided_keys c"] by (auto simp: visit_key_def split: option.split)
next
  case (wait_permission w)
  then show ?thesis
    using assms(3) by (auto simp: visit_wait_def)
qed

lemma direct_weight_Cons [simp]:
  "direct_weight c (m # ms) = (if directly_held c m then meta_weight m else 0) + direct_weight c ms"
  by (simp add: direct_weight_def)

lemma direct_weight_Nil [simp]: "direct_weight c [] = 0"
  by (simp add: direct_weight_def)

lemma check_permissions_total:
  assumes "only_query_errors c" "\<forall>sat'. sat = Some sat' \<longrightarrow> satisfier_total c sat'"
  shows "cache_direct c st \<Longrightarrow>
    \<exists>r st'. check_permissions (visit c sat) threshold ps (tot, st) = Inr (r, st') \<and> cache_direct c st'
      \<and> (tot < threshold \<longrightarrow> tot + sum_list (map meta_weight ps) < 2 ^ 32 \<longrightarrow> threshold \<le> tot + direct_weight c ps \<longrightarrow> r)"
proof (induction ps arbitrary: tot st)
  case (Cons p ps)
  obtain tot1 st1 where v: "visit c sat p (tot, st) = Inr (tot1, st1)" "cache_direct c st1"
    "tot1 = tot \<or> tot1 = add32 tot (meta_weight p)" "directly_held c p \<longrightarrow> tot1 = add32 tot (meta_weight p)"
    using visit_total [OF assms Cons.prems] by blast
  show ?case
  proof (cases "tot1 \<ge> threshold")
    case True
    then show ?thesis
      using v by auto
  next
    case False
    obtain r st' where "check_permissions (visit c sat) threshold ps (tot1, st1) = Inr (r, st')" "cache_direct c st'"
      "tot1 + sum_list (map meta_weight ps) < 2 ^ 32 \<longrightarrow> threshold \<le> tot1 + direct_weight c ps \<longrightarrow> r"
      using Cons.IH [OF v(2), of tot1] False by auto
    then show ?thesis
      using v False by (auto simp: add32_small)
  qed
qed auto

lemma satisfied_body_total:
  assumes "only_query_errors c" "\<forall>sat'. sat = Some sat' \<longrightarrow> satisfier_total c sat'"
  shows "satisfier_total c (satisfied_body c sat)"
  unfolding satisfier_total_def
proof (intro allI impI)
  fix a st
  assume "cache_direct c st"
  then obtain r st' where "check_permissions (visit c sat) (auth_threshold a) (meta_permissions a) (0, st) = Inr (r, st')"
    "cache_direct c st'"
    using check_permissions_total [OF assms] by blast
  then show "\<exists>r st'. satisfied_body c sat a st = Inr (r, st') \<and> cache_direct c st'"
    by (simp add: satisfied_body_def)
qed

lemma satisfied_rec_unfold:
  "satisfied_rec c n = satisfied_body c (case n of 0 \<Rightarrow> None | Suc n \<Rightarrow> Some (satisfied_rec c n))"
  by (cases n) (simp_all add: fun_eq_iff)

lemma satisfied_rec_total: "only_query_errors c \<Longrightarrow> satisfier_total c (satisfied_rec c n)"
  by (induction n) (subst satisfied_rec_unfold, rule satisfied_body_total; simp)+

lemma initial_cache_direct: "cache_direct c (st\<lparr>cached_permissions := initialize_permission_cache c\<rparr>)"
  by (auto simp: cache_direct_def find_initial_cache split: if_splits)

lemma direct_weight_meta: "direct_weight c (meta_permissions a) = direct_weight c (authority_factors a)"
  unfolding direct_weight_def by (simp flip: sum_mset_sum_list add: mset_filter)

text \<open>
  C13. Completeness for what the caller provides: the checker always returns, and it answers yes
  whenever the keys, permissions and delay provided directly carry enough weight for a valid
  authority, whatever other permissions the authority delegates to.
\<close>

theorem checker_direct_complete:
  assumes "only_query_errors c" "authority_validate a" "weights_u16 a"
    and "auth_threshold a \<le> direct_weight c (authority_factors a)"
  shows "\<exists>st'. satisfied_authority c a st = Inr (True, st')"
proof -
  let ?st = "st\<lparr>cached_permissions := initialize_permission_cache c\<rparr>"
  let ?sat = "case recursion_depth_limit c of 0 \<Rightarrow> None | Suc n \<Rightarrow> Some (satisfied_rec c n)"
  have pos: "0 < auth_threshold a" and bound: "authority_total_weight a < 2 ^ 32"
    using assms(2) authority_total_weight_bound [OF _ assms(3)] by (auto simp: authority_validate_def split: if_splits)
  have total: "\<forall>sat'. ?sat = Some sat' \<longrightarrow> satisfier_total c sat'"
    using satisfied_rec_total [OF assms(1)] by (simp split: nat.split)
  have "sum_list (map meta_weight (meta_permissions a)) = authority_total_weight a"
    by (simp flip: sum_mset_sum_list authority_factors_weight)
  then obtain st' where "check_permissions (visit c ?sat) (auth_threshold a) (meta_permissions a) (0, ?st) = Inr (True, st')"
    using check_permissions_total [OF assms(1) total initial_cache_direct,
        where threshold = "auth_threshold a" and ps = "meta_permissions a" and tot = 0 and st1 = st]
      pos bound assms(4) by (auto simp: direct_weight_meta)
  then show ?thesis
    by (simp add: satisfied_authority_def satisfied_rec_unfold [of c "recursion_depth_limit c"] satisfied_body_def)
qed

section \<open>Concrete checks\<close>

text \<open>
  Account 1's permission needs both account 2's permission and a key nobody provides, account 3's
  needs only account 2's, and account 2's needs key 7, the one key provided. The authority checked
  accepts either account 1 (tried first, for its weight) or account 3.
\<close>

definition sample_authority :: "permission_level \<Rightarrow> authority result" where
  "sample_authority p =
     (if p = (1, 1) then Inr \<lparr>auth_threshold = 2, auth_keys = [\<lparr>kw_key = 9, kw_weight = 1\<rparr>],
        auth_accounts = [\<lparr>plw_permission = (2, 1), plw_weight = 1\<rparr>], auth_waits = []\<rparr>
      else if p = (2, 1) then Inr (authority_of_key 7 0)
      else if p = (3, 1) then Inr (authority_of_permission (2, 1) 0)
      else Inl permission_query_exception)"

definition sample_checker :: checker where
  "sample_checker = \<lparr>permission_to_authority = sample_authority, provided_keys = [7], provided_permissions = [(8, 1)],
     provided_delay = 0, recursion_depth_limit = 6\<rparr>"

definition sample_top :: authority where
  "sample_top = \<lparr>auth_threshold = 1, auth_keys = [], auth_accounts = [\<lparr>plw_permission = (1, 1), plw_weight = 2\<rparr>,
     \<lparr>plw_permission = (3, 1), plw_weight = 1\<rparr>], auth_waits = []\<rparr>"

lemmas sample_checker_simps = sample_checker_def sample_authority_def authority_of_key_def authority_of_permission_def
  checker_init_def initialize_permission_cache_def satisfied_body_def meta_permissions_def authority_factors_def
  meta_key_def visit_key_def visit_permission_def permission_status_in_cache_def tbl_find_def

lemma satisfied_rec_numeral:
  "satisfied_rec c (numeral k) auth st = satisfied_body c (Some (satisfied_rec c (pred_numeral k))) auth st"
  by (simp add: numeral_eq_Suc)

lemma sample_bounded: "authorities_bounded sample_checker"
  by (auto simp: authorities_bounded_def sample_checker_def sample_authority_def authority_total_weight_def
      authority_of_key_def authority_of_permission_def split: if_splits)

theorem checker_permission_sound_witness:
  "(\<exists>st'. satisfied_permission sample_checker (3, 1) (checker_init sample_checker) = Inr (True, st'))
   \<and> permission_held sample_checker (3, 1)"
proof -
  have "\<exists>st'. satisfied_permission sample_checker (3, 1) (checker_init sample_checker) = Inr (True, st')"
    by (simp add: satisfied_permission_def sample_checker_simps satisfied_rec_numeral add32_def)
  then show ?thesis
    using checker_permission_sound [OF sample_bounded] by blast
qed

theorem checker_authority_sound_witness:
  "(\<exists>st'. satisfied_authority sample_checker sample_top (checker_init sample_checker) = Inr (True, st'))
   \<and> authority_held sample_checker sample_top"
proof -
  have "\<exists>st'. satisfied_authority sample_checker sample_top (checker_init sample_checker) = Inr (True, st')"
    by (simp add: satisfied_authority_def sample_top_def sample_checker_simps satisfied_rec_numeral add32_def)
  moreover have "authority_total_weight sample_top < 2 ^ 32"
    by (simp add: sample_top_def authority_total_weight_def)
  ultimately show ?thesis
    using checker_authority_sound [OF sample_bounded] by blast
qed

theorem checker_direct_complete_witness:
  "\<exists>st'. satisfied_authority sample_checker \<lparr>auth_threshold = 2, auth_keys = [\<lparr>kw_key = 7, kw_weight = 1\<rparr>],
     auth_accounts = [\<lparr>plw_permission = (5, 1), plw_weight = 3\<rparr>, \<lparr>plw_permission = (8, 1), plw_weight = 1\<rparr>], auth_waits = []\<rparr>
     (checker_init sample_checker) = Inr (True, st')"
  by (rule checker_direct_complete)
    (auto simp: only_query_errors_def sample_checker_def sample_authority_def authority_validate_def weights_u16_def
      direct_weight_def authority_factors_def directly_provided_def add32_def split: if_splits)

text \<open>
  The marks of used keys can miss a key that was needed: when an authority fails after a
  nested permission was satisfied, the marks are restored but the cache keeps that permission as
  satisfied, so a later use of the cached permission succeeds without marking its key. Here the
  authority is satisfied only through key 7, and key 7 is reported as unused.
\<close>

theorem used_keys_lost_by_cache:
  "\<exists>st'. satisfied_authority sample_checker sample_top (checker_init sample_checker) = Inr (True, st')
     \<and> used_keys sample_checker st' = [] \<and> unused_keys sample_checker st' = [7] \<and> \<not> all_keys_used st'"
  by (simp add: satisfied_authority_def sample_top_def sample_checker_simps satisfied_rec_numeral add32_def used_keys_def unused_keys_def
      filter_data_by_marker_def all_keys_used_def)

end
