(* ===== verification/Authorization_Check.thy ===== *)
theory Authorization_Check
  imports Authorization Authority_Checker
begin

text \<open>
  Whether a transaction is authorized (\<^verbatim>\<open>authorization_manager.cpp\<close>): the declared authorizations must
  be at least the permission each action asks for, and each must be satisfied by the keys,
  permissions and delay of the transaction. The actions of the system contract that change
  permissions have checks of their own.
\<close>

section \<open>Arguments of the native actions\<close>

record updateauth =
  ua_account :: account_name
  ua_permission :: name
  ua_parent :: name
  ua_auth :: authority

record deleteauth =
  da_account :: account_name
  da_permission :: name

record linkauth =
  la_account :: account_name
  la_code :: account_name
  la_type :: name
  la_requirement :: name

record unlinkauth =
  ula_account :: account_name
  ula_code :: account_name
  ula_type :: name

record canceldelay =
  cd_canceling_auth :: permission_level
  cd_trx_id :: digest

text \<open>The reader of packed arguments.\<close>

record native_codec =
  unpack_updateauth :: "bytes \<Rightarrow> updateauth result"
  unpack_deleteauth :: "bytes \<Rightarrow> deleteauth result"
  unpack_linkauth :: "bytes \<Rightarrow> linkauth result"
  unpack_unlinkauth :: "bytes \<Rightarrow> unlinkauth result"
  unpack_canceldelay :: "bytes \<Rightarrow> canceldelay result"
  unpack_delayed_trx :: "bytes \<Rightarrow> transaction result"

definition data_as :: "(bytes \<Rightarrow> 'a result) \<Rightarrow> name \<Rightarrow> action \<Rightarrow> 'a result" where
  "data_as unpack nm act =
     bind_r (eos_assert (act_account act = system_account_name) action_type_exception) (\<lambda>_.
     bind_r (eos_assert (act_name act = nm) action_type_exception) (\<lambda>_.
       unpack (act_data act)))"

section \<open>The checks of the native actions\<close>

definition assert_satisfies :: "authorization_db \<Rightarrow> permission_level \<Rightarrow> permission_object \<Rightarrow> unit result" where
  "assert_satisfies db auth min_permission =
     bind_r (get_permission db auth) (\<lambda>p.
     bind_r (satisfies p min_permission (adb_permissions db)) (\<lambda>ok.
       eos_assert ok irrelevant_auth_exception))"

text \<open>The object of the call is evaluated before its argument.\<close>

definition assert_satisfies_level :: "authorization_db \<Rightarrow> permission_level \<Rightarrow> permission_level \<Rightarrow> unit result" where
  "assert_satisfies_level db auth level =
     bind_r (get_permission db auth) (\<lambda>p.
     bind_r (get_permission db level) (\<lambda>min_permission.
     bind_r (satisfies p min_permission (adb_permissions db)) (\<lambda>ok.
       eos_assert ok irrelevant_auth_exception)))"

definition check_updateauth_authorization ::
    "authorization_db \<Rightarrow> updateauth \<Rightarrow> permission_level list \<Rightarrow> unit result" where
  "check_updateauth_authorization db update auths =
     bind_r (eos_assert (length auths = 1) irrelevant_auth_exception) (\<lambda>_.
     bind_r (eos_assert (fst (auths ! 0) = ua_account update) irrelevant_auth_exception) (\<lambda>_.
     bind_r (find_permission db (ua_account update, ua_permission update)) (\<lambda>found.
     bind_r (case found of Some p \<Rightarrow> Inr p | None \<Rightarrow> get_permission db (ua_account update, ua_parent update)) (\<lambda>min_permission.
       assert_satisfies db (auths ! 0) min_permission))))"

definition check_deleteauth_authorization ::
    "authorization_db \<Rightarrow> deleteauth \<Rightarrow> permission_level list \<Rightarrow> unit result" where
  "check_deleteauth_authorization db del auths =
     bind_r (eos_assert (length auths = 1) irrelevant_auth_exception) (\<lambda>_.
     bind_r (eos_assert (fst (auths ! 0) = da_account del) irrelevant_auth_exception) (\<lambda>_.
     bind_r (get_permission db (da_account del, da_permission del)) (\<lambda>min_permission.
       assert_satisfies db (auths ! 0) min_permission)))"

definition check_linkauth_authorization ::
    "authorization_control \<Rightarrow> authorization_db \<Rightarrow> linkauth \<Rightarrow> permission_level list \<Rightarrow> unit result" where
  "check_linkauth_authorization ctl db link auths =
     bind_r (eos_assert (length auths = 1) irrelevant_auth_exception) (\<lambda>_.
     bind_r (eos_assert (fst (auths ! 0) = la_account link) irrelevant_auth_exception) (\<lambda>_.
     bind_r (if la_code link = system_account_name \<or> \<not> ac_fix_linkauth_restriction ctl
             then eos_assert (\<not> unlinkable_action (la_type link)) action_validate_exception else Inr ()) (\<lambda>_.
     bind_r (lookup_minimum_permission db (la_account link) (la_code link) (la_type link)) (\<lambda>linked.
       (case linked of
          None \<Rightarrow> Inr ()
        | Some linked_permission_name \<Rightarrow>
            assert_satisfies_level db (auths ! 0) (la_account link, linked_permission_name))))))"

definition check_unlinkauth_authorization ::
    "authorization_db \<Rightarrow> unlinkauth \<Rightarrow> permission_level list \<Rightarrow> unit result" where
  "check_unlinkauth_authorization db unlink auths =
     bind_r (eos_assert (length auths = 1) irrelevant_auth_exception) (\<lambda>_.
     bind_r (eos_assert (fst (auths ! 0) = ula_account unlink) irrelevant_auth_exception) (\<lambda>_.
     bind_r (of_option transaction_exception (lookup_linked_permission db (ula_account unlink) (ula_code unlink) (ula_type unlink))) (\<lambda>unlinked.
       if unlinked = eosio_any_name then Inr ()
       else assert_satisfies_level db (auths ! 0) (ula_account unlink, unlinked))))"

text \<open>
  The index of deferred transactions by identifier is unique, so the lower bound is the
  transaction itself when there is one and another transaction otherwise.
\<close>

definition check_canceldelay_authorization ::
    "native_codec \<Rightarrow> authorization_control \<Rightarrow> authorization_db \<Rightarrow> canceldelay \<Rightarrow> permission_level list \<Rightarrow> int result" where
  "check_canceldelay_authorization codec ctl db cancel auths =
     bind_r (eos_assert (length auths = 1) irrelevant_auth_exception) (\<lambda>_.
     bind_r (assert_satisfies_level db (auths ! 0) (cd_canceling_auth cancel)) (\<lambda>_.
     bind_r (of_option tx_not_found (List.find (\<lambda>g. gto_trx_id g = cd_trx_id cancel) (ac_generated_transactions ctl))) (\<lambda>g.
     bind_r (eos_assert (gto_sender g = 0) tx_not_found) (\<lambda>_.
     bind_r (unpack_delayed_trx codec (gto_packed_trx g)) (\<lambda>trx.
     bind_r (eos_assert (\<exists>act\<in>set (actions trx). cd_canceling_auth cancel \<in> set (act_authorization act)) action_validate_exception) (\<lambda>_.
       Inr (wrap_i64 (gto_delay_until g - gto_published g))))))))"

section \<open>The check of a transaction\<close>

text \<open>The largest number of microseconds.\<close>

definition microseconds_maximum :: int where
  "microseconds_maximum = 2 ^ 63 - 1"

definition effective_delay :: "authorization_control \<Rightarrow> int \<Rightarrow> int" where
  "effective_delay ctl delay =
     (if delay \<ge> int (ac_max_transaction_delay ctl) * 1000000 then microseconds_maximum else delay)"

definition make_auth_checker ::
    "authorization_control \<Rightarrow> authorization_db \<Rightarrow> public_key_type list \<Rightarrow> permission_level list \<Rightarrow> int \<Rightarrow> checker" where
  "make_auth_checker ctl db keys permissions delay =
     \<lparr>permission_to_authority = (\<lambda>p. bind_r (get_permission db p) (\<lambda>o'. Inr (po_auth o'))),
      provided_keys = keys, provided_permissions = permissions, provided_delay = delay,
      recursion_depth_limit = ac_max_authority_depth ctl\<rparr>"

text \<open>Whether the action is a special case, and the delay that counts for it.\<close>

definition check_native_action ::
    "native_codec \<Rightarrow> authorization_control \<Rightarrow> authorization_db \<Rightarrow> int \<Rightarrow> action \<Rightarrow> (bool \<times> int) result" where
  "check_native_action codec ctl db delay act =
     (if act_account act \<noteq> system_account_name then Inr (False, delay)
      else if act_name act = string_to_name ''updateauth'' then
        bind_r (data_as (unpack_updateauth codec) (string_to_name ''updateauth'') act) (\<lambda>a.
        bind_r (check_updateauth_authorization db a (act_authorization act)) (\<lambda>_. Inr (True, delay)))
      else if act_name act = string_to_name ''deleteauth'' then
        bind_r (data_as (unpack_deleteauth codec) (string_to_name ''deleteauth'') act) (\<lambda>a.
        bind_r (check_deleteauth_authorization db a (act_authorization act)) (\<lambda>_. Inr (True, delay)))
      else if act_name act = string_to_name ''linkauth'' then
        bind_r (data_as (unpack_linkauth codec) (string_to_name ''linkauth'') act) (\<lambda>a.
        bind_r (check_linkauth_authorization ctl db a (act_authorization act)) (\<lambda>_. Inr (True, delay)))
      else if act_name act = string_to_name ''unlinkauth'' then
        bind_r (data_as (unpack_unlinkauth codec) (string_to_name ''unlinkauth'') act) (\<lambda>a.
        bind_r (check_unlinkauth_authorization db a (act_authorization act)) (\<lambda>_. Inr (True, delay)))
      else if act_name act = string_to_name ''canceldelay'' then
        bind_r (data_as (unpack_canceldelay codec) (string_to_name ''canceldelay'') act) (\<lambda>a.
        bind_r (check_canceldelay_authorization codec ctl db a (act_authorization act)) (\<lambda>d. Inr (True, max delay d)))
      else Inr (False, delay))"

definition check_minimum_permission :: "authorization_db \<Rightarrow> action \<Rightarrow> permission_level \<Rightarrow> unit result" where
  "check_minimum_permission db act declared_auth =
     bind_r (lookup_minimum_permission db (fst declared_auth) (act_account act) (act_name act)) (\<lambda>found.
       (case found of
          None \<Rightarrow> Inr ()
        | Some min_permission_name \<Rightarrow>
            bind_r (get_permission db (fst declared_auth, min_permission_name)) (\<lambda>min_permission.
              assert_satisfies db declared_auth min_permission)))"

type_synonym to_satisfy = "(permission_level, int) table"

definition emplace_delay :: "permission_level \<Rightarrow> int \<Rightarrow> to_satisfy \<Rightarrow> to_satisfy" where
  "emplace_delay level delay m =
     (case tbl_find level m of
        None \<Rightarrow> tbl_put level delay m
      | Some d \<Rightarrow> if d > delay then tbl_put level delay m else m)"

text \<open>
  \<open>checktime n\<close> is the outcome of the \<open>n\<close>-th call of the callback, which may throw; the loops count
  their calls.
\<close>

fun declared_loop ::
    "authorization_db \<Rightarrow> (nat \<Rightarrow> unit result) \<Rightarrow> permission_level list \<Rightarrow> action \<Rightarrow> bool \<Rightarrow> int
       \<Rightarrow> permission_level list \<Rightarrow> nat \<times> to_satisfy \<Rightarrow> (nat \<times> to_satisfy) result" where
  "declared_loop db checktime satisfied act special delay [] s = Inr s"
| "declared_loop db checktime satisfied act special delay (declared_auth # rest) (n, m) =
     bind_r (checktime n) (\<lambda>_.
     bind_r (if special then Inr () else check_minimum_permission db act declared_auth) (\<lambda>_.
       declared_loop db checktime satisfied act special delay rest
         (n + 1, if declared_auth \<in> set satisfied then m else emplace_delay declared_auth delay m)))"

fun action_loop ::
    "native_codec \<Rightarrow> authorization_control \<Rightarrow> authorization_db \<Rightarrow> (nat \<Rightarrow> unit result) \<Rightarrow> permission_level list \<Rightarrow> int
       \<Rightarrow> action list \<Rightarrow> nat \<times> to_satisfy \<Rightarrow> (nat \<times> to_satisfy) result" where
  "action_loop codec ctl db checktime satisfied effective [] s = Inr s"
| "action_loop codec ctl db checktime satisfied effective (act # acts) s =
     bind_r (check_native_action codec ctl db effective act) (\<lambda>(special, delay).
     bind_r (declared_loop db checktime satisfied act special delay (act_authorization act) s) (\<lambda>s.
       action_loop codec ctl db checktime satisfied effective acts s))"

fun satisfy_loop ::
    "checker \<Rightarrow> (nat \<Rightarrow> unit result) \<Rightarrow> (permission_level \<times> int) list \<Rightarrow> nat \<Rightarrow> checker_state \<Rightarrow> checker_state result" where
  "satisfy_loop c checktime [] n st = Inr st"
| "satisfy_loop c checktime ((level, delay) # rest) n st =
     bind_r (checktime n) (\<lambda>_.
     bind_r (satisfied_permission_delay c level delay st) (\<lambda>(ok, st).
     bind_r (eos_assert ok unsatisfied_authorization) (\<lambda>_.
       satisfy_loop c checktime rest (n + 1) st)))"

definition noop_checktime :: "nat \<Rightarrow> unit result" where
  "noop_checktime n = Inr ()"

definition check_authorization ::
    "native_codec \<Rightarrow> authorization_control \<Rightarrow> authorization_db \<Rightarrow> action list \<Rightarrow> public_key_type list \<Rightarrow> permission_level list
       \<Rightarrow> int \<Rightarrow> (nat \<Rightarrow> unit result) option \<Rightarrow> bool \<Rightarrow> permission_level list \<Rightarrow> unit result" where
  "check_authorization codec ctl db acts keys permissions delay checktime allow_unused_keys satisfied =
     (let checktime = (case checktime of Some f \<Rightarrow> f | None \<Rightarrow> noop_checktime);
          effective = effective_delay ctl delay;
          c = make_auth_checker ctl db keys permissions effective
      in
     bind_r (action_loop codec ctl db checktime satisfied effective acts (0, [])) (\<lambda>(n, m).
     bind_r (satisfy_loop c checktime m n (checker_init c)) (\<lambda>st.
       if allow_unused_keys then Inr () else eos_assert (all_keys_used st) tx_irrelevant_sig)))"

text \<open>The overload for one permission.\<close>

definition check_authorization_permission ::
    "authorization_control \<Rightarrow> authorization_db \<Rightarrow> account_name \<Rightarrow> name \<Rightarrow> public_key_type list \<Rightarrow> permission_level list
       \<Rightarrow> int \<Rightarrow> bool \<Rightarrow> unit result" where
  "check_authorization_permission ctl db account permission keys permissions delay allow_unused_keys =
     (let c = make_auth_checker ctl db keys permissions (effective_delay ctl delay) in
     bind_r (satisfied_permission c (account, permission) (checker_init c)) (\<lambda>(ok, st).
     bind_r (eos_assert ok unsatisfied_authorization) (\<lambda>_.
       if allow_unused_keys then Inr () else eos_assert (all_keys_used st) tx_irrelevant_sig)))"

fun required_keys_loop :: "checker \<Rightarrow> permission_level list \<Rightarrow> checker_state \<Rightarrow> checker_state result" where
  "required_keys_loop c [] st = Inr st"
| "required_keys_loop c (declared_auth # rest) st =
     bind_r (satisfied_permission c declared_auth st) (\<lambda>(ok, st).
     bind_r (eos_assert ok unsatisfied_authorization) (\<lambda>_.
       required_keys_loop c rest st))"

definition get_required_keys ::
    "authorization_control \<Rightarrow> authorization_db \<Rightarrow> 'a transaction_scheme \<Rightarrow> public_key_type list \<Rightarrow> int \<Rightarrow> public_key_type list result" where
  "get_required_keys ctl db trx candidate_keys delay =
     (let c = make_auth_checker ctl db candidate_keys [] delay in
     bind_r (required_keys_loop c (concat (map act_authorization (actions trx))) (checker_init c)) (\<lambda>st.
       Inr (used_keys c st)))"

section \<open>A longer delay satisfies more\<close>

lemma held_delay_mono:
  assumes "d \<le> d'"
  shows "permission_held (c\<lparr>provided_delay := d\<rparr>) p \<Longrightarrow> permission_held (c\<lparr>provided_delay := d'\<rparr>) p"
    and "factor_held (c\<lparr>provided_delay := d\<rparr>) m \<Longrightarrow> factor_held (c\<lparr>provided_delay := d'\<rparr>) m"
    and "authority_held (c\<lparr>provided_delay := d\<rparr>) a \<Longrightarrow> authority_held (c\<lparr>provided_delay := d'\<rparr>) a"
proof (induction rule: permission_held_factor_held_authority_held.inducts)
  case (wait w)
  then show ?case
    using assms by (intro permission_held_factor_held_authority_held.wait) auto
qed (auto intro: permission_held_factor_held_authority_held.intros)

section \<open>The loops\<close>

text \<open>Every entry of the map stays, with a delay that only decreases.\<close>

definition covered :: "to_satisfy \<Rightarrow> permission_level \<Rightarrow> int \<Rightarrow> bool" where
  "covered m level delay \<longleftrightarrow> (\<exists>d\<le>delay. tbl_find level m = Some d)"

lemma emplace_covered: "covered (emplace_delay level delay m) level delay"
  by (auto simp: covered_def emplace_delay_def split: option.splits)

lemma emplace_keeps: "covered m level' d \<Longrightarrow> covered (emplace_delay level delay m) level' d"
  by (auto simp: covered_def emplace_delay_def split: option.splits)

lemma declared_loop_Inr:
  "declared_loop db checktime satisfied act special delay auths (n, m) = Inr (n', m') \<Longrightarrow>
     (\<forall>level\<in>set auths. (level \<in> set satisfied \<or> covered m' level delay) \<and>
        (special \<or> check_minimum_permission db act level = Inr ())) \<and>
     (\<forall>level d. covered m level d \<longrightarrow> covered m' level d)"
proof (induction auths arbitrary: n m)
  case (Cons a auths)
  let ?m = "if a \<in> set satisfied then m else emplace_delay a delay m"
  from Cons.prems have min: "special \<or> check_minimum_permission db act a = Inr ()"
    and rest: "declared_loop db checktime satisfied act special delay auths (n + 1, ?m) = Inr (n', m')"
    by (auto simp: bind_r_Inr_iff split: if_splits)
  have "covered m level d \<Longrightarrow> covered ?m level d" for level d
    by (simp add: emplace_keeps)
  then show ?case
    using Cons.IH [OF rest] min emplace_covered [of a delay m] by (cases a) (auto split: if_splits)
qed simp

lemma action_loop_Inr:
  "action_loop codec ctl db checktime satisfied eff acts (n, m) = Inr (n', m') \<Longrightarrow>
     (\<forall>act\<in>set acts. \<exists>special delay. check_native_action codec ctl db eff act = Inr (special, delay) \<and>
        (\<forall>level\<in>set (act_authorization act). (level \<in> set satisfied \<or> covered m' level delay) \<and>
           (special \<or> check_minimum_permission db act level = Inr ()))) \<and>
     (\<forall>level d. covered m level d \<longrightarrow> covered m' level d)"
proof (induction acts arbitrary: n m)
  case (Cons act acts)
  from Cons.prems obtain special delay n1 m1 where nat: "check_native_action codec ctl db eff act = Inr (special, delay)"
    and decl: "declared_loop db checktime satisfied act special delay (act_authorization act) (n, m) = Inr (n1, m1)"
    and rest: "action_loop codec ctl db checktime satisfied eff acts (n1, m1) = Inr (n', m')"
    by (auto simp: bind_r_Inr_iff)
  note d = declared_loop_Inr [OF decl]
  note r = Cons.IH [OF rest]
  have "\<exists>special delay. check_native_action codec ctl db eff act = Inr (special, delay) \<and>
        (\<forall>level\<in>set (act_authorization act). (level \<in> set satisfied \<or> covered m' level delay) \<and>
           (special \<or> check_minimum_permission db act level = Inr ()))"
    using nat d r by blast
  with d r show ?case
    by simp
qed simp

lemma satisfy_loop_Inr:
  assumes "authorities_bounded c"
  shows "satisfy_loop c checktime m n st = Inr st' \<Longrightarrow> (level, d) \<in> set m \<Longrightarrow> permission_held (c\<lparr>provided_delay := d\<rparr>) level"
proof (induction m arbitrary: n st)
  case (Cons x m)
  obtain level' d' where x: "x = (level', d')"
    by (cases x)
  from Cons.prems(1) obtain st1 where one: "satisfied_permission_delay c level' d' st = Inr (True, st1)"
    and rest: "satisfy_loop c checktime m (n + 1) st1 = Inr st'"
    by (auto simp: x bind_r_Inr_iff)
  have "authorities_bounded (c\<lparr>provided_delay := d'\<rparr>)"
    using assms by (simp add: authorities_bounded_def)
  then have "permission_held (c\<lparr>provided_delay := d'\<rparr>) level'"
    using satisfied_permission_sound one by (auto simp: satisfied_permission_delay_def)
  then show ?case
    using Cons.IH [OF rest] Cons.prems(2) x by auto
qed simp

section \<open>Soundness\<close>

text \<open>A declared permission is the one that is required or stands above it.\<close>

definition level_covers :: "authorization_db \<Rightarrow> permission_level \<Rightarrow> permission_level \<Rightarrow> bool" where
  "level_covers db level required \<longleftrightarrow>
     (\<exists>p q. find_by_owner db level = Some p \<and> find_by_owner db required = Some q \<and>
        (p = q \<or> ancestor (adb_permissions db) (po_id p) (po_id q)))"

text \<open>The permission the links of an account require for an action of a contract, if any.\<close>

definition covers_minimum :: "authorization_db \<Rightarrow> permission_level \<Rightarrow> account_name \<Rightarrow> account_name \<Rightarrow> name \<Rightarrow> bool" where
  "covers_minimum db level account code type \<longleftrightarrow>
     (case lookup_minimum_permission db account code type of
        Inl _ \<Rightarrow> False
      | Inr None \<Rightarrow> True
      | Inr (Some nm) \<Rightarrow> level_covers db level (account, nm))"

definition minimum_met :: "authorization_db \<Rightarrow> action \<Rightarrow> permission_level \<Rightarrow> bool" where
  "minimum_met db act level \<longleftrightarrow> covers_minimum db level (fst level) (act_account act) (act_name act)"

text \<open>
  What the five native actions ask of their one declared authorization: to change a permission one
  needs that permission, to create one its parent; to delete a permission, that permission; to link
  or unlink an action, the permission it is linked to now; to cancel a delayed transaction, an
  authorization that transaction declares.
\<close>

definition updateauth_permitted :: "authorization_db \<Rightarrow> updateauth \<Rightarrow> permission_level \<Rightarrow> bool" where
  "updateauth_permitted db a level \<longleftrightarrow> fst level = ua_account a \<and>
     level_covers db level
       (ua_account a, if find_by_owner db (ua_account a, ua_permission a) = None then ua_parent a else ua_permission a)"

definition deleteauth_permitted :: "authorization_db \<Rightarrow> deleteauth \<Rightarrow> permission_level \<Rightarrow> bool" where
  "deleteauth_permitted db a level \<longleftrightarrow> fst level = da_account a \<and> level_covers db level (da_account a, da_permission a)"

definition linkauth_permitted :: "authorization_control \<Rightarrow> authorization_db \<Rightarrow> linkauth \<Rightarrow> permission_level \<Rightarrow> bool" where
  "linkauth_permitted ctl db a level \<longleftrightarrow> fst level = la_account a \<and>
     (la_code a = system_account_name \<or> \<not> ac_fix_linkauth_restriction ctl \<longrightarrow> \<not> unlinkable_action (la_type a)) \<and>
     covers_minimum db level (la_account a) (la_code a) (la_type a)"

definition unlinkauth_permitted :: "authorization_db \<Rightarrow> unlinkauth \<Rightarrow> permission_level \<Rightarrow> bool" where
  "unlinkauth_permitted db a level \<longleftrightarrow> fst level = ula_account a \<and>
     (case lookup_linked_permission db (ula_account a) (ula_code a) (ula_type a) of
        None \<Rightarrow> False
      | Some nm \<Rightarrow> nm = eosio_any_name \<or> level_covers db level (ula_account a, nm))"

definition canceldelay_permitted ::
    "native_codec \<Rightarrow> authorization_control \<Rightarrow> authorization_db \<Rightarrow> canceldelay \<Rightarrow> permission_level \<Rightarrow> int \<Rightarrow> bool" where
  "canceldelay_permitted codec ctl db a level delay \<longleftrightarrow>
     level_covers db level (cd_canceling_auth a) \<and>
     (\<exists>g\<in>set (ac_generated_transactions ctl). gto_trx_id g = cd_trx_id a \<and> gto_sender g = 0 \<and>
        (\<exists>trx. unpack_delayed_trx codec (gto_packed_trx g) = Inr trx \<and>
           (\<exists>act\<in>set (actions trx). cd_canceling_auth a \<in> set (act_authorization act))) \<and>
        delay = wrap_i64 (gto_delay_until g - gto_published g))"

text \<open>
  What an action may do with the authorizations it declares, and the delay that counts for them:
  the one provided, and for cancelling a transaction at least the delay of that transaction.
\<close>

definition action_permitted ::
    "native_codec \<Rightarrow> authorization_control \<Rightarrow> authorization_db \<Rightarrow> int \<Rightarrow> action \<Rightarrow> int \<Rightarrow> bool" where
  "action_permitted codec ctl db effective act delay \<longleftrightarrow>
     (if act_account act = system_account_name \<and> act_name act = string_to_name ''updateauth'' then
        delay = effective \<and> (\<exists>a level. unpack_updateauth codec (act_data act) = Inr a \<and> act_authorization act = [level] \<and>
          updateauth_permitted db a level)
      else if act_account act = system_account_name \<and> act_name act = string_to_name ''deleteauth'' then
        delay = effective \<and> (\<exists>a level. unpack_deleteauth codec (act_data act) = Inr a \<and> act_authorization act = [level] \<and>
          deleteauth_permitted db a level)
      else if act_account act = system_account_name \<and> act_name act = string_to_name ''linkauth'' then
        delay = effective \<and> (\<exists>a level. unpack_linkauth codec (act_data act) = Inr a \<and> act_authorization act = [level] \<and>
          linkauth_permitted ctl db a level)
      else if act_account act = system_account_name \<and> act_name act = string_to_name ''unlinkauth'' then
        delay = effective \<and> (\<exists>a level. unpack_unlinkauth codec (act_data act) = Inr a \<and> act_authorization act = [level] \<and>
          unlinkauth_permitted db a level)
      else if act_account act = system_account_name \<and> act_name act = string_to_name ''canceldelay'' then
        (\<exists>a level d. unpack_canceldelay codec (act_data act) = Inr a \<and> act_authorization act = [level] \<and>
          canceldelay_permitted codec ctl db a level d \<and> delay = max effective d)
      else delay = effective \<and> (\<forall>level\<in>set (act_authorization act). minimum_met db act level))"

lemma get_permission_Inr:
  "get_permission db level = Inr p \<longleftrightarrow> fst level \<noteq> 0 \<and> snd level \<noteq> 0 \<and> find_by_owner db level = Some p"
  by (auto simp: get_permission_def bind_r_Inr_iff)

lemma assert_satisfies_Inr:
  assumes inv: "permissions_inv db" and q: "tbl_find j (adb_permissions db) = Some q"
    and "assert_satisfies db level q = Inr ()"
  shows "\<exists>p. find_by_owner db level = Some p \<and> (p = q \<or> ancestor (adb_permissions db) (po_id p) (po_id q))"
proof -
  obtain p where p: "get_permission db level = Inr p" "satisfies p q (adb_permissions db) = Inr True"
    using assms(3) by (auto simp: assert_satisfies_def bind_r_Inr_iff)
  then have l: "fst level \<noteq> 0" "find_by_owner db level = Some p"
    by (auto simp: get_permission_Inr)
  then obtain i where i: "tbl_find i (adb_permissions db) = Some p" "(po_owner p, po_name p) = level"
    using find_by_owner_row [OF inv] by blast
  have nz: "i \<noteq> 0"
  proof
    assume "i = 0"
    then have "po_owner p = 0"
      using reserved_row [OF inv] i(1) by simp
    then show False
      using l(1) i(2) by auto
  qed
  have "i = j \<or> ancestor (adb_permissions db) i j"
    using satisfies_correct [OF inv i(1) nz q] p(2) by simp
  moreover have "p = q" if "i = j"
    using i(1) q that by simp
  ultimately show ?thesis
    using l(2) row_id [OF inv i(1)] row_id [OF inv q] by blast
qed

lemma assert_satisfies_covers:
  assumes inv: "permissions_inv db" and "get_permission db required = Inr q" "assert_satisfies db level q = Inr ()"
  shows "level_covers db level required"
proof -
  have q: "find_by_owner db required = Some q"
    using assms(2) by (simp add: get_permission_Inr)
  then obtain j where "tbl_find j (adb_permissions db) = Some q"
    using find_by_owner_row [OF inv] by blast
  from assert_satisfies_Inr [OF inv this assms(3)] q show ?thesis
    by (auto simp: level_covers_def)
qed

lemma assert_satisfies_level_covers:
  assumes inv: "permissions_inv db" and ok: "assert_satisfies_level db level required = Inr ()"
  shows "level_covers db level required"
proof -
  obtain q where q: "get_permission db required = Inr q" "assert_satisfies db level q = Inr ()"
    using ok by (auto simp: assert_satisfies_level_def assert_satisfies_def bind_r_Inr_iff)
  then show ?thesis
    using assert_satisfies_covers [OF inv] by blast
qed

lemma check_minimum_met:
  assumes inv: "permissions_inv db" and ok: "check_minimum_permission db act level = Inr ()"
  shows "minimum_met db act level"
proof -
  obtain found where found: "lookup_minimum_permission db (fst level) (act_account act) (act_name act) = Inr found"
    using ok by (auto simp: check_minimum_permission_def bind_r_Inr_iff)
  show ?thesis
  proof (cases found)
    case None
    then show ?thesis
      using found by (simp add: minimum_met_def covers_minimum_def)
  next
    case (Some nm)
    then obtain q where q: "get_permission db (fst level, nm) = Inr q" "assert_satisfies db level q = Inr ()"
      using ok found by (auto simp: check_minimum_permission_def bind_r_Inr_iff)
    then show ?thesis
      using assert_satisfies_covers [OF inv q] found Some by (simp add: minimum_met_def covers_minimum_def)
  qed
qed

lemma one_authorization: "length auths = Suc 0 \<Longrightarrow> auths = [auths ! 0]"
  by (cases auths) auto

lemma check_updateauth_permitted:
  assumes inv: "permissions_inv db" and ok: "check_updateauth_authorization db a auths = Inr ()"
  shows "\<exists>level. auths = [level] \<and> updateauth_permitted db a level"
proof -
  let ?nm = "if find_by_owner db (ua_account a, ua_permission a) = None then ua_parent a else ua_permission a"
  obtain q where q: "length auths = Suc 0" "fst (auths ! 0) = ua_account a" "get_permission db (ua_account a, ?nm) = Inr q"
    "assert_satisfies db (auths ! 0) q = Inr ()"
    using ok by (auto simp: check_updateauth_authorization_def bind_r_Inr_iff find_permission_def get_permission_Inr split: option.splits)
  then have "updateauth_permitted db a (auths ! 0)"
    using assert_satisfies_covers [OF inv q(3,4)] unfolding updateauth_permitted_def by blast
  then show ?thesis
    using one_authorization [OF q(1)] by blast
qed

lemma check_deleteauth_permitted:
  assumes inv: "permissions_inv db" and ok: "check_deleteauth_authorization db a auths = Inr ()"
  shows "\<exists>level. auths = [level] \<and> deleteauth_permitted db a level"
proof -
  obtain q where q: "length auths = Suc 0" "fst (auths ! 0) = da_account a"
    "get_permission db (da_account a, da_permission a) = Inr q" "assert_satisfies db (auths ! 0) q = Inr ()"
    using ok by (auto simp: check_deleteauth_authorization_def bind_r_Inr_iff)
  show ?thesis
    using assert_satisfies_covers [OF inv q(3,4)] one_authorization [OF q(1)] q(2) unfolding deleteauth_permitted_def by blast
qed

lemma check_linkauth_permitted:
  assumes inv: "permissions_inv db" and ok: "check_linkauth_authorization ctl db a auths = Inr ()"
  shows "\<exists>level. auths = [level] \<and> linkauth_permitted ctl db a level"
proof -
  obtain linked where q: "length auths = Suc 0" "fst (auths ! 0) = la_account a"
    "la_code a = system_account_name \<or> \<not> ac_fix_linkauth_restriction ctl \<longrightarrow> \<not> unlinkable_action (la_type a)"
    "lookup_minimum_permission db (la_account a) (la_code a) (la_type a) = Inr linked"
    "case linked of None \<Rightarrow> True | Some nm \<Rightarrow> assert_satisfies_level db (auths ! 0) (la_account a, nm) = Inr ()"
    using ok by (auto simp: check_linkauth_authorization_def bind_r_Inr_iff split: option.splits if_splits)
  have "covers_minimum db (auths ! 0) (la_account a) (la_code a) (la_type a)"
    using q(4,5) assert_satisfies_level_covers [OF inv] by (cases linked) (simp_all add: covers_minimum_def)
  then show ?thesis
    using one_authorization [OF q(1)] q(2,3) unfolding linkauth_permitted_def by blast
qed

lemma check_unlinkauth_permitted:
  assumes inv: "permissions_inv db" and ok: "check_unlinkauth_authorization db a auths = Inr ()"
  shows "\<exists>level. auths = [level] \<and> unlinkauth_permitted db a level"
proof -
  obtain nm where q: "length auths = Suc 0" "fst (auths ! 0) = ula_account a"
    "lookup_linked_permission db (ula_account a) (ula_code a) (ula_type a) = Some nm"
    "nm = eosio_any_name \<or> assert_satisfies_level db (auths ! 0) (ula_account a, nm) = Inr ()"
    using ok by (auto simp: check_unlinkauth_authorization_def bind_r_Inr_iff of_option_def split: option.splits if_splits)
  have "unlinkauth_permitted db a (auths ! 0)"
    using q(2-4) assert_satisfies_level_covers [OF inv, of "auths ! 0" "(ula_account a, nm)"]
    by (auto simp: unlinkauth_permitted_def)
  then show ?thesis
    using one_authorization [OF q(1)] by blast
qed

lemma check_canceldelay_permitted:
  assumes inv: "permissions_inv db" and ok: "check_canceldelay_authorization codec ctl db a auths = Inr d"
  shows "\<exists>level. auths = [level] \<and> canceldelay_permitted codec ctl db a level d"
proof -
  obtain g trx where g: "length auths = Suc 0" "assert_satisfies_level db (auths ! 0) (cd_canceling_auth a) = Inr ()"
    "List.find (\<lambda>g. gto_trx_id g = cd_trx_id a) (ac_generated_transactions ctl) = Some g" "gto_sender g = 0"
    "unpack_delayed_trx codec (gto_packed_trx g) = Inr trx"
    "\<exists>act\<in>set (actions trx). cd_canceling_auth a \<in> set (act_authorization act)"
    "d = wrap_i64 (gto_delay_until g - gto_published g)"
    using ok by (auto simp: check_canceldelay_authorization_def bind_r_Inr_iff of_option_def split: option.splits)
  have "g \<in> set (ac_generated_transactions ctl)" "gto_trx_id g = cd_trx_id a"
    using g(3) by (auto simp: find_Some_iff)
  then have "canceldelay_permitted codec ctl db a (auths ! 0) d"
    using g(4-7) assert_satisfies_level_covers [OF inv g(2)] unfolding canceldelay_permitted_def by blast
  then show ?thesis
    using one_authorization [OF g(1)] by blast
qed

lemma check_native_action_permitted:
  assumes inv: "permissions_inv db" and ok: "check_native_action codec ctl db eff act = Inr (special, d)"
    and min: "special \<or> (\<forall>level\<in>set (act_authorization act). check_minimum_permission db act level = Inr ())"
  shows "action_permitted codec ctl db eff act d"
proof (cases "special")
  case False
  then have "d = eff" "\<forall>level\<in>set (act_authorization act). minimum_met db act level"
    "act_account act = system_account_name \<Longrightarrow> \<not> unlinkable_action (act_name act)"
    using ok min check_minimum_met [OF inv]
    by (auto simp: check_native_action_def bind_r_Inr_iff unlinkable_action_def split: if_splits)
  then show ?thesis
    unfolding action_permitted_def by (auto simp: unlinkable_action_def)
next
  case True
  then have sys: "act_account act = system_account_name"
    using ok by (auto simp: check_native_action_def split: if_splits)
  consider a where "act_name act = string_to_name ''updateauth''" "unpack_updateauth codec (act_data act) = Inr a"
      "check_updateauth_authorization db a (act_authorization act) = Inr ()" "d = eff"
    | a where "act_name act \<noteq> string_to_name ''updateauth''" "act_name act = string_to_name ''deleteauth''"
      "unpack_deleteauth codec (act_data act) = Inr a"
      "check_deleteauth_authorization db a (act_authorization act) = Inr ()" "d = eff"
    | a where "act_name act \<noteq> string_to_name ''updateauth''" "act_name act \<noteq> string_to_name ''deleteauth''"
      "act_name act = string_to_name ''linkauth''" "unpack_linkauth codec (act_data act) = Inr a"
      "check_linkauth_authorization ctl db a (act_authorization act) = Inr ()" "d = eff"
    | a where "act_name act \<noteq> string_to_name ''updateauth''" "act_name act \<noteq> string_to_name ''deleteauth''"
      "act_name act \<noteq> string_to_name ''linkauth''" "act_name act = string_to_name ''unlinkauth''"
      "unpack_unlinkauth codec (act_data act) = Inr a"
      "check_unlinkauth_authorization db a (act_authorization act) = Inr ()" "d = eff"
    | a e where "act_name act \<noteq> string_to_name ''updateauth''" "act_name act \<noteq> string_to_name ''deleteauth''"
      "act_name act \<noteq> string_to_name ''linkauth''" "act_name act \<noteq> string_to_name ''unlinkauth''"
      "act_name act = string_to_name ''canceldelay''" "unpack_canceldelay codec (act_data act) = Inr a"
      "check_canceldelay_authorization codec ctl db a (act_authorization act) = Inr e" "d = max eff e"
    using ok True by (auto simp: check_native_action_def data_as_def bind_r_Inr_iff sys split: if_splits)
  then show ?thesis
  proof cases
    case 1
    then show ?thesis
      using check_updateauth_permitted [OF inv 1(3)] by (auto simp: action_permitted_def sys)
  next
    case 2
    then show ?thesis
      using check_deleteauth_permitted [OF inv 2(4)] by (auto simp: action_permitted_def sys)
  next
    case 3
    then show ?thesis
      using check_linkauth_permitted [OF inv 3(5)] by (auto simp: action_permitted_def sys)
  next
    case 4
    then show ?thesis
      using check_unlinkauth_permitted [OF inv 4(6)] by (auto simp: action_permitted_def sys)
  next
    case 5
    then show ?thesis
      using check_canceldelay_permitted [OF inv 5(7)] by (auto simp: action_permitted_def sys)
  qed
qed

lemma make_auth_checker_bounded:
  assumes inv: "permissions_inv db" and w: "\<forall>r\<in>set (adb_permissions db). authority_total_weight (po_auth (snd r)) < 2 ^ 32"
  shows "authorities_bounded (make_auth_checker ctl db keys permissions delay)"
  unfolding authorities_bounded_def
proof (intro allI impI)
  fix level a
  assume "permission_to_authority (make_auth_checker ctl db keys permissions delay) level = Inr a"
  then obtain p where p: "find_by_owner db level = Some p" "a = po_auth p"
    by (auto simp: make_auth_checker_def bind_r_Inr_iff get_permission_Inr)
  then obtain i where "tbl_find i (adb_permissions db) = Some p"
    using find_by_owner_row [OF inv] by blast
  with w p(2) show "authority_total_weight a < 2 ^ 32"
    using tbl_find_in by fastforce
qed

text \<open>
  C22. A transaction that passes the check is authorized. For every action, every declared
  authorization is held by the keys, permissions and delay provided (or was satisfied before), in
  the sense of the specification without depth limits and caches. What is declared is enough for
  what the action does: for the five native actions on permissions, their one authorization covers
  the permission that is changed, deleted, linked or unlinked, or the one the cancelled
  transaction declared; for every other action, of the system contract too, each declared
  permission is the one the links of the account require for the action or an ancestor of it. The
  delay that counts is the one provided, and for cancelling a delayed transaction at least its
  delay. Authorities in the database have a total weight of at most 32 bits.
\<close>

theorem check_authorization_sound:
  assumes "authorization_reachable db" "\<forall>r\<in>set (adb_permissions db). authority_total_weight (po_auth (snd r)) < 2 ^ 32"
    "check_authorization codec ctl db acts keys permissions delay checktime allow_unused_keys satisfied = Inr ()"
    "act \<in> set acts"
  shows "\<exists>d. action_permitted codec ctl db (effective_delay ctl delay) act d \<and>
    (\<forall>level\<in>set (act_authorization act).
       level \<in> set satisfied \<or> permission_held (make_auth_checker ctl db keys permissions d) level)"
proof -
  have inv: "permissions_inv db"
    using authorization_reachable_inv assms(1) .
  let ?eff = "effective_delay ctl delay"
  let ?c = "make_auth_checker ctl db keys permissions ?eff"
  define ct where "ct = (case checktime of Some f \<Rightarrow> f | None \<Rightarrow> noop_checktime)"
  from assms(3) obtain n m st where loop: "action_loop codec ctl db ct satisfied ?eff acts (0, []) = Inr (n, m)"
    and sat: "satisfy_loop ?c ct m n (checker_init ?c) = Inr st"
    unfolding check_authorization_def Let_def ct_def [symmetric] by (auto simp: bind_r_Inr_iff)
  obtain special d where d: "check_native_action codec ctl db ?eff act = Inr (special, d)"
    and all: "\<forall>level\<in>set (act_authorization act). (level \<in> set satisfied \<or> covered m level d) \<and>
      (special \<or> check_minimum_permission db act level = Inr ())"
    using action_loop_Inr [OF loop] assms(4) by blast
  have held: "permission_held (make_auth_checker ctl db keys permissions d) level" if "covered m level d" for level
  proof -
    obtain d' where "d' \<le> d" "tbl_find level m = Some d'"
      using \<open>covered m level d\<close> by (auto simp: covered_def)
    then have "permission_held (?c\<lparr>provided_delay := d'\<rparr>) level"
      using satisfy_loop_Inr [OF make_auth_checker_bounded [OF inv assms(2)] sat] tbl_find_in by fast
    then have "permission_held (?c\<lparr>provided_delay := d\<rparr>) level"
      using held_delay_mono(1) [OF \<open>d' \<le> d\<close>] by blast
    then show ?thesis
      by (simp add: make_auth_checker_def)
  qed
  have "action_permitted codec ctl db ?eff act d"
    using all by (intro check_native_action_permitted [OF inv d]) blast
  moreover have "\<forall>level\<in>set (act_authorization act).
      level \<in> set satisfied \<or> permission_held (make_auth_checker ctl db keys permissions d) level"
    using all held by blast
  ultimately show ?thesis
    by blast
qed

section \<open>Sample\<close>

text \<open>Account 5 requires its permission 2 for all actions of contract 9.\<close>

definition sample_linked_db :: authorization_db where
  "sample_linked_db = sample_authorization_db\<lparr>adb_links := [((5, 9, 0), 2)]\<rparr>"

definition sample_codec :: native_codec where
  "sample_codec = \<lparr>unpack_updateauth = (\<lambda>_. Inl unhandled_exception), unpack_deleteauth = (\<lambda>_. Inl unhandled_exception),
     unpack_linkauth = (\<lambda>_. Inl unhandled_exception), unpack_unlinkauth = (\<lambda>_. Inl unhandled_exception),
     unpack_canceldelay = (\<lambda>_. Inl unhandled_exception), unpack_delayed_trx = (\<lambda>_. Inl unhandled_exception)\<rparr>"

definition sample_linked_action :: action where
  "sample_linked_action = \<lparr>act_account = 9, act_name = 3, act_authorization = [(5, 1)], act_data = []\<rparr>"

lemma sample_linked_reachable: "authorization_reachable sample_linked_db"
  unfolding sample_linked_db_def by (rule step [OF sample_authorization_reachable links]) simp

lemma sample_names: "eosio_any_name \<noteq> 2" "system_account_name \<noteq> 9"
  by code_simp+

lemma sample_check:
  "check_authorization sample_codec sample_control sample_linked_db [sample_linked_action] [7] [] 0 None False [] = Inr ()"
  using sample_names
  by (simp add: check_authorization_def sample_linked_action_def sample_linked_db_def sample_authorization_db_def check_native_action_def
      check_minimum_permission_def lookup_minimum_permission_def lookup_linked_permission_def tbl_find_Cons get_permission_def
      find_by_owner_def sample_permission_def default_permission_def assert_satisfies_def satisfies_def eos_assert_def
      emplace_delay_def noop_checktime_def satisfied_permission_delay_def satisfied_permission_def make_auth_checker_def
      effective_delay_def sample_control_def checker_init_def initialize_permission_cache_def visit_permission_def
      permission_status_in_cache_def satisfied_rec_numeral satisfied_body_def meta_permissions_def authority_factors_def
      authority_of_key_def visit_key_def all_keys_used_def add32_def)

theorem check_authorization_sound_witness:
  "permission_held (make_auth_checker sample_control sample_linked_db [7] [] 0) (5, 1)
   \<and> minimum_met sample_linked_db sample_linked_action (5, 1)"
proof -
  have "\<forall>r\<in>set (adb_permissions sample_linked_db). authority_total_weight (po_auth (snd r)) < 2 ^ 32"
    by (simp add: sample_linked_db_def sample_authorization_db_def sample_permission_def default_permission_def default_authority_def
        authority_of_key_def authority_total_weight_def)
  from check_authorization_sound [OF sample_linked_reachable this sample_check, of sample_linked_action] sample_names(2) show ?thesis
    by (auto simp: action_permitted_def sample_linked_action_def effective_delay_def sample_control_def)
qed

end
