(* ===== verification/Unapplied_Queue.thy ===== *)
theory Unapplied_Queue
  imports Blocks
begin

text \<open>
  The transactions waiting to be applied (\<^verbatim>\<open>unapplied_transaction_queue.hpp\<close>). The container has three
  indices: by identifier, unique; by type and by expiry, each in ascending order, with equal keys in
  the order of their insertion. The two orders are kept as two lists of the same elements.
\<close>

datatype trx_enum_type = trx_unknown | trx_persisted | trx_forked | trx_aborted

fun trx_type_number :: "trx_enum_type \<Rightarrow> nat" where
  "trx_type_number trx_unknown = 0"
| "trx_type_number trx_persisted = 1"
| "trx_type_number trx_forked = 2"
| "trx_type_number trx_aborted = 3"

record unapplied_transaction =
  ut_trx_meta :: transaction_metadata
  ut_expiry :: time_point
  ut_trx_type :: trx_enum_type

definition ut_id :: "unapplied_transaction \<Rightarrow> digest" where
  "ut_id u = tm_id (ut_trx_meta u)"

datatype process_mode = non_speculative | speculative_non_producer | speculative_producer

record unapplied_transaction_queue =
  uq_by_type :: "unapplied_transaction list"
  uq_by_expiry :: "unapplied_transaction list"
  uq_mode :: process_mode

section \<open>The container\<close>

text \<open>Insertion into an ordered index: after the elements with an equal key.\<close>

fun insert_after :: "('a \<Rightarrow> 'k :: linorder) \<Rightarrow> 'a \<Rightarrow> 'a list \<Rightarrow> 'a list" where
  "insert_after key x [] = [x]"
| "insert_after key x (y # ys) = (if key x < key y then x # y # ys else y # insert_after key x ys)"

definition ut_type_key :: "unapplied_transaction \<Rightarrow> nat" where
  "ut_type_key u = trx_type_number (ut_trx_type u)"

definition uq_find :: "digest \<Rightarrow> unapplied_transaction_queue \<Rightarrow> unapplied_transaction option" where
  "uq_find i q = List.find (\<lambda>u. ut_id u = i) (uq_by_type q)"

definition uq_insert :: "unapplied_transaction \<Rightarrow> unapplied_transaction_queue \<Rightarrow> unapplied_transaction_queue" where
  "uq_insert u q =
     (if uq_find (ut_id u) q \<noteq> None then q
      else q\<lparr>uq_by_type := insert_after ut_type_key u (uq_by_type q),
             uq_by_expiry := insert_after ut_expiry u (uq_by_expiry q)\<rparr>)"

definition uq_erase :: "digest \<Rightarrow> unapplied_transaction_queue \<Rightarrow> unapplied_transaction_queue" where
  "uq_erase i q =
     q\<lparr>uq_by_type := filter (\<lambda>u. ut_id u \<noteq> i) (uq_by_type q),
       uq_by_expiry := filter (\<lambda>u. ut_id u \<noteq> i) (uq_by_expiry q)\<rparr>"

text \<open>Changing the type of an element moves it in the index by type and leaves it in place in the other.\<close>

definition uq_modify_type :: "unapplied_transaction \<Rightarrow> trx_enum_type \<Rightarrow> unapplied_transaction_queue \<Rightarrow> unapplied_transaction_queue" where
  "uq_modify_type u t q =
     q\<lparr>uq_by_type := insert_after ut_type_key (u\<lparr>ut_trx_type := t\<rparr>) (filter (\<lambda>v. ut_id v \<noteq> ut_id u) (uq_by_type q)),
       uq_by_expiry := map (\<lambda>v. if ut_id v = ut_id u then v\<lparr>ut_trx_type := t\<rparr> else v) (uq_by_expiry q)\<rparr>"

section \<open>The operations\<close>

definition empty_queue :: unapplied_transaction_queue where
  "empty_queue = \<lparr>uq_by_type = [], uq_by_expiry = [], uq_mode = speculative_producer\<rparr>"

definition uq_empty :: "unapplied_transaction_queue \<Rightarrow> bool" where
  "uq_empty q \<longleftrightarrow> uq_by_type q = []"

definition uq_size :: "unapplied_transaction_queue \<Rightarrow> nat" where
  "uq_size q = length (uq_by_type q)"

definition set_mode :: "process_mode \<Rightarrow> unapplied_transaction_queue \<Rightarrow> unapplied_transaction_queue result" where
  "set_mode new_mode q =
     bind_r (if new_mode \<noteq> uq_mode q then eos_assert (uq_empty q) fc_assert_exception else Inr ()) (\<lambda>_.
       Inr (q\<lparr>uq_mode := new_mode\<rparr>))"

definition uq_clear :: "unapplied_transaction_queue \<Rightarrow> unapplied_transaction_queue" where
  "uq_clear q = q\<lparr>uq_by_type := [], uq_by_expiry := []\<rparr>"

definition contains_persisted :: "unapplied_transaction_queue \<Rightarrow> bool" where
  "contains_persisted q \<longleftrightarrow> (\<exists>u\<in>set (uq_by_type q). ut_trx_type u = trx_persisted)"

definition is_persisted :: "unapplied_transaction_queue \<Rightarrow> transaction_metadata \<Rightarrow> bool" where
  "is_persisted q trx =
     (case uq_find (tm_id trx) q of None \<Rightarrow> False | Some u \<Rightarrow> ut_trx_type u = trx_persisted)"

definition get_trx :: "unapplied_transaction_queue \<Rightarrow> digest \<Rightarrow> transaction_metadata option" where
  "get_trx q i = map_option ut_trx_meta (uq_find i q)"

text \<open>
  The loop of \<^verbatim>\<open>clear_expired\<close>; \<open>now n\<close> is the reading of the clock in its \<open>n\<close>-th turn. It returns the
  answer, the calls of the callback and the queue.
\<close>

function clear_expired_loop ::
    "time_point \<Rightarrow> time_point \<Rightarrow> (nat \<Rightarrow> time_point) \<Rightarrow> nat \<Rightarrow> unapplied_transaction_queue
       \<Rightarrow> bool \<times> (digest \<times> trx_enum_type) list \<times> unapplied_transaction_queue" where
  "clear_expired_loop pending_block_time deadline now n q =
     (case uq_by_expiry q of
        [] \<Rightarrow> (True, [], q)
      | u # _ \<Rightarrow>
          if ut_expiry u \<le> pending_block_time then
            (if deadline \<le> now n then (False, [], q)
             else (case clear_expired_loop pending_block_time deadline now (n + 1) (uq_erase (ut_id u) q) of
                     (ok, calls, q') \<Rightarrow> (ok, (ut_id u, ut_trx_type u) # calls, q')))
          else (True, [], q))"
  by pat_completeness auto
termination
  by (relation "measure (\<lambda>(_, _, _, _, q). length (uq_by_expiry q))") (auto simp: uq_erase_def less_Suc_eq_le)

declare clear_expired_loop.simps [simp del]

definition clear_expired ::
    "time_point \<Rightarrow> time_point \<Rightarrow> (nat \<Rightarrow> time_point) \<Rightarrow> unapplied_transaction_queue
       \<Rightarrow> bool \<times> (digest \<times> trx_enum_type) list \<times> unapplied_transaction_queue" where
  "clear_expired pending_block_time deadline now q = clear_expired_loop pending_block_time deadline now 0 q"

definition clear_applied_receipt :: "transaction_receipt \<Rightarrow> unapplied_transaction_queue \<Rightarrow> unapplied_transaction_queue" where
  "clear_applied_receipt receipt q =
     (case rcpt_trx receipt of
        trx_by_id _ \<Rightarrow> q
      | trx_by_packed pt \<Rightarrow>
          (case uq_find (ptrx_id pt) q of
             None \<Rightarrow> q
           | Some u \<Rightarrow> if ut_trx_type u \<noteq> trx_persisted then uq_erase (ptrx_id pt) q else q))"

definition clear_applied :: "block_state \<Rightarrow> unapplied_transaction_queue \<Rightarrow> unapplied_transaction_queue result" where
  "clear_applied bs q =
     (if uq_empty q then Inr q
      else bind_r (of_option undefined_behaviour (bs_block bs)) (\<lambda>block.
             Inr (fold clear_applied_receipt (blk_transactions block) q)))"

text \<open>The expiration of a transaction, in seconds, as a time point.\<close>

definition trx_expiration :: "transaction_metadata \<Rightarrow> time_point" where
  "trx_expiration trx = int (expiration (unpacked_trx (tm_packed_trx trx))) * 1000000"

definition add_of_type :: "trx_enum_type \<Rightarrow> transaction_metadata \<Rightarrow> unapplied_transaction_queue \<Rightarrow> unapplied_transaction_queue" where
  "add_of_type t trx q = uq_insert \<lparr>ut_trx_meta = trx, ut_expiry = trx_expiration trx, ut_trx_type = t\<rparr> q"

text \<open>The branch is in reverse order.\<close>

definition add_forked :: "block_state list \<Rightarrow> unapplied_transaction_queue \<Rightarrow> unapplied_transaction_queue" where
  "add_forked forked_branch q =
     (if uq_mode q = non_speculative \<or> uq_mode q = speculative_non_producer then q
      else fold (\<lambda>bs q. fold (add_of_type trx_forked) (cached_trxs bs) q) (rev forked_branch) q)"

definition add_aborted :: "transaction_metadata list \<Rightarrow> unapplied_transaction_queue \<Rightarrow> unapplied_transaction_queue" where
  "add_aborted aborted_trxs q =
     (if uq_mode q = non_speculative \<or> uq_mode q = speculative_non_producer then q
      else fold (add_of_type trx_aborted) aborted_trxs q)"

definition add_persisted :: "transaction_metadata \<Rightarrow> unapplied_transaction_queue \<Rightarrow> unapplied_transaction_queue" where
  "add_persisted trx q =
     (if uq_mode q = non_speculative then q
      else (case uq_find (tm_id trx) q of
              None \<Rightarrow> add_of_type trx_persisted trx q
            | Some u \<Rightarrow> if ut_trx_type u \<noteq> trx_persisted then uq_modify_type u trx_persisted q else q))"

text \<open>Iterators are positions in the index by type.\<close>

definition uq_persisted_begin :: "unapplied_transaction_queue \<Rightarrow> nat" where
  "uq_persisted_begin q = length (takeWhile (\<lambda>u. ut_type_key u < trx_type_number trx_persisted) (uq_by_type q))"

definition uq_persisted_end :: "unapplied_transaction_queue \<Rightarrow> nat" where
  "uq_persisted_end q = length (takeWhile (\<lambda>u. ut_type_key u \<le> trx_type_number trx_persisted) (uq_by_type q))"

definition uq_erase_at :: "nat \<Rightarrow> unapplied_transaction_queue \<Rightarrow> unapplied_transaction_queue result" where
  "uq_erase_at itr q =
     (if itr < length (uq_by_type q) then Inr (uq_erase (ut_id (uq_by_type q ! itr)) q) else Inl undefined_behaviour)"

section \<open>The queue as a map\<close>

definition queue_inv :: "unapplied_transaction_queue \<Rightarrow> bool" where
  "queue_inv q \<longleftrightarrow>
     mset (uq_by_type q) = mset (uq_by_expiry q) \<and> distinct (map ut_id (uq_by_type q)) \<and>
     sorted (map ut_type_key (uq_by_type q)) \<and> sorted (map ut_expiry (uq_by_expiry q))"

text \<open>What the queue stands for: the transactions it holds, by identifier, with expiry and type.\<close>

definition queue_map :: "unapplied_transaction_queue \<Rightarrow> digest \<Rightarrow> unapplied_transaction option" where
  "queue_map q = map_of (map (\<lambda>u. (ut_id u, u)) (uq_by_type q))"

lemma mset_insert_after [simp]: "mset (insert_after key x xs) = add_mset x (mset xs)"
  by (induction key x xs rule: insert_after.induct) auto

lemma set_insert_after [simp]: "set (insert_after key x xs) = insert x (set xs)"
  by (induction key x xs rule: insert_after.induct) auto

lemma sorted_insert_after: "sorted (map key xs) \<Longrightarrow> sorted (map key (insert_after key x xs))"
  by (induction key x xs rule: insert_after.induct) auto

lemma distinct_insert_after: "distinct (map f xs) \<Longrightarrow> f x \<notin> f ` set xs \<Longrightarrow> distinct (map f (insert_after key x xs))"
  by (induction key x xs rule: insert_after.induct) auto

lemma queue_map_eq:
  "distinct (map ut_id xs) \<Longrightarrow> map_of (map (\<lambda>u. (ut_id u, u)) xs) i = Some u \<longleftrightarrow> u \<in> set xs \<and> ut_id u = i"
  by (subst map_of_eq_Some_iff) (auto simp: comp_def)

lemma queue_map_iff: "queue_inv q \<Longrightarrow> queue_map q i = Some u \<longleftrightarrow> u \<in> set (uq_by_type q) \<and> ut_id u = i"
  unfolding queue_map_def queue_inv_def by (intro queue_map_eq) simp

lemma queue_map_None: "queue_map q i = None \<longleftrightarrow> i \<notin> ut_id ` set (uq_by_type q)"
  by (simp add: queue_map_def map_of_eq_None_iff image_image)

lemma uq_find_map:
  assumes "queue_inv q"
  shows "uq_find i q = queue_map q i"
proof (cases "queue_map q i")
  case None
  then have "uq_find i q = None"
    unfolding uq_find_def find_None_iff queue_map_None by auto
  then show ?thesis
    by (simp add: None)
next
  case (Some u)
  then have u: "u \<in> set (uq_by_type q)" "ut_id u = i"
    using queue_map_iff [OF assms] by auto
  then obtain v where v: "uq_find i q = Some v"
    unfolding uq_find_def by (cases "List.find (\<lambda>u. ut_id u = i) (uq_by_type q)") (auto simp: find_None_iff)
  then have "v \<in> set (uq_by_type q)" "ut_id v = i"
    unfolding uq_find_def by (auto simp: find_Some_iff)
  then have "queue_map q i = Some v"
    using queue_map_iff [OF assms] by simp
  with v show ?thesis
    by simp
qed

lemma queue_map_eqI:
  assumes "queue_inv q" "\<And>i u. m i = Some u \<longleftrightarrow> u \<in> set (uq_by_type q) \<and> ut_id u = i"
  shows "queue_map q = m"
proof
  fix i
  show "queue_map q i = m i"
    using queue_map_iff [OF assms(1), of i] assms(2) [of i] by (cases "queue_map q i"; cases "m i") auto
qed

section \<open>Each operation on the map\<close>

lemma uq_insert_spec:
  assumes inv: "queue_inv q"
  shows "queue_inv (uq_insert u q) \<and> uq_mode (uq_insert u q) = uq_mode q \<and>
    queue_map (uq_insert u q) = (if queue_map q (ut_id u) = None then (queue_map q)(ut_id u \<mapsto> u) else queue_map q)"
proof (cases "queue_map q (ut_id u)")
  case None
  then have fresh: "ut_id u \<notin> ut_id ` set (uq_by_type q)" and eq: "uq_insert u q =
      q\<lparr>uq_by_type := insert_after ut_type_key u (uq_by_type q), uq_by_expiry := insert_after ut_expiry u (uq_by_expiry q)\<rparr>"
    by (simp_all add: queue_map_None uq_insert_def uq_find_map [OF inv])
  have inv': "queue_inv (uq_insert u q)"
    using inv fresh by (auto simp: queue_inv_def eq sorted_insert_after distinct_insert_after)
  have "queue_map (uq_insert u q) = (queue_map q)(ut_id u \<mapsto> u)"
    using fresh queue_map_iff [OF inv] by (intro queue_map_eqI [OF inv']) (auto simp: eq image_iff)
  with inv' None show ?thesis
    by (simp add: eq)
next
  case (Some v)
  then show ?thesis
    using inv by (simp add: uq_insert_def uq_find_map [OF inv])
qed

lemma uq_erase_spec:
  assumes inv: "queue_inv q"
  shows "queue_inv (uq_erase i q) \<and> uq_mode (uq_erase i q) = uq_mode q \<and> queue_map (uq_erase i q) = (queue_map q)(i := None)"
proof -
  have inv': "queue_inv (uq_erase i q)"
    using inv unfolding queue_inv_def uq_erase_def
    by (auto simp: mset_filter sorted_wrt_map intro!: distinct_map_filter sorted_wrt_filter)
  moreover have "queue_map (uq_erase i q) = (queue_map q)(i := None)"
    using queue_map_iff [OF inv] by (intro queue_map_eqI [OF inv']) (auto simp: uq_erase_def)
  ultimately show ?thesis
    by (simp add: uq_erase_def)
qed

lemma mset_filter_out: "distinct xs \<Longrightarrow> u \<in> set xs \<Longrightarrow> mset xs = add_mset u (mset (filter (\<lambda>v. v \<noteq> u) xs))"
proof (induction xs)
  case (Cons x xs)
  then show ?case
    by (cases "x = u") (auto intro!: arg_cong [of _ _ mset] filter_True [symmetric] simp del: mset_filter)
qed simp

lemma uq_modify_type_spec:
  assumes inv: "queue_inv q" and u: "queue_map q (ut_id u) = Some u"
  shows "queue_inv (uq_modify_type u t q) \<and> uq_mode (uq_modify_type u t q) = uq_mode q \<and>
    queue_map (uq_modify_type u t q) = (queue_map q)(ut_id u \<mapsto> u\<lparr>ut_trx_type := t\<rparr>)"
proof -
  let ?f = "\<lambda>v. if ut_id v = ut_id u then v\<lparr>ut_trx_type := t\<rparr> else v"
  have id [simp]: "ut_id (v\<lparr>ut_trx_type := t\<rparr>) = ut_id v" for v
    by (simp add: ut_id_def)
  have mem: "u \<in> set (uq_by_type q)" and uniq: "\<And>v. v \<in> set (uq_by_type q) \<Longrightarrow> ut_id v = ut_id u \<Longrightarrow> v = u"
    using u queue_map_iff [OF inv] inv unfolding queue_inv_def distinct_map inj_on_def by auto
  have dist: "distinct (uq_by_type q)"
    using inv by (auto simp: queue_inv_def distinct_map)
  define A where "A = mset (filter (\<lambda>v. ut_id v \<noteq> ut_id u) (uq_by_type q))"
  have "filter (\<lambda>v. ut_id v \<noteq> ut_id u) (uq_by_type q) = filter (\<lambda>v. v \<noteq> u) (uq_by_type q)"
    using uniq by (intro filter_cong) auto
  then have A: "mset (uq_by_type q) = add_mset u A"
    using mset_filter_out [OF dist mem] by (simp add: A_def)
  have "image_mset ?f A = image_mset (\<lambda>v. v) A"
    by (rule image_mset_cong) (auto simp: A_def)
  then have "image_mset ?f (mset (uq_by_type q)) = add_mset (u\<lparr>ut_trx_type := t\<rparr>) A"
    unfolding A by simp
  then have ms: "mset (uq_by_type (uq_modify_type u t q)) = mset (uq_by_expiry (uq_modify_type u t q))"
    using inv by (simp add: uq_modify_type_def queue_inv_def A_def)
  have "map ut_expiry (map ?f xs) = map ut_expiry xs" for xs
    by simp
  then have "sorted (map ut_expiry (uq_by_expiry (uq_modify_type u t q)))"
    using inv by (simp add: uq_modify_type_def queue_inv_def del: map_map)
  moreover have "sorted (map ut_type_key (uq_by_type (uq_modify_type u t q)))"
    using inv by (auto simp: uq_modify_type_def queue_inv_def intro: sorted_insert_after sorted_filter)
  moreover have "distinct (map ut_id (uq_by_type (uq_modify_type u t q)))"
    using inv by (auto simp: uq_modify_type_def queue_inv_def intro!: distinct_insert_after distinct_map_filter)
  ultimately have inv': "queue_inv (uq_modify_type u t q)"
    using ms by (simp add: queue_inv_def)
  moreover have "queue_map (uq_modify_type u t q) = (queue_map q)(ut_id u \<mapsto> u\<lparr>ut_trx_type := t\<rparr>)"
    using queue_map_iff [OF inv] by (intro queue_map_eqI [OF inv']) (auto simp: uq_modify_type_def)
  ultimately show ?thesis
    by (simp add: uq_modify_type_def)
qed

section \<open>Expired transactions\<close>

lemma clear_expired_loop_spec:
  "queue_inv q \<Longrightarrow> clear_expired_loop t deadline now n q = (ok, calls, q') \<Longrightarrow>
     queue_inv q' \<and> uq_mode q' = uq_mode q \<and>
     (\<forall>(i, ty)\<in>set calls. \<exists>u. queue_map q i = Some u \<and> ut_trx_type u = ty \<and> ut_expiry u \<le> t) \<and>
     distinct (map fst calls) \<and>
     queue_map q' = (\<lambda>i. if i \<in> fst ` set calls then None else queue_map q i) \<and>
     (ok \<longrightarrow> (\<forall>i u. queue_map q' i = Some u \<longrightarrow> t < ut_expiry u)) \<and>
     (\<not> ok \<longrightarrow> deadline \<le> now (n + length calls)) \<and>
     (\<forall>k<length calls. now (n + k) < deadline) \<and>
     (\<forall>i u j v. i \<in> fst ` set calls \<longrightarrow> queue_map q i = Some u \<longrightarrow> queue_map q' j = Some v \<longrightarrow> ut_expiry u \<le> ut_expiry v)"
proof (induction t deadline now n q arbitrary: ok calls q' rule: clear_expired_loop.induct)
  case (1 t deadline now n q)
  have mem: "set (uq_by_expiry q) = set (uq_by_type q)"
    using 1(2) unfolding queue_inv_def by (metis set_mset_mset)
  show ?case
  proof (cases "uq_by_expiry q")
    case Nil
    then show ?thesis
      using 1(2,3) mem by (auto simp: clear_expired_loop.simps [of _ _ _ _ q] queue_map_iff)
  next
    case (Cons u us)
    have u: "queue_map q (ut_id u) = Some u"
      using Cons mem queue_map_iff [OF 1(2)] by auto
    have later: "t < ut_expiry v" if "t < ut_expiry u" "queue_map q i = Some v" for i v
    proof -
      have "v \<in> set (u # us)"
        using that(2) queue_map_iff [OF 1(2)] mem Cons by simp
      then show ?thesis
        using 1(2) Cons that(1) by (auto simp: queue_inv_def)
    qed
    show ?thesis
    proof (cases "ut_expiry u \<le> t \<and> \<not> deadline \<le> now n")
      case True
      obtain ok1 calls1 q1 where r: "clear_expired_loop t deadline now (n + 1) (uq_erase (ut_id u) q) = (ok1, calls1, q1)"
        by (metis prod_cases3)
      have res: "ok = ok1" "calls = (ut_id u, ut_trx_type u) # calls1" "q' = q1"
        using 1(3) Cons True r by (auto simp: clear_expired_loop.simps [of _ _ _ _ q])
      have er: "queue_inv (uq_erase (ut_id u) q)" "uq_mode (uq_erase (ut_id u) q) = uq_mode q"
          "queue_map (uq_erase (ut_id u) q) = (queue_map q)(ut_id u := None)"
        using uq_erase_spec [OF 1(2)] by auto
      note ih = 1(1) [OF Cons _ _ er(1) r, unfolded er]
      have sub: "ut_id u \<notin> fst ` set calls1"
        using ih True by (fastforce split: if_splits)
      have first: "ut_expiry u \<le> ut_expiry v" if "queue_map q1 j = Some v" for j v
      proof -
        have "queue_map q j = Some v"
          using that ih True by (auto split: if_splits)
        then have "v \<in> set (u # us)"
          using queue_map_iff [OF 1(2)] mem Cons by simp
        then show ?thesis
          using 1(2) Cons by (auto simp: queue_inv_def)
      qed
      have clock: "\<forall>k<length calls. now (n + k) < deadline"
      proof (intro allI impI)
        fix k
        assume "k < length calls"
        then show "now (n + k) < deadline"
          using ih True by (cases k) (auto simp: res)
      qed
      have "\<forall>i u j v. i \<in> fst ` set calls \<longrightarrow> queue_map q i = Some u \<longrightarrow> queue_map q' j = Some v \<longrightarrow> ut_expiry u \<le> ut_expiry v"
      proof (intro allI impI)
        fix i w j v
        assume i: "i \<in> fst ` set calls" "queue_map q i = Some w" "queue_map q' j = Some v"
        show "ut_expiry w \<le> ut_expiry v"
        proof (cases "i = ut_id u")
          case True
          then show ?thesis
            using i(2,3) u first by (simp add: res)
        next
          case False
          then have "i \<in> fst ` set calls1" "((queue_map q)(ut_id u := None)) i = Some w"
            using i(1,2) by (simp_all add: res)
          then show ?thesis
            using ih True i(3) unfolding res by blast
        qed
      qed
      moreover have "queue_inv q' \<and> uq_mode q' = uq_mode q \<and>
          (\<forall>(i, ty)\<in>set calls. \<exists>u. queue_map q i = Some u \<and> ut_trx_type u = ty \<and> ut_expiry u \<le> t) \<and> distinct (map fst calls) \<and>
          queue_map q' = (\<lambda>i. if i \<in> fst ` set calls then None else queue_map q i) \<and>
          (ok \<longrightarrow> (\<forall>i u. queue_map q' i = Some u \<longrightarrow> t < ut_expiry u)) \<and>
          (\<not> ok \<longrightarrow> deadline \<le> now (n + length calls))"
        using ih True u sub unfolding res by (fastforce simp: fun_eq_iff split: if_splits)
      ultimately show ?thesis
        using clock by (elim conjE, intro conjI) assumption+
    next
      case False
      then show ?thesis
        using 1(2,3) Cons later by (auto simp: clear_expired_loop.simps [of _ _ _ _ q] split: if_splits)
    qed
  qed
qed

section \<open>The pool of transactions\<close>

text \<open>The specification: a mode and a map from identifiers to entries; the first entry of a transaction counts.\<close>

type_synonym pool = "digest \<Rightarrow> unapplied_transaction option"

definition pool_add :: "trx_enum_type \<Rightarrow> transaction_metadata \<Rightarrow> pool \<Rightarrow> pool" where
  "pool_add t trx m =
     (if m (tm_id trx) = None
      then m(tm_id trx \<mapsto> \<lparr>ut_trx_meta = trx, ut_expiry = trx_expiration trx, ut_trx_type = t\<rparr>) else m)"

definition pool_persist :: "transaction_metadata \<Rightarrow> pool \<Rightarrow> pool" where
  "pool_persist trx m =
     (case m (tm_id trx) of
        None \<Rightarrow> pool_add trx_persisted trx m
      | Some u \<Rightarrow> m(tm_id trx \<mapsto> u\<lparr>ut_trx_type := trx_persisted\<rparr>))"

definition pool_applied :: "transaction_receipt list \<Rightarrow> pool \<Rightarrow> pool" where
  "pool_applied receipts m =
     (\<lambda>i. case m i of
        None \<Rightarrow> None
      | Some u \<Rightarrow> if ut_trx_type u \<noteq> trx_persisted \<and> (\<exists>r\<in>set receipts. \<exists>pt. rcpt_trx r = trx_by_packed pt \<and> ptrx_id pt = i)
                  then None else Some u)"

datatype queue_op =
    op_set_mode process_mode
  | op_clear
  | op_forked "block_state list"
  | op_aborted "transaction_metadata list"
  | op_persisted transaction_metadata
  | op_applied block_state
  | op_clear_expired time_point time_point "nat \<Rightarrow> time_point"
  | op_erase digest

text \<open>The iterator at the entry of a transaction, or the end.\<close>

definition uq_position :: "digest \<Rightarrow> unapplied_transaction_queue \<Rightarrow> nat" where
  "uq_position i q = length (takeWhile (\<lambda>u. ut_id u \<noteq> i) (uq_by_type q))"

fun queue_step :: "queue_op \<Rightarrow> unapplied_transaction_queue \<Rightarrow> unapplied_transaction_queue result" where
  "queue_step (op_set_mode m) q = set_mode m q"
| "queue_step op_clear q = Inr (uq_clear q)"
| "queue_step (op_forked b) q = Inr (add_forked b q)"
| "queue_step (op_aborted ts) q = Inr (add_aborted ts q)"
| "queue_step (op_persisted t) q = Inr (add_persisted t q)"
| "queue_step (op_applied bs) q = clear_applied bs q"
| "queue_step (op_clear_expired t deadline now) q = Inr (snd (snd (clear_expired t deadline now q)))"
| "queue_step (op_erase i) q = uq_erase_at (uq_position i q) q"

text \<open>
  What clearing may remove: expired entries only, the earliest first, one per reading of the clock
  before the deadline; expired entries are left only when the next reading is at the deadline.
\<close>

definition pool_expire :: "time_point \<Rightarrow> time_point \<Rightarrow> (nat \<Rightarrow> time_point) \<Rightarrow> pool \<Rightarrow> pool \<Rightarrow> bool" where
  "pool_expire t deadline now m m' \<longleftrightarrow>
     (\<exists>gone. finite gone \<and> m' = m |` (- gone)
        \<and> (\<forall>i\<in>gone. \<exists>u. m i = Some u \<and> ut_expiry u \<le> t \<and> (\<forall>j v. m' j = Some v \<longrightarrow> ut_expiry u \<le> ut_expiry v))
        \<and> (\<forall>k<card gone. now k < deadline)
        \<and> ((\<forall>j v. m' j = Some v \<longrightarrow> t < ut_expiry v) \<or> deadline \<le> now (card gone)))"

fun pool_step :: "queue_op \<Rightarrow> process_mode \<times> pool \<Rightarrow> (process_mode \<times> pool) result \<Rightarrow> bool" where
  "pool_step (op_set_mode new_mode) (mode, m) r \<longleftrightarrow>
     r = (if new_mode = mode \<or> m = Map.empty then Inr (new_mode, m) else Inl fc_assert_exception)"
| "pool_step op_clear (mode, m) r \<longleftrightarrow> r = Inr (mode, Map.empty)"
| "pool_step (op_forked branch) (mode, m) r \<longleftrightarrow>
     r = Inr (mode, if mode = speculative_producer then fold (pool_add trx_forked) (concat (map cached_trxs (rev branch))) m else m)"
| "pool_step (op_aborted trxs) (mode, m) r \<longleftrightarrow>
     r = Inr (mode, if mode = speculative_producer then fold (pool_add trx_aborted) trxs m else m)"
| "pool_step (op_persisted trx) (mode, m) r \<longleftrightarrow> r = Inr (mode, if mode = non_speculative then m else pool_persist trx m)"
| "pool_step (op_applied bs) (mode, m) r \<longleftrightarrow>
     r = (if m = Map.empty then Inr (mode, m)
          else (case bs_block bs of None \<Rightarrow> Inl undefined_behaviour | Some b \<Rightarrow> Inr (mode, pool_applied (blk_transactions b) m)))"
| "pool_step (op_clear_expired t deadline now) (mode, m) r \<longleftrightarrow> (\<exists>m'. r = Inr (mode, m') \<and> pool_expire t deadline now m m')"
| "pool_step (op_erase i) (mode, m) r \<longleftrightarrow> r = (if m i = None then Inl undefined_behaviour else Inr (mode, m(i := None)))"

fun pool_run :: "queue_op list \<Rightarrow> process_mode \<times> pool \<Rightarrow> (process_mode \<times> pool) result \<Rightarrow> bool" where
  "pool_run [] s r \<longleftrightarrow> r = Inr s"
| "pool_run (op # ops) s r \<longleftrightarrow> (\<exists>r'. pool_step op s r' \<and> (case r' of Inl e \<Rightarrow> r = Inl e | Inr s' \<Rightarrow> pool_run ops s' r))"

lemma add_of_type_spec:
  assumes "queue_inv q"
  shows "queue_inv (add_of_type t trx q)" "uq_mode (add_of_type t trx q) = uq_mode q"
    "queue_map (add_of_type t trx q) = pool_add t trx (queue_map q)"
  using uq_insert_spec [OF assms, of "\<lparr>ut_trx_meta = trx, ut_expiry = trx_expiration trx, ut_trx_type = t\<rparr>"]
  by (simp_all add: add_of_type_def pool_add_def ut_id_def)

lemma fold_add_of_type:
  "queue_inv q \<Longrightarrow> queue_inv (fold (add_of_type t) trxs q) \<and> uq_mode (fold (add_of_type t) trxs q) = uq_mode q \<and>
     queue_map (fold (add_of_type t) trxs q) = fold (pool_add t) trxs (queue_map q)"
  by (induction trxs arbitrary: q) (simp_all add: add_of_type_spec)

lemma fold_concat: "fold (\<lambda>bs q. fold f (g bs) q) xs q = fold f (concat (map g xs)) q"
  by (induction xs arbitrary: q) simp_all

lemma pool_applied_Nil [simp]: "pool_applied [] m = m"
  by (auto simp: pool_applied_def fun_eq_iff split: option.split)

lemma clear_applied_receipt_spec:
  assumes "queue_inv q"
  shows "queue_inv (clear_applied_receipt r q) \<and> uq_mode (clear_applied_receipt r q) = uq_mode q \<and>
    queue_map (clear_applied_receipt r q) = pool_applied [r] (queue_map q)"
proof (cases "rcpt_trx r")
  case (trx_by_id d)
  then show ?thesis
    using assms by (auto simp: clear_applied_receipt_def pool_applied_def fun_eq_iff split: option.split)
next
  case (trx_by_packed pt)
  then show ?thesis
    using uq_erase_spec [OF assms, of "ptrx_id pt"] assms
    by (auto simp: clear_applied_receipt_def uq_find_map pool_applied_def fun_eq_iff split: option.splits)
qed

lemma pool_applied_Cons: "pool_applied rs (pool_applied [r] m) = pool_applied (r # rs) m"
  by (auto simp: pool_applied_def fun_eq_iff split: option.splits if_splits)

lemma fold_clear_applied:
  "queue_inv q \<Longrightarrow> queue_inv (fold clear_applied_receipt rs q) \<and> uq_mode (fold clear_applied_receipt rs q) = uq_mode q \<and>
     queue_map (fold clear_applied_receipt rs q) = pool_applied rs (queue_map q)"
proof (induction rs arbitrary: q)
  case (Cons r rs)
  then show ?case
    using clear_applied_receipt_spec [of q r] by (simp add: pool_applied_Cons)
qed simp

lemma uq_empty_map: "uq_empty q \<longleftrightarrow> queue_map q = Map.empty"
  by (auto simp: uq_empty_def queue_map_def)

lemma clear_expired_pool:
  assumes inv: "queue_inv q" and r: "clear_expired t deadline now q = (ok, calls, q')"
  shows "pool_expire t deadline now (queue_map q) (queue_map q') \<and> uq_mode q' = uq_mode q \<and> queue_inv q'"
proof -
  note spec = clear_expired_loop_spec [OF inv r [unfolded clear_expired_def]]
  let ?gone = "fst ` set calls"
  have card: "card ?gone = length calls"
    using spec distinct_card [of "map fst calls"] by simp
  have m': "queue_map q' = queue_map q |` (- ?gone)"
    using spec by (auto simp: restrict_map_def fun_eq_iff)
  have gone: "\<exists>u. queue_map q i = Some u \<and> ut_expiry u \<le> t \<and> (\<forall>j v. queue_map q' j = Some v \<longrightarrow> ut_expiry u \<le> ut_expiry v)"
    if i: "i \<in> ?gone" for i
  proof -
    obtain u where "queue_map q i = Some u" "ut_expiry u \<le> t"
      using spec i by fastforce
    then show ?thesis
      using spec i by blast
  qed
  have left: "(\<forall>j v. queue_map q' j = Some v \<longrightarrow> t < ut_expiry v) \<or> deadline \<le> now (length calls)"
    using spec by (cases ok) simp_all
  have "\<forall>k<length calls. now k < deadline" "uq_mode q' = uq_mode q" "queue_inv q'"
    using spec by simp_all
  then show ?thesis
    unfolding pool_expire_def using m' gone left card by (intro conjI exI [of _ ?gone]) auto
qed

lemma nth_uq_position:
  assumes "queue_map q i = Some u" "queue_inv q"
  shows "uq_position i q < length (uq_by_type q)" "ut_id (uq_by_type q ! uq_position i q) = i"
proof -
  have "u \<in> set (uq_by_type q)" "ut_id u = i"
    using assms queue_map_iff by auto
  then show less: "uq_position i q < length (uq_by_type q)"
    unfolding uq_position_def
    by (metis (mono_tags, lifting) length_takeWhile_le nat_less_le takeWhile_eq_all_conv takeWhile_eq_take take_all_iff le_refl)
  then show "ut_id (uq_by_type q ! uq_position i q) = i"
    unfolding uq_position_def by (metis (mono_tags, lifting) nth_length_takeWhile)
qed

lemma erase_pool:
  assumes inv: "queue_inv q"
  shows "case uq_erase_at (uq_position i q) q of
      Inl e \<Rightarrow> queue_map q i = None \<and> e = undefined_behaviour
    | Inr q' \<Rightarrow> queue_map q i \<noteq> None \<and> queue_map q' = (queue_map q)(i := None) \<and> uq_mode q' = uq_mode q \<and> queue_inv q'"
proof (cases "queue_map q i")
  case None
  then have "takeWhile (\<lambda>u. ut_id u \<noteq> i) (uq_by_type q) = uq_by_type q"
    unfolding queue_map_None takeWhile_eq_all_conv by auto
  then have "uq_position i q = length (uq_by_type q)"
    by (simp only: uq_position_def)
  then show ?thesis
    by (simp add: uq_erase_at_def None)
next
  case (Some u)
  then show ?thesis
    using nth_uq_position [OF Some inv] uq_erase_spec [OF inv, of i] by (simp add: uq_erase_at_def)
qed

lemma queue_step_pool:
  assumes inv: "queue_inv q"
  shows "case queue_step op q of
           Inl e \<Rightarrow> pool_step op (uq_mode q, queue_map q) (Inl e)
         | Inr q' \<Rightarrow> pool_step op (uq_mode q, queue_map q) (Inr (uq_mode q', queue_map q')) \<and> queue_inv q'"
proof (cases op)
  case (op_set_mode m)
  then show ?thesis
    using inv by (auto simp: set_mode_def uq_empty_map eos_assert_def queue_inv_def queue_map_def)
next
  case op_clear
  then show ?thesis
    by (simp add: uq_clear_def queue_inv_def queue_map_def)
next
  case (op_forked branch)
  then show ?thesis
    using fold_add_of_type [OF inv, of trx_forked "concat (map cached_trxs (rev branch))"] inv
    by (cases "uq_mode q") (auto simp: add_forked_def fold_concat)
next
  case (op_aborted trxs)
  then show ?thesis
    using fold_add_of_type [OF inv, of trx_aborted trxs] inv by (cases "uq_mode q") (auto simp: add_aborted_def)
next
  case (op_persisted trx)
  show ?thesis
  proof (cases "queue_map q (tm_id trx)")
    case None
    then show ?thesis
      using op_persisted inv add_of_type_spec [OF inv, of trx_persisted trx]
      by (simp add: add_persisted_def uq_find_map [OF inv] pool_persist_def)
  next
    case (Some u)
    then have id: "ut_id u = tm_id trx"
      using queue_map_iff [OF inv] by simp
    have "(queue_map q)(tm_id trx \<mapsto> u\<lparr>ut_trx_type := trx_persisted\<rparr>) = queue_map q" if "ut_trx_type u = trx_persisted"
      using Some that by (simp add: fun_upd_idem)
    then show ?thesis
      using op_persisted inv Some id uq_modify_type_spec [OF inv, of u trx_persisted]
      by (auto simp: add_persisted_def uq_find_map [OF inv] pool_persist_def)
  qed
next
  case (op_applied bs)
  then show ?thesis
    using fold_clear_applied [OF inv] inv
    by (auto simp: clear_applied_def uq_empty_map of_option_def split: option.split)
next
  case (op_clear_expired t deadline now)
  obtain ok calls q' where r: "clear_expired t deadline now q = (ok, calls, q')"
    by (metis prod_cases3)
  show ?thesis
    using clear_expired_pool [OF inv r] by (simp add: op_clear_expired r)
next
  case (op_erase i)
  show ?thesis
    using erase_pool [OF inv, of i] by (auto simp: op_erase split: sum.splits)
qed

lemma queue_run_pool:
  "queue_inv q \<Longrightarrow>
     (case fold_r queue_step ops q of
        Inl e \<Rightarrow> pool_run ops (uq_mode q, queue_map q) (Inl e)
      | Inr q' \<Rightarrow> pool_run ops (uq_mode q, queue_map q) (Inr (uq_mode q', queue_map q')) \<and> queue_inv q')"
proof (induction ops arbitrary: q)
  case (Cons op ops)
  show ?case
  proof (cases "queue_step op q")
    case (Inl e)
    then show ?thesis
      using queue_step_pool [OF Cons.prems, of op] by (auto intro!: exI [of _ "Inl e"])
  next
    case (Inr q')
    then have step: "pool_step op (uq_mode q, queue_map q) (Inr (uq_mode q', queue_map q'))" and "queue_inv q'"
      using queue_step_pool [OF Cons.prems, of op] by simp_all
    then show ?thesis
      using Cons.IH [of q'] Inr by (auto split: sum.splits intro!: exI [of _ "Inr (uq_mode q', queue_map q')"])
  qed
qed simp

text \<open>
  C39. The queue refines a map from identifiers to entries under every sequence of the operations
  that change it: a transaction is held once, its first addition counts, a block removes the
  transactions it applied unless they are persisted, clearing the expired ones removes expired
  entries only, the earliest first and up to the deadline, erasing at an iterator removes that one
  entry, and the mode decides what is added. In every state the entries are visited in the order
  persisted, forked, aborted, and the range of the persisted entries holds exactly those.
\<close>

theorem unapplied_queue_is_pool:
  "case fold_r queue_step ops empty_queue of
     Inl e \<Rightarrow> pool_run ops (speculative_producer, Map.empty) (Inl e)
   | Inr q \<Rightarrow> pool_run ops (speculative_producer, Map.empty) (Inr (uq_mode q, queue_map q)) \<and>
       sorted (map ut_type_key (uq_by_type q)) \<and>
       (\<forall>i<length (uq_by_type q). ut_trx_type (uq_by_type q ! i) = trx_persisted \<longleftrightarrow>
          uq_persisted_begin q \<le> i \<and> i < uq_persisted_end q)"
proof -
  have range: "ut_trx_type (uq_by_type q ! i) = trx_persisted \<longleftrightarrow> uq_persisted_begin q \<le> i \<and> i < uq_persisted_end q"
    if "queue_inv q" "i < length (uq_by_type q)" for q i
  proof -
    have tw: "j < length (takeWhile (\<lambda>u. P (ut_type_key u)) (uq_by_type q)) \<longleftrightarrow> P (ut_type_key (uq_by_type q ! j))"
      if "j < length (uq_by_type q)" "\<And>a b. a \<le> b \<Longrightarrow> P b \<Longrightarrow> P a" for P j
    proof
      assume "j < length (takeWhile (\<lambda>u. P (ut_type_key u)) (uq_by_type q))"
      then show "P (ut_type_key (uq_by_type q ! j))"
        by (metis nth_mem set_takeWhileD takeWhile_nth)
    next
      assume P: "P (ut_type_key (uq_by_type q ! j))"
      have "P (ut_type_key (uq_by_type q ! k))" if "k \<le> j" for k
        using sorted_nth_mono [of "map ut_type_key (uq_by_type q)" k j] \<open>queue_inv q\<close> that \<open>j < _\<close> P \<open>\<And>a b. a \<le> b \<Longrightarrow> P b \<Longrightarrow> P a\<close>
        by (auto simp: queue_inv_def)
      then show "j < length (takeWhile (\<lambda>u. P (ut_type_key u)) (uq_by_type q))"
        using length_takeWhile_less_P_nth [of "Suc j" "\<lambda>u. P (ut_type_key u)" "uq_by_type q"] \<open>j < _\<close> by auto
    qed
    have "ut_trx_type (uq_by_type q ! i) = trx_persisted \<longleftrightarrow> ut_type_key (uq_by_type q ! i) = 1"
      by (cases "ut_trx_type (uq_by_type q ! i)") (simp_all add: ut_type_key_def)
    then show ?thesis
      using tw [OF that(2), of "\<lambda>k. k < 1"] tw [OF that(2), of "\<lambda>k. k \<le> 1"]
      by (auto simp: uq_persisted_begin_def uq_persisted_end_def not_less)
  qed
  have "queue_inv empty_queue" "queue_map empty_queue = Map.empty" "uq_mode empty_queue = speculative_producer"
    by (simp_all add: empty_queue_def queue_inv_def queue_map_def)
  with queue_run_pool [of empty_queue ops] range show ?thesis
    by (auto simp: queue_inv_def split: sum.splits)
qed

text \<open>
  C40. Clearing expired transactions calls back exactly for the entries it removes, each once and each
  expired at the time of the pending block. When it reports success no expired entry is left; it
  reports failure only when the deadline has passed.
\<close>

theorem clear_expired_correct:
  assumes "queue_inv q" "clear_expired t deadline now q = (ok, calls, q')"
  shows "queue_inv q' \<and>
    (\<forall>(i, ty)\<in>set calls. \<exists>u. queue_map q i = Some u \<and> ut_trx_type u = ty \<and> ut_expiry u \<le> t) \<and> distinct (map fst calls) \<and>
    queue_map q' = (\<lambda>i. if i \<in> fst ` set calls then None else queue_map q i) \<and>
    (ok \<longrightarrow> (\<forall>i u. queue_map q' i = Some u \<longrightarrow> t < ut_expiry u)) \<and>
    (\<not> ok \<longrightarrow> deadline \<le> now (length calls))"
  using clear_expired_loop_spec [OF assms(1) assms(2) [unfolded clear_expired_def]] by simp

section \<open>Sample\<close>

definition sample_queue_trx :: "asset \<Rightarrow> nat \<Rightarrow> transaction_metadata" where
  "sample_queue_trx zero_fee secs = create_no_recover_keys
     \<lparr>ptrx_signatures = [], ptrx_compression = 0, packed_context_free_data = [], packed_trx = [],
      unpacked_trx = \<lparr>expiration = secs, ref_block_num = 0, ref_block_prefix = 0, max_net_usage_words = 0, max_cpu_usage_ms = 0, delay_sec = 0,
        context_free_actions = [], actions = [], transaction_extensions = [], fee = zero_fee, trx_signatures = [], context_free_data = []\<rparr>,
      ptrx_id = \<lparr>dg0 = of_nat secs, dg1 = 0, dg2 = 0, dg3 = 0\<rparr>\<rparr> trx_implicit"

definition sample_queue :: "asset \<Rightarrow> unapplied_transaction_queue" where
  "sample_queue z = add_persisted (sample_queue_trx z 5) (add_aborted [sample_queue_trx z 3, sample_queue_trx z 5] empty_queue)"

lemma sample_queue_inv: "queue_inv (sample_queue z)"
  by (simp add: sample_queue_def sample_queue_trx_def create_no_recover_keys_def add_persisted_def add_aborted_def empty_queue_def
      add_of_type_def uq_insert_def uq_find_def ut_id_def tm_id_def ut_type_key_def trx_expiration_def uq_modify_type_def queue_inv_def)

theorem clear_expired_correct_witness:
  "case clear_expired 4000000 9 (\<lambda>_. 0) (sample_queue \<lparr>amount = 0, sym = 4\<rparr>) of (ok, calls, q') \<Rightarrow>
     queue_inv q' \<and> queue_map q' = (\<lambda>i. if i \<in> fst ` set calls then None else queue_map (sample_queue \<lparr>amount = 0, sym = 4\<rparr>) i)"
  using clear_expired_correct [OF sample_queue_inv, of 4000000 9 "\<lambda>_. 0"] by (auto split: prod.split)

theorem unapplied_queue_is_pool_witness:
  "let ops = [op_aborted [sample_queue_trx \<lparr>amount = 0, sym = 4\<rparr> 3], op_persisted (sample_queue_trx \<lparr>amount = 0, sym = 4\<rparr> 5),
              op_erase (tm_id (sample_queue_trx \<lparr>amount = 0, sym = 4\<rparr> 3))] in
   \<exists>q. fold_r queue_step ops empty_queue = Inr q \<and>
     pool_run ops (speculative_producer, Map.empty) (Inr (uq_mode q, queue_map q))"
proof -
  let ?ops = "[op_aborted [sample_queue_trx \<lparr>amount = 0, sym = 4\<rparr> 3], op_persisted (sample_queue_trx \<lparr>amount = 0, sym = 4\<rparr> 5),
              op_erase (tm_id (sample_queue_trx \<lparr>amount = 0, sym = 4\<rparr> 3))]"
  have "\<exists>q. fold_r queue_step ?ops empty_queue = Inr q"
    by (simp add: sample_queue_trx_def create_no_recover_keys_def add_persisted_def add_aborted_def empty_queue_def
        add_of_type_def uq_insert_def uq_find_def ut_id_def tm_id_def ut_type_key_def trx_expiration_def uq_erase_at_def uq_position_def)
  then obtain q where q: "fold_r queue_step ?ops empty_queue = Inr q" ..
  show ?thesis
    using unapplied_queue_is_pool [of ?ops] q unfolding Let_def q sum.case by blast
qed

end
