(* ===== verification/Contract_Tables.thy ===== *)
theory Contract_Tables
  imports Resource_Accounting Transactions
begin

text \<open>
  The tables contracts read and write (\<^verbatim>\<open>apply_context.hpp\<close>, \<^verbatim>\<open>apply_context.cpp\<close>,
  \<^verbatim>\<open>contract_table_objects.hpp\<close>): rows in primary and secondary indices, the cache that gives contracts
  small integers for the objects they reached, and the RAM billed for every row and table. A
  pointer to an object is the identifier of its row; following it after the row was removed is
  undefined behaviour. Rows carry a value of any type: bytes in the primary table, the secondary
  key in the secondary indices.
\<close>

section \<open>Objects\<close>

record table_id_object =
  tid_code :: account_name
  tid_scope :: name
  tid_table :: name
  tid_payer :: account_name
  tid_count :: nat

record 'a row_object =
  row_t_id :: nat
  row_primary_key :: u64
  row_payer :: account_name
  row_data :: 'a

definition overhead_per_row_per_index_ram_bytes :: nat where
  "overhead_per_row_per_index_ram_bytes = 32"

definition billable_table_id_object :: nat where
  "billable_table_id_object = billable_size_v (44 + overhead_per_row_per_index_ram_bytes * 2)"

definition billable_key_value_object :: nat where
  "billable_key_value_object = billable_size_v (32 + 8 + 4 + overhead_per_row_per_index_ram_bytes * 2)"

definition billable_index64_object :: nat where
  "billable_index64_object = billable_size_v (24 + 8 + overhead_per_row_per_index_ram_bytes * 3)"

definition billable_index128_object :: nat where
  "billable_index128_object = billable_size_v (24 + 16 + overhead_per_row_per_index_ram_bytes * 3)"

definition billable_index256_object :: nat where
  "billable_index256_object = billable_size_v (24 + 32 + overhead_per_row_per_index_ram_bytes * 3)"

section \<open>The iterator cache\<close>

record iterator_cache =
  ic_table_cache :: "(nat, int) table"
  ic_end_iterator_to_table :: "nat list"
  ic_iterator_to_object :: "nat option list"
  ic_object_to_iterator :: "(nat, int) table"

definition empty_cache :: iterator_cache where
  "empty_cache = \<lparr>ic_table_cache = [], ic_end_iterator_to_table = [], ic_iterator_to_object = [], ic_object_to_iterator = []\<rparr>"

definition index_to_end_iterator :: "nat \<Rightarrow> int" where
  "index_to_end_iterator indx = - (int indx + 2)"

text \<open>Negating the least 32-bit integer overflows.\<close>

definition end_iterator_to_index :: "int \<Rightarrow> nat result" where
  "end_iterator_to_index ei = (if ei = - (2 ^ 31) then Inl undefined_behaviour else Inr (nat (- ei - 2)))"

definition cache_table :: "nat \<Rightarrow> iterator_cache \<Rightarrow> int \<times> iterator_cache" where
  "cache_table t c =
     (case tbl_find t (ic_table_cache c) of
        Some ei \<Rightarrow> (ei, c)
      | None \<Rightarrow>
          (let ei = index_to_end_iterator (length (ic_end_iterator_to_table c)) in
           (ei, c\<lparr>ic_end_iterator_to_table := ic_end_iterator_to_table c @ [t],
                  ic_table_cache := tbl_put t ei (ic_table_cache c)\<rparr>)))"

definition ic_get_table :: "nat \<Rightarrow> iterator_cache \<Rightarrow> nat result" where
  "ic_get_table t c =
     bind_r (eos_assert (tbl_find t (ic_table_cache c) \<noteq> None) table_not_in_cache) (\<lambda>_. Inr t)"

definition get_end_iterator_by_table_id :: "nat \<Rightarrow> iterator_cache \<Rightarrow> int result" where
  "get_end_iterator_by_table_id t c = of_option table_not_in_cache (tbl_find t (ic_table_cache c))"

definition find_table_by_end_iterator :: "int \<Rightarrow> iterator_cache \<Rightarrow> nat option result" where
  "find_table_by_end_iterator ei c =
     bind_r (eos_assert (ei < -1) invalid_table_iterator) (\<lambda>_.
     bind_r (end_iterator_to_index ei) (\<lambda>indx.
       Inr (if indx \<ge> length (ic_end_iterator_to_table c) then None else Some (ic_end_iterator_to_table c ! indx))))"

definition ic_check :: "int \<Rightarrow> iterator_cache \<Rightarrow> unit result" where
  "ic_check iterator c =
     bind_r (eos_assert (iterator \<noteq> -1) invalid_table_iterator) (\<lambda>_.
     bind_r (eos_assert (iterator \<ge> 0) table_operation_not_permitted) (\<lambda>_.
       eos_assert (nat iterator < length (ic_iterator_to_object c)) invalid_table_iterator))"

definition ic_get :: "int \<Rightarrow> iterator_cache \<Rightarrow> nat result" where
  "ic_get iterator c =
     bind_r (ic_check iterator c) (\<lambda>_.
       of_option table_operation_not_permitted (ic_iterator_to_object c ! nat iterator))"

definition ic_remove :: "int \<Rightarrow> iterator_cache \<Rightarrow> iterator_cache result" where
  "ic_remove iterator c =
     bind_r (ic_check iterator c) (\<lambda>_.
       (case ic_iterator_to_object c ! nat iterator of
          None \<Rightarrow> Inr c
        | Some obj \<Rightarrow> Inr (c\<lparr>ic_iterator_to_object := (ic_iterator_to_object c)[nat iterator := None],
                             ic_object_to_iterator := tbl_remove obj (ic_object_to_iterator c)\<rparr>)))"

definition ic_add :: "nat \<Rightarrow> iterator_cache \<Rightarrow> int \<times> iterator_cache" where
  "ic_add obj c =
     (case tbl_find obj (ic_object_to_iterator c) of
        Some i \<Rightarrow> (i, c)
      | None \<Rightarrow>
          (int (length (ic_iterator_to_object c)),
           c\<lparr>ic_iterator_to_object := ic_iterator_to_object c @ [Some obj],
             ic_object_to_iterator := tbl_put obj (int (length (ic_iterator_to_object c))) (ic_object_to_iterator c)\<rparr>))"

section \<open>Tables and RAM\<close>

text \<open>What an action knows: its receiver, whether it is privileged, the action, and two settings of the chain.\<close>

record apply_ctx =
  ax_receiver :: account_name
  ax_privileged :: bool
  ax_act :: action
  ax_ram_restrictions :: bool
  ax_ram_billing_in_notify_allowed :: bool

record tables_state =
  ts_tables :: "(nat, table_id_object) table"
  ts_next_table :: nat
  ts_resources :: resource_db
  ts_account_ram_deltas :: "(account_name, int) table"
  ts_validate_ram_usage :: "account_name set"

definition require_authorization :: "apply_ctx \<Rightarrow> account_name \<Rightarrow> unit result" where
  "require_authorization ctx account =
     eos_assert (\<exists>auth\<in>set (act_authorization (ax_act ctx)). fst auth = account) missing_auth_exception"

definition trx_add_ram_usage :: "account_name \<Rightarrow> int \<Rightarrow> tables_state \<Rightarrow> tables_state result" where
  "trx_add_ram_usage account ram_delta st =
     bind_r (add_pending_ram_usage account ram_delta (ts_resources st)) (\<lambda>rl.
       Inr (st\<lparr>ts_resources := rl,
               ts_validate_ram_usage :=
                 (if ram_delta > 0 then insert account (ts_validate_ram_usage st) else ts_validate_ram_usage st)\<rparr>))"

definition add_ram_usage :: "account_name \<Rightarrow> int \<Rightarrow> tables_state \<Rightarrow> tables_state result" where
  "add_ram_usage account ram_delta st =
     bind_r (trx_add_ram_usage account ram_delta st) (\<lambda>st.
       Inr (st\<lparr>ts_account_ram_deltas :=
                 tbl_put account
                   (case tbl_find account (ts_account_ram_deltas st) of
                      None \<Rightarrow> ram_delta | Some d \<Rightarrow> wrap_i64 (d + ram_delta)) (ts_account_ram_deltas st)\<rparr>))"

definition update_db_usage :: "apply_ctx \<Rightarrow> account_name \<Rightarrow> int \<Rightarrow> tables_state \<Rightarrow> tables_state result" where
  "update_db_usage ctx payer delta st =
     bind_r (if delta > 0 \<and> \<not> (ax_privileged ctx \<or> payer = ax_receiver ctx \<or> ax_ram_restrictions ctx)
             then bind_r (eos_assert (ax_ram_billing_in_notify_allowed ctx \<or> ax_receiver ctx = act_account (ax_act ctx))
                            subjective_block_production_exception) (\<lambda>_. require_authorization ctx payer)
             else Inr ()) (\<lambda>_.
       add_ram_usage payer delta st)"

definition find_table :: "name \<Rightarrow> name \<Rightarrow> name \<Rightarrow> tables_state \<Rightarrow> nat option" where
  "find_table code scope tab st =
     map_option fst (List.find (\<lambda>(i, t). tid_code t = code \<and> tid_scope t = scope \<and> tid_table t = tab) (ts_tables st))"

definition find_or_create_table ::
    "apply_ctx \<Rightarrow> name \<Rightarrow> name \<Rightarrow> name \<Rightarrow> account_name \<Rightarrow> tables_state \<Rightarrow> (nat \<times> tables_state) result" where
  "find_or_create_table ctx code scope tab payer st =
     (case find_table code scope tab st of
        Some t \<Rightarrow> Inr (t, st)
      | None \<Rightarrow>
          bind_r (update_db_usage ctx payer (int billable_table_id_object) st) (\<lambda>st.
            Inr (ts_next_table st,
                 st\<lparr>ts_tables := tbl_put (ts_next_table st)
                      \<lparr>tid_code = code, tid_scope = scope, tid_table = tab, tid_payer = payer, tid_count = 0\<rparr> (ts_tables st),
                    ts_next_table := ts_next_table st + 1\<rparr>)))"

definition remove_table :: "apply_ctx \<Rightarrow> nat \<Rightarrow> tables_state \<Rightarrow> tables_state result" where
  "remove_table ctx t st =
     bind_r (of_option undefined_behaviour (tbl_find t (ts_tables st))) (\<lambda>tid.
     bind_r (update_db_usage ctx (tid_payer tid) (- int billable_table_id_object) st) (\<lambda>st.
       Inr (st\<lparr>ts_tables := tbl_remove t (ts_tables st)\<rparr>)))"

definition modify_count :: "(nat \<Rightarrow> nat) \<Rightarrow> nat \<Rightarrow> tables_state \<Rightarrow> tables_state result" where
  "modify_count f t st =
     bind_r (of_option undefined_behaviour (tbl_find t (ts_tables st))) (\<lambda>tid.
       Inr (st\<lparr>ts_tables := tbl_put t (tid\<lparr>tid_count := f (tid_count tid)\<rparr>) (ts_tables st)\<rparr>))"

text \<open>Following the pointer to a table, in a check of its owner.\<close>

definition check_table_code :: "apply_ctx \<Rightarrow> nat \<Rightarrow> tables_state \<Rightarrow> unit result" where
  "check_table_code ctx t st =
     bind_r (of_option undefined_behaviour (tbl_find t (ts_tables st))) (\<lambda>tid.
       eos_assert (tid_code tid = ax_receiver ctx) table_access_violation)"

section \<open>Rows\<close>

record 'a index_state =
  ix_rows :: "(nat, 'a row_object) table"
  ix_next :: nat
  ix_cache :: iterator_cache

definition empty_index :: "'a index_state" where
  "empty_index = \<lparr>ix_rows = [], ix_next = 0, ix_cache = empty_cache\<rparr>"

definition primary_key_of :: "'a row_object \<Rightarrow> nat \<times> u64" where
  "primary_key_of r = (row_t_id r, row_primary_key r)"

text \<open>The rows in the order of an index.\<close>

definition entries_by :: "('a row_object \<Rightarrow> 'k :: linorder) \<Rightarrow> 'a index_state \<Rightarrow> (nat \<times> 'a row_object) list" where
  "entries_by key ix = sort_key (\<lambda>e. key (snd e)) (ix_rows ix)"

text \<open>A lower or upper bound is the first entry that satisfies a condition.\<close>

definition first_entry :: "('a row_object \<Rightarrow> 'k :: linorder) \<Rightarrow> ('a row_object \<Rightarrow> bool) \<Rightarrow> 'a index_state \<Rightarrow> (nat \<times> 'a row_object) option" where
  "first_entry key P ix = List.find (\<lambda>e. P (snd e)) (entries_by key ix)"

definition entry_after :: "('a row_object \<Rightarrow> 'k :: linorder) \<Rightarrow> nat \<Rightarrow> 'a index_state \<Rightarrow> (nat \<times> 'a row_object) option" where
  "entry_after key i ix =
     (case dropWhile (\<lambda>e. fst e \<noteq> i) (entries_by key ix) of e # e' # _ \<Rightarrow> Some e' | _ \<Rightarrow> None)"

definition entry_before :: "('a row_object \<Rightarrow> 'k :: linorder) \<Rightarrow> nat \<Rightarrow> 'a index_state \<Rightarrow> (nat \<times> 'a row_object) option" where
  "entry_before key i ix =
     (case takeWhile (\<lambda>e. fst e \<noteq> i) (entries_by key ix) of [] \<Rightarrow> None | es \<Rightarrow> Some (last es))"

text \<open>The last entry of the tables up to one.\<close>

definition last_entry :: "('a row_object \<Rightarrow> 'k :: linorder) \<Rightarrow> nat \<Rightarrow> 'a index_state \<Rightarrow> (nat \<times> 'a row_object) option" where
  "last_entry key t ix =
     (case takeWhile (\<lambda>e. row_t_id (snd e) \<le> t) (entries_by key ix) of [] \<Rightarrow> None | es \<Rightarrow> Some (last es))"

definition add_to_cache :: "nat \<Rightarrow> 'a index_state \<Rightarrow> int \<times> 'a index_state" where
  "add_to_cache i ix = (case ic_add i (ix_cache ix) of (k, c) \<Rightarrow> (k, ix\<lparr>ix_cache := c\<rparr>))"

definition cache_table_of :: "nat \<Rightarrow> 'a index_state \<Rightarrow> int \<times> 'a index_state" where
  "cache_table_of t ix = (case cache_table t (ix_cache ix) of (k, c) \<Rightarrow> (k, ix\<lparr>ix_cache := c\<rparr>))"

text \<open>Creating a row fails when another row has its key in the unique index \<open>key\<close>.\<close>

definition create_row ::
    "('a row_object \<Rightarrow> 'k) \<Rightarrow> 'a row_object \<Rightarrow> 'a index_state \<Rightarrow> (nat \<times> 'a index_state) result" where
  "create_row key r ix =
     (if \<exists>e\<in>set (ix_rows ix). key (snd e) = key r then Inl db_not_unique
      else Inr (ix_next ix, ix\<lparr>ix_rows := tbl_put (ix_next ix) r (ix_rows ix), ix_next := ix_next ix + 1\<rparr>))"

definition get_row :: "int \<Rightarrow> 'a index_state \<Rightarrow> (nat \<times> 'a row_object) result" where
  "get_row iterator ix =
     bind_r (ic_get iterator (ix_cache ix)) (\<lambda>i.
     bind_r (of_option undefined_behaviour (tbl_find i (ix_rows ix))) (\<lambda>r. Inr (i, r)))"

section \<open>Moving iterators\<close>

text \<open>
  The functions that move or find iterators are the same for every index but for the order of
  the rows. They return the iterator and the primary key they assign, if they do.
\<close>

definition index_next ::
    "('a row_object \<Rightarrow> 'k :: linorder) \<Rightarrow> int \<Rightarrow> 'a index_state \<Rightarrow> (int \<times> u64 option \<times> 'a index_state) result" where
  "index_next key iterator ix =
     (if iterator < -1 then Inr (-1, None, ix)
      else bind_r (get_row iterator ix) (\<lambda>(i, obj).
        let to_end = bind_r (get_end_iterator_by_table_id (row_t_id obj) (ix_cache ix)) (\<lambda>ei. Inr (ei, None, ix)) in
        (case entry_after key i ix of
           None \<Rightarrow> to_end
         | Some (j, r) \<Rightarrow>
             if row_t_id r \<noteq> row_t_id obj then to_end
             else (case add_to_cache j ix of (k, ix) \<Rightarrow> Inr (k, Some (row_primary_key r), ix)))))"

definition index_previous ::
    "('a row_object \<Rightarrow> 'k :: linorder) \<Rightarrow> int \<Rightarrow> tables_state \<Rightarrow> 'a index_state \<Rightarrow> (int \<times> u64 option \<times> 'a index_state) result" where
  "index_previous key iterator st ix =
     (if iterator < -1 then
        bind_r (find_table_by_end_iterator iterator (ix_cache ix)) (\<lambda>tab.
        bind_r (of_option invalid_table_iterator tab) (\<lambda>t.
        bind_r (of_option undefined_behaviour (tbl_find t (ts_tables st))) (\<lambda>_.
          (case last_entry key t ix of
             None \<Rightarrow> Inr (-1, None, ix)
           | Some (j, r) \<Rightarrow>
               if row_t_id r \<noteq> t then Inr (-1, None, ix)
               else (case add_to_cache j ix of (k, ix) \<Rightarrow> Inr (k, Some (row_primary_key r), ix))))))
      else bind_r (get_row iterator ix) (\<lambda>(i, obj).
        (case entry_before key i ix of
           None \<Rightarrow> Inr (-1, None, ix)
         | Some (j, r) \<Rightarrow>
             if row_t_id r \<noteq> row_t_id obj then Inr (-1, None, ix)
             else (case add_to_cache j ix of (k, ix) \<Rightarrow> Inr (k, Some (row_primary_key r), ix)))))"

text \<open>Searching a table: the entry is the first one that satisfies \<open>P\<close>, if it is in the table.\<close>

definition index_search ::
    "('a row_object \<Rightarrow> 'k :: linorder) \<Rightarrow> (nat \<Rightarrow> 'a row_object \<Rightarrow> bool) \<Rightarrow> name \<Rightarrow> name \<Rightarrow> name \<Rightarrow> tables_state \<Rightarrow> 'a index_state
       \<Rightarrow> int \<times> 'a row_object option \<times> 'a index_state" where
  "index_search key P code scope tab st ix =
     (case find_table code scope tab st of
        None \<Rightarrow> (-1, None, ix)
      | Some t \<Rightarrow>
          (case cache_table_of t ix of (table_end_itr, ix) \<Rightarrow>
             (case first_entry key (P t) ix of
                None \<Rightarrow> (table_end_itr, None, ix)
              | Some (j, r) \<Rightarrow>
                  if row_t_id r \<noteq> t then (table_end_itr, None, ix)
                  else (case add_to_cache j ix of (k, ix) \<Rightarrow> (k, Some r, ix)))))"

definition index_end :: "name \<Rightarrow> name \<Rightarrow> name \<Rightarrow> tables_state \<Rightarrow> 'a index_state \<Rightarrow> int \<times> 'a index_state" where
  "index_end code scope tab st ix =
     (case find_table code scope tab st of None \<Rightarrow> (-1, ix) | Some t \<Rightarrow> cache_table_of t ix)"

section \<open>The primary table\<close>

type_synonym kv_index = "bytes index_state"

definition db_store_i64 ::
    "apply_ctx \<Rightarrow> name \<Rightarrow> name \<Rightarrow> name \<Rightarrow> account_name \<Rightarrow> u64 \<Rightarrow> bytes \<Rightarrow> tables_state \<Rightarrow> kv_index
       \<Rightarrow> (int \<times> tables_state \<times> kv_index) result" where
  "db_store_i64 ctx code scope tab payer pk buffer st ix =
     bind_r (find_or_create_table ctx code scope tab payer st) (\<lambda>(t, st).
     bind_r (eos_assert (payer \<noteq> 0) invalid_table_payer) (\<lambda>_.
     bind_r (create_row primary_key_of \<lparr>row_t_id = t, row_primary_key = pk, row_payer = payer, row_data = buffer\<rparr> ix) (\<lambda>(i, ix).
     bind_r (modify_count (\<lambda>n. add32 n 1) t st) (\<lambda>st.
     bind_r (update_db_usage ctx payer (int (length buffer + billable_key_value_object)) st) (\<lambda>st.
       (case add_to_cache i (snd (cache_table_of t ix)) of (k, ix) \<Rightarrow> Inr (k, st, ix)))))))"

definition db_update_i64 ::
    "apply_ctx \<Rightarrow> int \<Rightarrow> account_name \<Rightarrow> bytes \<Rightarrow> tables_state \<Rightarrow> kv_index \<Rightarrow> (tables_state \<times> kv_index) result" where
  "db_update_i64 ctx iterator payer buffer st ix =
     bind_r (get_row iterator ix) (\<lambda>(i, obj).
     bind_r (ic_get_table (row_t_id obj) (ix_cache ix)) (\<lambda>t.
     bind_r (check_table_code ctx t st) (\<lambda>_.
     (let overhead = int billable_key_value_object;
          old_size = int (length (row_data obj)) + overhead;
          new_size = int (length buffer) + overhead;
          payer = (if payer = 0 then row_payer obj else payer)
      in
     bind_r (if row_payer obj \<noteq> payer then
               bind_r (update_db_usage ctx (row_payer obj) (- old_size) st) (update_db_usage ctx payer new_size)
             else if old_size \<noteq> new_size then update_db_usage ctx (row_payer obj) (new_size - old_size) st
             else Inr st) (\<lambda>st.
       Inr (st, ix\<lparr>ix_rows := tbl_put i (obj\<lparr>row_data := buffer, row_payer := payer\<rparr>) (ix_rows ix)\<rparr>))))))"

text \<open>Taking a row out of the table: the count, the row and, if it was the last one, the table.\<close>

definition drop_row :: "apply_ctx \<Rightarrow> nat \<Rightarrow> nat \<Rightarrow> tables_state \<Rightarrow> 'a index_state \<Rightarrow> (tables_state \<times> 'a index_state) result" where
  "drop_row ctx t i st ix =
     bind_r (modify_count (\<lambda>n. sub32 n 1) t st) (\<lambda>st.
     (let ix = ix\<lparr>ix_rows := tbl_remove i (ix_rows ix)\<rparr> in
     bind_r (of_option undefined_behaviour (tbl_find t (ts_tables st))) (\<lambda>tid.
     bind_r (if tid_count tid = 0 then remove_table ctx t st else Inr st) (\<lambda>st. Inr (st, ix)))))"

definition db_remove_i64 :: "apply_ctx \<Rightarrow> int \<Rightarrow> tables_state \<Rightarrow> kv_index \<Rightarrow> (tables_state \<times> kv_index) result" where
  "db_remove_i64 ctx iterator st ix =
     bind_r (get_row iterator ix) (\<lambda>(i, obj).
     bind_r (ic_get_table (row_t_id obj) (ix_cache ix)) (\<lambda>t.
     bind_r (check_table_code ctx t st) (\<lambda>_.
     bind_r (update_db_usage ctx (row_payer obj) (- int (length (row_data obj) + billable_key_value_object)) st) (\<lambda>st.
     bind_r (drop_row ctx t i st ix) (\<lambda>(st, ix).
     bind_r (ic_remove iterator (ix_cache ix)) (\<lambda>c.
       Inr (st, ix\<lparr>ix_cache := c\<rparr>)))))))"

text \<open>The size returned and the bytes copied into the buffer.\<close>

definition db_get_i64 :: "int \<Rightarrow> nat \<Rightarrow> kv_index \<Rightarrow> (nat \<times> bytes) result" where
  "db_get_i64 iterator buffer_size ix =
     bind_r (get_row iterator ix) (\<lambda>(_, obj).
       (let s = length (row_data obj); copy_size = min buffer_size s in
        if buffer_size = 0 then Inr (s, []) else Inr (copy_size, take copy_size (row_data obj))))"

definition db_next_i64 :: "int \<Rightarrow> kv_index \<Rightarrow> (int \<times> u64 option \<times> kv_index) result" where
  "db_next_i64 iterator ix = index_next primary_key_of iterator ix"

definition db_previous_i64 :: "int \<Rightarrow> tables_state \<Rightarrow> kv_index \<Rightarrow> (int \<times> u64 option \<times> kv_index) result" where
  "db_previous_i64 iterator st ix = index_previous primary_key_of iterator st ix"

text \<open>A search that only reports the iterator.\<close>

definition search_iterator :: "int \<times> 'r \<times> 'a index_state \<Rightarrow> int \<times> 'a index_state" where
  "search_iterator r = (case r of (k, _, ix) \<Rightarrow> (k, ix))"

definition db_find_i64 :: "name \<Rightarrow> name \<Rightarrow> name \<Rightarrow> u64 \<Rightarrow> tables_state \<Rightarrow> kv_index \<Rightarrow> int \<times> kv_index" where
  "db_find_i64 code scope tab pk st ix =
     search_iterator (index_search primary_key_of (\<lambda>t r. primary_key_of r = (t, pk)) code scope tab st ix)"

definition db_lowerbound_i64 :: "name \<Rightarrow> name \<Rightarrow> name \<Rightarrow> u64 \<Rightarrow> tables_state \<Rightarrow> kv_index \<Rightarrow> int \<times> kv_index" where
  "db_lowerbound_i64 code scope tab pk st ix =
     search_iterator (index_search primary_key_of (\<lambda>t r. (t, pk) \<le> primary_key_of r) code scope tab st ix)"

definition db_upperbound_i64 :: "name \<Rightarrow> name \<Rightarrow> name \<Rightarrow> u64 \<Rightarrow> tables_state \<Rightarrow> kv_index \<Rightarrow> int \<times> kv_index" where
  "db_upperbound_i64 code scope tab pk st ix =
     search_iterator (index_search primary_key_of (\<lambda>t r. (t, pk) < primary_key_of r) code scope tab st ix)"

definition db_end_i64 :: "name \<Rightarrow> name \<Rightarrow> name \<Rightarrow> tables_state \<Rightarrow> kv_index \<Rightarrow> int \<times> kv_index" where
  "db_end_i64 code scope tab st ix = index_end code scope tab st ix"

section \<open>Secondary indices\<close>

text \<open>A secondary key type comes with the billable size of its rows.\<close>

definition secondary_key_of :: "'k row_object \<Rightarrow> nat \<times> 'k \<times> u64" where
  "secondary_key_of r = (row_t_id r, row_data r, row_primary_key r)"

definition secondary_store ::
    "nat \<Rightarrow> apply_ctx \<Rightarrow> name \<Rightarrow> name \<Rightarrow> account_name \<Rightarrow> u64 \<Rightarrow> 'k \<Rightarrow> tables_state \<Rightarrow> 'k index_state
       \<Rightarrow> (int \<times> tables_state \<times> 'k index_state) result" where
  "secondary_store billable ctx scope tab payer pk value st ix =
     bind_r (eos_assert (payer \<noteq> 0) invalid_table_payer) (\<lambda>_.
     bind_r (find_or_create_table ctx (ax_receiver ctx) scope tab payer st) (\<lambda>(t, st).
     bind_r (create_row primary_key_of \<lparr>row_t_id = t, row_primary_key = pk, row_payer = payer, row_data = value\<rparr> ix) (\<lambda>(i, ix).
     bind_r (modify_count (\<lambda>n. add32 n 1) t st) (\<lambda>st.
     bind_r (update_db_usage ctx payer (int billable) st) (\<lambda>st.
       (case add_to_cache i (snd (cache_table_of t ix)) of (k, ix) \<Rightarrow> Inr (k, st, ix)))))))"

definition secondary_remove ::
    "nat \<Rightarrow> apply_ctx \<Rightarrow> int \<Rightarrow> tables_state \<Rightarrow> 'k index_state \<Rightarrow> (tables_state \<times> 'k index_state) result" where
  "secondary_remove billable ctx iterator st ix =
     bind_r (get_row iterator ix) (\<lambda>(i, obj).
     bind_r (update_db_usage ctx (row_payer obj) (- int billable) st) (\<lambda>st.
     bind_r (ic_get_table (row_t_id obj) (ix_cache ix)) (\<lambda>t.
     bind_r (check_table_code ctx t st) (\<lambda>_.
     bind_r (drop_row ctx t i st ix) (\<lambda>(st, ix).
     bind_r (ic_remove iterator (ix_cache ix)) (\<lambda>c.
       Inr (st, ix\<lparr>ix_cache := c\<rparr>)))))))"

definition secondary_update ::
    "nat \<Rightarrow> apply_ctx \<Rightarrow> int \<Rightarrow> account_name \<Rightarrow> 'k \<Rightarrow> tables_state \<Rightarrow> 'k index_state \<Rightarrow> (tables_state \<times> 'k index_state) result" where
  "secondary_update billable ctx iterator payer secondary st ix =
     bind_r (get_row iterator ix) (\<lambda>(i, obj).
     bind_r (ic_get_table (row_t_id obj) (ix_cache ix)) (\<lambda>t.
     bind_r (check_table_code ctx t st) (\<lambda>_.
     (let payer = (if payer = 0 then row_payer obj else payer) in
     bind_r (if row_payer obj \<noteq> payer then
               bind_r (update_db_usage ctx (row_payer obj) (- int billable) st) (update_db_usage ctx payer (int billable))
             else Inr st) (\<lambda>st.
       Inr (st, ix\<lparr>ix_rows := tbl_put i (obj\<lparr>row_data := secondary, row_payer := payer\<rparr>) (ix_rows ix)\<rparr>))))))"

text \<open>The searches return what the code writes to its reference parameters as well: the row found.\<close>

definition find_secondary ::
    "name \<Rightarrow> name \<Rightarrow> name \<Rightarrow> 'k :: linorder \<Rightarrow> tables_state \<Rightarrow> 'k index_state \<Rightarrow> int \<times> 'k row_object option \<times> 'k index_state" where
  "find_secondary code scope tab secondary st ix =
     index_search secondary_key_of (\<lambda>t r. (row_t_id r, row_data r) = (t, secondary)) code scope tab st ix"

definition lowerbound_secondary ::
    "name \<Rightarrow> name \<Rightarrow> name \<Rightarrow> 'k :: linorder \<Rightarrow> tables_state \<Rightarrow> 'k index_state \<Rightarrow> int \<times> 'k row_object option \<times> 'k index_state" where
  "lowerbound_secondary code scope tab secondary st ix =
     index_search secondary_key_of (\<lambda>t r. (t, secondary) \<le> (row_t_id r, row_data r)) code scope tab st ix"

definition upperbound_secondary ::
    "name \<Rightarrow> name \<Rightarrow> name \<Rightarrow> 'k :: linorder \<Rightarrow> tables_state \<Rightarrow> 'k index_state \<Rightarrow> int \<times> 'k row_object option \<times> 'k index_state" where
  "upperbound_secondary code scope tab secondary st ix =
     index_search secondary_key_of (\<lambda>t r. (t, secondary) < (row_t_id r, row_data r)) code scope tab st ix"

definition end_secondary :: "name \<Rightarrow> name \<Rightarrow> name \<Rightarrow> tables_state \<Rightarrow> 'k index_state \<Rightarrow> int \<times> 'k index_state" where
  "end_secondary code scope tab st ix = index_end code scope tab st ix"

definition next_secondary :: "int \<Rightarrow> 'k :: linorder index_state \<Rightarrow> (int \<times> u64 option \<times> 'k index_state) result" where
  "next_secondary iterator ix = index_next secondary_key_of iterator ix"

definition previous_secondary ::
    "int \<Rightarrow> tables_state \<Rightarrow> 'k :: linorder index_state \<Rightarrow> (int \<times> u64 option \<times> 'k index_state) result" where
  "previous_secondary iterator st ix = index_previous secondary_key_of iterator st ix"

definition find_primary ::
    "name \<Rightarrow> name \<Rightarrow> name \<Rightarrow> u64 \<Rightarrow> tables_state \<Rightarrow> 'k index_state \<Rightarrow> int \<times> 'k row_object option \<times> 'k index_state" where
  "find_primary code scope tab pk st ix =
     index_search primary_key_of (\<lambda>t r. primary_key_of r = (t, pk)) code scope tab st ix"

definition lowerbound_primary ::
    "name \<Rightarrow> name \<Rightarrow> name \<Rightarrow> u64 \<Rightarrow> tables_state \<Rightarrow> 'k index_state \<Rightarrow> int \<times> 'k index_state" where
  "lowerbound_primary code scope tab pk st ix =
     search_iterator (index_search primary_key_of (\<lambda>t r. (t, pk) \<le> primary_key_of r) code scope tab st ix)"

definition upperbound_primary ::
    "name \<Rightarrow> name \<Rightarrow> name \<Rightarrow> u64 \<Rightarrow> tables_state \<Rightarrow> 'k index_state \<Rightarrow> int \<times> 'k index_state" where
  "upperbound_primary code scope tab pk st ix =
     search_iterator (index_search primary_key_of (\<lambda>t r. (t, pk) < primary_key_of r) code scope tab st ix)"

definition next_primary :: "int \<Rightarrow> 'k index_state \<Rightarrow> (int \<times> u64 option \<times> 'k index_state) result" where
  "next_primary iterator ix = index_next primary_key_of iterator ix"

definition previous_primary :: "int \<Rightarrow> tables_state \<Rightarrow> 'k index_state \<Rightarrow> (int \<times> u64 option \<times> 'k index_state) result" where
  "previous_primary iterator st ix = index_previous primary_key_of iterator st ix"

definition get_secondary :: "int \<Rightarrow> 'k index_state \<Rightarrow> (u64 \<times> 'k) result" where
  "get_secondary iterator ix = bind_r (get_row iterator ix) (\<lambda>(_, obj). Inr (row_primary_key obj, row_data obj))"

end
