(* ===== verification/Table_Safety.thy ===== *)
theory Table_Safety
  imports Contract_Tables
begin

text \<open>
  The invariants of contract tables: counts, live pointers in the iterator cache and exact RAM
  billing. A small calculus of postconditions over results (\<open>safely\<close>) carries the proofs: a
  computation is safe when it returns a value with the postcondition or throws an exception that
  the code means to throw.
\<close>

section \<open>Postconditions\<close>

definition intended :: "chain_exception \<Rightarrow> bool" where
  "intended e \<longleftrightarrow> e \<noteq> undefined_behaviour \<and> e \<noteq> table_not_in_cache"

definition safely :: "'a result \<Rightarrow> ('a \<Rightarrow> bool) \<Rightarrow> bool" where
  "safely m P = (case m of Inl e \<Rightarrow> intended e | Inr x \<Rightarrow> P x)"

named_theorems safely_simps \<open>the postcondition calculus\<close>

lemma safely_values [simp, safely_simps]: "safely (Inr x) P = P x" "safely (Inl e) P = intended e"
  by (auto simp: safely_def)

lemma safely_bind [simp, safely_simps]: "safely (bind_r m f) P = safely m (\<lambda>x. safely (f x) P)"
  by (cases m) (auto simp: safely_def)

lemma safely_assert [simp, safely_simps]: "safely (eos_assert c e) P = (if c then P () else intended e)"
  by (simp add: eos_assert_def)

lemma safely_of_option [simp, safely_simps]:
  "safely (of_option e m) P = (case m of None \<Rightarrow> intended e | Some x \<Rightarrow> P x)"
  by (cases m) auto

lemma safely_mono: "safely m P \<Longrightarrow> (\<And>x. m = Inr x \<Longrightarrow> P x \<Longrightarrow> Q x) \<Longrightarrow> safely m Q"
  by (cases m) auto

lemma safely_Inr: "safely m P \<Longrightarrow> m = Inr x \<Longrightarrow> P x"
  by simp

lemma safely_Inl: "safely m P \<Longrightarrow> m = Inl e \<Longrightarrow> intended e"
  by simp

section \<open>Billing\<close>

definition ram_of :: "tables_state \<Rightarrow> account_name \<Rightarrow> int" where
  "ram_of st a = (case tbl_find a (usages (ts_resources st)) of None \<Rightarrow> 0 | Some u \<Rightarrow> int (ram_usage u))"

definition ram_inv :: "tables_state \<Rightarrow> bool" where
  "ram_inv st \<longleftrightarrow> (\<forall>a u. tbl_find a (usages (ts_resources st)) = Some u \<longrightarrow> ram_usage u \<le> u64_max)"

text \<open>The effect of a bill: nothing but the usage of the payer changes.\<close>

definition bill_effect :: "account_name \<Rightarrow> int \<Rightarrow> tables_state \<Rightarrow> tables_state \<Rightarrow> bool" where
  "bill_effect payer delta st st' \<longleftrightarrow>
     ts_tables st' = ts_tables st \<and> ts_next_table st' = ts_next_table st \<and> ram_inv st' \<and>
     (\<forall>a. ram_of st' a = ram_of st a + (if a = payer then delta else 0))"

lemma add_pending_ram_usage_billed:
  assumes "ram_inv st"
  shows "safely (add_pending_ram_usage payer delta (ts_resources st)) (\<lambda>rl. bill_effect payer delta st (st\<lparr>ts_resources := rl\<rparr>))"
proof (cases "delta = 0")
  case True
  then show ?thesis
    using assms by (simp add: add_pending_ram_usage_def bill_effect_def ram_of_def ram_inv_def)
next
  case False
  show ?thesis
  proof (cases "tbl_find payer (usages (ts_resources st))")
    case None
    then show ?thesis
      using False by (simp add: add_pending_ram_usage_def tbl_get_def intended_def)
  next
    case (Some u)
    define s where "s = int (ram_usage u) + delta"
    have u: "ram_usage u \<le> u64_max"
      using assms Some by (simp add: ram_inv_def)
    have e: "intended transaction_exception"
      by (simp add: intended_def)
    show ?thesis
    proof (cases "0 \<le> s \<and> s \<le> int u64_max")
      case True
      then have m: "s mod 2 ^ 64 = s"
        by (simp add: u64_max_def)
      then show ?thesis
        using assms False Some True u e
        by (auto simp: add_pending_ram_usage_def tbl_get_def bill_effect_def ram_of_def ram_inv_def simp flip: s_def)
    next
      case False
      then show ?thesis
        using add_pending_ram_usage_exact [OF Some u s_def] e by (simp add: s_def)
    qed
  qed
qed

lemma update_db_usage_billed:
  assumes "ram_inv st"
  shows "safely (update_db_usage ctx payer delta st) (bill_effect payer delta st)"
proof -
  have e: "intended subjective_block_production_exception" "intended missing_auth_exception"
    by (simp_all add: intended_def)
  have "safely (add_ram_usage payer delta st) (bill_effect payer delta st)"
    unfolding add_ram_usage_def trx_add_ram_usage_def safely_simps
    by (rule safely_mono [OF add_pending_ram_usage_billed [OF assms]]) (auto simp: bill_effect_def ram_of_def ram_inv_def)
  then show ?thesis
    by (auto simp: update_db_usage_def require_authorization_def e)
qed

section \<open>Invariants\<close>

definition rows_in :: "'a index_state \<Rightarrow> nat \<Rightarrow> nat" where
  "rows_in ix t = tbl_sum (\<lambda>_ r. if row_t_id r = t then 1 else 0) (ix_rows ix)"

text \<open>
  Tables have unique names, and a table exists as long as it has rows: \<open>n t\<close> of them. The tables in \<open>z\<close>
  may be empty; they are while a row is being stored.
\<close>

definition tables_inv :: "nat set \<Rightarrow> (nat \<Rightarrow> nat) \<Rightarrow> tables_state \<Rightarrow> bool" where
  "tables_inv z n st \<longleftrightarrow>
     tbl_wf (ts_tables st) \<and> (\<forall>t\<in>tbl_keys (ts_tables st). t < ts_next_table st) \<and>
     (\<forall>t tid t' tid'. tbl_find t (ts_tables st) = Some tid \<longrightarrow> tbl_find t' (ts_tables st) = Some tid' \<longrightarrow>
        tid_code tid = tid_code tid' \<longrightarrow> tid_scope tid = tid_scope tid' \<longrightarrow> tid_table tid = tid_table tid' \<longrightarrow> t = t') \<and>
     (\<forall>t. tbl_find t (ts_tables st) = None \<longrightarrow> n t = 0) \<and>
     (\<forall>t tid. tbl_find t (ts_tables st) = Some tid \<longrightarrow> tid_count tid = n t \<and> (n t = 0 \<longrightarrow> t \<in> z))"

text \<open>The cache maps iterators to objects and back.\<close>

definition cache_inv :: "iterator_cache \<Rightarrow> bool" where
  "cache_inv c \<longleftrightarrow>
     (\<forall>k obj. k < length (ic_iterator_to_object c) \<and> ic_iterator_to_object c ! k = Some obj \<longleftrightarrow>
        tbl_find obj (ic_object_to_iterator c) = Some (int k)) \<and>
     (\<forall>obj k. tbl_find obj (ic_object_to_iterator c) = Some k \<longrightarrow> 0 \<le> k) \<and>
     (\<forall>t k. k < length (ic_end_iterator_to_table c) \<and> ic_end_iterator_to_table c ! k = t \<longleftrightarrow>
        tbl_find t (ic_table_cache c) = Some (index_to_end_iterator k)) \<and>
     (\<forall>t ei. tbl_find t (ic_table_cache c) = Some ei \<longrightarrow> ei \<le> -2)"

text \<open>Every object in the cache is a row, and its table is in the cache.\<close>

definition live :: "'a index_state \<Rightarrow> bool" where
  "live ix \<longleftrightarrow> (\<forall>obj k. tbl_find obj (ic_object_to_iterator (ix_cache ix)) = Some k \<longrightarrow>
     (\<exists>r. tbl_find obj (ix_rows ix) = Some r \<and> tbl_find (row_t_id r) (ic_table_cache (ix_cache ix)) \<noteq> None))"

definition rows_inv :: "'a index_state \<Rightarrow> bool" where
  "rows_inv ix \<longleftrightarrow>
     tbl_wf (ix_rows ix) \<and> (\<forall>i\<in>tbl_keys (ix_rows ix). i < ix_next ix) \<and>
     (\<forall>i r j s. tbl_find i (ix_rows ix) = Some r \<longrightarrow> tbl_find j (ix_rows ix) = Some s \<longrightarrow>
        primary_key_of r = primary_key_of s \<longrightarrow> i = j)"

definition index_inv :: "'a index_state \<Rightarrow> bool" where
  "index_inv ix \<longleftrightarrow> rows_inv ix \<and> cache_inv (ix_cache ix) \<and> live ix"

lemma index_inv_empty [simp]: "index_inv empty_index"
  by (simp add: index_inv_def rows_inv_def cache_inv_def live_def empty_index_def empty_cache_def)

section \<open>The cache\<close>

lemma cached_object:
  assumes "cache_inv c"
  shows "tbl_find obj (ic_object_to_iterator c) = Some k \<longleftrightarrow>
    0 \<le> k \<and> nat k < length (ic_iterator_to_object c) \<and> ic_iterator_to_object c ! nat k = Some obj"
  using assms unfolding cache_inv_def by (metis int_nat_eq nat_int)

lemma cached_table:
  assumes "cache_inv c"
  shows "k < length (ic_end_iterator_to_table c) \<and> ic_end_iterator_to_table c ! k = t \<longleftrightarrow>
    tbl_find t (ic_table_cache c) = Some (index_to_end_iterator k)"
  using assms unfolding cache_inv_def by blast

lemma ic_get_safely:
  assumes "cache_inv c"
  shows "safely (ic_get iterator c) (\<lambda>obj. tbl_find obj (ic_object_to_iterator c) = Some iterator)"
  by (auto simp: ic_get_def ic_check_def intended_def cached_object [OF assms] split: option.splits)

lemma get_row_safely:
  assumes "index_inv ix"
  shows "safely (get_row iterator ix) (\<lambda>(i, r). tbl_find i (ix_rows ix) = Some r \<and>
    tbl_find i (ic_object_to_iterator (ix_cache ix)) = Some iterator \<and> tbl_find (row_t_id r) (ic_table_cache (ix_cache ix)) \<noteq> None)"
proof -
  have "safely (ic_get iterator (ix_cache ix)) (\<lambda>obj. tbl_find obj (ic_object_to_iterator (ix_cache ix)) = Some iterator)"
    using ic_get_safely assms by (simp add: index_inv_def)
  moreover have "live ix"
    using assms by (simp add: index_inv_def)
  ultimately show ?thesis
    unfolding get_row_def safely_simps by (elim safely_mono) (fastforce simp: live_def)
qed

lemma ic_get_iff:
  assumes "cache_inv c"
  shows "ic_get iterator c = Inr obj \<longleftrightarrow> tbl_find obj (ic_object_to_iterator c) = Some iterator"
  by (auto simp: ic_get_def ic_check_def bind_r_Inr_iff cached_object [OF assms])

lemma get_row_iff:
  assumes "index_inv ix"
  shows "get_row iterator ix = Inr (i, r) \<longleftrightarrow>
    tbl_find i (ix_rows ix) = Some r \<and> tbl_find i (ic_object_to_iterator (ix_cache ix)) = Some iterator"
  using assms by (auto simp: get_row_def bind_r_Inr_iff ic_get_iff index_inv_def)

lemma cache_table_inv:
  assumes "cache_inv c" "cache_table t c = (ei, c')"
  shows "cache_inv c' \<and> tbl_find t (ic_table_cache c') = Some ei \<and> ic_object_to_iterator c' = ic_object_to_iterator c \<and>
    (\<forall>t'. tbl_find t' (ic_table_cache c) \<noteq> None \<longrightarrow> tbl_find t' (ic_table_cache c') = tbl_find t' (ic_table_cache c))"
proof (cases "tbl_find t (ic_table_cache c)")
  case None
  let ?ends = "ic_end_iterator_to_table c"
  define ei' where "ei' = index_to_end_iterator (length ?ends)"
  have c': "ei = ei'" "c' = c\<lparr>ic_end_iterator_to_table := ?ends @ [t], ic_table_cache := tbl_put t ei' (ic_table_cache c)\<rparr>"
    using assms(2) None by (auto simp: cache_table_def Let_def ei'_def)
  have "k < length (?ends @ [t]) \<and> (?ends @ [t]) ! k = t' \<longleftrightarrow> tbl_find t' (tbl_put t ei' (ic_table_cache c)) = Some (index_to_end_iterator k)" for t' k
    using cached_table [OF assms(1), of k t'] None
    by (auto simp: nth_append less_Suc_eq ei'_def index_to_end_iterator_def)
  moreover have "ei' \<le> -2"
    by (simp add: ei'_def index_to_end_iterator_def)
  ultimately have "cache_inv c'"
    using assms(1) unfolding cache_inv_def c' by simp
  then show ?thesis
    using None by (auto simp: c')
qed (use assms in \<open>auto simp: cache_table_def\<close>)

lemma ic_add_inv:
  assumes "cache_inv c" "ic_add obj c = (k, c')"
  shows "cache_inv c' \<and> tbl_find obj (ic_object_to_iterator c') = Some k \<and> ic_table_cache c' = ic_table_cache c \<and>
    ic_end_iterator_to_table c' = ic_end_iterator_to_table c \<and>
    (\<forall>o'. o' \<noteq> obj \<longrightarrow> tbl_find o' (ic_object_to_iterator c') = tbl_find o' (ic_object_to_iterator c))"
proof (cases "tbl_find obj (ic_object_to_iterator c)")
  case None
  let ?objs = "ic_iterator_to_object c"
  have c': "k = int (length ?objs)"
    "c' = c\<lparr>ic_iterator_to_object := ?objs @ [Some obj], ic_object_to_iterator := tbl_put obj k (ic_object_to_iterator c)\<rparr>"
    using assms(2) None by (auto simp: ic_add_def)
  have "j < length (?objs @ [Some obj]) \<and> (?objs @ [Some obj]) ! j = Some o' \<longleftrightarrow>
      tbl_find o' (tbl_put obj k (ic_object_to_iterator c)) = Some (int j)" for o' j
    using cached_object [OF assms(1), of o' "int j"] None by (auto simp: nth_append less_Suc_eq c'(1))
  then have "cache_inv c'"
    using assms(1) c'(1) unfolding cache_inv_def c'(2) by simp
  then show ?thesis
    by (simp add: c')
qed (use assms in \<open>auto simp: ic_add_def\<close>)

lemma ic_remove_inv:
  assumes "cache_inv c" "tbl_find obj (ic_object_to_iterator c) = Some iterator"
  shows "\<exists>c'. ic_remove iterator c = Inr c' \<and> cache_inv c' \<and> ic_table_cache c' = ic_table_cache c \<and>
    ic_object_to_iterator c' = tbl_remove obj (ic_object_to_iterator c)"
proof -
  let ?objs = "ic_iterator_to_object c"
  have o: "0 \<le> iterator" "nat iterator < length ?objs" "?objs ! nat iterator = Some obj"
    using assms(2) by (simp_all add: cached_object [OF assms(1)])
  let ?c' = "c\<lparr>ic_iterator_to_object := ?objs[nat iterator := None], ic_object_to_iterator := tbl_remove obj (ic_object_to_iterator c)\<rparr>"
  have "ic_remove iterator c = Inr ?c'"
    using o by (simp add: ic_remove_def ic_check_def)
  moreover have "j < length ?objs \<and> ?objs[nat iterator := None] ! j = Some o' \<longleftrightarrow>
      tbl_find o' (tbl_remove obj (ic_object_to_iterator c)) = Some (int j)" for o' j
    using cached_object [OF assms(1), of o' "int j"] assms(2) o by (auto simp: nth_list_update)
  then have "cache_inv ?c'"
    using assms(1) unfolding cache_inv_def by simp
  ultimately show ?thesis
    by auto
qed

section \<open>Indices\<close>

lemma add_to_cache_inv:
  assumes "index_inv ix" "tbl_find j (ix_rows ix) = Some r" "tbl_find (row_t_id r) (ic_table_cache (ix_cache ix)) \<noteq> None"
    "add_to_cache j ix = (k, ix')"
  shows "index_inv ix' \<and> ix_rows ix' = ix_rows ix \<and> ix_next ix' = ix_next ix \<and> get_row k ix' = Inr (j, r)"
proof -
  obtain c where c: "ic_add j (ix_cache ix) = (k, c)" "ix' = ix\<lparr>ix_cache := c\<rparr>"
    using assms(4) by (auto simp: add_to_cache_def split: prod.splits)
  have a: "cache_inv c" "tbl_find j (ic_object_to_iterator c) = Some k" "ic_table_cache c = ic_table_cache (ix_cache ix)"
    "\<forall>o'. o' \<noteq> j \<longrightarrow> tbl_find o' (ic_object_to_iterator c) = tbl_find o' (ic_object_to_iterator (ix_cache ix))"
    using ic_add_inv [OF _ c(1)] assms(1) by (auto simp: index_inv_def)
  have "live ix'"
    unfolding live_def c(2)
  proof (intro allI impI)
    fix o' k'
    assume "tbl_find o' (ic_object_to_iterator (ix_cache (ix\<lparr>ix_cache := c\<rparr>))) = Some k'"
    then show "\<exists>r. tbl_find o' (ix_rows (ix\<lparr>ix_cache := c\<rparr>)) = Some r \<and>
        tbl_find (row_t_id r) (ic_table_cache (ix_cache (ix\<lparr>ix_cache := c\<rparr>))) \<noteq> None"
      using assms(1,2,3) a by (cases "o' = j") (auto simp: live_def index_inv_def)
  qed
  moreover have "get_row k ix' = Inr (j, r)"
    using a(2) assms(2) by (simp add: get_row_def c(2) ic_get_iff [OF a(1), THEN iffD2])
  ultimately show ?thesis
    using assms(1) a(1) by (simp add: index_inv_def c(2) rows_inv_def)
qed

text \<open>Operations that read tables change the cache only.\<close>

definition moves :: "'a index_state \<Rightarrow> 'a index_state \<Rightarrow> bool" where
  "moves ix ix' \<longleftrightarrow> index_inv ix' \<and> ix_rows ix' = ix_rows ix \<and> ix_next ix' = ix_next ix"

lemma moves_refl [simp]: "moves ix ix \<longleftrightarrow> index_inv ix"
  by (simp add: moves_def)

lemma moves_trans: "moves ix ix' \<Longrightarrow> moves ix' ix'' \<Longrightarrow> moves ix ix''"
  by (simp add: moves_def)

lemma cache_table_of_inv:
  assumes "index_inv ix" "cache_table_of t ix = (ei, ix')"
  shows "moves ix ix' \<and> tbl_find t (ic_table_cache (ix_cache ix')) = Some ei"
proof -
  obtain c where c: "cache_table t (ix_cache ix) = (ei, c)" "ix' = ix\<lparr>ix_cache := c\<rparr>"
    using assms(2) by (auto simp: cache_table_of_def split: prod.splits)
  have a: "cache_inv c" "tbl_find t (ic_table_cache c) = Some ei" "ic_object_to_iterator c = ic_object_to_iterator (ix_cache ix)"
    "\<forall>t'. tbl_find t' (ic_table_cache (ix_cache ix)) \<noteq> None \<longrightarrow> tbl_find t' (ic_table_cache c) = tbl_find t' (ic_table_cache (ix_cache ix))"
    using cache_table_inv [OF _ c(1)] assms(1) by (simp_all add: index_inv_def)
  have "live ix'"
    unfolding live_def c(2)
  proof (intro allI impI)
    fix o' k
    assume "tbl_find o' (ic_object_to_iterator (ix_cache (ix\<lparr>ix_cache := c\<rparr>))) = Some k"
    then obtain r where "tbl_find o' (ix_rows ix) = Some r" "tbl_find (row_t_id r) (ic_table_cache (ix_cache ix)) \<noteq> None"
      using assms(1) a(3) unfolding index_inv_def live_def by auto
    then show "\<exists>r. tbl_find o' (ix_rows (ix\<lparr>ix_cache := c\<rparr>)) = Some r \<and>
        tbl_find (row_t_id r) (ic_table_cache (ix_cache (ix\<lparr>ix_cache := c\<rparr>))) \<noteq> None"
      using a(4) by simp
  qed
  then show ?thesis
    using assms(1) a(1,2) by (simp add: moves_def index_inv_def c(2) rows_inv_def)
qed

section \<open>Reading\<close>

lemma set_entries_by [simp]: "set (entries_by key ix) = set (ix_rows ix)"
  by (simp add: entries_by_def)

lemma first_entry_in: "first_entry key P ix = Some (j, r) \<Longrightarrow> (j, r) \<in> set (ix_rows ix) \<and> P r"
  unfolding first_entry_def find_Some_iff by (metis nth_mem set_entries_by snd_conv)

lemma entry_after_in: "entry_after key i ix = Some (j, r) \<Longrightarrow> (j, r) \<in> set (ix_rows ix)"
  unfolding entry_after_def
  by (metis (no_types, lifting) list.case_eq_if list.set_sel option.discI option.inject set_dropWhileD set_entries_by)

lemma last_takeWhile_in:
  assumes "(case takeWhile P xs of [] \<Rightarrow> None | es \<Rightarrow> Some (last es)) = Some e"
  shows "e \<in> set xs"
proof -
  have "takeWhile P xs \<noteq> []" "e = last (takeWhile P xs)"
    using assms by (auto split: list.splits)
  then show ?thesis
    using last_in_set set_takeWhileD by metis
qed

lemma entry_before_in: "entry_before key i ix = Some (j, r) \<Longrightarrow> (j, r) \<in> set (ix_rows ix)"
  unfolding entry_before_def by (drule last_takeWhile_in) simp

lemma last_entry_in: "last_entry key t ix = Some (j, r) \<Longrightarrow> (j, r) \<in> set (ix_rows ix)"
  unfolding last_entry_def by (drule last_takeWhile_in) simp

lemma index_inv_find: "index_inv ix \<Longrightarrow> (j, r) \<in> set (ix_rows ix) \<Longrightarrow> tbl_find j (ix_rows ix) = Some r"
  by (simp add: index_inv_def rows_inv_def tbl_wf_find)

text \<open>Reaching a row of a table that is in the cache.\<close>

lemma reach_row:
  assumes "index_inv ix" "(j, r) \<in> set (ix_rows ix)" "tbl_find (row_t_id r) (ic_table_cache (ix_cache ix)) \<noteq> None"
    "add_to_cache j ix = (k, ix')"
  shows "moves ix ix' \<and> get_row k ix' = Inr (j, r)"
  using add_to_cache_inv [OF assms(1) index_inv_find [OF assms(1,2)] assms(3,4)] by (simp add: moves_def)

lemma move_to_safely:
  assumes "index_inv ix" "(j, r) \<in> set (ix_rows ix)" "tbl_find (row_t_id r) (ic_table_cache (ix_cache ix)) \<noteq> None"
  shows "safely (case add_to_cache j ix of (k, ix) \<Rightarrow> Inr (k, pk :: u64 option, ix)) (\<lambda>(_, _, ix'). moves ix ix')"
  using reach_row [OF assms] by (cases "add_to_cache j ix") auto

lemma index_next_safely:
  assumes "index_inv ix"
  shows "safely (index_next key iterator ix) (\<lambda>(_, _, ix'). moves ix ix')"
proof (cases "iterator < -1")
  case False
  then show ?thesis
    unfolding index_next_def Let_def
  proof (simp, intro safely_mono [OF get_row_safely [OF assms, of iterator]], clarify)
    fix i obj ei
    assume "tbl_find (row_t_id obj) (ic_table_cache (ix_cache ix)) = Some ei"
    then show "safely (case entry_after key i ix of
           None \<Rightarrow> bind_r (get_end_iterator_by_table_id (row_t_id obj) (ix_cache ix)) (\<lambda>ei. Inr (ei, None, ix))
         | Some (j, r) \<Rightarrow>
             if row_t_id r \<noteq> row_t_id obj then bind_r (get_end_iterator_by_table_id (row_t_id obj) (ix_cache ix)) (\<lambda>ei. Inr (ei, None, ix))
             else (case add_to_cache j ix of (k, ix) \<Rightarrow> Inr (k, Some (row_primary_key r), ix))) (\<lambda>(_, _, ix'). moves ix ix')"
      using assms move_to_safely [OF assms entry_after_in [of key]]
      by (auto simp: get_end_iterator_by_table_id_def split: option.split)
  qed
qed (use assms in \<open>simp add: index_next_def\<close>)

text \<open>
  The one operation that can follow a pointer to a removed table: the step back from the end
  iterator of a table that no longer exists.
\<close>

definition end_alive :: "int \<Rightarrow> tables_state \<Rightarrow> 'a index_state \<Rightarrow> bool" where
  "end_alive iterator st ix \<longleftrightarrow> iterator < -1 \<longrightarrow> iterator \<noteq> - (2 ^ 31) \<and>
     (\<forall>t. find_table_by_end_iterator iterator (ix_cache ix) = Inr (Some t) \<longrightarrow> tbl_find t (ts_tables st) \<noteq> None)"

lemma find_table_by_end_iterator_cached:
  assumes "cache_inv c" "find_table_by_end_iterator iterator c = Inr (Some t)"
  shows "tbl_find t (ic_table_cache c) \<noteq> None"
  using assms(2) cached_table [OF assms(1), THEN iffD1]
  by (fastforce simp: find_table_by_end_iterator_def bind_r_Inr_iff split: if_splits)

lemma index_previous_safely:
  assumes "index_inv ix" "end_alive iterator st ix"
  shows "safely (index_previous key iterator st ix) (\<lambda>(_, _, ix'). moves ix ix')"
proof (cases "iterator < -1")
  case True
  have e: "intended invalid_table_iterator"
    by (simp add: intended_def)
  obtain tab where tab: "find_table_by_end_iterator iterator (ix_cache ix) = Inr tab"
    using True assms(2) by (simp add: find_table_by_end_iterator_def end_iterator_to_index_def end_alive_def)
  show ?thesis
  proof (cases tab)
    case (Some t)
    then have t: "tbl_find t (ic_table_cache (ix_cache ix)) \<noteq> None" "tbl_find t (ts_tables st) \<noteq> None"
      using find_table_by_end_iterator_cached assms tab True by (auto simp: index_inv_def end_alive_def)
    then show ?thesis
      using assms(1) move_to_safely [OF assms(1) last_entry_in [of key t]] True
      by (auto simp: index_previous_def tab Some split: option.split)
  qed (use True e in \<open>simp add: index_previous_def tab\<close>)
next
  case False
  then show ?thesis
    unfolding index_previous_def
  proof (simp, intro safely_mono [OF get_row_safely [OF assms(1), of iterator]], clarify)
    fix i obj ei
    assume "tbl_find (row_t_id obj) (ic_table_cache (ix_cache ix)) = Some ei"
    then show "safely (case entry_before key i ix of None \<Rightarrow> Inr (-1, None, ix)
         | Some (j, r) \<Rightarrow>
             if row_t_id r \<noteq> row_t_id obj then Inr (-1, None, ix)
             else (case add_to_cache j ix of (k, ix) \<Rightarrow> Inr (k, Some (row_primary_key r), ix))) (\<lambda>(_, _, ix'). moves ix ix')"
      using assms(1) move_to_safely [OF assms(1) entry_before_in [of key]] by (auto split: option.split)
  qed
qed

lemma index_search_moves:
  assumes "index_inv ix" "index_search key P code scope tab st ix = (k, r, ix')"
  shows "moves ix ix'"
proof (cases "find_table code scope tab st")
  case (Some t)
  obtain ei ix0 where c: "cache_table_of t ix = (ei, ix0)"
    by (cases "cache_table_of t ix")
  then have ix0: "moves ix ix0" "index_inv ix0" "tbl_find t (ic_table_cache (ix_cache ix0)) = Some ei"
    using cache_table_of_inv [OF assms(1) c] by (auto simp: moves_def)
  show ?thesis
  proof (cases "first_entry key (P t) ix0")
    case (Some e)
    obtain j s where e: "e = (j, s)"
      by (cases e)
    obtain k' ix1 where a: "add_to_cache j ix0 = (k', ix1)"
      by (cases "add_to_cache j ix0")
    have "moves ix ix1" if "row_t_id s = t"
      using reach_row [OF ix0(2) _ _ a, of s] first_entry_in [of key "P t" ix0 j s] Some e ix0(1,3) that moves_trans by fastforce
    then show ?thesis
      using assms(2) \<open>find_table code scope tab st = Some t\<close> Some ix0(1)
      by (auto simp: index_search_def c e a split: if_splits)
  qed (use assms(2) Some ix0(1) c in \<open>simp add: index_search_def\<close>)
qed (use assms in \<open>simp add: index_search_def\<close>)

lemma index_end_moves:
  assumes "index_inv ix" "index_end code scope tab st ix = (k, ix')"
  shows "moves ix ix'"
  using assms cache_table_of_inv [OF assms(1)] by (auto simp: index_end_def split: option.splits)

section \<open>Charges\<close>

lemma tbl_sum_put_new: "tbl_wf t \<Longrightarrow> tbl_find k t = None \<Longrightarrow> tbl_sum f (tbl_put k v t) = tbl_sum f t + f k v"
  using tbl_sum_put [of t f k v] by simp

text \<open>What an account pays for: its tables and its rows, of sizes \<open>sz\<close>.\<close>

definition table_charge :: "tables_state \<Rightarrow> account_name \<Rightarrow> nat" where
  "table_charge st a = tbl_sum (\<lambda>_ tid. if tid_payer tid = a then billable_table_id_object else 0) (ts_tables st)"

definition row_charge :: "('a \<Rightarrow> nat) \<Rightarrow> 'a index_state \<Rightarrow> account_name \<Rightarrow> nat" where
  "row_charge sz ix a = tbl_sum (\<lambda>_ r. if row_payer r = a then sz (row_data r) else 0) (ix_rows ix)"

definition table_balance :: "tables_state \<Rightarrow> account_name \<Rightarrow> int" where
  "table_balance st a = ram_of st a - int (table_charge st a)"

lemma bill_effect_balance:
  "bill_effect payer delta st st' \<Longrightarrow> table_balance st' a = table_balance st a + (if a = payer then delta else 0)"
  by (simp add: bill_effect_def table_balance_def table_charge_def)

section \<open>Tables\<close>

lemma tables_inv_tables: "ts_tables st' = ts_tables st \<Longrightarrow> ts_next_table st' = ts_next_table st \<Longrightarrow> tables_inv z n st' = tables_inv z n st"
  by (simp add: tables_inv_def)

lemma tables_inv_count:
  "tables_inv z n st \<Longrightarrow> tbl_find t (ts_tables st) = Some tid \<Longrightarrow> tid_count tid = n t \<and> (n t = 0 \<longrightarrow> t \<in> z)"
  unfolding tables_inv_def by blast

lemma tables_inv_none: "tables_inv z n st \<Longrightarrow> tbl_find t (ts_tables st) = None \<Longrightarrow> n t = 0"
  unfolding tables_inv_def by blast

lemma tables_inv_mono: "tables_inv z n st \<Longrightarrow> z \<subseteq> z' \<Longrightarrow> tables_inv z' n st"
  unfolding tables_inv_def by blast

lemma tables_inv_put:
  assumes "tables_inv z n st" "tbl_find t (ts_tables st) = Some tid" "m = 0 \<longrightarrow> t \<in> z'" "z - {t} \<subseteq> z'"
  shows "tables_inv z' (n(t := m)) (st\<lparr>ts_tables := tbl_put t (tid\<lparr>tid_count := m\<rparr>) (ts_tables st)\<rparr>)" (is "tables_inv _ _ ?st'")
proof -
  have f: "tbl_find t' (ts_tables ?st') = (if t' = t then Some (tid\<lparr>tid_count := m\<rparr>) else tbl_find t' (ts_tables st))" for t'
    by simp
  have k: "tbl_keys (ts_tables ?st') = tbl_keys (ts_tables st)"
    using tbl_find_Some_keys [OF assms(2)] by auto
  have u: "\<forall>t tid t' tid'. tbl_find t (ts_tables st) = Some tid \<longrightarrow> tbl_find t' (ts_tables st) = Some tid' \<longrightarrow>
      tid_code tid = tid_code tid' \<longrightarrow> tid_scope tid = tid_scope tid' \<longrightarrow> tid_table tid = tid_table tid' \<longrightarrow> t = t'"
    using assms(1) unfolding tables_inv_def by blast
  have "\<exists>x. tbl_find t' (ts_tables st) = Some x \<and> tid_code x = tid_code tid' \<and> tid_scope x = tid_scope tid' \<and> tid_table x = tid_table tid'"
    if "tbl_find t' (ts_tables ?st') = Some tid'" for t' tid'
    using that assms(2) unfolding f by (cases "t' = t") auto
  then have "\<forall>t tid t' tid'. tbl_find t (ts_tables ?st') = Some tid \<longrightarrow> tbl_find t' (ts_tables ?st') = Some tid' \<longrightarrow>
      tid_code tid = tid_code tid' \<longrightarrow> tid_scope tid = tid_scope tid' \<longrightarrow> tid_table tid = tid_table tid' \<longrightarrow> t = t'"
    using u by metis
  moreover have "\<forall>t' tid''. tbl_find t' (ts_tables ?st') = Some tid'' \<longrightarrow>
      tid_count tid'' = (n(t := m)) t' \<and> ((n(t := m)) t' = 0 \<longrightarrow> t' \<in> z')"
    using tables_inv_count [OF assms(1)] assms(3,4) unfolding f by (auto split: if_splits)
  moreover have "\<forall>t'. tbl_find t' (ts_tables ?st') = None \<longrightarrow> (n(t := m)) t' = 0"
    using tables_inv_none [OF assms(1)] unfolding f by simp
  moreover have "tbl_wf (ts_tables ?st')" "\<forall>t'\<in>tbl_keys (ts_tables ?st'). t' < ts_next_table ?st'"
    using assms(1) unfolding k by (simp_all add: tables_inv_def)
  ultimately show ?thesis
    unfolding tables_inv_def by blast
qed

lemma find_table_Some:
  assumes "tables_inv z n st"
  shows "find_table code scope tab st = Some t \<longleftrightarrow>
    (\<exists>tid. tbl_find t (ts_tables st) = Some tid \<and> tid_code tid = code \<and> tid_scope tid = scope \<and> tid_table tid = tab)"
proof
  assume "find_table code scope tab st = Some t"
  then obtain tid where "(t, tid) \<in> set (ts_tables st)" "tid_code tid = code" "tid_scope tid = scope" "tid_table tid = tab"
    unfolding find_table_def by (auto simp: find_Some_iff) (metis nth_mem)
  then show "\<exists>tid. tbl_find t (ts_tables st) = Some tid \<and> tid_code tid = code \<and> tid_scope tid = scope \<and> tid_table tid = tab"
    using assms tbl_wf_find unfolding tables_inv_def by fast
next
  assume "\<exists>tid. tbl_find t (ts_tables st) = Some tid \<and> tid_code tid = code \<and> tid_scope tid = scope \<and> tid_table tid = tab"
  then obtain tid where tid: "tbl_find t (ts_tables st) = Some tid" "tid_code tid = code" "tid_scope tid = scope" "tid_table tid = tab"
    by blast
  let ?P = "\<lambda>(i, t). tid_code t = code \<and> tid_scope t = scope \<and> tid_table t = tab"
  have "List.find ?P (ts_tables st) \<noteq> None"
    using tbl_find_in [OF tid(1)] tid by (auto simp: find_None_iff)
  then obtain t' tid' where f: "List.find ?P (ts_tables st) = Some (t', tid')"
    by auto
  then have "(t', tid') \<in> set (ts_tables st)" "?P (t', tid')"
    by (auto simp: find_Some_iff) (metis nth_mem)
  moreover from this have "tbl_find t' (ts_tables st) = Some tid'"
    using assms tbl_wf_find unfolding tables_inv_def by fast
  ultimately have "t' = t"
    using assms tid unfolding tables_inv_def by auto
  then show "find_table code scope tab st = Some t"
    by (simp add: find_table_def f)
qed

text \<open>The table a row is stored in: it exists, and only it may be empty.\<close>

definition table_for :: "name \<Rightarrow> name \<Rightarrow> name \<Rightarrow> (nat \<Rightarrow> nat) \<Rightarrow> tables_state \<Rightarrow> nat \<Rightarrow> tables_state \<Rightarrow> bool" where
  "table_for code scope tab n st t st' \<longleftrightarrow>
     tables_inv {t} n st' \<and> ram_inv st' \<and> find_table code scope tab st' = Some t \<and>
     (\<forall>a. table_balance st' a = table_balance st a) \<and>
     (\<forall>t'. t' \<noteq> t \<longrightarrow> tbl_find t' (ts_tables st') = tbl_find t' (ts_tables st)) \<and>
     (case find_table code scope tab st of Some t' \<Rightarrow> t' = t \<and> st' = st | None \<Rightarrow> tbl_find t (ts_tables st) = None)"

lemma find_or_create_table_safely:
  assumes "tables_inv {} n st" "ram_inv st"
  shows "safely (find_or_create_table ctx code scope tab payer st) (\<lambda>(t, st'). table_for code scope tab n st t st')"
proof (cases "find_table code scope tab st")
  case None
  have "table_for code scope tab n st (ts_next_table st1) (st1\<lparr>ts_tables := tbl_put (ts_next_table st1)
        \<lparr>tid_code = code, tid_scope = scope, tid_table = tab, tid_payer = payer, tid_count = 0\<rparr> (ts_tables st1),
      ts_next_table := ts_next_table st1 + 1\<rparr>)"
    (is "table_for _ _ _ _ _ _ ?st'") if b: "bill_effect payer (int billable_table_id_object) st st1" for st1
  proof -
    have st1: "ts_tables st1 = ts_tables st" "ts_next_table st1 = ts_next_table st" "ram_inv st1"
      using b by (simp_all add: bill_effect_def)
    have wf: "tbl_wf (ts_tables st)" "tbl_find (ts_next_table st) (ts_tables st) = None"
      using assms(1) unfolding tables_inv_def by (simp, metis less_irrefl tbl_find_None_keys)
    have "tid_code tid \<noteq> code \<or> tid_scope tid \<noteq> scope \<or> tid_table tid \<noteq> tab" if "tbl_find t (ts_tables st) = Some tid" for t tid
      using None find_table_Some [OF assms(1), of code scope tab t] that by auto
    then have inv: "tables_inv {ts_next_table st1} n ?st'"
      using assms(1) wf tables_inv_none [OF assms(1) wf(2)] unfolding tables_inv_def st1
      by (simp add: st1) (auto simp: less_Suc_eq)
    have "table_charge ?st' a = table_charge st a + (if a = payer then billable_table_id_object else 0)" for a
      by (simp add: table_charge_def st1 tbl_sum_put_new [OF wf])
    moreover have "ram_of ?st' a = ram_of st a + (if a = payer then int billable_table_id_object else 0)" for a
      using b by (simp add: bill_effect_def ram_of_def)
    ultimately have "table_balance ?st' a = table_balance st a" for a
      by (simp add: table_balance_def)
    then show ?thesis
      using inv None wf(2) st1(3) unfolding table_for_def find_table_Some [OF inv]
      by (simp add: st1 ram_inv_def)
  qed
  then show ?thesis
    using update_db_usage_billed [OF assms(2), of ctx payer "int billable_table_id_object"] None
    by (auto simp: find_or_create_table_def elim: safely_mono)
next
  case (Some t)
  have "tables_inv {t} n st"
    using tables_inv_mono [OF assms(1)] by simp
  then show ?thesis
    using assms(2) Some by (simp add: find_or_create_table_def table_for_def)
qed

lemma modify_count_inv:
  assumes "tables_inv {t} n st" "tbl_find t (ts_tables st) = Some tid" "f (n t) = m" "0 < m \<or> z = {t}"
  shows "\<exists>st'. modify_count f t st = Inr st' \<and> tables_inv z (n(t := m)) st' \<and>
    (\<forall>a. table_balance st' a = table_balance st a) \<and> (ram_inv st \<longrightarrow> ram_inv st') \<and>
    st' = st\<lparr>ts_tables := tbl_put t (tid\<lparr>tid_count := m\<rparr>) (ts_tables st)\<rparr>"
proof -
  let ?st' = "st\<lparr>ts_tables := tbl_put t (tid\<lparr>tid_count := m\<rparr>) (ts_tables st)\<rparr>"
  have wf: "tbl_wf (ts_tables st)"
    using assms(1) by (simp add: tables_inv_def)
  have "tid_count tid = n t"
    using tables_inv_count [OF assms(1,2)] by simp
  then have "modify_count f t st = Inr ?st'"
    using assms(2,3) by (simp add: modify_count_def)
  moreover have "tables_inv z (n(t := m)) ?st'"
    using tables_inv_put [OF assms(1,2)] assms(4) by auto
  moreover have "table_charge ?st' a = table_charge st a" for a
    using tbl_sum_put_found [OF wf assms(2)] tbl_sum_ge [OF assms(2)] by (simp add: table_charge_def)
  then have "table_balance ?st' a = table_balance st a" for a
    by (simp add: table_balance_def ram_of_def)
  ultimately show ?thesis
    by (auto simp: ram_inv_def)
qed

text \<open>The name of a table, as long as it exists.\<close>

definition table_name :: "tables_state \<Rightarrow> nat \<Rightarrow> (name \<times> name \<times> name) option" where
  "table_name st t = map_option (\<lambda>tid. (tid_code tid, tid_scope tid, tid_table tid)) (tbl_find t (ts_tables st))"

lemma find_table_name:
  "tables_inv z n st \<Longrightarrow> find_table code scope tab st = Some t \<longleftrightarrow> table_name st t = Some (code, scope, tab)"
  by (auto simp: find_table_Some table_name_def)

lemma tables_inv_remove:
  assumes "tables_inv {t} n st" "n t = 0"
  shows "tables_inv {} n (st\<lparr>ts_tables := tbl_remove t (ts_tables st)\<rparr>)"
  using assms unfolding tables_inv_def by (simp add: tbl_wf_remove) blast

lemma remove_table_safely:
  assumes "tables_inv {t} n st" "ram_inv st" "n t = 0" "tbl_find t (ts_tables st) = Some tid"
  shows "safely (remove_table ctx t st) (\<lambda>st'. tables_inv {} n st' \<and> ram_inv st' \<and>
    (\<forall>a. table_balance st' a = table_balance st a) \<and> (\<forall>t'. table_name st' t' = (if t' = t then None else table_name st t')))"
proof -
  have wf: "tbl_wf (ts_tables st)"
    using assms(1) by (simp add: tables_inv_def)
  have "tables_inv {} n (st1\<lparr>ts_tables := tbl_remove t (ts_tables st1)\<rparr>) \<and> ram_inv (st1\<lparr>ts_tables := tbl_remove t (ts_tables st1)\<rparr>) \<and>
      (\<forall>a. table_balance (st1\<lparr>ts_tables := tbl_remove t (ts_tables st1)\<rparr>) a = table_balance st a) \<and>
      (\<forall>t'. table_name (st1\<lparr>ts_tables := tbl_remove t (ts_tables st1)\<rparr>) t' = (if t' = t then None else table_name st t'))"
    if b: "bill_effect (tid_payer tid) (- int billable_table_id_object) st st1" for st1
  proof -
    let ?st' = "st1\<lparr>ts_tables := tbl_remove t (ts_tables st1)\<rparr>"
    have st1: "ts_tables st1 = ts_tables st" "ts_next_table st1 = ts_next_table st" "ram_inv st1"
      using b by (simp_all add: bill_effect_def)
    have "table_charge ?st' a + (if tid_payer tid = a then billable_table_id_object else 0) = table_charge st a" for a
      using tbl_sum_remove [OF wf assms(4), of "\<lambda>_ tid. if tid_payer tid = a then billable_table_id_object else 0"]
      by (simp add: table_charge_def st1)
    from this [symmetric] have "table_balance ?st' a = table_balance st a" for a
      using b by (simp add: table_balance_def bill_effect_def ram_of_def)
    moreover have "tables_inv {} n ?st'"
      using tables_inv_remove [of t n st1] tables_inv_tables [OF st1(1,2)] assms(1,3) by simp
    ultimately show ?thesis
      using st1(3) by (simp add: table_name_def st1(1) ram_inv_def)
  qed
  then show ?thesis
    using update_db_usage_billed [OF assms(2), of ctx "tid_payer tid" "- int billable_table_id_object"] assms(4)
    by (auto simp: remove_table_def elim: safely_mono)
qed

section \<open>Rows\<close>

lemma rows_in_le: "rows_in ix t \<le> length (ix_rows ix)"
proof -
  have "tbl_sum (\<lambda>_ r. if row_t_id r = t then 1 else 0) rows \<le> length rows" for rows :: "(nat, 'a row_object) table"
    by (induction rows) auto
  then show ?thesis
    by (simp add: rows_in_def)
qed

lemma live_rows:
  assumes "live ix" "ix_cache ix' = ix_cache ix"
    "\<And>j r. tbl_find j (ix_rows ix) = Some r \<Longrightarrow> \<exists>r'. tbl_find j (ix_rows ix') = Some r' \<and> row_t_id r' = row_t_id r"
  shows "live ix'"
  unfolding live_def assms(2)
proof (intro allI impI)
  fix o' k
  assume "tbl_find o' (ic_object_to_iterator (ix_cache ix)) = Some k"
  then obtain r where r: "tbl_find o' (ix_rows ix) = Some r" "tbl_find (row_t_id r) (ic_table_cache (ix_cache ix)) \<noteq> None"
    using assms(1) unfolding live_def by blast
  then show "\<exists>r. tbl_find o' (ix_rows ix') = Some r \<and> tbl_find (row_t_id r) (ic_table_cache (ix_cache ix)) \<noteq> None"
    using assms(3) [OF r(1)] by metis
qed

lemma rows_inv_parts:
  assumes "index_inv ix"
  shows "tbl_wf (ix_rows ix)" "i \<in> tbl_keys (ix_rows ix) \<Longrightarrow> i < ix_next ix"
    "tbl_find i (ix_rows ix) = Some r \<Longrightarrow> tbl_find j (ix_rows ix) = Some s \<Longrightarrow> primary_key_of r = primary_key_of s \<Longrightarrow> i = j"
    "cache_inv (ix_cache ix)" "live ix"
  using assms unfolding index_inv_def rows_inv_def by blast+

lemma rows_invI:
  assumes "tbl_wf (ix_rows ix)" "\<And>i. i \<in> tbl_keys (ix_rows ix) \<Longrightarrow> i < ix_next ix"
    "\<And>i r j s. tbl_find i (ix_rows ix) = Some r \<Longrightarrow> tbl_find j (ix_rows ix) = Some s \<Longrightarrow> primary_key_of r = primary_key_of s \<Longrightarrow> i = j"
    "cache_inv (ix_cache ix)" "live ix"
  shows "index_inv ix"
  using assms unfolding index_inv_def rows_inv_def by blast

lemma create_row_safely:
  assumes "index_inv ix"
  shows "safely (create_row primary_key_of r ix) (\<lambda>(i, ix'). index_inv ix' \<and> i = ix_next ix \<and> tbl_find i (ix_rows ix) = None \<and>
    ix' = ix\<lparr>ix_rows := tbl_put i r (ix_rows ix), ix_next := i + 1\<rparr> \<and>
    (\<forall>j s. tbl_find j (ix_rows ix) = Some s \<longrightarrow> primary_key_of s \<noteq> primary_key_of r))"
proof (cases "\<exists>e\<in>set (ix_rows ix). primary_key_of (snd e) = primary_key_of r")
  case False
  let ?i = "ix_next ix" and ?ix' = "ix\<lparr>ix_rows := tbl_put (ix_next ix) r (ix_rows ix), ix_next := ix_next ix + 1\<rparr>"
  have n: "primary_key_of s \<noteq> primary_key_of r" if "tbl_find j (ix_rows ix) = Some s" for j s
    using False tbl_find_in [OF that] by force
  have i: "tbl_find ?i (ix_rows ix) = None"
    using rows_inv_parts(2) [OF assms] by (auto simp: tbl_find_None_keys)
  have l: "live ?ix'"
    using rows_inv_parts(5) [OF assms] i by (intro live_rows [of ix ?ix']) auto
  have u: "a = b" if "tbl_find a (ix_rows ?ix') = Some x" "tbl_find b (ix_rows ?ix') = Some y" "primary_key_of x = primary_key_of y" for a b x y
    using that n [of a x] n [of b y] rows_inv_parts(3) [OF assms, of a x b y] by (cases "a = ?i"; cases "b = ?i") auto
  have "index_inv ?ix'"
  proof (rule rows_invI)
    show "j < ix_next ?ix'" if "j \<in> tbl_keys (ix_rows ?ix')" for j
      using that rows_inv_parts(2) [OF assms, of j] by auto
    show "tbl_wf (ix_rows ?ix')" "cache_inv (ix_cache ?ix')"
      using rows_inv_parts(1,4) [OF assms] by simp_all
  qed (rule u l; assumption)+
  moreover have "create_row primary_key_of r ix = Inr (?i, ?ix')"
    using False by (simp add: create_row_def)
  ultimately show ?thesis
    using i n by simp
qed (simp add: create_row_def intended_def)

lemma put_row_inv:
  assumes "index_inv ix" "tbl_find i (ix_rows ix) = Some r" "primary_key_of r' = primary_key_of r"
  shows "index_inv (ix\<lparr>ix_rows := tbl_put i r' (ix_rows ix)\<rparr>)" (is "index_inv ?ix'")
proof -
  have p: "\<exists>s. tbl_find j (ix_rows ix) = Some s \<and> primary_key_of s = primary_key_of s'" if "tbl_find j (ix_rows ?ix') = Some s'" for j s'
    using that assms(2,3) by (cases "j = i") auto
  have k: "tbl_keys (ix_rows ?ix') = tbl_keys (ix_rows ix)"
    using tbl_find_Some_keys [OF assms(2)] by auto
  have l: "live ?ix'"
    using rows_inv_parts(5) [OF assms(1)] assms(2,3) by (intro live_rows [of ix ?ix']) (auto simp: primary_key_of_def)
  have u: "a = b" if "tbl_find a (ix_rows ?ix') = Some x" "tbl_find b (ix_rows ?ix') = Some y" "primary_key_of x = primary_key_of y" for a b x y
    using p [OF that(1)] p [OF that(2)] that(3) rows_inv_parts(3) [OF assms(1)] by metis
  show ?thesis
  proof (rule rows_invI)
    show "j < ix_next ?ix'" if "j \<in> tbl_keys (ix_rows ?ix')" for j
      using that rows_inv_parts(2) [OF assms(1), of j] unfolding k by simp
    show "tbl_wf (ix_rows ?ix')" "cache_inv (ix_cache ?ix')"
      using rows_inv_parts(1,4) [OF assms(1)] by simp_all
  qed (rule u l; assumption)+
qed

lemma remove_row_inv:
  assumes "index_inv ix" "tbl_find i (ic_object_to_iterator (ix_cache ix)) = Some iterator"
  shows "\<exists>c. ic_remove iterator (ix_cache ix) = Inr c \<and> index_inv (ix\<lparr>ix_rows := tbl_remove i (ix_rows ix), ix_cache := c\<rparr>)"
proof -
  obtain c where c: "ic_remove iterator (ix_cache ix) = Inr c" "cache_inv c" "ic_table_cache c = ic_table_cache (ix_cache ix)"
    "ic_object_to_iterator c = tbl_remove i (ic_object_to_iterator (ix_cache ix))"
    using ic_remove_inv [OF _ assms(2)] assms(1) by (auto simp: index_inv_def)
  have "rows_inv (ix\<lparr>ix_rows := tbl_remove i (ix_rows ix), ix_cache := c\<rparr>)"
    using assms(1) unfolding index_inv_def rows_inv_def by (simp add: tbl_wf_remove)
  moreover have "live (ix\<lparr>ix_rows := tbl_remove i (ix_rows ix), ix_cache := c\<rparr>)"
    using assms(1) unfolding index_inv_def live_def by (simp add: c(3,4))
  ultimately show ?thesis
    using c(1,2) by (simp add: index_inv_def)
qed

end
