(* ===== verification/Table_Operations.thy ===== *)
theory Table_Operations
  imports Table_Safety
begin

text \<open>
  The operations that store, update and remove rows, for the primary table and the secondary
  indices: what they keep of the invariants, what they bill and what they do to the rows.
\<close>

section \<open>What operations keep\<close>

text \<open>\<open>rest\<close> counts the rows the other indices have in each table.\<close>

definition contract_inv :: "(nat \<Rightarrow> nat) \<Rightarrow> tables_state \<Rightarrow> 'a index_state \<Rightarrow> bool" where
  "contract_inv rest st ix \<longleftrightarrow> tables_inv {} (\<lambda>t. rows_in ix t + rest t) st \<and> index_inv ix \<and> ram_inv st"

text \<open>The RAM an account uses for anything but tables and rows of this index.\<close>

definition balance :: "('a \<Rightarrow> nat) \<Rightarrow> tables_state \<Rightarrow> 'a index_state \<Rightarrow> account_name \<Rightarrow> int" where
  "balance sz st ix a = table_balance st a - int (row_charge sz ix a)"

definition kept :: "('a \<Rightarrow> nat) \<Rightarrow> (nat \<Rightarrow> nat) \<Rightarrow> tables_state \<Rightarrow> 'a index_state \<Rightarrow> tables_state \<Rightarrow> 'a index_state \<Rightarrow> bool" where
  "kept sz rest st ix st' ix' \<longleftrightarrow> contract_inv rest st' ix' \<and> balance sz st' ix' = balance sz st ix"

lemma moves_kept:
  assumes "contract_inv rest st ix" "moves ix ix'"
  shows "kept sz rest st ix st ix'"
  using assms by (simp add: kept_def contract_inv_def moves_def balance_def row_charge_def rows_in_def fun_eq_iff)

section \<open>Sums over rows\<close>

lemma row_sums_new:
  assumes "index_inv ix" "tbl_find i (ix_rows ix) = None" "ix_rows ix' = tbl_put i r (ix_rows ix)"
  shows "rows_in ix' t = rows_in ix t + (if t = row_t_id r then 1 else 0)"
    "row_charge sz ix' a = row_charge sz ix a + (if a = row_payer r then sz (row_data r) else 0)"
  by (simp_all add: rows_in_def row_charge_def assms(3) tbl_sum_put_new [OF rows_inv_parts(1) [OF assms(1)] assms(2)])

lemma row_sums_put:
  assumes "index_inv ix" "tbl_find i (ix_rows ix) = Some r" "ix_rows ix' = tbl_put i r' (ix_rows ix)" "row_t_id r' = row_t_id r"
  shows "rows_in ix' t = rows_in ix t"
    "row_charge sz ix' a + (if a = row_payer r then sz (row_data r) else 0) =
     row_charge sz ix a + (if a = row_payer r' then sz (row_data r') else 0)"
  using tbl_sum_put [OF rows_inv_parts(1) [OF assms(1)], of "\<lambda>_ r. if row_t_id r = t then 1 else 0" i r']
    tbl_sum_put [OF rows_inv_parts(1) [OF assms(1)], of "\<lambda>_ r. if row_payer r = a then sz (row_data r) else 0" i r'] assms(2,4)
  by (auto simp: rows_in_def row_charge_def assms(3))

lemma row_sums_remove:
  assumes "index_inv ix" "tbl_find i (ix_rows ix) = Some r" "ix_rows ix' = tbl_remove i (ix_rows ix)"
  shows "rows_in ix' t + (if t = row_t_id r then 1 else 0) = rows_in ix t"
    "row_charge sz ix' a + (if a = row_payer r then sz (row_data r) else 0) = row_charge sz ix a"
  using tbl_sum_remove [OF rows_inv_parts(1) [OF assms(1)] assms(2), of "\<lambda>_ r. if row_t_id r = t then 1 else 0"]
    tbl_sum_remove [OF rows_inv_parts(1) [OF assms(1)] assms(2), of "\<lambda>_ r. if row_payer r = a then sz (row_data r) else 0"]
  by (auto simp: rows_in_def row_charge_def assms(3))

section \<open>Storing\<close>

definition stored ::
    "('a \<Rightarrow> nat) \<Rightarrow> (nat \<Rightarrow> nat) \<Rightarrow> name \<times> name \<times> name \<Rightarrow> 'a row_object \<Rightarrow> tables_state \<Rightarrow> 'a index_state
       \<Rightarrow> int \<times> tables_state \<times> 'a index_state \<Rightarrow> bool" where
  "stored sz rest nm r st ix = (\<lambda>(k, st', ix'). kept sz rest st ix st' ix' \<and>
     (\<exists>i. tbl_find i (ix_rows ix) = None \<and> ix_rows ix' = tbl_put i r (ix_rows ix) \<and> get_row k ix' = Inr (i, r)) \<and>
     (\<forall>j s. tbl_find j (ix_rows ix) = Some s \<longrightarrow> primary_key_of s \<noteq> primary_key_of r) \<and>
     (table_name st (row_t_id r) = None \<or> table_name st (row_t_id r) = Some nm) \<and>
     (\<forall>t. table_name st' t = (if t = row_t_id r then Some nm else table_name st t)))"

lemma store_row_safely:
  fixes sz :: "'a \<Rightarrow> nat"
  assumes ix: "index_inv ix" and t: "table_for code scope tab (\<lambda>t. rows_in ix t + rest t) st0 t st" and r: "row_t_id r = t" "row_payer r = payer"
    and bound: "rows_in ix t + rest t + 1 < 2 ^ 32" and sz: "sz (row_data r) = bytes_billed"
  shows "safely (bind_r (create_row primary_key_of r ix) (\<lambda>(i, ix).
     bind_r (modify_count (\<lambda>n. add32 n 1) t st) (\<lambda>st.
     bind_r (update_db_usage ctx payer (int bytes_billed) st) (\<lambda>st.
       (case add_to_cache i (snd (cache_table_of t ix)) of (k, ix) \<Rightarrow> Inr (k, st, ix))))))
     (stored sz rest (code, scope, tab) r st0 ix)"
proof -
  let ?n = "\<lambda>t. rows_in ix t + rest t"
  have tab: "tables_inv {t} ?n st" "ram_inv st" "find_table code scope tab st = Some t"
    using t by (simp_all add: table_for_def)
  obtain tid where tid: "tbl_find t (ts_tables st) = Some tid" "(tid_code tid, tid_scope tid, tid_table tid) = (code, scope, tab)"
    using find_table_Some [OF tab(1)] tab(3) by auto
  obtain st1 where st1: "modify_count (\<lambda>n. add32 n 1) t st = Inr st1" "tables_inv {} (?n(t := ?n t + 1)) st1"
    "\<forall>a. table_balance st1 a = table_balance st a" "ram_inv st1"
    "st1 = st\<lparr>ts_tables := tbl_put t (tid\<lparr>tid_count := ?n t + 1\<rparr>) (ts_tables st)\<rparr>"
    using modify_count_inv [OF tab(1) tid(1), of "\<lambda>n. add32 n 1" "?n t + 1" "{}"] bound tab(2) by (auto simp: add32_small)
  have final: "stored sz rest (code, scope, tab) r st0 ix (k, st2, ix3)"
    if i: "tbl_find i (ix_rows ix) = None" "ix1 = ix\<lparr>ix_rows := tbl_put i r (ix_rows ix), ix_next := i + 1\<rparr>" "index_inv ix1"
      "\<forall>j s. tbl_find j (ix_rows ix) = Some s \<longrightarrow> primary_key_of s \<noteq> primary_key_of r"
      and c: "add_to_cache i (snd (cache_table_of t ix1)) = (k, ix3)" and b: "bill_effect payer (int bytes_billed) st1 st2" for i ix1 k st2 ix3
  proof -
    obtain ei ix2 where ei: "cache_table_of t ix1 = (ei, ix2)"
      by (cases "cache_table_of t ix1")
    have m2: "moves ix1 ix2" "tbl_find t (ic_table_cache (ix_cache ix2)) = Some ei"
      using cache_table_of_inv [OF i(3) ei] by auto
    have "tbl_find i (ix_rows ix2) = Some r"
      using m2(1) by (simp add: moves_def i(2))
    then have m3: "moves ix2 ix3 \<and> get_row k ix3 = Inr (i, r)"
      using reach_row [of ix2 i r k ix3] m2 c r(1) tbl_find_in [of i "ix_rows ix2" r] by (simp add: ei moves_def)
    then have ix3: "index_inv ix3" "ix_rows ix3 = tbl_put i r (ix_rows ix)"
      using m2(1) by (simp_all add: moves_def i(2))
    have n: "(\<lambda>t. rows_in ix3 t + rest t) = ?n(t := ?n t + 1)"
      by (simp add: fun_eq_iff row_sums_new(1) [OF ix i(1) ix3(2)] r(1))
    have inv: "contract_inv rest st2 ix3"
      using st1(2) ix3(1) b tables_inv_tables [of st2 st1] by (simp add: contract_inv_def n bill_effect_def)
    have "table_balance st0 a = table_balance st1 a" for a
      using t st1(3) by (simp add: table_for_def)
    then have bal: "balance sz st2 ix3 = balance sz st0 ix"
      using bill_effect_balance [OF b] by (auto simp: balance_def fun_eq_iff row_sums_new(2) [OF ix i(1) ix3(2)] r(2) sz)
    have "table_name st2 t' = (if t' = t then Some (code, scope, tab) else table_name st0 t')" for t'
      using b t tid(2) by (simp add: table_name_def bill_effect_def st1(5) table_for_def)
    moreover have "table_name st0 t = None \<or> table_name st0 t = Some (code, scope, tab)"
      using t tid by (auto simp: table_for_def table_name_def split: option.splits)
    ultimately show ?thesis
      using inv bal i(1,4) ix3(2) m3 by (auto simp: stored_def kept_def r(1))
  qed
  show ?thesis
    unfolding safely_simps
  proof (rule safely_mono [OF create_row_safely [OF ix, of r]], clarify)
    fix i ix1
    assume i: "index_inv (ix\<lparr>ix_rows := tbl_put (ix_next ix) r (ix_rows ix), ix_next := ix_next ix + 1\<rparr>)"
      "tbl_find (ix_next ix) (ix_rows ix) = None" "\<forall>j s. tbl_find j (ix_rows ix) = Some s \<longrightarrow> primary_key_of s \<noteq> primary_key_of r"
    show "safely (bind_r (modify_count (\<lambda>n. add32 n 1) t st) (\<lambda>st.
       bind_r (update_db_usage ctx payer (int bytes_billed) st) (\<lambda>st.
       case add_to_cache (ix_next ix) (snd (cache_table_of t (ix\<lparr>ix_rows := tbl_put (ix_next ix) r (ix_rows ix), ix_next := ix_next ix + 1\<rparr>))) of
         (k, ix) \<Rightarrow> Inr (k, st, ix)))) (stored sz rest (code, scope, tab) r st0 ix)"
      unfolding safely_simps st1(1)
      by (rule safely_mono [OF update_db_usage_billed [OF st1(4)]]) (auto split: prod.split intro: final [OF i(2) refl i(1,3)])
  qed
qed

definition kv_size :: "bytes \<Rightarrow> nat" where
  "kv_size b = length b + billable_key_value_object"

text \<open>No count is near its 32-bit limit.\<close>

definition counts_bounded :: "(nat \<Rightarrow> nat) \<Rightarrow> 'a index_state \<Rightarrow> bool" where
  "counts_bounded rest ix \<longleftrightarrow> (\<forall>t. rows_in ix t + rest t + 1 < 2 ^ 32)"

lemma store_in_table_safely:
  fixes sz :: "'a \<Rightarrow> nat"
  assumes "contract_inv rest st ix" "counts_bounded rest ix" "sz v = bytes_billed"
  shows "safely (bind_r (find_or_create_table ctx code scope tab payer st) (\<lambda>(t, st).
     bind_r (create_row primary_key_of \<lparr>row_t_id = t, row_primary_key = pk, row_payer = payer, row_data = v\<rparr> ix) (\<lambda>(i, ix).
     bind_r (modify_count (\<lambda>n. add32 n 1) t st) (\<lambda>st.
     bind_r (update_db_usage ctx payer (int bytes_billed) st) (\<lambda>st.
       (case add_to_cache i (snd (cache_table_of t ix)) of (k, ix) \<Rightarrow> Inr (k, st, ix)))))))
    (\<lambda>res. \<exists>t. stored sz rest (code, scope, tab) \<lparr>row_t_id = t, row_primary_key = pk, row_payer = payer, row_data = v\<rparr> st ix res)"
proof -
  have inv: "tables_inv {} (\<lambda>t. rows_in ix t + rest t) st" "ram_inv st" "index_inv ix"
    using assms(1) by (simp_all add: contract_inv_def)
  show ?thesis
    unfolding safely_bind [of "find_or_create_table ctx code scope tab payer st"]
  proof (rule safely_mono [OF find_or_create_table_safely [OF inv(1,2)]], clarify)
    fix t st1
    assume t: "table_for code scope tab (\<lambda>t. rows_in ix t + rest t) st t st1"
    let ?r = "\<lparr>row_t_id = t, row_primary_key = pk, row_payer = payer, row_data = v\<rparr>"
    show "safely (bind_r (create_row primary_key_of ?r ix) (\<lambda>(i, ix).
       bind_r (modify_count (\<lambda>n. add32 n 1) t st1) (\<lambda>st.
       bind_r (update_db_usage ctx payer (int bytes_billed) st) (\<lambda>st.
         (case add_to_cache i (snd (cache_table_of t ix)) of (k, ix) \<Rightarrow> Inr (k, st, ix))))))
       (\<lambda>res. \<exists>t. stored sz rest (code, scope, tab) \<lparr>row_t_id = t, row_primary_key = pk, row_payer = payer, row_data = v\<rparr> st ix res)"
      using assms(2,3)
      by (intro safely_mono [OF store_row_safely [OF inv(3) t, where sz = sz and payer = payer and bytes_billed = bytes_billed and ctx = ctx and r = ?r]])
        (auto simp: counts_bounded_def)
  qed
qed

lemma db_store_i64_safely:
  assumes "contract_inv rest st ix" "counts_bounded rest ix"
  shows "safely (db_store_i64 ctx code scope tab payer pk buffer st ix) (\<lambda>res. payer \<noteq> 0 \<and>
    (\<exists>t. stored kv_size rest (code, scope, tab) \<lparr>row_t_id = t, row_primary_key = pk, row_payer = payer, row_data = buffer\<rparr> st ix res))"
proof (cases "payer = 0")
  case True
  then show ?thesis
    using safely_mono [OF find_or_create_table_safely, of "\<lambda>t. rows_in ix t + rest t" st] assms(1)
    by (auto simp: db_store_i64_def contract_inv_def intended_def)
next
  case False
  then show ?thesis
    using store_in_table_safely [OF assms, of kv_size buffer "length buffer + billable_key_value_object"]
    by (simp only: db_store_i64_def kv_size_def eos_assert_True bind_r_simps refl simp_thms not_False_eq_True)
qed

lemma secondary_store_safely:
  assumes "contract_inv rest st ix" "counts_bounded rest ix"
  shows "safely (secondary_store billable ctx scope tab payer pk secondary st ix) (\<lambda>res. payer \<noteq> 0 \<and>
    (\<exists>t. stored (\<lambda>_. billable) rest (ax_receiver ctx, scope, tab)
       \<lparr>row_t_id = t, row_primary_key = pk, row_payer = payer, row_data = secondary\<rparr> st ix res))"
proof (cases "payer = 0")
  case False
  then show ?thesis
    using store_in_table_safely [OF assms, of "\<lambda>_. billable" secondary billable]
    by (simp only: secondary_store_def eos_assert_True bind_r_simps refl simp_thms not_False_eq_True)
qed (simp add: secondary_store_def intended_def)

section \<open>Removing\<close>

lemma drop_row_safely:
  assumes inv: "contract_inv rest st ix" and bound: "counts_bounded rest ix" and i: "tbl_find i (ix_rows ix) = Some r" "row_t_id r = t"
  shows "safely (drop_row ctx t i st ix) (\<lambda>(st', ix'). ix' = ix\<lparr>ix_rows := tbl_remove i (ix_rows ix)\<rparr> \<and>
    tables_inv {} (\<lambda>t. rows_in ix' t + rest t) st' \<and> ram_inv st' \<and> table_balance st' = table_balance st \<and>
    (\<forall>t'. table_name st' t' = (if t' = t \<and> rows_in ix t + rest t = 1 then None else table_name st t')))"
proof -
  let ?n = "\<lambda>t. rows_in ix t + rest t" and ?ix' = "ix\<lparr>ix_rows := tbl_remove i (ix_rows ix)\<rparr>"
  have tab: "tables_inv {t} ?n st" "ram_inv st" "index_inv ix"
    using inv tables_inv_mono [of "{}" ?n st "{t}"] by (simp_all add: contract_inv_def)
  have pos: "0 < rows_in ix t"
    using row_sums_remove(1) [OF tab(3) i(1), of ?ix' t] i(2) by simp
  then obtain tid where tid: "tbl_find t (ts_tables st) = Some tid"
    using tables_inv_none [OF tab(1), of t] by (cases "tbl_find t (ts_tables st)") auto
  have c: "sub32 (?n t) 1 = ?n t - 1" "0 < ?n t - 1 \<or> (if ?n t = 1 then {t} else {}) = {t}"
    using sub32_small [of 1 "?n t"] bound [unfolded counts_bounded_def, rule_format, of t] pos by auto
  obtain st1 where st1: "modify_count (\<lambda>n. sub32 n 1) t st = Inr st1" "tables_inv (if ?n t = 1 then {t} else {}) (?n(t := ?n t - 1)) st1"
    "\<forall>a. table_balance st1 a = table_balance st a" "ram_inv st1"
    "st1 = st\<lparr>ts_tables := tbl_put t (tid\<lparr>tid_count := ?n t - 1\<rparr>) (ts_tables st)\<rparr>"
    using modify_count_inv [OF tab(1) tid, of "\<lambda>n. sub32 n 1", OF c] tab(2) by blast
  have n: "(\<lambda>t. rows_in ?ix' t + rest t) = ?n(t := ?n t - 1)"
  proof
    show "rows_in ?ix' t' + rest t' = (?n(t := ?n t - 1)) t'" for t'
      using row_sums_remove(1) [OF tab(3) i(1), of ?ix' t'] i(2) by (cases "t' = t") auto
  qed
  have nm: "table_name st1 t' = table_name st t'" for t'
    using tid by (simp add: table_name_def st1(5))
  have f: "tbl_find t (ts_tables st1) = Some (tid\<lparr>tid_count := ?n t - 1\<rparr>)"
    by (simp add: st1(5))
  have d: "drop_row ctx t i st ix = bind_r (if ?n t = 1 then remove_table ctx t st1 else Inr st1) (\<lambda>st. Inr (st, ?ix'))"
    unfolding drop_row_def st1(1) using f pos by (auto simp: Let_def)
  show ?thesis
  proof (cases "?n t = 1")
    case True
    have "tables_inv {t} (?n(t := ?n t - 1)) st1" "(?n(t := ?n t - 1)) t = 0"
      using st1(2) True by simp_all
    from remove_table_safely [OF this(1) st1(4) this(2) f, of ctx] show ?thesis
      unfolding d safely_simps if_P [OF True] by (rule safely_mono) (auto simp: n nm st1(3) True fun_upd_def)
  next
    case False
    then show ?thesis
      using st1(2,3,4) by (simp add: d n nm fun_eq_iff)
  qed
qed

text \<open>What removing the row of an iterator does.\<close>

definition removed ::
    "('a \<Rightarrow> nat) \<Rightarrow> (nat \<Rightarrow> nat) \<Rightarrow> nat \<Rightarrow> 'a row_object \<Rightarrow> tables_state \<Rightarrow> 'a index_state \<Rightarrow> tables_state \<times> 'a index_state \<Rightarrow> bool" where
  "removed sz rest i r st ix = (\<lambda>(st', ix'). kept sz rest st ix st' ix' \<and> ix_rows ix' = tbl_remove i (ix_rows ix) \<and>
     (\<forall>t. table_name st' t = (if t = row_t_id r \<and> rows_in ix t + rest t = 1 then None else table_name st t)))"

lemma drop_row_removed:
  fixes sz :: "'a \<Rightarrow> nat"
  assumes inv: "contract_inv rest st ix" and bound: "counts_bounded rest ix"
    and i: "tbl_find i (ix_rows ix) = Some r" "tbl_find i (ic_object_to_iterator (ix_cache ix)) = Some iterator"
    and b: "bill_effect (row_payer r) (- int (sz (row_data r))) st st1"
  shows "safely (bind_r (drop_row ctx (row_t_id r) i st1 ix) (\<lambda>(st, ix).
     bind_r (ic_remove iterator (ix_cache ix)) (\<lambda>c. Inr (st, ix\<lparr>ix_cache := c\<rparr>)))) (removed sz rest i r st ix)"
proof -
  have st1: "ts_tables st1 = ts_tables st" "ts_next_table st1 = ts_next_table st" "ram_inv st1"
    using b by (simp_all add: bill_effect_def)
  have inv1: "contract_inv rest st1 ix" and ix: "index_inv ix"
    using inv st1(3) tables_inv_tables [OF st1(1,2)] by (simp_all add: contract_inv_def)
  let ?ix1 = "ix\<lparr>ix_rows := tbl_remove i (ix_rows ix)\<rparr>"
  obtain c where c: "ic_remove iterator (ix_cache ix) = Inr c" "index_inv (?ix1\<lparr>ix_cache := c\<rparr>)"
    using remove_row_inv [OF ix i(2)] by auto
  let ?ix' = "?ix1\<lparr>ix_cache := c\<rparr>"
  have "removed sz rest i r st ix (st', ?ix')"
    if p: "tables_inv {} (\<lambda>t. rows_in ?ix1 t + rest t) st'" "ram_inv st'" "table_balance st' = table_balance st1"
      "\<forall>t'. table_name st' t' = (if t' = row_t_id r \<and> rows_in ix (row_t_id r) + rest (row_t_id r) = 1 then None else table_name st1 t')" for st'
  proof -
    have "contract_inv rest st' ?ix'"
      using p(1,2) c(2) by (simp add: contract_inv_def rows_in_def)
    moreover have "balance sz st' ?ix' a = balance sz st ix a" for a
      using row_sums_remove(2) [OF ix i(1), of ?ix' sz a, symmetric] bill_effect_balance [OF b, of a]
      by (simp add: balance_def p(3))
    moreover have "table_name st1 t = table_name st t" for t
      by (simp add: table_name_def st1(1))
    ultimately show ?thesis
      using p(4) by (auto simp: removed_def kept_def)
  qed
  then show ?thesis
    unfolding safely_bind [of "drop_row ctx (row_t_id r) i st1 ix"]
    by (intro safely_mono [OF drop_row_safely [OF inv1 bound i(1) refl]]) (auto simp: c(1))
qed

lemma cached_row_table:
  assumes "contract_inv rest st ix" "tbl_find i (ix_rows ix) = Some r"
  shows "\<exists>tid. tbl_find (row_t_id r) (ts_tables st) = Some tid"
proof -
  have "0 < rows_in ix (row_t_id r)"
    using row_sums_remove(1) [of ix i r "ix\<lparr>ix_rows := tbl_remove i (ix_rows ix)\<rparr>" "row_t_id r"] assms
    by (simp add: contract_inv_def)
  then show ?thesis
    using assms(1) tables_inv_none [of "{}" "\<lambda>t. rows_in ix t + rest t" st "row_t_id r"]
    by (cases "tbl_find (row_t_id r) (ts_tables st)") (auto simp: contract_inv_def)
qed

lemma ic_get_table_cached: "tbl_find t (ic_table_cache c) \<noteq> None \<Longrightarrow> ic_get_table t c = Inr t"
  by (simp add: ic_get_table_def)

text \<open>An iterator stands for a row of the receiver's table.\<close>

definition owns :: "apply_ctx \<Rightarrow> int \<Rightarrow> tables_state \<Rightarrow> 'a index_state \<Rightarrow> nat \<Rightarrow> 'a row_object \<Rightarrow> bool" where
  "owns ctx iterator st ix i r \<longleftrightarrow> get_row iterator ix = Inr (i, r) \<and>
     (\<exists>scope tab. table_name st (row_t_id r) = Some (ax_receiver ctx, scope, tab))"

text \<open>The table of an iterator is alive and in the cache, and its owner is checked.\<close>

lemma owner_safely:
  assumes "contract_inv rest st ix" "get_row iterator ix = Inr (i, r)" "ts_tables st' = ts_tables st"
    "owns ctx iterator st ix i r \<Longrightarrow> safely (f (row_t_id r)) Q"
  shows "safely (bind_r (ic_get_table (row_t_id r) (ix_cache ix)) (\<lambda>t. bind_r (check_table_code ctx t st') (\<lambda>_. f t))) Q"
proof -
  have i: "tbl_find i (ix_rows ix) = Some r" "tbl_find (row_t_id r) (ic_table_cache (ix_cache ix)) \<noteq> None"
    using get_row_safely [of ix iterator] assms(1,2) by (auto simp: contract_inv_def)
  have "ic_get_table (row_t_id r) (ix_cache ix) = Inr (row_t_id r)"
    using i(2) by (simp add: ic_get_table_def)
  then show ?thesis
    using cached_row_table [OF assms(1) i(1)] assms(2-4)
    by (auto simp: check_table_code_def intended_def table_name_def owns_def)
qed

lemma db_remove_i64_safely:
  assumes "contract_inv rest st ix" "counts_bounded rest ix"
  shows "safely (db_remove_i64 ctx iterator st ix) (\<lambda>res. \<exists>i r. owns ctx iterator st ix i r \<and> removed kv_size rest i r st ix res)"
    (is "safely _ ?post")
proof -
  have ix: "index_inv ix" "ram_inv st"
    using assms(1) by (simp_all add: contract_inv_def)
  show ?thesis
    unfolding db_remove_i64_def safely_bind [of "get_row iterator ix"]
  proof (rule safely_mono [OF get_row_safely [OF ix(1)]], clarify)
    fix i r ei
    assume g: "get_row iterator ix = Inr (i, r)" and i: "tbl_find i (ix_rows ix) = Some r"
      "tbl_find i (ic_object_to_iterator (ix_cache ix)) = Some iterator"
    have "safely (bind_r (update_db_usage ctx (row_payer r) (- int (length (row_data r) + billable_key_value_object)) st) (\<lambda>st.
       bind_r (drop_row ctx (row_t_id r) i st ix) (\<lambda>(st, ix).
       bind_r (ic_remove iterator (ix_cache ix)) (\<lambda>c. Inr (st, ix\<lparr>ix_cache := c\<rparr>))))) ?post"
      if o: "owns ctx iterator st ix i r"
      unfolding safely_bind [of "update_db_usage ctx (row_payer r) d st" for d]
      using o by (intro safely_mono [OF update_db_usage_billed [OF ix(2)]] safely_mono [OF drop_row_removed [OF assms i(1,2), where sz = kv_size]])
        (auto simp: kv_size_def)
    then show "safely (bind_r (ic_get_table (row_t_id r) (ix_cache ix)) (\<lambda>t.
       bind_r (check_table_code ctx t st) (\<lambda>_.
       bind_r (update_db_usage ctx (row_payer r) (- int (length (row_data r) + billable_key_value_object)) st) (\<lambda>st.
       bind_r (drop_row ctx t i st ix) (\<lambda>(st, ix).
       bind_r (ic_remove iterator (ix_cache ix)) (\<lambda>c. Inr (st, ix\<lparr>ix_cache := c\<rparr>))))))) ?post"
      by (rule owner_safely [OF assms(1) g refl])
  qed
qed

lemma secondary_remove_safely:
  assumes "contract_inv rest st ix" "counts_bounded rest ix"
  shows "safely (secondary_remove billable ctx iterator st ix)
    (\<lambda>res. \<exists>i r. owns ctx iterator st ix i r \<and> removed (\<lambda>_. billable) rest i r st ix res)"
    (is "safely _ ?post")
proof -
  have ix: "index_inv ix" "ram_inv st"
    using assms(1) by (simp_all add: contract_inv_def)
  show ?thesis
    unfolding secondary_remove_def safely_bind [of "get_row iterator ix"]
  proof (rule safely_mono [OF get_row_safely [OF ix(1)]], clarify)
    fix i r ei
    assume g: "get_row iterator ix = Inr (i, r)" and i: "tbl_find i (ix_rows ix) = Some r"
      "tbl_find i (ic_object_to_iterator (ix_cache ix)) = Some iterator"
    have "safely (bind_r (drop_row ctx (row_t_id r) i st1 ix) (\<lambda>(st, ix).
       bind_r (ic_remove iterator (ix_cache ix)) (\<lambda>c. Inr (st, ix\<lparr>ix_cache := c\<rparr>)))) ?post"
      if o: "owns ctx iterator st ix i r" and b: "bill_effect (row_payer r) (- int billable) st st1" for st1
      using o b by (intro safely_mono [OF drop_row_removed [OF assms i, where sz = "\<lambda>_. billable"]]) auto
    then have "safely (bind_r (ic_get_table (row_t_id r) (ix_cache ix)) (\<lambda>t.
       bind_r (check_table_code ctx t st1) (\<lambda>_.
       bind_r (drop_row ctx t i st1 ix) (\<lambda>(st, ix).
       bind_r (ic_remove iterator (ix_cache ix)) (\<lambda>c. Inr (st, ix\<lparr>ix_cache := c\<rparr>)))))) ?post"
      if b: "bill_effect (row_payer r) (- int billable) st st1" for st1
      using b by (intro owner_safely [OF assms(1) g]) (simp_all add: bill_effect_def)
    then show "safely (bind_r (update_db_usage ctx (row_payer r) (- int billable) st) (\<lambda>st.
       bind_r (ic_get_table (row_t_id r) (ix_cache ix)) (\<lambda>t.
       bind_r (check_table_code ctx t st) (\<lambda>_.
       bind_r (drop_row ctx t i st ix) (\<lambda>(st, ix).
       bind_r (ic_remove iterator (ix_cache ix)) (\<lambda>c. Inr (st, ix\<lparr>ix_cache := c\<rparr>))))))) ?post"
      unfolding safely_bind [of "update_db_usage ctx (row_payer r) (- int billable) st"]
      by (rule safely_mono [OF update_db_usage_billed [OF ix(2)]])
  qed
qed

section \<open>Updating\<close>

definition updated ::
    "('a \<Rightarrow> nat) \<Rightarrow> (nat \<Rightarrow> nat) \<Rightarrow> nat \<Rightarrow> 'a row_object \<Rightarrow> tables_state \<Rightarrow> 'a index_state \<Rightarrow> tables_state \<times> 'a index_state \<Rightarrow> bool" where
  "updated sz rest i r' st ix = (\<lambda>(st', ix'). kept sz rest st ix st' ix' \<and> ix_rows ix' = tbl_put i r' (ix_rows ix) \<and>
     ix_cache ix' = ix_cache ix \<and> table_name st' = table_name st)"

text \<open>Moving a charge from one payer to another, or changing it.\<close>

definition recharged :: "account_name \<Rightarrow> nat \<Rightarrow> account_name \<Rightarrow> nat \<Rightarrow> tables_state \<Rightarrow> tables_state \<Rightarrow> bool" where
  "recharged old_payer old_size payer new_size st st' \<longleftrightarrow>
     ts_tables st' = ts_tables st \<and> ts_next_table st' = ts_next_table st \<and> ram_inv st' \<and>
     (\<forall>a. table_balance st' a = table_balance st a - (if a = old_payer then int old_size else 0) + (if a = payer then int new_size else 0))"

lemma recharge_safely:
  assumes "ram_inv st"
  shows "safely (if p \<noteq> payer then bind_r (update_db_usage ctx p (- int old_size) st) (update_db_usage ctx payer (int new_size))
     else if int old_size \<noteq> int new_size then update_db_usage ctx p (int new_size - int old_size) st else Inr st)
    (recharged p old_size payer new_size st)"
proof (cases "p = payer")
  case True
  have "recharged p old_size payer new_size st st1" if "bill_effect p (int new_size - int old_size) st st1" for st1
    using bill_effect_balance [OF that] that True by (auto simp: recharged_def bill_effect_def)
  then have "safely (update_db_usage ctx p (int new_size - int old_size) st) (recharged p old_size payer new_size st)"
    by (rule safely_mono [OF update_db_usage_billed [OF assms]])
  then show ?thesis
    using True assms by (auto simp: recharged_def)
next
  case False
  have "recharged p old_size payer new_size st st2"
    if "bill_effect p (- int old_size) st st1" "bill_effect payer (int new_size) st1 st2" for st1 st2
    using bill_effect_balance [OF that(1)] bill_effect_balance [OF that(2)] that by (auto simp: recharged_def bill_effect_def)
  then have "safely (update_db_usage ctx payer (int new_size) st1) (recharged p old_size payer new_size st)"
    if "bill_effect p (- int old_size) st st1" for st1
    using that by (intro safely_mono [OF update_db_usage_billed [of st1]]) (auto simp: bill_effect_def)
  then have "safely (update_db_usage ctx p (- int old_size) st) (\<lambda>st1. safely (update_db_usage ctx payer (int new_size) st1) (recharged p old_size payer new_size st))"
    by (rule safely_mono [OF update_db_usage_billed [OF assms]])
  then show ?thesis
    using False by simp
qed

lemma put_row_updated:
  fixes sz :: "'a \<Rightarrow> nat"
  assumes inv: "contract_inv rest st ix" and i: "tbl_find i (ix_rows ix) = Some r" "primary_key_of r' = primary_key_of r"
    and c: "recharged (row_payer r) (sz (row_data r)) (row_payer r') (sz (row_data r')) st st'"
  shows "updated sz rest i r' st ix (st', ix\<lparr>ix_rows := tbl_put i r' (ix_rows ix)\<rparr>)" (is "updated _ _ _ _ _ _ (_, ?ix')")
proof -
  have ix: "index_inv ix" and t: "row_t_id r' = row_t_id r"
    using inv i(2) by (simp_all add: contract_inv_def primary_key_of_def)
  have "contract_inv rest st' ?ix'"
    using inv put_row_inv [OF ix i] c tables_inv_tables [of st' st]
    by (simp add: contract_inv_def recharged_def row_sums_put(1) [OF ix i(1) _ t, of ?ix'])
  moreover have "balance sz st' ?ix' a = balance sz st ix a" for a
    using row_sums_put(2) [OF ix i(1) _ t, of ?ix' sz a] c by (auto simp: balance_def recharged_def)
  ultimately show ?thesis
    using c by (auto simp: updated_def kept_def table_name_def recharged_def)
qed

text \<open>The row an update writes: the payer is kept when none is given.\<close>

definition updated_row :: "account_name \<Rightarrow> 'a \<Rightarrow> 'a row_object \<Rightarrow> 'a row_object" where
  "updated_row payer v r = r\<lparr>row_data := v, row_payer := (if payer = 0 then row_payer r else payer)\<rparr>"

lemma update_row_safely:
  fixes sz :: "'a \<Rightarrow> nat"
  assumes inv: "contract_inv rest st ix" and g: "get_row iterator ix = Inr (i, r)"
  shows "safely (bind_r (ic_get_table (row_t_id r) (ix_cache ix)) (\<lambda>t. bind_r (check_table_code ctx t st) (\<lambda>_.
      bind_r (if row_payer r \<noteq> p then bind_r (update_db_usage ctx (row_payer r) (- int (sz (row_data r))) st) (update_db_usage ctx p (int (sz v)))
         else if int (sz (row_data r)) \<noteq> int (sz v) then update_db_usage ctx (row_payer r) (int (sz v) - int (sz (row_data r))) st
         else Inr st) (\<lambda>st.
        Inr (st, ix\<lparr>ix_rows := tbl_put i (r\<lparr>row_data := v, row_payer := p\<rparr>) (ix_rows ix)\<rparr>)))))
    (\<lambda>res. owns ctx iterator st ix i r \<and> updated sz rest i (r\<lparr>row_data := v, row_payer := p\<rparr>) st ix res)"
proof (rule owner_safely [OF inv g refl])
  assume o: "owns ctx iterator st ix i r"
  have i: "tbl_find i (ix_rows ix) = Some r" and ram: "ram_inv st"
    using get_row_iff [of ix iterator i r] inv g by (simp_all add: contract_inv_def)
  have "updated sz rest i (r\<lparr>row_data := v, row_payer := p\<rparr>) st ix (st', ix\<lparr>ix_rows := tbl_put i (r\<lparr>row_data := v, row_payer := p\<rparr>) (ix_rows ix)\<rparr>)"
    if "recharged (row_payer r) (sz (row_data r)) p (sz v) st st'" for st'
    using that by (intro put_row_updated [OF inv i]) (simp_all add: primary_key_of_def)
  then show "safely (bind_r (if row_payer r \<noteq> p then bind_r (update_db_usage ctx (row_payer r) (- int (sz (row_data r))) st) (update_db_usage ctx p (int (sz v)))
         else if int (sz (row_data r)) \<noteq> int (sz v) then update_db_usage ctx (row_payer r) (int (sz v) - int (sz (row_data r))) st
         else Inr st) (\<lambda>st.
        Inr (st, ix\<lparr>ix_rows := tbl_put i (r\<lparr>row_data := v, row_payer := p\<rparr>) (ix_rows ix)\<rparr>)))
    (\<lambda>res. owns ctx iterator st ix i r \<and> updated sz rest i (r\<lparr>row_data := v, row_payer := p\<rparr>) st ix res)"
    unfolding safely_bind [of _ "\<lambda>st. Inr (st, ix')" for ix'] safely_values
    using o by (intro safely_mono [OF recharge_safely [OF ram]]) auto
qed

lemma db_update_i64_safely:
  assumes "contract_inv rest st ix"
  shows "safely (db_update_i64 ctx iterator payer buffer st ix)
    (\<lambda>res. \<exists>i r. owns ctx iterator st ix i r \<and> updated kv_size rest i (updated_row payer buffer r) st ix res)"
proof -
  have ix: "index_inv ix"
    using assms by (simp add: contract_inv_def)
  show ?thesis
    unfolding db_update_i64_def safely_bind [of "get_row iterator ix"]
  proof (rule safely_mono [OF get_row_safely [OF ix]], clarify)
    fix i r ei
    assume g: "get_row iterator ix = Inr (i, r)"
    show "safely (bind_r (ic_get_table (row_t_id r) (ix_cache ix)) (\<lambda>t.
     bind_r (check_table_code ctx t st) (\<lambda>_.
     (let overhead = int billable_key_value_object;
          old_size = int (length (row_data r)) + overhead;
          new_size = int (length buffer) + overhead;
          payer = (if payer = 0 then row_payer r else payer)
      in
     bind_r (if row_payer r \<noteq> payer then
               bind_r (update_db_usage ctx (row_payer r) (- old_size) st) (update_db_usage ctx payer new_size)
             else if old_size \<noteq> new_size then update_db_usage ctx (row_payer r) (new_size - old_size) st
             else Inr st) (\<lambda>st.
       Inr (st, ix\<lparr>ix_rows := tbl_put i (r\<lparr>row_data := buffer, row_payer := payer\<rparr>) (ix_rows ix)\<rparr>))))))
      (\<lambda>res. \<exists>i r. owns ctx iterator st ix i r \<and> updated kv_size rest i (updated_row payer buffer r) st ix res)"
      unfolding Let_def updated_row_def
      using safely_mono [OF update_row_safely [OF assms g, where sz = kv_size and ctx = ctx and v = buffer and p = "if payer = 0 then row_payer r else payer"],
          where Q = "\<lambda>res. \<exists>i r. owns ctx iterator st ix i r \<and> updated kv_size rest i
            (r\<lparr>row_data := buffer, row_payer := (if payer = 0 then row_payer r else payer)\<rparr>) st ix res"]
      unfolding kv_size_def of_nat_add by blast
  qed
qed

lemma secondary_update_safely:
  assumes "contract_inv rest st ix"
  shows "safely (secondary_update billable ctx iterator payer secondary st ix)
    (\<lambda>res. \<exists>i r. owns ctx iterator st ix i r \<and> updated (\<lambda>_. billable) rest i (updated_row payer secondary r) st ix res)"
proof -
  have ix: "index_inv ix"
    using assms by (simp add: contract_inv_def)
  show ?thesis
    unfolding secondary_update_def safely_bind [of "get_row iterator ix"]
  proof (rule safely_mono [OF get_row_safely [OF ix]], clarify)
    fix i r ei
    assume g: "get_row iterator ix = Inr (i, r)"
    show "safely (bind_r (ic_get_table (row_t_id r) (ix_cache ix)) (\<lambda>t.
     bind_r (check_table_code ctx t st) (\<lambda>_.
     (let payer = (if payer = 0 then row_payer r else payer) in
     bind_r (if row_payer r \<noteq> payer then
               bind_r (update_db_usage ctx (row_payer r) (- int billable) st) (update_db_usage ctx payer (int billable))
             else Inr st) (\<lambda>st.
       Inr (st, ix\<lparr>ix_rows := tbl_put i (r\<lparr>row_data := secondary, row_payer := payer\<rparr>) (ix_rows ix)\<rparr>))))))
      (\<lambda>res. \<exists>i r. owns ctx iterator st ix i r \<and> updated (\<lambda>_. billable) rest i (updated_row payer secondary r) st ix res)"
      unfolding Let_def updated_row_def
      using safely_mono [OF update_row_safely [OF assms g, where sz = "\<lambda>_. billable" and ctx = ctx and v = secondary and p = "if payer = 0 then row_payer r else payer"],
          where Q = "\<lambda>res. \<exists>i r. owns ctx iterator st ix i r \<and> updated (\<lambda>_. billable) rest i
            (r\<lparr>row_data := secondary, row_payer := (if payer = 0 then row_payer r else payer)\<rparr>) st ix res"]
      by (simp only: simp_thms if_False refl) blast
  qed
qed

end
