(* ===== verification/Table_Map.thy ===== *)
theory Table_Map
  imports Table_Operations
begin

text \<open>
  The primary table as contracts see it: a map from code, scope, table and primary key to a payer
  and a value, with iterators that stand at keys.
\<close>

section \<open>The abstraction\<close>

type_synonym kv_key = "name \<times> name \<times> name \<times> u64"

definition kv_map :: "tables_state \<Rightarrow> kv_index \<Rightarrow> kv_key \<Rightarrow> (account_name \<times> bytes) option" where
  "kv_map st ix = (\<lambda>(code, scope, tab, pk). case find_table code scope tab st of
     None \<Rightarrow> None
   | Some t \<Rightarrow> map_option (\<lambda>e. (row_payer (snd e), row_data (snd e))) (List.find (\<lambda>e. primary_key_of (snd e) = (t, pk)) (ix_rows ix)))"

text \<open>The key of a row, and the key an iterator stands at.\<close>

definition row_key :: "tables_state \<Rightarrow> 'a row_object \<Rightarrow> kv_key option" where
  "row_key st r = map_option (\<lambda>(code, scope, tab). (code, scope, tab, row_primary_key r)) (table_name st (row_t_id r))"

definition kv_at :: "tables_state \<Rightarrow> kv_index \<Rightarrow> int \<Rightarrow> kv_key option" where
  "kv_at st ix k = (case get_row k ix of Inl _ \<Rightarrow> None | Inr (_, r) \<Rightarrow> row_key st r)"

section \<open>Rows and keys\<close>

lemma table_name_inj:
  assumes "tables_inv z n st" "table_name st t = Some nm" "table_name st t' = Some nm"
  shows "t = t'"
proof -
  obtain code scope tab where nm: "nm = (code, scope, tab)"
    by (cases nm)
  have "find_table code scope tab st = Some t" "find_table code scope tab st = Some t'"
    using assms by (simp_all add: find_table_name nm)
  then show ?thesis
    by simp
qed

lemma row_key_Some:
  "row_key st r = Some (code, scope, tab, pk) \<longleftrightarrow> table_name st (row_t_id r) = Some (code, scope, tab) \<and> row_primary_key r = pk"
  by (auto simp: row_key_def)

lemma row_key_inj:
  assumes "contract_inv rest st ix" "tbl_find i (ix_rows ix) = Some r" "tbl_find j (ix_rows ix) = Some s"
    "row_key st r = Some key" "row_key st s = Some key"
  shows "i = j"
proof -
  obtain code scope tab pk where key: "key = (code, scope, tab, pk)"
    by (cases key)
  have "row_t_id r = row_t_id s"
    using table_name_inj [of "{}" "\<lambda>t. rows_in ix t + rest t" st "row_t_id r" "(code, scope, tab)" "row_t_id s"] assms(1,4,5)
    by (simp add: contract_inv_def key row_key_Some)
  then have "primary_key_of r = primary_key_of s"
    using assms(4,5) by (simp add: primary_key_of_def key row_key_Some)
  then show ?thesis
    using rows_inv_parts(3) [of ix i r j s] assms(1,2,3) by (simp add: contract_inv_def)
qed

lemma kv_map_Some:
  assumes "contract_inv rest st ix"
  shows "kv_map st ix key = Some (p, d) \<longleftrightarrow>
    (\<exists>i r. tbl_find i (ix_rows ix) = Some r \<and> row_key st r = Some key \<and> row_payer r = p \<and> row_data r = d)"
proof -
  have inv: "tables_inv {} (\<lambda>t. rows_in ix t + rest t) st" "index_inv ix"
    using assms by (simp_all add: contract_inv_def)
  obtain code scope tab pk where key: "key = (code, scope, tab, pk)"
    by (cases key)
  show ?thesis
  proof
    assume "kv_map st ix key = Some (p, d)"
    then obtain t e where t: "find_table code scope tab st = Some t" "List.find (\<lambda>e. primary_key_of (snd e) = (t, pk)) (ix_rows ix) = Some e"
      "row_payer (snd e) = p" "row_data (snd e) = d"
      by (auto simp: kv_map_def key split: option.splits)
    then have "e \<in> set (ix_rows ix)" "primary_key_of (snd e) = (t, pk)"
      by (auto simp: find_Some_iff)
    then have "tbl_find (fst e) (ix_rows ix) = Some (snd e)" "row_key st (snd e) = Some key"
      using index_inv_find [OF inv(2), of "fst e" "snd e"] t(1) find_table_name [OF inv(1)]
      by (simp_all add: key row_key_Some primary_key_of_def)
    then show "\<exists>i r. tbl_find i (ix_rows ix) = Some r \<and> row_key st r = Some key \<and> row_payer r = p \<and> row_data r = d"
      using t(3,4) by blast
  next
    assume "\<exists>i r. tbl_find i (ix_rows ix) = Some r \<and> row_key st r = Some key \<and> row_payer r = p \<and> row_data r = d"
    then obtain i r where r: "tbl_find i (ix_rows ix) = Some r" "row_key st r = Some key" "row_payer r = p" "row_data r = d"
      by blast
    then have t: "find_table code scope tab st = Some (row_t_id r)" "primary_key_of r = (row_t_id r, pk)"
      using find_table_name [OF inv(1)] by (simp_all add: key row_key_Some primary_key_of_def)
    let ?P = "\<lambda>e. primary_key_of (snd e) = (row_t_id r, pk)"
    have "List.find ?P (ix_rows ix) \<noteq> None"
      using tbl_find_in [OF r(1)] t(2) by (auto simp: find_None_iff)
    then obtain e where e: "List.find ?P (ix_rows ix) = Some e"
      by blast
    then have "e \<in> set (ix_rows ix)" "primary_key_of (snd e) = primary_key_of r"
      using t(2) by (auto simp: find_Some_iff)
    moreover obtain j s where js: "e = (j, s)"
      by fastforce
    ultimately have "tbl_find j (ix_rows ix) = Some s" "primary_key_of s = primary_key_of r"
      using index_inv_find [OF inv(2)] by simp_all
    then have "e = (i, r)"
      using rows_inv_parts(3) [OF inv(2) _ r(1)] r(1) js by auto
    then show "kv_map st ix key = Some (p, d)"
      using e t(1) r(3,4) by (simp add: kv_map_def key)
  qed
qed

lemma kv_at_Some:
  "kv_at st ix k = Some key \<longleftrightarrow> (\<exists>i r. get_row k ix = Inr (i, r) \<and> row_key st r = Some key)"
  by (auto simp: kv_at_def split: sum.splits)

text \<open>Two maps are equal when they have the same entries.\<close>

lemma map_eqI: "(\<And>k p d. f k = Some (p, d) \<longleftrightarrow> g k = Some (p, d)) \<Longrightarrow> f = g"
proof
  fix k
  assume eq: "\<And>k p d. f k = Some (p, d) \<longleftrightarrow> g k = Some (p, d)"
  show "f k = g k"
    using eq [of k] by (cases "f k"; cases "g k") auto
qed

section \<open>Operations\<close>

lemma existing_row_named:
  assumes "contract_inv rest st ix" "tbl_find i (ix_rows ix) = Some r"
  shows "\<exists>nm. table_name st (row_t_id r) = Some nm"
  using cached_row_table [OF assms] by (auto simp: table_name_def)

text \<open>The map after a row with a new key was added and the keys of the others were kept.\<close>

lemma kv_map_new_row:
  assumes inv: "contract_inv rest st ix" "contract_inv rest st' ix'"
    and f: "\<And>j s. tbl_find j (ix_rows ix') = Some s \<longleftrightarrow> j = i \<and> s = r \<or> tbl_find j (ix_rows ix) = Some s"
    and r: "row_key st' r = Some key"
    and old: "\<And>j s. tbl_find j (ix_rows ix) = Some s \<Longrightarrow> row_key st' s = row_key st s \<and> row_key st s \<noteq> Some key"
  shows "kv_map st ix key = None \<and> kv_map st' ix' = (kv_map st ix)(key \<mapsto> (row_payer r, row_data r))"
proof -
  have none: "kv_map st ix key = None"
    using kv_map_Some [OF inv(1), of key] old by (cases "kv_map st ix key") auto
  have "kv_map st' ix' = (kv_map st ix)(key \<mapsto> (row_payer r, row_data r))"
  proof (rule map_eqI)
    fix key' p d
    have "kv_map st' ix' key' = Some (p, d) \<longleftrightarrow> (\<exists>j s. (j = i \<and> s = r \<or> tbl_find j (ix_rows ix) = Some s) \<and>
        row_key st' s = Some key' \<and> row_payer s = p \<and> row_data s = d)"
      unfolding kv_map_Some [OF inv(2)] f by blast
    moreover have "row_key st' r = Some key' \<and> row_payer r = p \<and> row_data r = d \<longleftrightarrow> key' = key \<and> row_payer r = p \<and> row_data r = d"
      by (auto simp: r)
    moreover have "(\<exists>j s. tbl_find j (ix_rows ix) = Some s \<and> row_key st' s = Some key' \<and> row_payer s = p \<and> row_data s = d) \<longleftrightarrow>
        kv_map st ix key' = Some (p, d)"
      unfolding kv_map_Some [OF inv(1)] using old by metis
    ultimately have "kv_map st' ix' key' = Some (p, d) \<longleftrightarrow> key' = key \<and> row_payer r = p \<and> row_data r = d \<or> kv_map st ix key' = Some (p, d)"
      by blast
    then show "kv_map st' ix' key' = Some (p, d) \<longleftrightarrow> ((kv_map st ix)(key \<mapsto> (row_payer r, row_data r))) key' = Some (p, d)"
      using none by (cases "key' = key") simp_all
  qed
  with none show ?thesis
    by blast
qed

lemma store_refines:
  assumes inv: "contract_inv rest st ix" "counts_bounded rest ix"
    and store: "db_store_i64 ctx code scope tab payer pk buffer st ix = Inr (k, st', ix')"
  shows "kv_map st ix (code, scope, tab, pk) = None \<and>
    kv_map st' ix' = (kv_map st ix)((code, scope, tab, pk) \<mapsto> (payer, buffer)) \<and> kv_at st' ix' k = Some (code, scope, tab, pk)"
proof -
  let ?key = "(code, scope, tab, pk)"
  obtain t where "stored kv_size rest (code, scope, tab) \<lparr>row_t_id = t, row_primary_key = pk, row_payer = payer, row_data = buffer\<rparr> st ix (k, st', ix')"
    (is "stored _ _ _ ?r _ _ _")
    using db_store_i64_safely [OF inv, of ctx code scope tab payer pk buffer] store by auto
  then obtain i where st': "contract_inv rest st' ix'" and i: "tbl_find i (ix_rows ix) = None" "ix_rows ix' = tbl_put i ?r (ix_rows ix)" "get_row k ix' = Inr (i, ?r)"
    and new: "\<forall>j s. tbl_find j (ix_rows ix) = Some s \<longrightarrow> primary_key_of s \<noteq> primary_key_of ?r"
    and nm: "table_name st t = None \<or> table_name st t = Some (code, scope, tab)"
      "\<forall>t'. table_name st' t' = (if t' = t then Some (code, scope, tab) else table_name st t')"
    by (auto simp: stored_def kept_def)
  have old: "row_key st' s = row_key st s \<and> row_key st s \<noteq> Some ?key" if s: "tbl_find j (ix_rows ix) = Some s" for j s
  proof -
    obtain nm' where "table_name st (row_t_id s) = Some nm'"
      using existing_row_named [OF inv(1) s] by blast
    then have "table_name st' (row_t_id s) = table_name st (row_t_id s)"
      using nm by (cases "row_t_id s = t") auto
    then have k: "row_key st' s = row_key st s"
      by (simp add: row_key_def)
    have "row_t_id s = t" if "row_key st s = Some ?key"
      using that nm k table_name_inj [of "{}" "\<lambda>t. rows_in ix' t + rest t" st' "row_t_id s" "(code, scope, tab)" t] st'
      by (simp add: row_key_Some contract_inv_def)
    then show ?thesis
      using new s k by (auto simp: row_key_Some primary_key_of_def)
  qed
  have r: "row_key st' ?r = Some ?key"
    using nm(2) by (simp add: row_key_Some)
  have f: "tbl_find j (ix_rows ix') = Some s \<longleftrightarrow> j = i \<and> s = ?r \<or> tbl_find j (ix_rows ix) = Some s" for j s
    using i(1) by (auto simp: i(2))
  show ?thesis
    using kv_map_new_row [OF inv(1) st' f r old] i(3) r by (simp add: kv_at_def)
qed

text \<open>An iterator that stands at a key of the map.\<close>

lemma get_row_kv_at:
  assumes "contract_inv rest st ix" "get_row k ix = Inr (i, r)"
  shows "tbl_find i (ix_rows ix) = Some r \<and> (\<exists>key. row_key st r = Some key \<and> kv_at st ix k = Some key \<and> kv_map st ix key = Some (row_payer r, row_data r))"
proof -
  have r: "tbl_find i (ix_rows ix) = Some r"
    using get_row_iff [of ix k i r] assms by (simp add: contract_inv_def)
  obtain key where key: "row_key st r = Some key"
    using existing_row_named [OF assms(1) r] by (auto simp: row_key_def)
  have "kv_map st ix key = Some (row_payer r, row_data r)"
    unfolding kv_map_Some [OF assms(1)] using r key by blast
  then show ?thesis
    using r key assms(2) by (simp add: kv_at_def)
qed

lemma owns_kv_at:
  assumes "contract_inv rest st ix" "owns ctx k st ix i r"
  obtains key where "row_key st r = Some key" "kv_at st ix k = Some key" "kv_map st ix key = Some (row_payer r, row_data r)"
    "fst key = ax_receiver ctx" "tbl_find i (ix_rows ix) = Some r"
proof -
  have g: "get_row k ix = Inr (i, r)" "\<exists>scope tab. table_name st (row_t_id r) = Some (ax_receiver ctx, scope, tab)"
    using assms(2) by (simp_all add: owns_def)
  obtain key where key: "row_key st r = Some key" "kv_at st ix k = Some key" "kv_map st ix key = Some (row_payer r, row_data r)"
    "tbl_find i (ix_rows ix) = Some r"
    using get_row_kv_at [OF assms(1) g(1)] by blast
  moreover have "fst key = ax_receiver ctx"
    using g(2) key(1) by (auto simp: row_key_def)
  ultimately show ?thesis
    using that by blast
qed

lemma update_refines:
  assumes inv: "contract_inv rest st ix"
    and upd: "db_update_i64 ctx k payer buffer st ix = Inr (st', ix')"
  shows "\<exists>key p d. kv_at st ix k = Some key \<and> fst key = ax_receiver ctx \<and> kv_map st ix key = Some (p, d) \<and>
    kv_map st' ix' = (kv_map st ix)(key \<mapsto> (if payer = 0 then p else payer, buffer))"
proof -
  obtain i r where o: "owns ctx k st ix i r" and u: "updated kv_size rest i (updated_row payer buffer r) st ix (st', ix')"
    using db_update_i64_safely [OF inv, of ctx k payer buffer] upd by auto
  obtain key where key: "row_key st r = Some key" "kv_at st ix k = Some key" "kv_map st ix key = Some (row_payer r, row_data r)"
    "fst key = ax_receiver ctx" and r: "tbl_find i (ix_rows ix) = Some r"
    using owns_kv_at [OF inv o] by blast
  let ?r' = "updated_row payer buffer r"
  have st': "contract_inv rest st' ix'" "ix_rows ix' = tbl_put i ?r' (ix_rows ix)" and nm: "row_key st' s = row_key st s" for s :: "bytes row_object"
    using u by (simp_all add: updated_def kept_def row_key_def)
  have r': "row_key st ?r' = Some key" "row_payer ?r' = (if payer = 0 then row_payer r else payer)" "row_data ?r' = buffer"
    using key(1) by (simp_all add: updated_row_def row_key_def)
  have f: "tbl_find j (ix_rows ix') = Some s \<longleftrightarrow> j = i \<and> s = ?r' \<or> j \<noteq> i \<and> tbl_find j (ix_rows ix) = Some s" for j s
    by (auto simp: st'(2))
  have one: "j = i" if s: "tbl_find j (ix_rows ix) = Some s" "row_key st s = Some key" for j s
    using row_key_inj [OF inv s(1) r s(2) key(1)] .
  have "kv_map st' ix' = (kv_map st ix)(key \<mapsto> (row_payer ?r', buffer))"
  proof (rule map_eqI)
    fix key' p d
    have "kv_map st' ix' key' = Some (p, d) \<longleftrightarrow> (\<exists>j s. (j = i \<and> s = ?r' \<or> j \<noteq> i \<and> tbl_find j (ix_rows ix) = Some s) \<and>
        row_key st s = Some key' \<and> row_payer s = p \<and> row_data s = d)"
      unfolding kv_map_Some [OF st'(1)] f nm by blast
    also have "\<dots> \<longleftrightarrow> key' = key \<and> row_payer ?r' = p \<and> buffer = d \<or>
        key' \<noteq> key \<and> (\<exists>j s. tbl_find j (ix_rows ix) = Some s \<and> row_key st s = Some key' \<and> row_payer s = p \<and> row_data s = d)"
    proof (cases "key' = key")
      case True
      then show ?thesis
        using r'(1,3) by (auto dest: one)
    next
      case False
      then have "j \<noteq> i" if "tbl_find j (ix_rows ix) = Some s" "row_key st s = Some key'" for j s
        using that key(1) r by auto
      then show ?thesis
        using False r'(1) by auto
    qed
    also have "\<dots> \<longleftrightarrow> ((kv_map st ix)(key \<mapsto> (row_payer ?r', buffer))) key' = Some (p, d)"
      unfolding kv_map_Some [OF inv, symmetric] by (cases "key' = key") auto
    finally show "kv_map st' ix' key' = Some (p, d) \<longleftrightarrow> ((kv_map st ix)(key \<mapsto> (row_payer ?r', buffer))) key' = Some (p, d)" .
  qed
  then show ?thesis
    using key(2-4) unfolding r'(2) by (intro exI conjI)
qed

lemma remove_refines:
  assumes inv: "contract_inv rest st ix" "counts_bounded rest ix"
    and rem: "db_remove_i64 ctx k st ix = Inr (st', ix')"
  shows "\<exists>key. kv_at st ix k = Some key \<and> fst key = ax_receiver ctx \<and> kv_map st ix key \<noteq> None \<and> kv_map st' ix' = (kv_map st ix)(key := None)"
proof -
  obtain i r where o: "owns ctx k st ix i r" and u: "removed kv_size rest i r st ix (st', ix')"
    using db_remove_i64_safely [OF inv, of ctx k] rem by auto
  obtain key where key: "row_key st r = Some key" "kv_at st ix k = Some key" "kv_map st ix key = Some (row_payer r, row_data r)"
    "fst key = ax_receiver ctx" and r: "tbl_find i (ix_rows ix) = Some r"
    using owns_kv_at [OF inv(1) o] by blast
  have st': "contract_inv rest st' ix'" "ix_rows ix' = tbl_remove i (ix_rows ix)"
    and nm: "\<forall>t. table_name st' t = (if t = row_t_id r \<and> rows_in ix t + rest t = 1 then None else table_name st t)"
    using u by (simp_all add: removed_def kept_def)
  have old: "row_key st' s = row_key st s" if s: "tbl_find j (ix_rows ix') = Some s" for j s
  proof -
    obtain nm' where "table_name st' (row_t_id s) = Some nm'"
      using existing_row_named [OF st'(1) s] by blast
    then have "table_name st' (row_t_id s) = table_name st (row_t_id s)"
      using nm by (metis option.distinct(1))
    then show ?thesis
      by (simp add: row_key_def)
  qed
  have f: "tbl_find j (ix_rows ix') = Some s \<longleftrightarrow> j \<noteq> i \<and> tbl_find j (ix_rows ix) = Some s" for j s
    by (simp add: st'(2))
  have one: "j = i" if s: "tbl_find j (ix_rows ix) = Some s" "row_key st s = Some key" for j s
    using row_key_inj [OF inv(1) s(1) r s(2) key(1)] .
  have "kv_map st' ix' = (kv_map st ix)(key := None)"
  proof (rule map_eqI)
    fix key' p d
    have "kv_map st' ix' key' = Some (p, d) \<longleftrightarrow> (\<exists>j s. tbl_find j (ix_rows ix') = Some s \<and>
        row_key st s = Some key' \<and> row_payer s = p \<and> row_data s = d)"
      unfolding kv_map_Some [OF st'(1)] using old by metis
    also have "\<dots> \<longleftrightarrow> key' \<noteq> key \<and> (\<exists>j s. tbl_find j (ix_rows ix) = Some s \<and> row_key st s = Some key' \<and> row_payer s = p \<and> row_data s = d)"
      unfolding f using key(1) r one by (metis option.inject)
    also have "\<dots> \<longleftrightarrow> ((kv_map st ix)(key := None)) key' = Some (p, d)"
      unfolding kv_map_Some [OF inv(1), symmetric] by auto
    finally show "kv_map st' ix' key' = Some (p, d) \<longleftrightarrow> ((kv_map st ix)(key := None)) key' = Some (p, d)" .
  qed
  then show ?thesis
    using key by auto
qed

end
