(* ===== verification/Contract_Calls.thy ===== *)
theory Contract_Calls
  imports Table_Operations
begin

text \<open>
  All tables of a chain together: the primary table and the secondary indices over integers,
  which share the table objects and the RAM accounts. Contracts use them by sequences of calls,
  each with the context of the action that makes it.
\<close>

section \<open>Calls\<close>

datatype kv_call =
    Kv_store name name account_name u64 bytes
  | Kv_update int account_name bytes
  | Kv_remove int
  | Kv_get int nat
  | Kv_next int
  | Kv_previous int
  | Kv_find name name name u64
  | Kv_lowerbound name name name u64
  | Kv_upperbound name name name u64
  | Kv_end name name name

datatype 'k index_call =
    Idx_store name name account_name u64 'k
  | Idx_remove int
  | Idx_update int account_name 'k
  | Idx_find_secondary name name name 'k
  | Idx_lowerbound_secondary name name name 'k
  | Idx_upperbound_secondary name name name 'k
  | Idx_end_secondary name name name
  | Idx_next_secondary int
  | Idx_previous_secondary int
  | Idx_find_primary name name name u64
  | Idx_lowerbound_primary name name name u64
  | Idx_upperbound_primary name name name u64
  | Idx_next_primary int
  | Idx_previous_primary int
  | Idx_get int

text \<open>The effect of a call on the state; its return value is dropped.\<close>

fun kv_step :: "apply_ctx \<Rightarrow> kv_call \<Rightarrow> tables_state \<Rightarrow> kv_index \<Rightarrow> (tables_state \<times> kv_index) result" where
  "kv_step ctx (Kv_store scope tab payer pk buffer) st ix =
     bind_r (db_store_i64 ctx (ax_receiver ctx) scope tab payer pk buffer st ix) (\<lambda>(_, st, ix). Inr (st, ix))"
| "kv_step ctx (Kv_update i payer buffer) st ix = db_update_i64 ctx i payer buffer st ix"
| "kv_step ctx (Kv_remove i) st ix = db_remove_i64 ctx i st ix"
| "kv_step ctx (Kv_get i n) st ix = bind_r (db_get_i64 i n ix) (\<lambda>_. Inr (st, ix))"
| "kv_step ctx (Kv_next i) st ix = bind_r (db_next_i64 i ix) (\<lambda>(_, _, ix). Inr (st, ix))"
| "kv_step ctx (Kv_previous i) st ix = bind_r (db_previous_i64 i st ix) (\<lambda>(_, _, ix). Inr (st, ix))"
| "kv_step ctx (Kv_find code scope tab pk) st ix = Inr (st, snd (db_find_i64 code scope tab pk st ix))"
| "kv_step ctx (Kv_lowerbound code scope tab pk) st ix = Inr (st, snd (db_lowerbound_i64 code scope tab pk st ix))"
| "kv_step ctx (Kv_upperbound code scope tab pk) st ix = Inr (st, snd (db_upperbound_i64 code scope tab pk st ix))"
| "kv_step ctx (Kv_end code scope tab) st ix = Inr (st, snd (db_end_i64 code scope tab st ix))"

fun index_step ::
    "nat \<Rightarrow> apply_ctx \<Rightarrow> 'k :: linorder index_call \<Rightarrow> tables_state \<Rightarrow> 'k index_state \<Rightarrow> (tables_state \<times> 'k index_state) result" where
  "index_step billable ctx (Idx_store scope tab payer pk v) st ix =
     bind_r (secondary_store billable ctx scope tab payer pk v st ix) (\<lambda>(_, st, ix). Inr (st, ix))"
| "index_step billable ctx (Idx_remove i) st ix = secondary_remove billable ctx i st ix"
| "index_step billable ctx (Idx_update i payer v) st ix = secondary_update billable ctx i payer v st ix"
| "index_step billable ctx (Idx_find_secondary code scope tab v) st ix = Inr (st, snd (snd (find_secondary code scope tab v st ix)))"
| "index_step billable ctx (Idx_lowerbound_secondary code scope tab v) st ix = Inr (st, snd (snd (lowerbound_secondary code scope tab v st ix)))"
| "index_step billable ctx (Idx_upperbound_secondary code scope tab v) st ix = Inr (st, snd (snd (upperbound_secondary code scope tab v st ix)))"
| "index_step billable ctx (Idx_end_secondary code scope tab) st ix = Inr (st, snd (end_secondary code scope tab st ix))"
| "index_step billable ctx (Idx_next_secondary i) st ix = bind_r (next_secondary i ix) (\<lambda>(_, _, ix). Inr (st, ix))"
| "index_step billable ctx (Idx_previous_secondary i) st ix = bind_r (previous_secondary i st ix) (\<lambda>(_, _, ix). Inr (st, ix))"
| "index_step billable ctx (Idx_find_primary code scope tab pk) st ix = Inr (st, snd (snd (find_primary code scope tab pk st ix)))"
| "index_step billable ctx (Idx_lowerbound_primary code scope tab pk) st ix = Inr (st, snd (lowerbound_primary code scope tab pk st ix))"
| "index_step billable ctx (Idx_upperbound_primary code scope tab pk) st ix = Inr (st, snd (upperbound_primary code scope tab pk st ix))"
| "index_step billable ctx (Idx_next_primary i) st ix = bind_r (next_primary i ix) (\<lambda>(_, _, ix). Inr (st, ix))"
| "index_step billable ctx (Idx_previous_primary i) st ix = bind_r (previous_primary i st ix) (\<lambda>(_, _, ix). Inr (st, ix))"
| "index_step billable ctx (Idx_get i) st ix = bind_r (get_secondary i ix) (\<lambda>_. Inr (st, ix))"

text \<open>Calls that do not step back from the end of a removed table.\<close>

fun kv_alive :: "kv_call \<Rightarrow> tables_state \<Rightarrow> kv_index \<Rightarrow> bool" where
  "kv_alive (Kv_previous i) st ix = end_alive i st ix"
| "kv_alive c st ix = True"

fun index_alive :: "'k index_call \<Rightarrow> tables_state \<Rightarrow> 'k index_state \<Rightarrow> bool" where
  "index_alive (Idx_previous_secondary i) st ix = end_alive i st ix"
| "index_alive (Idx_previous_primary i) st ix = end_alive i st ix"
| "index_alive c st ix = True"

section \<open>Steps of one index\<close>

definition step_ok :: "('a \<Rightarrow> nat) \<Rightarrow> (nat \<Rightarrow> nat) \<Rightarrow> tables_state \<Rightarrow> 'a index_state \<Rightarrow> tables_state \<times> 'a index_state \<Rightarrow> bool" where
  "step_ok sz rest st ix = (\<lambda>(st', ix'). kept sz rest st ix st' ix' \<and> length (ix_rows ix') \<le> Suc (length (ix_rows ix)))"

lemma length_tbl_put: "length (tbl_put k v t) \<le> Suc (length t)"
  by (induction k v t rule: tbl_put.induct) auto

lemma length_tbl_remove: "length (tbl_remove k t) \<le> length t"
  by (simp add: tbl_remove_def)

lemma step_ok_stored: "stored sz rest nm r st ix (k, st', ix') \<Longrightarrow> step_ok sz rest st ix (st', ix')"
  by (auto simp: stored_def step_ok_def length_tbl_put)

lemma step_ok_removed: "removed sz rest i r st ix res \<Longrightarrow> step_ok sz rest st ix res"
  by (auto simp: removed_def step_ok_def le_SucI length_tbl_remove)

lemma step_ok_updated: "updated sz rest i r st ix res \<Longrightarrow> step_ok sz rest st ix res"
  by (auto simp: updated_def step_ok_def length_tbl_put)

lemma step_ok_moves: "contract_inv rest st ix \<Longrightarrow> moves ix ix' \<Longrightarrow> step_ok sz rest st ix (st, ix')"
  by (simp add: step_ok_def moves_kept) (simp add: moves_def)

lemma step_ok_search:
  assumes "contract_inv rest st ix"
  shows "step_ok sz rest st ix (st, snd (snd (index_search key P code scope tab st ix)))"
    "step_ok sz rest st ix (st, snd (search_iterator (index_search key P code scope tab st ix)))"
    "step_ok sz rest st ix (st, snd (index_end code scope tab st ix))"
  using assms index_search_moves [of ix key P code scope tab st] index_end_moves [of ix code scope tab st]
  by (cases "index_search key P code scope tab st ix"; cases "index_end code scope tab st ix";
      auto simp: search_iterator_def contract_inv_def intro!: step_ok_moves)+

lemma step_ok_next:
  assumes "contract_inv rest st ix"
  shows "safely (bind_r (index_next key i ix) (\<lambda>(_, _, ix). Inr (st, ix))) (step_ok sz rest st ix)"
proof -
  have "safely (index_next key i ix) (\<lambda>(_, _, ix'). moves ix ix')"
    using assms by (intro index_next_safely) (simp add: contract_inv_def)
  then show ?thesis
    unfolding safely_bind by (rule safely_mono) (auto intro: step_ok_moves [OF assms])
qed

lemma step_ok_previous:
  assumes "contract_inv rest st ix" "end_alive i st ix"
  shows "safely (bind_r (index_previous key i st ix) (\<lambda>(_, _, ix). Inr (st, ix))) (step_ok sz rest st ix)"
proof -
  have "safely (index_previous key i st ix) (\<lambda>(_, _, ix'). moves ix ix')"
    using assms by (intro index_previous_safely) (simp_all add: contract_inv_def)
  then show ?thesis
    unfolding safely_bind by (rule safely_mono) (auto intro: step_ok_moves [OF assms(1)])
qed

lemma step_ok_get:
  assumes "contract_inv rest st ix"
  shows "safely (get_row i ix) (\<lambda>_. step_ok sz rest st ix (st, ix))"
  using assms step_ok_moves [OF assms, of ix] by (intro safely_mono [OF get_row_safely]) (auto simp: contract_inv_def)

lemma kv_step_safely:
  assumes "contract_inv rest st ix" "counts_bounded rest ix" "kv_alive c st ix"
  shows "safely (kv_step ctx c st ix) (step_ok kv_size rest st ix)"
proof (cases c)
  case (Kv_store scope tab payer pk buffer)
  then show ?thesis
    using db_store_i64_safely [OF assms(1,2), of ctx "ax_receiver ctx" scope tab payer pk buffer]
    by (auto elim!: safely_mono intro: step_ok_stored)
next
  case (Kv_update i payer buffer)
  then show ?thesis
    using db_update_i64_safely [OF assms(1), of ctx i payer buffer] by (auto elim!: safely_mono intro: step_ok_updated)
next
  case (Kv_remove i)
  then show ?thesis
    using db_remove_i64_safely [OF assms(1,2), of ctx i] by (auto elim!: safely_mono intro: step_ok_removed)
next
  case (Kv_get i n)
  then show ?thesis
    using step_ok_get [OF assms(1), of i kv_size] by (auto simp: db_get_i64_def Let_def elim!: safely_mono)
qed (use assms step_ok_next [OF assms(1)] step_ok_previous [OF assms(1)] step_ok_search [OF assms(1)] in
      \<open>auto simp: db_next_i64_def db_previous_i64_def db_find_i64_def db_lowerbound_i64_def db_upperbound_i64_def db_end_i64_def simp del: safely_bind\<close>)

lemma index_step_safely:
  assumes "contract_inv rest st ix" "counts_bounded rest ix" "index_alive c st ix"
  shows "safely (index_step billable ctx c st ix) (step_ok (\<lambda>_. billable) rest st ix)"
proof (cases c)
  case (Idx_store scope tab payer pk v)
  then show ?thesis
    using secondary_store_safely [OF assms(1,2), of billable ctx scope tab payer pk v]
    by (auto elim!: safely_mono intro: step_ok_stored)
next
  case (Idx_update i payer v)
  then show ?thesis
    using secondary_update_safely [OF assms(1), of billable ctx i payer v] by (auto elim!: safely_mono intro: step_ok_updated)
next
  case (Idx_remove i)
  then show ?thesis
    using secondary_remove_safely [OF assms(1,2), of billable ctx i] by (auto elim!: safely_mono intro: step_ok_removed)
next
  case (Idx_get i)
  then show ?thesis
    using step_ok_get [OF assms(1), of i "\<lambda>_. billable"] by (auto simp: get_secondary_def elim!: safely_mono)
qed (use assms step_ok_next [OF assms(1)] step_ok_previous [OF assms(1)] step_ok_search [OF assms(1)] in
      \<open>auto simp: find_secondary_def lowerbound_secondary_def upperbound_secondary_def end_secondary_def next_secondary_def
        previous_secondary_def find_primary_def lowerbound_primary_def upperbound_primary_def next_primary_def previous_primary_def simp del: safely_bind\<close>)

section \<open>All indices\<close>

type_synonym u128 = "128 word"

record contract_state =
  cs_tables :: tables_state
  cs_keyval :: kv_index
  cs_idx64 :: "u64 index_state"
  cs_idx128 :: "u128 index_state"
  cs_idx256 :: "(u128 \<times> u128) index_state"

datatype contract_call =
    Call_keyval kv_call
  | Call_idx64 "u64 index_call"
  | Call_idx128 "u128 index_call"
  | Call_idx256 "(u128 \<times> u128) index_call"

fun contract_step :: "apply_ctx \<times> contract_call \<Rightarrow> contract_state \<Rightarrow> contract_state result" where
  "contract_step (ctx, Call_keyval c) cs =
     bind_r (kv_step ctx c (cs_tables cs) (cs_keyval cs)) (\<lambda>(st, ix). Inr (cs\<lparr>cs_tables := st, cs_keyval := ix\<rparr>))"
| "contract_step (ctx, Call_idx64 c) cs =
     bind_r (index_step billable_index64_object ctx c (cs_tables cs) (cs_idx64 cs)) (\<lambda>(st, ix). Inr (cs\<lparr>cs_tables := st, cs_idx64 := ix\<rparr>))"
| "contract_step (ctx, Call_idx128 c) cs =
     bind_r (index_step billable_index128_object ctx c (cs_tables cs) (cs_idx128 cs)) (\<lambda>(st, ix). Inr (cs\<lparr>cs_tables := st, cs_idx128 := ix\<rparr>))"
| "contract_step (ctx, Call_idx256 c) cs =
     bind_r (index_step billable_index256_object ctx c (cs_tables cs) (cs_idx256 cs)) (\<lambda>(st, ix). Inr (cs\<lparr>cs_tables := st, cs_idx256 := ix\<rparr>))"

fun call_alive :: "contract_call \<Rightarrow> contract_state \<Rightarrow> bool" where
  "call_alive (Call_keyval c) cs = kv_alive c (cs_tables cs) (cs_keyval cs)"
| "call_alive (Call_idx64 c) cs = index_alive c (cs_tables cs) (cs_idx64 cs)"
| "call_alive (Call_idx128 c) cs = index_alive c (cs_tables cs) (cs_idx128 cs)"
| "call_alive (Call_idx256 c) cs = index_alive c (cs_tables cs) (cs_idx256 cs)"

text \<open>The rows of a table, the RAM charged to an account and the number of rows, over all indices.\<close>

definition all_rows_in :: "contract_state \<Rightarrow> nat \<Rightarrow> nat" where
  "all_rows_in cs t = rows_in (cs_keyval cs) t + rows_in (cs_idx64 cs) t + rows_in (cs_idx128 cs) t + rows_in (cs_idx256 cs) t"

definition charged :: "contract_state \<Rightarrow> account_name \<Rightarrow> nat" where
  "charged cs a = table_charge (cs_tables cs) a + row_charge kv_size (cs_keyval cs) a +
     row_charge (\<lambda>_. billable_index64_object) (cs_idx64 cs) a + row_charge (\<lambda>_. billable_index128_object) (cs_idx128 cs) a +
     row_charge (\<lambda>_. billable_index256_object) (cs_idx256 cs) a"

definition total_rows :: "contract_state \<Rightarrow> nat" where
  "total_rows cs = length (ix_rows (cs_keyval cs)) + length (ix_rows (cs_idx64 cs)) + length (ix_rows (cs_idx128 cs)) + length (ix_rows (cs_idx256 cs))"

definition contract_wf :: "contract_state \<Rightarrow> bool" where
  "contract_wf cs \<longleftrightarrow> tables_inv {} (all_rows_in cs) (cs_tables cs) \<and> ram_inv (cs_tables cs) \<and>
     index_inv (cs_keyval cs) \<and> index_inv (cs_idx64 cs) \<and> index_inv (cs_idx128 cs) \<and> index_inv (cs_idx256 cs)"

definition call_ok :: "contract_state \<Rightarrow> contract_state \<Rightarrow> bool" where
  "call_ok cs cs' \<longleftrightarrow> contract_wf cs' \<and> total_rows cs' \<le> Suc (total_rows cs) \<and>
     (\<forall>a. ram_of (cs_tables cs') a - int (charged cs' a) = ram_of (cs_tables cs) a - int (charged cs a))"

text \<open>A component of the state, as seen by a step of one index.\<close>

lemma component_step:
  fixes ix :: "'a index_state"
  assumes wf: "contract_wf cs" "Suc (total_rows cs) < 2 ^ 32" "index_inv ix"
    and n: "\<And>t. all_rows_in cs t = rows_in ix t + rest t"
    and step: "contract_inv rest (cs_tables cs) ix \<Longrightarrow> counts_bounded rest ix \<Longrightarrow> safely m (step_ok sz rest (cs_tables cs) ix)"
    and upd: "\<And>st' ix'. contract_inv rest st' ix' \<Longrightarrow> contract_wf (g st' ix')"
      "\<And>st' ix'. length (ix_rows ix') \<le> Suc (length (ix_rows ix)) \<Longrightarrow> total_rows (g st' ix') \<le> Suc (total_rows cs)"
      "\<And>st' ix' a. ram_of (cs_tables (g st' ix')) a - int (charged (g st' ix') a) - balance sz st' ix' a =
         ram_of (cs_tables cs) a - int (charged cs a) - balance sz (cs_tables cs) ix a"
  shows "safely (bind_r m (\<lambda>(st, ix). Inr (g st ix))) (call_ok cs)"
proof -
  have "all_rows_in cs = (\<lambda>t. rows_in ix t + rest t)"
    using n by (simp add: fun_eq_iff)
  then have "contract_inv rest (cs_tables cs) ix"
    using wf(1,3) by (simp add: contract_inv_def contract_wf_def)
  moreover have "all_rows_in cs t \<le> total_rows cs" for t
    unfolding all_rows_in_def total_rows_def by (intro add_mono rows_in_le)
  then have "counts_bounded rest ix"
    using wf(2) n unfolding counts_bounded_def by (metis Suc_eq_plus1 Suc_le_mono le_less_trans)
  ultimately have "safely m (step_ok sz rest (cs_tables cs) ix)"
    by (rule step)
  moreover have "call_ok cs (g st' ix')" if "step_ok sz rest (cs_tables cs) ix (st', ix')" for st' ix'
    using that upd(1) [of st' ix'] upd(2) [of ix' st'] upd(3) [of st' ix'] by (simp add: step_ok_def kept_def call_ok_def)
  ultimately show ?thesis
    unfolding safely_bind by (elim safely_mono) auto
qed

lemmas component_defs = contract_wf_def all_rows_in_def total_rows_def charged_def balance_def table_balance_def

lemma keyval_step:
  assumes "contract_wf cs" "Suc (total_rows cs) < 2 ^ 32" "kv_alive c (cs_tables cs) (cs_keyval cs)"
  shows "safely (contract_step (ctx, Call_keyval c) cs) (call_ok cs)"
  unfolding contract_step.simps
proof (rule component_step [where rest = "\<lambda>t. rows_in (cs_idx64 cs) t + rows_in (cs_idx128 cs) t + rows_in (cs_idx256 cs) t" and sz = kv_size, OF assms(1,2)])
  show "contract_wf (cs\<lparr>cs_tables := st', cs_keyval := ix'\<rparr>)"
    if "contract_inv (\<lambda>t. rows_in (cs_idx64 cs) t + rows_in (cs_idx128 cs) t + rows_in (cs_idx256 cs) t) st' ix'" for st' ix'
    using that assms(1) by (simp add: contract_inv_def component_defs [abs_def] add.assoc)
qed (use assms kv_step_safely in \<open>auto simp: component_defs\<close>)

lemma idx64_step:
  assumes "contract_wf cs" "Suc (total_rows cs) < 2 ^ 32" "index_alive c (cs_tables cs) (cs_idx64 cs)"
  shows "safely (contract_step (ctx, Call_idx64 c) cs) (call_ok cs)"
  unfolding contract_step.simps
proof (rule component_step [where rest = "\<lambda>t. rows_in (cs_keyval cs) t + rows_in (cs_idx128 cs) t + rows_in (cs_idx256 cs) t" and sz = "\<lambda>_. billable_index64_object", OF assms(1,2)])
  show "contract_wf (cs\<lparr>cs_tables := st', cs_idx64 := ix'\<rparr>)"
    if "contract_inv (\<lambda>t. rows_in (cs_keyval cs) t + rows_in (cs_idx128 cs) t + rows_in (cs_idx256 cs) t) st' ix'" for st' ix'
    using that assms(1) by (simp add: contract_inv_def component_defs [abs_def] ac_simps)
qed (use assms index_step_safely in \<open>auto simp: component_defs\<close>)

lemma idx128_step:
  assumes "contract_wf cs" "Suc (total_rows cs) < 2 ^ 32" "index_alive c (cs_tables cs) (cs_idx128 cs)"
  shows "safely (contract_step (ctx, Call_idx128 c) cs) (call_ok cs)"
  unfolding contract_step.simps
proof (rule component_step [where rest = "\<lambda>t. rows_in (cs_keyval cs) t + rows_in (cs_idx64 cs) t + rows_in (cs_idx256 cs) t" and sz = "\<lambda>_. billable_index128_object", OF assms(1,2)])
  show "contract_wf (cs\<lparr>cs_tables := st', cs_idx128 := ix'\<rparr>)"
    if "contract_inv (\<lambda>t. rows_in (cs_keyval cs) t + rows_in (cs_idx64 cs) t + rows_in (cs_idx256 cs) t) st' ix'" for st' ix'
    using that assms(1) by (simp add: contract_inv_def component_defs [abs_def] ac_simps)
qed (use assms index_step_safely in \<open>auto simp: component_defs\<close>)

lemma idx256_step:
  assumes "contract_wf cs" "Suc (total_rows cs) < 2 ^ 32" "index_alive c (cs_tables cs) (cs_idx256 cs)"
  shows "safely (contract_step (ctx, Call_idx256 c) cs) (call_ok cs)"
  unfolding contract_step.simps
proof (rule component_step [where rest = "\<lambda>t. rows_in (cs_keyval cs) t + rows_in (cs_idx64 cs) t + rows_in (cs_idx128 cs) t" and sz = "\<lambda>_. billable_index256_object", OF assms(1,2)])
  show "contract_wf (cs\<lparr>cs_tables := st', cs_idx256 := ix'\<rparr>)"
    if "contract_inv (\<lambda>t. rows_in (cs_keyval cs) t + rows_in (cs_idx64 cs) t + rows_in (cs_idx128 cs) t) st' ix'" for st' ix'
    using that assms(1) by (simp add: contract_inv_def component_defs [abs_def] ac_simps)
qed (use assms index_step_safely in \<open>auto simp: component_defs\<close>)

lemma contract_step_safely:
  assumes "contract_wf cs" "Suc (total_rows cs) < 2 ^ 32" "call_alive (snd c) cs"
  shows "safely (contract_step c cs) (call_ok cs)"
proof -
  obtain ctx k where c: "c = (ctx, k)"
    by (cases c)
  show ?thesis
    using assms keyval_step idx64_step idx128_step idx256_step unfolding c
    by (cases k) (simp_all only: snd_conv call_alive.simps)
qed

section \<open>Sequences of calls\<close>

lemma dead_end_previous:
  assumes "\<not> end_alive i st ix"
  shows "index_previous key i st ix = Inl undefined_behaviour"
proof (cases "i = - (2 ^ 31)")
  case False
  then obtain t where "i < -1" "find_table_by_end_iterator i (ix_cache ix) = Inr (Some t)" "tbl_find t (ts_tables st) = None"
    using assms by (auto simp: end_alive_def)
  then show ?thesis
    by (simp add: index_previous_def)
qed (simp add: index_previous_def find_table_by_end_iterator_def end_iterator_to_index_def)

lemma dead_call:
  assumes "\<not> call_alive (snd c) cs"
  shows "contract_step c cs = Inl undefined_behaviour"
proof -
  have kv: "kv_step ctx k st ix = Inl undefined_behaviour" if "\<not> kv_alive k st ix" for ctx k st ix
    using that by (cases k) (auto simp: db_previous_i64_def dead_end_previous)
  have idx: "index_step b ctx k st ix = Inl undefined_behaviour" if "\<not> index_alive k st ix" for b ctx st and k :: "'k :: linorder index_call" and ix
    using that by (cases k) (auto simp: previous_secondary_def previous_primary_def dead_end_previous)
  obtain ctx k where c: "c = (ctx, k)"
    by (cases c)
  show ?thesis
    using assms unfolding c by (cases k) (auto simp: kv idx)
qed

lemma contract_run:
  assumes "contract_wf cs" "total_rows cs + length calls < 2 ^ 32"
  shows "case fold_r contract_step calls cs of
      Inr cs' \<Rightarrow> contract_wf cs' \<and> (\<forall>a. ram_of (cs_tables cs') a - int (charged cs' a) = ram_of (cs_tables cs) a - int (charged cs a))
    | Inl e \<Rightarrow> intended e \<or> e = undefined_behaviour \<and>
        (\<exists>pre c post cs1. calls = pre @ c # post \<and> fold_r contract_step pre cs = Inr cs1 \<and> \<not> call_alive (snd c) cs1)"
  using assms
proof (induction calls arbitrary: cs)
  case (Cons c calls)
  show ?case
  proof (cases "call_alive (snd c) cs")
    case False
    then have "\<exists>pre c' post cs1. c # calls = pre @ c' # post \<and> fold_r contract_step pre cs = Inr cs1 \<and> \<not> call_alive (snd c') cs1"
      by (intro exI [of _ "[]"]) auto
    then show ?thesis
      using dead_call [OF False] by simp
  next
    case True
    have ok: "safely (contract_step c cs) (call_ok cs)"
      using contract_step_safely [OF Cons.prems(1) _ True] Cons.prems(2) by simp
    show ?thesis
    proof (cases "contract_step c cs")
      case (Inl e)
      then show ?thesis
        using ok by simp
    next
      case (Inr cs0)
      then have cs0: "contract_wf cs0" "total_rows cs0 + length calls < 2 ^ 32"
        "\<forall>a. ram_of (cs_tables cs0) a - int (charged cs0 a) = ram_of (cs_tables cs) a - int (charged cs a)"
        using ok Cons.prems(2) by (auto simp: call_ok_def)
      have "\<exists>pre' c' post cs1. c # calls = pre' @ c' # post \<and> fold_r contract_step pre' cs = Inr cs1 \<and> \<not> call_alive (snd c') cs1"
        if "calls = pre @ c' # post" "fold_r contract_step pre cs0 = Inr cs1" "\<not> call_alive (snd c') cs1" for pre c' post cs1
        using that Inr by (intro exI [of _ "c # pre"]) auto
      then show ?thesis
        using Cons.IH [OF cs0(1,2)] cs0(3) Inr by (auto split: sum.splits)
    qed
  qed
qed simp

text \<open>
  C25. Whatever sequence of table calls contracts make, from a state with consistent tables, counts
  stay exact, no pointer to a removed row is followed and the table of every iterator is found in
  the cache. The only operation that can reach a removed table is the step back from its end
  iterator (or from the least integer).
\<close>

theorem contract_calls_safe:
  assumes "contract_wf cs" "total_rows cs + length calls < 2 ^ 32"
  shows "case fold_r contract_step calls cs of
      Inr cs' \<Rightarrow> contract_wf cs'
    | Inl e \<Rightarrow> e \<noteq> table_not_in_cache \<and> (e = undefined_behaviour \<longrightarrow>
        (\<exists>pre c post cs1. calls = pre @ c # post \<and> fold_r contract_step pre cs = Inr cs1 \<and> \<not> call_alive (snd c) cs1))"
  using contract_run [OF assms] by (auto simp: intended_def split: sum.splits)

text \<open>
  C26. RAM is billed exactly: over any sequence of table calls, the RAM usage of every account
  changes by what its tables and rows cost, in every index.
\<close>

theorem contract_calls_billing:
  assumes "contract_wf cs" "total_rows cs + length calls < 2 ^ 32" "fold_r contract_step calls cs = Inr cs'"
  shows "ram_of (cs_tables cs') a - ram_of (cs_tables cs) a = int (charged cs' a) - int (charged cs a)"
  using contract_run [OF assms(1,2)] assms(3) by (simp add: algebra_simps)

section \<open>Examples\<close>

definition sample_ctx :: apply_ctx where
  "sample_ctx = \<lparr>ax_receiver = 1, ax_privileged = False,
     ax_act = \<lparr>act_account = 1, act_name = 2, act_authorization = [(1, 3)], act_data = []\<rparr>,
     ax_ram_restrictions = False, ax_ram_billing_in_notify_allowed = False\<rparr>"

definition sample_contracts :: contract_state where
  "sample_contracts = \<lparr>cs_tables = \<lparr>ts_tables = [], ts_next_table = 0, ts_resources = sample_db,
       ts_account_ram_deltas = [], ts_validate_ram_usage = {}\<rparr>,
     cs_keyval = empty_index, cs_idx64 = empty_index, cs_idx128 = empty_index, cs_idx256 = empty_index\<rparr>"

text \<open>Two rows and an entry of a secondary index in one table, a step, an update that charges more, a removal.\<close>

definition sample_calls :: "(apply_ctx \<times> contract_call) list" where
  "sample_calls = map (Pair sample_ctx)
     [Call_keyval (Kv_store 5 6 1 20 [1, 2, 3]), Call_keyval (Kv_store 5 6 1 10 [4]), Call_idx64 (Idx_store 5 6 1 20 7),
      Call_keyval (Kv_next 1), Call_keyval (Kv_update 0 0 [1, 2, 3, 4, 5]), Call_keyval (Kv_remove 1)]"

lemma rows_empty_index: "ix_rows empty_index = []" "rows_in empty_index t = 0"
  by (simp_all add: empty_index_def rows_in_def)

lemma sample_contracts_wf: "contract_wf sample_contracts" "total_rows sample_contracts = 0"
proof -
  have "tables_inv {} (all_rows_in sample_contracts) (cs_tables sample_contracts)"
    by (simp add: tables_inv_def sample_contracts_def all_rows_in_def rows_empty_index)
  moreover have "ram_inv (cs_tables sample_contracts)"
    by (auto simp: ram_inv_def sample_contracts_def tbl_find_def sample_simps u64_max_def split: if_splits)
  ultimately show "contract_wf sample_contracts"
    by (simp add: contract_wf_def sample_contracts_def)
  show "total_rows sample_contracts = 0"
    by (simp add: total_rows_def sample_contracts_def rows_empty_index)
qed

lemmas call_simps = sample_ctx_def sample_contracts_def empty_index_def empty_cache_def db_store_i64_def find_or_create_table_def
  find_table_def update_db_usage_def require_authorization_def add_ram_usage_def trx_add_ram_usage_def add_pending_ram_usage_def
  tbl_get_def tbl_find_def eos_assert_def create_row_def modify_count_def cache_table_of_def cache_table_def add_to_cache_def
  ic_add_def index_to_end_iterator_def billable_table_id_object_def billable_key_value_object_def billable_index64_object_def
  billable_size_v_def overhead_per_row_per_index_ram_bytes_def add32_def sub32_def sample_simps Let_def u64_max_def wrap_i64_def
  db_remove_i64_def get_row_def ic_get_def ic_check_def ic_get_table_def check_table_code_def drop_row_def remove_table_def
  ic_remove_def tbl_remove_def db_previous_i64_def index_previous_def find_table_by_end_iterator_def end_iterator_to_index_def
  db_update_i64_def db_next_i64_def index_next_def get_end_iterator_by_table_id_def entry_after_def entries_by_def
  primary_key_of_def secondary_store_def

lemma sample_run:
  "\<exists>cs. fold_r contract_step sample_calls sample_contracts = Inr cs \<and> ram_of (cs_tables cs) 1 = 362"
  by (simp add: sample_calls_def call_simps ram_of_def)

theorem contract_calls_safe_witness:
  "case fold_r contract_step sample_calls sample_contracts of Inl e \<Rightarrow> False | Inr cs \<Rightarrow> contract_wf cs"
  using sample_run contract_calls_safe [OF sample_contracts_wf(1), of sample_calls]
  by (auto simp: sample_contracts_wf(2) sample_calls_def)

theorem contract_calls_billing_witness:
  "\<exists>cs. fold_r contract_step sample_calls sample_contracts = Inr cs \<and> int (charged cs 1) = 357"
proof -
  obtain cs where cs: "fold_r contract_step sample_calls sample_contracts = Inr cs" "ram_of (cs_tables cs) 1 = 362"
    using sample_run by blast
  have "ram_of (cs_tables sample_contracts) 1 = 5" "charged sample_contracts 1 = 0"
    by (simp_all add: ram_of_def sample_contracts_def tbl_find_def sample_simps charged_def table_charge_def row_charge_def rows_empty_index)
  then have "int (charged cs 1) = 357"
    using contract_calls_billing [OF sample_contracts_wf(1) _ cs(1), of 1] cs(2)
    by (simp add: sample_contracts_wf(2) sample_calls_def)
  with cs(1) show ?thesis
    by blast
qed

text \<open>
  A contract can make the code follow a pointer to a removed table: it stores a row in a new
  table, removes it, which removes the table, and steps back from the end iterator of the table.
\<close>

theorem previous_of_removed_table:
  "fold_r contract_step (map (Pair sample_ctx)
     [Call_keyval (Kv_store 5 6 1 20 [1]), Call_keyval (Kv_remove 0), Call_keyval (Kv_previous (-2))]) sample_contracts
   = Inl undefined_behaviour"
  by (simp add: call_simps)

end
