(* ===== verification/Table_Order.thy ===== *)
theory Table_Order
  imports Table_Map Contract_Calls
begin

text \<open>
  Searching and walking tables. An index orders the rows by table and then by a key of its own,
  the primary key or the secondary key with the primary one; \<open>row_order\<close> is that interface. Inside
  it the searches and steps are shown to find the least or greatest row of a table with the
  property they ask for; both orders of the code are instances.
\<close>

section \<open>Rows of a table\<close>

definition rows_of :: "'a index_state \<Rightarrow> nat \<Rightarrow> 'a row_object set" where
  "rows_of ix t = {r \<in> snd ` set (ix_rows ix). row_t_id r = t}"

definition least_by :: "('a \<Rightarrow> 'o :: linorder) \<Rightarrow> 'a set \<Rightarrow> 'a \<Rightarrow> bool" where
  "least_by ord S r \<longleftrightarrow> r \<in> S \<and> (\<forall>s\<in>S. ord r \<le> ord s)"

definition greatest_by :: "('a \<Rightarrow> 'o :: linorder) \<Rightarrow> 'a set \<Rightarrow> 'a \<Rightarrow> bool" where
  "greatest_by ord S r \<longleftrightarrow> r \<in> S \<and> (\<forall>s\<in>S. ord s \<le> ord r)"

text \<open>An iterator stands at a row.\<close>

definition stands_at :: "'a index_state \<Rightarrow> int \<Rightarrow> 'a row_object \<Rightarrow> bool" where
  "stands_at ix k r \<longleftrightarrow> (\<exists>i. get_row k ix = Inr (i, r))"

lemma moves_rows_of: "moves ix ix' \<Longrightarrow> rows_of ix' t = rows_of ix t"
  by (simp add: moves_def rows_of_def)

lemma rows_of_find:
  assumes "index_inv ix"
  shows "s \<in> rows_of ix t \<longleftrightarrow> (\<exists>i. tbl_find i (ix_rows ix) = Some s) \<and> row_t_id s = t"
proof -
  have "(\<exists>i. (i, s) \<in> set (ix_rows ix)) \<longleftrightarrow> (\<exists>i. tbl_find i (ix_rows ix) = Some s)"
    using index_inv_find [OF assms] tbl_find_in by metis
  then show ?thesis
    by (force simp: rows_of_def)
qed

section \<open>Ordered lists\<close>

lemma find_sorted_least:
  assumes "sorted (map f xs)" "List.find P xs = Some x"
  shows "x \<in> set xs \<and> P x \<and> (\<forall>y\<in>set xs. P y \<longrightarrow> f x \<le> f y)"
  using assms by (induction xs) (auto split: if_splits)

lemma sorted_last_greatest: "sorted xs \<Longrightarrow> x \<in> set xs \<Longrightarrow> x \<le> last xs"
  by (induction xs) auto

text \<open>A list split at an element, when the keys are strictly increasing.\<close>

lemma split_strict:
  fixes f :: "'a \<Rightarrow> 'o :: linorder"
  assumes "sorted_wrt (\<lambda>x y. f x < f y) (as @ x # bs)" "y \<in> set (as @ x # bs)"
  shows "(y \<in> set bs \<longleftrightarrow> f x < f y) \<and> (y \<in> set as \<longleftrightarrow> f y < f x)"
  using assms by (auto simp: sorted_wrt_append dest: less_asym)

lemma split_at_id:
  assumes "distinct (map fst (as @ (i, r) # bs))"
  shows "dropWhile (\<lambda>e. fst e \<noteq> i) (as @ (i, r) # bs) = (i, r) # bs" "takeWhile (\<lambda>e. fst e \<noteq> i) (as @ (i, r) # bs) = as"
proof -
  have "\<forall>e\<in>set as. fst e \<noteq> i"
    using assms by force
  then show "dropWhile (\<lambda>e. fst e \<noteq> i) (as @ (i, r) # bs) = (i, r) # bs" "takeWhile (\<lambda>e. fst e \<noteq> i) (as @ (i, r) # bs) = as"
    by (simp_all add: dropWhile_append2 takeWhile_append2)
qed

section \<open>Orders of an index\<close>

locale row_order =
  fixes key :: "'a row_object \<Rightarrow> nat \<times> 'o :: linorder"
    and ord :: "'a row_object \<Rightarrow> 'o"
  assumes key_eq: "key r = (row_t_id r, ord r)"
    and ord_primary: "ord r = ord s \<Longrightarrow> row_primary_key r = row_primary_key s"
begin

lemma key_inj:
  assumes "index_inv ix" "(i, r) \<in> set (ix_rows ix)" "(j, s) \<in> set (ix_rows ix)" "key r = key s"
  shows "(i, r) = (j, s)"
proof -
  have f: "tbl_find i (ix_rows ix) = Some r" "tbl_find j (ix_rows ix) = Some s"
    using assms index_inv_find by blast+
  have "row_t_id r = row_t_id s" "ord r = ord s"
    using assms(4) by (simp_all add: key_eq)
  then have "primary_key_of r = primary_key_of s"
    using ord_primary [of r s] by (simp add: primary_key_of_def)
  then show ?thesis
    using rows_inv_parts(3) [OF assms(1) f] f by simp
qed

lemma entries_strict:
  assumes "index_inv ix"
  shows "sorted_wrt (\<lambda>x y. key (snd x) < key (snd y)) (entries_by key ix)" "distinct (map fst (entries_by key ix))"
proof -
  have "sorted_wrt (<) (map fst (ix_rows ix))"
    using rows_inv_parts(1) [OF assms] by (simp add: tbl_wf_def)
  then have d: "distinct (map fst (ix_rows ix))"
    using strict_sorted_iff by blast
  moreover have "mset (map fst (entries_by key ix)) = mset (map fst (ix_rows ix))"
    by (simp add: entries_by_def)
  ultimately show "distinct (map fst (entries_by key ix))"
    using mset_eq_imp_distinct_iff by blast
  have "inj_on (\<lambda>e. key (snd e)) (set (ix_rows ix))"
    using key_inj [OF assms] by (auto intro!: inj_onI)
  then have "distinct (map (\<lambda>e. key (snd e)) (entries_by key ix))"
    using d by (auto simp: entries_by_def distinct_map)
  moreover have "sorted (map (\<lambda>e. key (snd e)) (entries_by key ix))"
    by (simp add: entries_by_def)
  ultimately have "sorted_wrt (<) (map (\<lambda>e. key (snd e)) (entries_by key ix))"
    using strict_sorted_iff by blast
  then show "sorted_wrt (\<lambda>x y. key (snd x) < key (snd y)) (entries_by key ix)"
    by (simp add: sorted_wrt_map)
qed

text \<open>The entries before and after a row.\<close>

lemma entries_split:
  assumes "index_inv ix" "(i, r) \<in> set (ix_rows ix)"
  obtains as bs where "entries_by key ix = as @ (i, r) # bs" "entry_after key i ix = (case bs of [] \<Rightarrow> None | e # _ \<Rightarrow> Some e)"
    "entry_before key i ix = (if as = [] then None else Some (last as))"
    "\<And>e. e \<in> set (ix_rows ix) \<Longrightarrow> (e \<in> set bs \<longleftrightarrow> key r < key (snd e)) \<and> (e \<in> set as \<longleftrightarrow> key (snd e) < key r)"
    "sorted (map (\<lambda>e. key (snd e)) bs)" "sorted (map (\<lambda>e. key (snd e)) as)"
proof -
  obtain as bs where es: "entries_by key ix = as @ (i, r) # bs"
    using assms(2) split_list [of "(i, r)" "entries_by key ix"] by auto
  have s: "sorted_wrt (\<lambda>x y. key (snd x) < key (snd y)) (as @ (i, r) # bs)" "distinct (map fst (as @ (i, r) # bs))"
    using entries_strict [OF assms(1)] by (simp_all add: es)
  show ?thesis
  proof (rule that [OF es])
    show "entry_after key i ix = (case bs of [] \<Rightarrow> None | e # _ \<Rightarrow> Some e)"
      unfolding entry_after_def es split_at_id(1) [OF s(2)] by (simp split: list.split)
    show "entry_before key i ix = (if as = [] then None else Some (last as))"
      unfolding entry_before_def es split_at_id(2) [OF s(2)] by (cases as) auto
    show "(e \<in> set bs \<longleftrightarrow> key r < key (snd e)) \<and> (e \<in> set as \<longleftrightarrow> key (snd e) < key r)" if "e \<in> set (ix_rows ix)" for e
      using split_strict [OF s(1), of e] that set_entries_by [of key ix] unfolding es snd_conv by blast
    have "sorted (map (\<lambda>e. key (snd e)) (entries_by key ix))"
      by (simp add: entries_by_def)
    then show "sorted (map (\<lambda>e. key (snd e)) bs)" "sorted (map (\<lambda>e. key (snd e)) as)"
      by (simp_all add: es sorted_append)
  qed
qed

text \<open>
  The neighbours of a row in the order, if they are in its table, are the least row above it and
  the greatest row below it; if they are not, there is no such row.
\<close>

lemma entry_after_spec:
  assumes "index_inv ix" "(i, r) \<in> set (ix_rows ix)"
  shows "case entry_after key i ix of
      None \<Rightarrow> {s \<in> rows_of ix (row_t_id r). ord r < ord s} = {}
    | Some (j, s) \<Rightarrow> (j, s) \<in> set (ix_rows ix) \<and>
        (if row_t_id s = row_t_id r then least_by ord {s \<in> rows_of ix (row_t_id r). ord r < ord s} s
         else {s \<in> rows_of ix (row_t_id r). ord r < ord s} = {})"
proof -
  obtain as bs where es: "entries_by key ix = as @ (i, r) # bs" "entry_after key i ix = (case bs of [] \<Rightarrow> None | e # _ \<Rightarrow> Some e)"
    "\<And>e. e \<in> set (ix_rows ix) \<Longrightarrow> (e \<in> set bs \<longleftrightarrow> key r < key (snd e)) \<and> (e \<in> set as \<longleftrightarrow> key (snd e) < key r)"
    "sorted (map (\<lambda>e. key (snd e)) bs)"
    using entries_split [OF assms] by metis
  have above: "\<exists>l. (l, s) \<in> set bs" if s: "s \<in> rows_of ix (row_t_id r)" "ord r < ord s" for s
  proof -
    obtain l where "(l, s) \<in> set (ix_rows ix)" "row_t_id s = row_t_id r"
      using s(1) by (auto simp: rows_of_def)
    then show ?thesis
      using es(3) [of "(l, s)"] s(2) by (auto simp: key_eq)
  qed
  show ?thesis
  proof (cases bs)
    case Nil
    then show ?thesis
      using above es(2) by auto
  next
    case (Cons e bs')
    obtain j s where e: "e = (j, s)"
      by (cases e)
    have in_rows: "(j, s) \<in> set (ix_rows ix)"
      using set_entries_by [of key ix] by (simp add: es(1) Cons e) blast
    then have gt: "key r < key s"
      using es(3) [of "(j, s)"] Cons e by simp
    have u: "row_t_id s = row_t_id r \<and> ord s \<le> ord u" if u: "u \<in> rows_of ix (row_t_id r)" "ord r < ord u" for u
    proof -
      obtain l where "(l, u) \<in> set bs"
        using above [OF u] by blast
      then have "key s \<le> key u"
        using es(4) Cons e by auto
      moreover have "row_t_id u = row_t_id r"
        using u(1) by (simp add: rows_of_def)
      ultimately show ?thesis
        using gt by (auto simp: key_eq)
    qed
    have "s \<in> rows_of ix (row_t_id r) \<and> ord r < ord s" if "row_t_id s = row_t_id r"
      using that in_rows gt by (force simp: rows_of_def key_eq)
    then have "least_by ord {s \<in> rows_of ix (row_t_id r). ord r < ord s} s" if "row_t_id s = row_t_id r"
      using that u by (simp add: least_by_def)
    moreover have "{s \<in> rows_of ix (row_t_id r). ord r < ord s} = {}" if "row_t_id s \<noteq> row_t_id r"
      using that u by blast
    ultimately show ?thesis
      using in_rows by (simp add: es(2) Cons e)
  qed
qed

lemma entry_before_spec:
  assumes "index_inv ix" "(i, r) \<in> set (ix_rows ix)"
  shows "case entry_before key i ix of
      None \<Rightarrow> {s \<in> rows_of ix (row_t_id r). ord s < ord r} = {}
    | Some (j, s) \<Rightarrow> (j, s) \<in> set (ix_rows ix) \<and>
        (if row_t_id s = row_t_id r then greatest_by ord {s \<in> rows_of ix (row_t_id r). ord s < ord r} s
         else {s \<in> rows_of ix (row_t_id r). ord s < ord r} = {})"
proof -
  obtain as bs where es: "entries_by key ix = as @ (i, r) # bs" "entry_before key i ix = (if as = [] then None else Some (last as))"
    "\<And>e. e \<in> set (ix_rows ix) \<Longrightarrow> (e \<in> set bs \<longleftrightarrow> key r < key (snd e)) \<and> (e \<in> set as \<longleftrightarrow> key (snd e) < key r)"
    "sorted (map (\<lambda>e. key (snd e)) as)"
    using entries_split [OF assms] by metis
  have below: "\<exists>l. (l, s) \<in> set as" if s: "s \<in> rows_of ix (row_t_id r)" "ord s < ord r" for s
  proof -
    obtain l where "(l, s) \<in> set (ix_rows ix)" "row_t_id s = row_t_id r"
      using s(1) by (auto simp: rows_of_def)
    then show ?thesis
      using es(3) [of "(l, s)"] s(2) by (auto simp: key_eq)
  qed
  show ?thesis
  proof (cases "as = []")
    case True
    then show ?thesis
      using below es(2) by auto
  next
    case False
    obtain j s where e: "last as = (j, s)"
      by (cases "last as")
    then have in_as: "(j, s) \<in> set as"
      using last_in_set [OF False] by simp
    then have in_rows: "(j, s) \<in> set (ix_rows ix)"
      using set_entries_by [of key ix] unfolding es(1) by auto
    then have lt: "key s < key r"
      using es(3) [of "(j, s)"] in_as by simp
    have u: "row_t_id s = row_t_id r \<and> ord u \<le> ord s" if u: "u \<in> rows_of ix (row_t_id r)" "ord u < ord r" for u
    proof -
      obtain l where "(l, u) \<in> set as"
        using below [OF u] by blast
      then have "key u \<in> set (map (\<lambda>e. key (snd e)) as)"
        by force
      then have "key u \<le> key s"
        using sorted_last_greatest [OF es(4)] False e by (simp add: last_map)
      moreover have "row_t_id u = row_t_id r"
        using u(1) by (simp add: rows_of_def)
      ultimately show ?thesis
        using lt by (auto simp: key_eq)
    qed
    have "s \<in> rows_of ix (row_t_id r) \<and> ord s < ord r" if "row_t_id s = row_t_id r"
      using that in_rows lt by (force simp: rows_of_def key_eq)
    then have "greatest_by ord {s \<in> rows_of ix (row_t_id r). ord s < ord r} s" if "row_t_id s = row_t_id r"
      using that u by (simp add: greatest_by_def)
    moreover have "{s \<in> rows_of ix (row_t_id r). ord s < ord r} = {}" if "row_t_id s \<noteq> row_t_id r"
      using that u by blast
    ultimately show ?thesis
      using in_rows False by (simp add: es(2) e)
  qed
qed

text \<open>The first entry with a property that only rows from the table on have.\<close>

lemma first_entry_spec:
  assumes "index_inv ix" "\<And>s. P s \<Longrightarrow> t \<le> row_t_id s"
  shows "case first_entry key P ix of
      None \<Rightarrow> {s \<in> rows_of ix t. P s} = {}
    | Some (j, s) \<Rightarrow> (j, s) \<in> set (ix_rows ix) \<and>
        (if row_t_id s = t then least_by ord {s \<in> rows_of ix t. P s} s else {s \<in> rows_of ix t. P s} = {})"
proof (cases "first_entry key P ix")
  case None
  then have "\<forall>e\<in>set (ix_rows ix). \<not> P (snd e)"
    by (auto simp: first_entry_def find_None_iff)
  then show ?thesis
    using None by (auto simp: rows_of_def)
next
  case (Some e)
  obtain j s where e: "e = (j, s)"
    by (cases e)
  have "sorted (map (\<lambda>e. key (snd e)) (entries_by key ix))"
    by (simp add: entries_by_def)
  from find_sorted_least [OF this Some [unfolded first_entry_def e]]
  have s: "(j, s) \<in> set (ix_rows ix)" "P s" "\<And>l u. (l, u) \<in> set (ix_rows ix) \<Longrightarrow> P u \<Longrightarrow> key s \<le> key u"
    by auto
  have u: "row_t_id s = t \<and> ord s \<le> ord u" if u: "u \<in> rows_of ix t" "P u" for u
  proof -
    obtain l where "(l, u) \<in> set (ix_rows ix)" "row_t_id u = t"
      using u(1) by (auto simp: rows_of_def)
    then show ?thesis
      using s(3) [OF _ u(2)] assms(2) [OF s(2)] by (force simp: key_eq)
  qed
  have "s \<in> rows_of ix t" if "row_t_id s = t"
    using that s(1) by (force simp: rows_of_def)
  then have "least_by ord {s \<in> rows_of ix t. P s} s" if "row_t_id s = t"
    using that u s(2) by (simp add: least_by_def)
  moreover have "{s \<in> rows_of ix t. P s} = {}" if "row_t_id s \<noteq> t"
    using that u by blast
  ultimately show ?thesis
    using s(1) Some e by simp
qed

text \<open>The steps and searches of the code.\<close>

lemma index_next_spec:
  assumes ix: "index_inv ix" and g: "get_row k ix = Inr (i, r)"
  shows "\<exists>k' pk ix'. index_next key k ix = Inr (k', pk, ix') \<and> moves ix ix' \<and>
    (if {s \<in> rows_of ix (row_t_id r). ord r < ord s} = {} then k' < -1 \<and> pk = None
     else \<exists>s. least_by ord {s \<in> rows_of ix (row_t_id r). ord r < ord s} s \<and> pk = Some (row_primary_key s) \<and> stands_at ix' k' s)"
proof -
  have r: "tbl_find i (ix_rows ix) = Some r" "0 \<le> k"
    using get_row_iff [OF ix, of k i r] g cached_object [OF rows_inv_parts(4) [OF ix], of i k] by simp_all
  obtain ei where ei: "tbl_find (row_t_id r) (ic_table_cache (ix_cache ix)) = Some ei"
    using get_row_safely [OF ix, of k] g by auto
  have neg: "ei < -1"
    using rows_inv_parts(4) [OF ix] ei by (force simp: cache_inv_def)
  note spec = entry_after_spec [OF ix tbl_find_in [OF r(1)]]
  show ?thesis
  proof (cases "\<exists>j s. entry_after key i ix = Some (j, s) \<and> row_t_id s = row_t_id r")
    case True
    then obtain j s where js: "entry_after key i ix = Some (j, s)" "row_t_id s = row_t_id r"
      by blast
    obtain k' ix' where c: "add_to_cache j ix = (k', ix')"
      by (cases "add_to_cache j ix")
    have l: "least_by ord {s \<in> rows_of ix (row_t_id r). ord r < ord s} s" "moves ix ix'" "stands_at ix' k' s"
      using spec js reach_row [OF ix _ _ c, of s] ei by (auto simp: stands_at_def)
    moreover have "index_next key k ix = Inr (k', Some (row_primary_key s), ix')"
      using r(2) g js c by (simp add: index_next_def)
    ultimately show ?thesis
      by (auto simp: least_by_def)
  next
    case False
    then have "{s \<in> rows_of ix (row_t_id r). ord r < ord s} = {}"
      using spec by (auto split: option.splits)
    moreover have "index_next key k ix = Inr (ei, None, ix)"
      using r(2) g False ei by (auto simp: index_next_def Let_def get_end_iterator_by_table_id_def split: option.split)
    ultimately show ?thesis
      using ix neg by auto
  qed
qed

lemma index_previous_spec:
  assumes ix: "index_inv ix" and g: "get_row k ix = Inr (i, r)"
  shows "\<exists>k' pk ix'. index_previous key k st ix = Inr (k', pk, ix') \<and> moves ix ix' \<and>
    (if {s \<in> rows_of ix (row_t_id r). ord s < ord r} = {} then k' = -1 \<and> pk = None
     else \<exists>s. greatest_by ord {s \<in> rows_of ix (row_t_id r). ord s < ord r} s \<and> pk = Some (row_primary_key s) \<and> stands_at ix' k' s)"
proof -
  have r: "tbl_find i (ix_rows ix) = Some r" "0 \<le> k"
    using get_row_iff [OF ix, of k i r] g cached_object [OF rows_inv_parts(4) [OF ix], of i k] by simp_all
  obtain ei where ei: "tbl_find (row_t_id r) (ic_table_cache (ix_cache ix)) = Some ei"
    using get_row_safely [OF ix, of k] g by auto
  note spec = entry_before_spec [OF ix tbl_find_in [OF r(1)]]
  show ?thesis
  proof (cases "\<exists>j s. entry_before key i ix = Some (j, s) \<and> row_t_id s = row_t_id r")
    case True
    then obtain j s where js: "entry_before key i ix = Some (j, s)" "row_t_id s = row_t_id r"
      by blast
    obtain k' ix' where c: "add_to_cache j ix = (k', ix')"
      by (cases "add_to_cache j ix")
    have "greatest_by ord {s \<in> rows_of ix (row_t_id r). ord s < ord r} s" "moves ix ix'" "stands_at ix' k' s"
      using spec js reach_row [OF ix _ _ c, of s] ei by (auto simp: stands_at_def)
    moreover have "index_previous key k st ix = Inr (k', Some (row_primary_key s), ix')"
      using r(2) g js c by (simp add: index_previous_def)
    ultimately show ?thesis
      by (auto simp: greatest_by_def)
  next
    case False
    then have "{s \<in> rows_of ix (row_t_id r). ord s < ord r} = {}"
      using spec by (auto split: option.splits)
    moreover have "index_previous key k st ix = Inr (-1, None, ix)"
      using r(2) g False by (auto simp: index_previous_def split: option.split)
    ultimately show ?thesis
      using ix by auto
  qed
qed

lemma index_search_spec:
  assumes ix: "index_inv ix" and t: "find_table code scope tab st = Some t" and P: "\<And>s. P t s \<Longrightarrow> t \<le> row_t_id s"
  shows "\<exists>k res ix'. index_search key P code scope tab st ix = (k, res, ix') \<and> moves ix ix' \<and>
    (if {s \<in> rows_of ix t. P t s} = {} then k < -1 \<and> res = None
     else \<exists>s. least_by ord {s \<in> rows_of ix t. P t s} s \<and> res = Some s \<and> stands_at ix' k s)"
proof -
  obtain ei ix0 where c: "cache_table_of t ix = (ei, ix0)"
    by (cases "cache_table_of t ix")
  have m: "moves ix ix0" "index_inv ix0" "tbl_find t (ic_table_cache (ix_cache ix0)) = Some ei"
    using cache_table_of_inv [OF ix c] by (simp_all add: moves_def)
  have neg: "ei < -1"
    using rows_inv_parts(4) [OF m(2)] m(3) by (force simp: cache_inv_def)
  note spec = first_entry_spec [OF m(2), of "P t" t, OF P, unfolded moves_rows_of [OF m(1)]]
  show ?thesis
  proof (cases "\<exists>j s. first_entry key (P t) ix0 = Some (j, s) \<and> row_t_id s = t")
    case True
    then obtain j s where js: "first_entry key (P t) ix0 = Some (j, s)" "row_t_id s = t"
      by blast
    obtain k ix' where a: "add_to_cache j ix0 = (k, ix')"
      by (cases "add_to_cache j ix0")
    have "least_by ord {s \<in> rows_of ix t. P t s} s" "moves ix0 ix'" "stands_at ix' k s"
      using spec js reach_row [OF m(2) _ _ a, of s] m(3) by (auto simp: stands_at_def)
    moreover have "index_search key P code scope tab st ix = (k, Some s, ix')"
      using t c js a by (simp add: index_search_def)
    ultimately show ?thesis
      using moves_trans [OF m(1)] by (auto simp: least_by_def)
  next
    case False
    then have "{s \<in> rows_of ix t. P t s} = {}"
      using spec by (auto split: option.splits)
    moreover have "index_search key P code scope tab st ix = (ei, None, ix0)"
      using t c False by (auto simp: index_search_def split: option.split)
    ultimately show ?thesis
      using m(1) neg by auto
  qed
qed

end

interpretation primary_order: row_order primary_key_of row_primary_key
  by unfold_locales (simp_all add: primary_key_of_def)

interpretation secondary_order: row_order secondary_key_of "\<lambda>r. (row_data r, row_primary_key r)"
  by unfold_locales (simp_all add: secondary_key_of_def)

section \<open>The primary table is a map\<close>

lemma moves_kv_map:
  assumes "moves ix ix'"
  shows "kv_map st ix' = kv_map st ix"
proof -
  have "ix_rows ix' = ix_rows ix"
    using assms by (simp add: moves_def)
  then show ?thesis
    by (simp only: kv_map_def)
qed

lemma find_refines:
  assumes inv: "contract_inv rest st ix" and find: "db_find_i64 code scope tab pk st ix = (k, ix')"
  shows "moves ix ix' \<and> (if kv_map st ix (code, scope, tab, pk) = None then k < 0 else kv_at st ix' k = Some (code, scope, tab, pk))"
proof -
  have ix: "index_inv ix" and st: "tables_inv {} (\<lambda>t. rows_in ix t + rest t) st"
    using inv by (simp_all add: contract_inv_def)
  let ?P = "\<lambda>t r. primary_key_of r = (t, pk)"
  show ?thesis
  proof (cases "find_table code scope tab st")
    case None
    then show ?thesis
      using find ix by (auto simp: db_find_i64_def index_search_def search_iterator_def kv_map_def)
  next
    case (Some t)
    obtain res where res: "index_search primary_key_of ?P code scope tab st ix = (k, res, ix')"
      using find by (auto simp: db_find_i64_def search_iterator_def split: prod.splits)
    have P: "t \<le> row_t_id s" if "?P t s" for s :: "bytes row_object"
      using that by (simp add: primary_key_of_def)
    have spec: "moves ix ix'" "if {s \<in> rows_of ix t. ?P t s} = {} then k < -1 \<and> res = None
        else \<exists>s. least_by row_primary_key {s \<in> rows_of ix t. ?P t s} s \<and> res = Some s \<and> stands_at ix' k s"
      using primary_order.index_search_spec [OF ix Some, of ?P, OF P] by (simp_all only: res prod.inject) blast+
    have tn: "table_name st t' = Some (code, scope, tab) \<longleftrightarrow> t' = t" for t'
      unfolding find_table_name [OF st, symmetric] Some by auto
    have rows: "s \<in> rows_of ix t \<and> ?P t s \<longleftrightarrow> (\<exists>i. tbl_find i (ix_rows ix) = Some s) \<and> row_key st s = Some (code, scope, tab, pk)" for s
      by (auto simp: rows_of_find [OF ix] row_key_Some tn primary_key_of_def)
    show ?thesis
    proof (cases "{s \<in> rows_of ix t. ?P t s} = {}")
      case True
      then have "kv_map st ix (code, scope, tab, pk) \<noteq> Some (p, d)" for p d
        unfolding kv_map_Some [OF inv] using rows by blast
      then have "kv_map st ix (code, scope, tab, pk) = None"
        by (cases "kv_map st ix (code, scope, tab, pk)") auto
      then show ?thesis
        using spec True by simp
    next
      case False
      then obtain s where s: "s \<in> rows_of ix t \<and> ?P t s" "stands_at ix' k s"
        using spec(2) unfolding if_not_P [OF False] least_by_def by blast
      then have "\<exists>i. tbl_find i (ix_rows ix) = Some s" "row_key st s = Some (code, scope, tab, pk)"
        using rows by blast+
      then have "kv_map st ix (code, scope, tab, pk) = Some (row_payer s, row_data s)" "kv_at st ix' k = Some (code, scope, tab, pk)"
        unfolding kv_map_Some [OF inv] kv_at_Some using s(2) unfolding stands_at_def by blast+
      then show ?thesis
        using spec(1) by simp
    qed
  qed
qed

lemma get_refines:
  assumes "contract_inv rest st ix" "kv_at st ix k = Some key" "kv_map st ix key = Some (p, d)"
  shows "db_get_i64 k (length d) ix = Inr (length d, d)"
proof -
  obtain i r where r: "get_row k ix = Inr (i, r)" "row_key st r = Some key"
    using assms(2) by (auto simp: kv_at_Some)
  then have "row_data r = d"
    using get_row_kv_at [OF assms(1) r(1)] assms(3) by simp
  then show ?thesis
    using r(1) by (simp add: db_get_i64_def Let_def)
qed

text \<open>
  C27. The primary table is a map from code, scope, table and primary key to payer and value.
  Storing adds a key that was not there and returns an iterator that stands at it; updating and
  removing change exactly the key of the iterator, which belongs to the receiver; finding returns
  an iterator that stands at the key exactly if the map has it, and reading there gives the value.
\<close>

theorem kv_table_is_map:
  assumes "contract_inv rest st ix" "counts_bounded rest ix"
  shows "(case db_store_i64 ctx code scope tab payer pk buffer st ix of Inl e \<Rightarrow> True | Inr (k, st', ix') \<Rightarrow>
      kv_map st ix (code, scope, tab, pk) = None \<and> kv_map st' ix' = (kv_map st ix)((code, scope, tab, pk) \<mapsto> (payer, buffer)) \<and>
      kv_at st' ix' k = Some (code, scope, tab, pk)) \<and>
    (case db_update_i64 ctx k payer buffer st ix of Inl e \<Rightarrow> True | Inr (st', ix') \<Rightarrow>
      (\<exists>key p d. kv_at st ix k = Some key \<and> fst key = ax_receiver ctx \<and> kv_map st ix key = Some (p, d) \<and>
        kv_map st' ix' = (kv_map st ix)(key \<mapsto> (if payer = 0 then p else payer, buffer)))) \<and>
    (case db_remove_i64 ctx k st ix of Inl e \<Rightarrow> True | Inr (st', ix') \<Rightarrow>
      (\<exists>key. kv_at st ix k = Some key \<and> fst key = ax_receiver ctx \<and> kv_map st ix key \<noteq> None \<and>
        kv_map st' ix' = (kv_map st ix)(key := None))) \<and>
    (case db_find_i64 code scope tab pk st ix of (k, ix') \<Rightarrow> kv_map st ix' = kv_map st ix \<and>
      (case kv_map st ix (code, scope, tab, pk) of
         None \<Rightarrow> k < 0
       | Some (p, d) \<Rightarrow> kv_at st ix' k = Some (code, scope, tab, pk) \<and> db_get_i64 k (length d) ix' = Inr (length d, d)))"
proof (intro conjI)
  show "case db_store_i64 ctx code scope tab payer pk buffer st ix of Inl e \<Rightarrow> True | Inr (k, st', ix') \<Rightarrow>
      kv_map st ix (code, scope, tab, pk) = None \<and> kv_map st' ix' = (kv_map st ix)((code, scope, tab, pk) \<mapsto> (payer, buffer)) \<and>
      kv_at st' ix' k = Some (code, scope, tab, pk)"
    using store_refines [OF assms] by (auto split: sum.split)
  show "case db_update_i64 ctx k payer buffer st ix of Inl e \<Rightarrow> True | Inr (st', ix') \<Rightarrow>
      (\<exists>key p d. kv_at st ix k = Some key \<and> fst key = ax_receiver ctx \<and> kv_map st ix key = Some (p, d) \<and>
        kv_map st' ix' = (kv_map st ix)(key \<mapsto> (if payer = 0 then p else payer, buffer)))"
    using update_refines [OF assms(1)] by (simp only: split: sum.split prod.split) blast
  show "case db_remove_i64 ctx k st ix of Inl e \<Rightarrow> True | Inr (st', ix') \<Rightarrow>
      (\<exists>key. kv_at st ix k = Some key \<and> fst key = ax_receiver ctx \<and> kv_map st ix key \<noteq> None \<and>
        kv_map st' ix' = (kv_map st ix)(key := None))"
    using remove_refines [OF assms] by (simp only: split: sum.split prod.split) blast
  obtain k' ix' where f: "db_find_i64 code scope tab pk st ix = (k', ix')"
    by (cases "db_find_i64 code scope tab pk st ix")
  have m: "moves ix ix'" "if kv_map st ix (code, scope, tab, pk) = None then k' < 0 else kv_at st ix' k' = Some (code, scope, tab, pk)"
    using find_refines [OF assms(1) f] by simp_all
  have "contract_inv rest st ix'"
    using moves_kept [OF assms(1) m(1)] by (simp add: kept_def)
  then show "case db_find_i64 code scope tab pk st ix of (k, ix') \<Rightarrow> kv_map st ix' = kv_map st ix \<and>
      (case kv_map st ix (code, scope, tab, pk) of
         None \<Rightarrow> k < 0
       | Some (p, d) \<Rightarrow> kv_at st ix' k = Some (code, scope, tab, pk) \<and> db_get_i64 k (length d) ix' = Inr (length d, d))"
    using m get_refines [of rest st ix' k' "(code, scope, tab, pk)"] moves_kv_map [OF m(1), of st]
    by (auto simp: f split: option.split)
qed

section \<open>Walking in order\<close>

text \<open>What a search or a step forward finds, and what a step backward finds.\<close>

definition finds_least :: "('a row_object \<Rightarrow> 'o :: linorder) \<Rightarrow> 'a row_object set \<Rightarrow> int \<Rightarrow> 'a index_state \<Rightarrow> bool" where
  "finds_least ord S k ix' \<longleftrightarrow> (if S = {} then k < -1 else \<exists>s. least_by ord S s \<and> stands_at ix' k s)"

definition finds_greatest :: "('a row_object \<Rightarrow> 'o :: linorder) \<Rightarrow> 'a row_object set \<Rightarrow> int \<Rightarrow> 'a index_state \<Rightarrow> bool" where
  "finds_greatest ord S k ix' \<longleftrightarrow> (if S = {} then k = -1 else \<exists>s. greatest_by ord S s \<and> stands_at ix' k s)"

context row_order
begin

lemma search_finds:
  assumes "index_inv ix" "find_table code scope tab st = Some t" "\<And>s. P t s \<Longrightarrow> t \<le> row_t_id s"
  shows "case search_iterator (index_search key P code scope tab st ix) of (k, ix') \<Rightarrow> finds_least ord {s \<in> rows_of ix t. P t s} k ix'"
    "case index_search key P code scope tab st ix of (k, res, ix') \<Rightarrow> finds_least ord {s \<in> rows_of ix t. P t s} k ix'"
proof -
  obtain k res ix' where k: "index_search key P code scope tab st ix = (k, res, ix')"
    "if {s \<in> rows_of ix t. P t s} = {} then k < -1 \<and> res = None
     else \<exists>s. least_by ord {s \<in> rows_of ix t. P t s} s \<and> res = Some s \<and> stands_at ix' k s"
    using index_search_spec [of ix code scope tab st t P, OF assms] by blast
  then have "finds_least ord {s \<in> rows_of ix t. P t s} k ix'"
    unfolding finds_least_def by (cases "{s \<in> rows_of ix t. P t s} = {}") (simp_all only: if_True if_False simp_thms, blast+)
  then show "case search_iterator (index_search key P code scope tab st ix) of (k, ix') \<Rightarrow> finds_least ord {s \<in> rows_of ix t. P t s} k ix'"
    "case index_search key P code scope tab st ix of (k, res, ix') \<Rightarrow> finds_least ord {s \<in> rows_of ix t. P t s} k ix'"
    by (simp_all add: k(1) search_iterator_def)
qed

lemma steps_find:
  assumes "index_inv ix" "stands_at ix k r"
  shows "case index_next key k ix of Inl e \<Rightarrow> False | Inr (k', pk, ix') \<Rightarrow> finds_least ord {s \<in> rows_of ix (row_t_id r). ord r < ord s} k' ix'"
    "case index_previous key k st ix of Inl e \<Rightarrow> False | Inr (k', pk, ix') \<Rightarrow> finds_greatest ord {s \<in> rows_of ix (row_t_id r). ord s < ord r} k' ix'"
proof -
  obtain i where g: "get_row k ix = Inr (i, r)"
    using assms(2) by (auto simp: stands_at_def)
  show "case index_next key k ix of Inl e \<Rightarrow> False | Inr (k', pk, ix') \<Rightarrow> finds_least ord {s \<in> rows_of ix (row_t_id r). ord r < ord s} k' ix'"
    using index_next_spec [OF assms(1) g] unfolding finds_least_def by (auto split: if_splits)
  show "case index_previous key k st ix of Inl e \<Rightarrow> False | Inr (k', pk, ix') \<Rightarrow> finds_greatest ord {s \<in> rows_of ix (row_t_id r). ord s < ord r} k' ix'"
    using index_previous_spec [OF assms(1) g, of st] unfolding finds_greatest_def by (auto split: if_splits)
qed

end

text \<open>
  C28. Contracts walk tables in order. In the primary table a lower or upper bound finds the row with
  the least primary key that is at least, or above, the given one, a step forward the next greater
  key of the same table and a step backward the next smaller one; where there is no such row they
  return the end iterator, or -1 before the first row. The secondary indices do the same in the
  order of the secondary key and then the primary one.
\<close>

theorem tables_walk_in_order:
  fixes jx :: "'k :: linorder index_state"
  assumes "index_inv ix" "index_inv jx" "find_table code scope tab st = Some t"
  shows "(case db_lowerbound_i64 code scope tab pk st ix of (k, ix') \<Rightarrow>
      finds_least row_primary_key {s \<in> rows_of ix t. pk \<le> row_primary_key s} k ix') \<and>
    (case db_upperbound_i64 code scope tab pk st ix of (k, ix') \<Rightarrow>
      finds_least row_primary_key {s \<in> rows_of ix t. pk < row_primary_key s} k ix') \<and>
    (\<forall>k r. stands_at ix k r \<longrightarrow>
      (case db_next_i64 k ix of Inl e \<Rightarrow> False | Inr (k', p, ix') \<Rightarrow>
        finds_least row_primary_key {s \<in> rows_of ix (row_t_id r). row_primary_key r < row_primary_key s} k' ix') \<and>
      (case db_previous_i64 k st ix of Inl e \<Rightarrow> False | Inr (k', p, ix') \<Rightarrow>
        finds_greatest row_primary_key {s \<in> rows_of ix (row_t_id r). row_primary_key s < row_primary_key r} k' ix')) \<and>
    (case lowerbound_secondary code scope tab v st jx of (k, res, jx') \<Rightarrow>
      finds_least (\<lambda>s. (row_data s, row_primary_key s)) {s \<in> rows_of jx t. v \<le> row_data s} k jx') \<and>
    (case upperbound_secondary code scope tab v st jx of (k, res, jx') \<Rightarrow>
      finds_least (\<lambda>s. (row_data s, row_primary_key s)) {s \<in> rows_of jx t. v < row_data s} k jx') \<and>
    (\<forall>k r. stands_at jx k r \<longrightarrow>
      (case next_secondary k jx of Inl e \<Rightarrow> False | Inr (k', p, jx') \<Rightarrow>
        finds_least (\<lambda>s. (row_data s, row_primary_key s))
          {s \<in> rows_of jx (row_t_id r). (row_data r, row_primary_key r) < (row_data s, row_primary_key s)} k' jx') \<and>
      (case previous_secondary k st jx of Inl e \<Rightarrow> False | Inr (k', p, jx') \<Rightarrow>
        finds_greatest (\<lambda>s. (row_data s, row_primary_key s))
          {s \<in> rows_of jx (row_t_id r). (row_data s, row_primary_key s) < (row_data r, row_primary_key r)} k' jx'))"
proof -
  have prim: "{s \<in> rows_of ix t. (t, pk) \<le> primary_key_of s} = {s \<in> rows_of ix t. pk \<le> row_primary_key s}"
    "{s \<in> rows_of ix t. (t, pk) < primary_key_of s} = {s \<in> rows_of ix t. pk < row_primary_key s}"
    by (auto simp: rows_of_def primary_key_of_def)
  have sec: "{s \<in> rows_of jx t. (t, v) \<le> (row_t_id s, row_data s)} = {s \<in> rows_of jx t. v \<le> row_data s}"
    "{s \<in> rows_of jx t. (t, v) < (row_t_id s, row_data s)} = {s \<in> rows_of jx t. v < row_data s}"
    by (auto simp: rows_of_def)
  have P: "t \<le> row_t_id s" if "(t, pk) \<le> primary_key_of s \<or> (t, pk) < primary_key_of s" for s :: "bytes row_object"
    using that by (auto simp: primary_key_of_def)
  have Q: "t \<le> row_t_id s" if "(t, v) \<le> (row_t_id s, row_data s) \<or> (t, v) < (row_t_id s, row_data s)" for s
    using that by auto
  show ?thesis
    unfolding db_lowerbound_i64_def db_upperbound_i64_def db_next_i64_def db_previous_i64_def
      lowerbound_secondary_def upperbound_secondary_def next_secondary_def previous_secondary_def prim [symmetric] sec [symmetric]
    using P Q assms
    by (intro conjI allI impI primary_order.search_finds primary_order.steps_find secondary_order.search_finds secondary_order.steps_find) blast+
qed

section \<open>Examples\<close>

lemma sample_contract_inv: "contract_inv (\<lambda>_. 0) (cs_tables sample_contracts) empty_index" "counts_bounded (\<lambda>_. 0) empty_index"
proof -
  have "(\<lambda>t. rows_in (empty_index :: kv_index) t + 0) = all_rows_in sample_contracts"
    by (simp add: fun_eq_iff all_rows_in_def sample_contracts_def rows_empty_index)
  then show "contract_inv (\<lambda>_. 0) (cs_tables sample_contracts) (empty_index :: 'a index_state)"
    using sample_contracts_wf(1) by (simp add: contract_inv_def contract_wf_def rows_empty_index)
  show "counts_bounded (\<lambda>_. 0) (empty_index :: 'b index_state)"
    by (simp add: counts_bounded_def rows_empty_index)
qed

theorem kv_table_is_map_witness:
  "case db_store_i64 sample_ctx 1 5 6 1 20 [1] (cs_tables sample_contracts) empty_index of Inl e \<Rightarrow> False
   | Inr (k, st', ix') \<Rightarrow> kv_map st' ix' (1, 5, 6, 20) = Some (1, [1])"
proof -
  have "is_ok (db_store_i64 sample_ctx 1 5 6 1 20 [1] (cs_tables sample_contracts) empty_index)"
    by (simp add: call_simps)
  then show ?thesis
    using kv_table_is_map [OF sample_contract_inv, where ctx = sample_ctx and code = 1 and scope = 5 and tab = 6 and payer = 1 and pk = 20 and buffer = "[1]"] by (auto split: sum.splits)
qed

lemma sample_walk:
  "\<exists>cs. fold_r contract_step (take 3 sample_calls) sample_contracts = Inr cs \<and> find_table 1 5 6 (cs_tables cs) = Some 0"
  by (simp add: sample_calls_def call_simps)

theorem tables_walk_in_order_witness:
  "\<exists>cs. fold_r contract_step (take 3 sample_calls) sample_contracts = Inr cs \<and>
     (case db_lowerbound_i64 1 5 6 15 (cs_tables cs) (cs_keyval cs) of (k, ix') \<Rightarrow>
        finds_least row_primary_key {s \<in> rows_of (cs_keyval cs) 0. 15 \<le> row_primary_key s} k ix')"
proof -
  obtain cs where cs: "fold_r contract_step (take 3 sample_calls) sample_contracts = Inr cs" "find_table 1 5 6 (cs_tables cs) = Some 0"
    using sample_walk by blast
  have "contract_wf cs"
    using contract_run [OF sample_contracts_wf(1), of "take 3 sample_calls"] cs(1) by (simp add: sample_contracts_wf(2))
  then have "index_inv (cs_keyval cs)" "index_inv (cs_idx64 cs)"
    by (simp_all add: contract_wf_def)
  from conjunct1 [OF tables_walk_in_order [OF this cs(2), where pk = 15]] cs(1) show ?thesis
    by (intro exI conjI)
qed

end
