(* ===== verification/Spec2Isabelle.thy ===== *)
theory Spec2Isabelle
  imports Merkle Fork_Database Feature_Activation Authorization_Snapshot Authorization_Check
    Unapplied_Queue Table_Order
begin

text \<open>
  A verification development for the EOSForce chain library (\<^verbatim>\<open>src/libraries/chain\<close>; header files
  are in its directory \<^verbatim>\<open>include/eosio/chain\<close>).

  \<^bold>\<open>The program.\<close> A node keeps a tree of block states above the last irreversible block, the fork
  database, and switches to its best branch. A block state holds the state of the header machine,
  which decides who may produce which block, which blocks are irreversible and which schedule of
  producers is active, and the block with its transactions. A transaction carries signatures; the
  authorization manager decides whether they satisfy the permissions its actions need. While
  actions run, the resource limits bill CPU, network and RAM, and contracts read and write their
  tables. Protocol features change the rules from a block on. Transactions of abandoned blocks wait
  in a queue.

  \<^bold>\<open>Conventions.\<close> Functions that may throw return \<open>'a result\<close>, the left summand being the exception; an
  exception ends the database session around it, so the state reached is not part of the result. The
  fork database is not kept in such a session: \<open>advance_root_call\<close> gives the state an exception leaves.
  State is passed explicitly, in records named after the classes. Tables with a unique ordered key
  are sorted association lists. Integers on which the code does arithmetic are numbers with the
  reduction written out (\<open>add32\<close>, \<open>add64\<close>, \<open>wrap_i64\<close>), those on which it does bit operations are words. What
  belongs to other libraries (hashing, signatures, serialisation, compression, string conversion)
  is an argument: a field of \<open>fc_env\<close>, \<open>tx_env\<close>, \<open>block_env\<close>, \<open>fc_text\<close> or \<open>feature_env\<close>, or a parameter of its own.
  Reading outside a container, and following a pointer to a removed object, is the value
  \<open>undefined_behaviour\<close>.

  \<^bold>\<open>Theories.\<close>

  \<^item> \<open>Chain_Prelude\<close>: integers, exceptions, results and their rules. \<open>Tables\<close>: sorted tables, with the
    interface \<open>unique_table\<close>.

  \<^item> \<open>Names\<close> (\<^verbatim>\<open>name.hpp\<close>, \<^verbatim>\<open>name.cpp\<close>), \<open>Assets\<close> (\<^verbatim>\<open>symbol.hpp\<close>, \<^verbatim>\<open>asset.hpp\<close>, \<^verbatim>\<open>asset.cpp\<close>), \<open>Block_Time\<close>
    (\<^verbatim>\<open>block_timestamp.hpp\<close>): encodings and arithmetic; printing and parsing of names and amounts are inverse.

  \<^item> \<open>Merkle\<close> (\<^verbatim>\<open>merkle.cpp\<close>, \<^verbatim>\<open>incremental_merkle.hpp\<close>): both trees have the same root, through the
    interface \<open>merkle_accumulator\<close>.

  \<^item> \<open>Resource_Limits\<close> (\<^verbatim>\<open>resource_limits.cpp\<close>, \<^verbatim>\<open>resource_limits_private.hpp\<close>): the manager as operations on
    \<open>resource_db\<close>. \<open>Resource_Accounting\<close>: total weights in every reachable state, what billing guarantees,
    bounds on the elastic limits and averages.

  \<^item> \<open>Authority\<close> (\<^verbatim>\<open>authority.hpp\<close>), \<open>Authority_Checker\<close> (\<^verbatim>\<open>authority_checker.hpp\<close>): validation of authorities; the
    checker returns, is sound, and is complete for what is satisfied directly.

  \<^item> \<open>Producer_Schedule\<close> (\<^verbatim>\<open>producer_schedule.hpp\<close>), \<open>Block_Header\<close> (\<^verbatim>\<open>block_header.cpp\<close>,
    \<^verbatim>\<open>protocol_feature_activation.cpp\<close>), \<open>Block_Header_State\<close> (\<^verbatim>\<open>block_header_state.cpp\<close>): the header machine,
    one definition per function. \<open>Dpos\<close>: chains of headers from a genesis state (\<open>header_chain\<close>), who has
    confirmed a block that is proposed as irreversible, and what a signature commits to.
    \<open>Header_Validation\<close>: what an accepted header satisfies, which schedule becomes active and when, that
    produced headers are accepted, and when irreversible numbers do not go back. The theorems on
    irreversibility assume that no block confirms more blocks than there are before it (\<open>ranges_ok\<close>);
    what happens otherwise is shown apart.

  \<^item> \<open>Transactions\<close> (\<^verbatim>\<open>action.hpp\<close>, \<^verbatim>\<open>transaction.cpp\<close>, \<^verbatim>\<open>transaction_metadata.cpp\<close>): digests, key recovery, packing.
    \<open>Blocks\<close> (\<^verbatim>\<open>block.cpp\<close>, \<^verbatim>\<open>block_state.cpp\<close>): a signed block is accepted and leads to the same state.

  \<^item> \<open>Fork_Database\<close> (\<^verbatim>\<open>fork_database.cpp\<close>): the container, branches, pruning and the file; an invariant of
    all databases reached by calls that return or throw, but for one call of \<open>advance_root\<close>, whose
    exception is shown to leave blocks without a predecessor; the results of the walks along branches.

  \<^item> \<open>Protocol_Features\<close> (\<^verbatim>\<open>protocol_feature_manager.cpp\<close>), \<open>Whitelisted_Intrinsics\<close>
    (\<^verbatim>\<open>whitelisted_intrinsics.cpp\<close>, interface \<open>name_set\<close>), \<open>Feature_Activation\<close> (the part of
    \<^verbatim>\<open>controller.cpp\<close> that activates features): the manager is a log of activations, the whitelist a set,
    pre-activated features are activated by the next block.

  \<^item> \<open>Authorization\<close>, \<open>Authorization_Snapshot\<close>, \<open>Authorization_Check\<close> (\<^verbatim>\<open>authorization_manager.cpp\<close>,
    \<^verbatim>\<open>permission_object.hpp\<close>): permission trees, their snapshot, and the check of a transaction
    against a specification of what each action needs (\<open>action_permitted\<close>).

  \<^item> \<open>Unapplied_Queue\<close> (\<^verbatim>\<open>unapplied_transaction_queue.hpp\<close>): the queue is a pool of transactions under
    every operation that changes it.

  \<^item> \<open>Contract_Tables\<close> (the tables of \<^verbatim>\<open>apply_context.hpp\<close> and \<^verbatim>\<open>apply_context.cpp\<close>): the iterator cache, the
    primary table and the secondary indices. \<open>Table_Safety\<close>, \<open>Table_Operations\<close>: invariants and what each
    operation keeps, in a calculus of postconditions. \<open>Contract_Calls\<close>: sequences of calls on all
    indices; live pointers, exact counts, exact RAM billing. \<open>Table_Map\<close>: the primary table as a map.
    \<open>Table_Order\<close>: searches and steps find the neighbouring rows, through the interface \<open>row_order\<close>, with the
    primary and the secondary order as instances.

  \<^bold>\<open>Loops, fuel and bounds.\<close> Loops over containers are structural or have a measure. The walks of the
  fork database along parent links are partial functions, \<open>None\<close> standing for a walk that does not
  end; they are proved to return on every reachable database. The walk up the parents of a
  permission (\<open>satisfies_loop\<close>) has as fuel the number of permissions, which is enough because a parent
  has a smaller identifier than its child; \<open>fuel_exhausted\<close> is proved not to occur on reachable
  databases. The recursion of the authority checker is bounded by its depth limit, as in the code.
  The theorems on contract tables assume fewer than 2^32 rows and calls together, since the counts
  of rows are 32-bit numbers.

  \<^bold>\<open>Not modelled.\<close>

  \<^item> The rest of the controller, of \<^verbatim>\<open>apply_context\<close> and of the transaction context: they run contract
    code, follow the wall clock and work inside the undo sessions of the database.

  \<^item> The native system contract with its fees and on-chain configuration (only the parameters the
    resource limits read are modelled).

  \<^item> WebAssembly engines, validation and injection; the ABI serializer; the block log and the format
    of snapshot files; platform timers and threads.

  \<^item> The floating-point secondary indices, whose order is that of the softfloat library.

  \<^item> The plugins, the programs, and the libraries outside \<^verbatim>\<open>src/libraries/chain\<close>.
\<close>

end
